(* ===== verification/Prelude.thy ===== *)
theory Prelude
  imports Main "HOL-Library.Word"
begin

text \<open>
  Shared vocabulary of the development: the C integer types the library uses, as the
  reductions a value undergoes when it is stored in one (two's complement, 32 and 64 bits),
  C's truncating division, and the lemmas on lists and on masked machine words that several
  components use.

  Conventions.  An address is a natural number.  A C \<open>int\<close> (32 bits, signed) is an
  HOL integer; wherever the code adds or multiplies such values the model applies
  \<open>i32\<close> to the result.  C leaves signed overflow undefined; \<open>i32\<close> is the value
  the supported compilers produce, and the theorems that speak about a result on the
  guarded range carry the range as a hypothesis.  A \<open>uint64\<close> is an HOL integer or
  natural number reduced by \<open>u64\<close>; the \<open>uint32\<close> positions of the lock-free
  rings are \<open>32 word\<close>.
\<close>

unbundle bit_operations_syntax

named_theorems cint_simps "evaluation of the C integer reductions"
named_theorems inv_simps "unfolding of the invariants' components"

type_synonym addr = nat
type_synonym w32 = "32 word"

section \<open>C integers\<close>

definition u32 :: "int \<Rightarrow> int" where
  "u32 x = x mod 2 ^ 32"

definition u64 :: "int \<Rightarrow> int" where
  "u64 x = x mod 2 ^ 64"

definition i32 :: "int \<Rightarrow> int" where
  "i32 x = (x + 2 ^ 31) mod 2 ^ 32 - 2 ^ 31"

definition i64 :: "int \<Rightarrow> int" where
  "i64 x = (x + 2 ^ 63) mod 2 ^ 64 - 2 ^ 63"

definition c_div :: "int \<Rightarrow> int \<Rightarrow> int" where
  "c_div a b = sgn a * sgn b * (\<bar>a\<bar> div \<bar>b\<bar>)"

definition sub_u32 :: "nat \<Rightarrow> nat \<Rightarrow> nat" where
  "sub_u32 a b = nat (u32 (int a - int b))"

definition int_max :: int where
  "int_max = 2147483647"

lemma u32_id [simp]: "0 \<le> x \<Longrightarrow> x < 4294967296 \<Longrightarrow> u32 x = x"
  by (simp add: u32_def)

lemma u64_id [simp]: "0 \<le> x \<Longrightarrow> x < 18446744073709551616 \<Longrightarrow> u64 x = x"
  by (simp add: u64_def)

lemma i32_id [simp]: "- 2147483648 \<le> x \<Longrightarrow> x \<le> 2147483647 \<Longrightarrow> i32 x = x"
  by (simp add: i32_def)

lemma i64_id [simp]:
  "- 9223372036854775808 \<le> x \<Longrightarrow> x \<le> 9223372036854775807 \<Longrightarrow> i64 x = x"
  by (simp add: i64_def)

lemma u32_range [simp]: "0 \<le> u32 x" "u32 x < 4294967296"
  by (simp_all add: u32_def)

lemma u64_range [simp]: "0 \<le> u64 x" "u64 x < 18446744073709551616"
  by (simp_all add: u64_def)

lemma i32_range [simp]: "- 2147483648 \<le> i32 x" "i32 x \<le> 2147483647"
proof -
  have "0 \<le> (x + 2 ^ 31) mod 2 ^ 32" "(x + 2 ^ 31) mod 2 ^ 32 < 4294967296"
    by simp_all
  then show "- 2147483648 \<le> i32 x" "i32 x \<le> 2147483647"
    by (simp_all add: i32_def)
qed

lemma u64_neg: "x < 0 \<Longrightarrow> - 18446744073709551616 \<le> x \<Longrightarrow> u64 x = x + 18446744073709551616"
proof -
  assume a: "x < 0" "- 18446744073709551616 \<le> x"
  have "x mod 18446744073709551616 = (x + 18446744073709551616) mod 18446744073709551616"
    by simp
  also have "\<dots> = x + 18446744073709551616"
    using a by (intro mod_pos_pos_trivial) simp_all
  finally show ?thesis by (simp add: u64_def)
qed

lemma sub_u32_le [simp]: "b \<le> a \<Longrightarrow> a < 4294967296 \<Longrightarrow> sub_u32 a b = a - b"
  by (simp add: sub_u32_def)

lemma c_div_pos [simp]: "0 \<le> a \<Longrightarrow> 0 < b \<Longrightarrow> c_div a b = a div b"
  by (cases "a = 0") (simp_all add: c_div_def)

lemma c_div_neg: "a < 0 \<Longrightarrow> 0 < b \<Longrightarrow> c_div a b = - ((- a) div b)"
  by (simp add: c_div_def)

lemma c_div_abs_le: "0 < b \<Longrightarrow> \<bar>c_div a b\<bar> * b \<le> \<bar>a\<bar>"
proof -
  assume b: "0 < b"
  have q: "\<bar>c_div a b\<bar> = \<bar>a\<bar> div b"
    using b by (cases "a = 0") (auto simp: c_div_def abs_mult pos_imp_zdiv_nonneg_iff)
  show ?thesis
    unfolding q by (metis add.commute b div_mult_mod_eq le_add_same_cancel1 mult.commute pos_mod_sign)
qed

lemmas [cint_simps] = u32_def u64_def i32_def i64_def

section \<open>Lists\<close>

lemma set_update_subset: "x \<in> set (xs[i := y]) \<Longrightarrow> x = y \<or> x \<in> set xs"
  using set_update_subset_insert by (metis insert_iff subsetD)

lemma nth_take_drop_shift:
  "i < n \<Longrightarrow> k + n \<le> length xs \<Longrightarrow> take n (drop k xs) ! i = xs ! (k + i)"
  by simp

lemma distinct_remove1_set: "distinct xs \<Longrightarrow> set (remove1 x xs) = set xs - {x}"
  by (rule set_remove1_eq)

lemma length_remove1_mem: "x \<in> set xs \<Longrightarrow> length (remove1 x xs) = length xs - 1"
  by (simp add: length_remove1)

lemma length_filter_mono: "(\<And>x. P x \<Longrightarrow> Q x) \<Longrightarrow> length (filter P xs) \<le> length (filter Q xs)"
  by (induction xs) (auto simp: le_SucI)

lemma remove1_hd: "xs \<noteq> [] \<Longrightarrow> remove1 (hd xs) xs = tl xs"
  by (cases xs) simp_all

lemma map_upt_shift: "map (\<lambda>i. f (Suc i)) [0..<n] = map f [1..<Suc n]"
  by (induction n) simp_all

lemma map_upt_Cons: "0 < n \<Longrightarrow> map f [0..<n] = f 0 # map (\<lambda>i. f (Suc i)) [0..<n - 1]"
proof -
  assume "0 < n"
  then have "[0..<n] = 0 # [1..<n]" by (simp add: upt_rec)
  moreover have "map f [1..<n] = map (\<lambda>i. f (Suc i)) [0..<n - 1]"
    using \<open>0 < n\<close> map_upt_shift [of f "n - 1"] by simp
  ultimately show ?thesis by simp
qed

section \<open>Masked positions of a power-of-two ring\<close>

text \<open>
  The rings index their slots by \<open>pos AND (cap - 1)\<close> on 32-bit positions that run
  freely; these lemmas read that index as \<open>pos mod cap\<close> and show that a window of
  at most \<open>cap\<close> consecutive positions names distinct slots, also across the wrap of
  the position itself.
\<close>

lemma unat_and_mask:
  fixes w :: w32
  assumes "k \<le> 31"
  shows "unat (w AND (2 ^ k - 1)) = unat w mod 2 ^ k"
proof -
  have "w AND (2 ^ k - 1) = take_bit k w"
    by (simp add: take_bit_eq_mask mask_eq_exp_minus_1)
  then have "unat (w AND (2 ^ k - 1)) = take_bit k (unat w)"
    using assms by (simp add: unsigned_take_bit_eq)
  then show ?thesis by (simp add: take_bit_eq_mod)
qed

lemma unat_lt_2p32: "unat (w :: w32) < 4294967296"
  using unsigned_less [of w] by simp

lemma unat_uminus:
  fixes w :: w32
  assumes "w \<noteq> 0"
  shows "unat (- w) = 4294967296 - unat w"
proof -
  have "uint w \<noteq> 0" using assms by (simp only: uint_0_iff) simp
  with uint_nonnegative [of w] have pos: "0 < uint w" by linarith
  have lt: "uint w < 4294967296"
    using uint_lt2p [of w] by simp
  have "uint (- w) = - uint w mod 4294967296"
    by (subst uint_word_ariths(4)) simp
  also have "\<dots> = (4294967296 - uint w) mod 4294967296" by simp
  also have "\<dots> = 4294967296 - uint w" using pos lt by (intro mod_pos_pos_trivial) linarith+
  finally have "uint (- w) = 4294967296 - uint w" .
  then show ?thesis using pos lt by (simp only: unat_eq_nat_uint)
qed

lemma unat_pow:
  assumes "k \<le> 31"
  shows "unat (2 ^ k :: w32) = 2 ^ k"
proof -
  have "(2::nat) ^ k < 2 ^ 32" using assms by (intro power_strict_increasing) simp_all
  moreover have "unat (of_nat (2 ^ k) :: w32) = 2 ^ k mod 2 ^ 32"
    by (simp only: unat_of_nat) simp
  ultimately show ?thesis by simp
qed

lemma unat_plus_mod:
  fixes h :: w32
  assumes "k \<le> 31"
  shows "unat (h + of_nat i) mod 2 ^ k = (unat h + i) mod 2 ^ k"
proof -
  have dvd: "(2::nat) ^ k dvd 2 ^ 32"
    using assms by (intro le_imp_power_dvd) simp
  have "unat (h + of_nat i) = (unat h + i) mod 2 ^ 32"
    by (simp add: unat_word_ariths unat_of_nat mod_simps)
  then show ?thesis
    using dvd by (simp add: mod_mod_cancel)
qed

lemma slot_index:
  fixes h :: w32
  assumes "k \<le> 31"
  shows "unat ((h + of_nat i) AND (2 ^ k - 1)) = (unat h + i) mod 2 ^ k"
  using assms by (simp only: unat_and_mask unat_plus_mod)

lemma slot_inj:
  fixes i j u c :: nat
  assumes "i < c" "j < c" "(u + i) mod c = (u + j) mod c"
  shows "i = j"
proof (rule ccontr)
  assume "i \<noteq> j"
  have *: False if "i' < j'" "j' < c" "(u + i') mod c = (u + j') mod c" for i' j'
  proof -
    have "c dvd (u + j') - (u + i')"
      using that(1,3) by (metis add_le_cancel_left less_imp_le mod_eq_dvd_iff_nat)
    then have "c dvd j' - i'" by simp
    moreover have "0 < j' - i'" "j' - i' < c" using that by simp_all
    ultimately show False by (simp add: nat_dvd_not_less)
  qed
  show False
  proof (cases "i < j")
    case True
    then show ?thesis using * [of i j] assms by simp
  next
    case False
    then show ?thesis using * [of j i] assms \<open>i \<noteq> j\<close> by simp
  qed
qed

lemma slot_window_covers:
  fixes u c p :: nat
  assumes "p < c"
  shows "\<exists>i<c. (u + i) mod c = p"
proof (cases "u mod c \<le> p")
  case True
  have "(u + (p - u mod c)) mod c = p"
  proof -
    have "(u + (p - u mod c)) mod c = (u mod c + (p - u mod c)) mod c"
      by (simp add: mod_add_left_eq)
    then show ?thesis using True assms by simp
  qed
  moreover have "p - u mod c < c" using assms by simp
  ultimately show ?thesis by blast
next
  case False
  let ?i = "c - u mod c + p"
  have "u mod c < c" using assms by simp
  have "(u + ?i) mod c = (u mod c + ?i) mod c" by (simp add: mod_add_left_eq)
  also have "u mod c + ?i = c + p" using \<open>u mod c < c\<close> by simp
  also have "(c + p) mod c = p" using assms by simp
  finally have "(u + ?i) mod c = p" .
  moreover have "?i < c" using False \<open>u mod c < c\<close> by simp
  ultimately show ?thesis by blast
qed

end
