(* ===== verification/Atomics.thy ===== *)
theory Atomics
  imports Prelude
begin

text \<open>
  The atomic cells of \<open>atomics.h\<close>, first as the branch for GCC and Clang has them, then as the
  branch for Windows builds them from its intrinsics.  Each operation of that header is one indivisible
  step on one cell, so its model is the function from the cell's old value to what the
  caller gets back and the cell's new value.  A compare-and-swap takes \<open>expected\<close> by
  address and writes the value it found there when it fails: the model returns it as the
  third component.  Memory orders do not appear: the concurrent models built on these cells
  interleave the steps sequentially consistently.
\<close>

section \<open>Load and store\<close>

text \<open>The variants without ordering act in the same way on one cell.\<close>

definition atomic_get_inline :: "int \<Rightarrow> int" where
  "atomic_get_inline s = s"

definition atomic_set_inline :: "int \<Rightarrow> int \<Rightarrow> int" where
  "atomic_set_inline s val = val"

definition atomic_u32_get_inline :: "w32 \<Rightarrow> w32" where
  "atomic_u32_get_inline s = s"

definition atomic_u32_set_inline :: "w32 \<Rightarrow> w32 \<Rightarrow> w32" where
  "atomic_u32_set_inline s val = val"

definition atomic_u64_get_inline :: "64 word \<Rightarrow> 64 word" where
  "atomic_u64_get_inline s = s"

definition atomic_u64_set_inline :: "64 word \<Rightarrow> 64 word \<Rightarrow> 64 word" where
  "atomic_u64_set_inline s val = val"

section \<open>Compare and swap\<close>

definition atomic_cas_inline :: "int \<Rightarrow> int \<Rightarrow> int \<Rightarrow> bool \<times> int \<times> int" where
  "atomic_cas_inline s expected desired =
     (if s = expected then (True, desired, expected) else (False, s, s))"

definition atomic_u32_cas_inline :: "w32 \<Rightarrow> w32 \<Rightarrow> w32 \<Rightarrow> bool \<times> w32 \<times> w32" where
  "atomic_u32_cas_inline s expected desired =
     (if s = expected then (True, desired, expected) else (False, s, s))"

definition atomic_cas_ptr_inline :: "addr \<Rightarrow> addr \<Rightarrow> addr \<Rightarrow> bool \<times> addr \<times> addr" where
  "atomic_cas_ptr_inline target expected desired =
     (if target = expected then (True, desired, expected) else (False, target, target))"

definition atomic_cas64_inline :: "int \<Rightarrow> int \<Rightarrow> int \<Rightarrow> bool \<times> int \<times> int" where
  "atomic_cas64_inline s expected desired =
     (if s = expected then (True, desired, expected) else (False, s, s))"

definition atomic_u64_cas_inline :: "64 word \<Rightarrow> 64 word \<Rightarrow> 64 word \<Rightarrow> bool \<times> 64 word \<times> 64 word" where
  "atomic_u64_cas_inline s expected desired =
     (if s = expected then (True, desired, expected) else (False, s, s))"

section \<open>Fetch and add, fetch and subtract: the old value, and the cell after\<close>

definition atomic_add_inline :: "int \<Rightarrow> int \<Rightarrow> int \<times> int" where
  "atomic_add_inline s val = (s, i32 (s + val))"

definition atomic_sub_inline :: "int \<Rightarrow> int \<Rightarrow> int \<times> int" where
  "atomic_sub_inline s val = (s, i32 (s - val))"

definition atomic_u32_add_inline :: "w32 \<Rightarrow> w32 \<Rightarrow> w32 \<times> w32" where
  "atomic_u32_add_inline s val = (s, s + val)"

definition atomic_add64_inline :: "int \<Rightarrow> int \<Rightarrow> int \<times> int" where
  "atomic_add64_inline s val = (s, i64 (s + val))"

definition atomic_sub64_inline :: "int \<Rightarrow> int \<Rightarrow> int \<times> int" where
  "atomic_sub64_inline s val = (s, i64 (s - val))"

definition atomic_u64_add_inline :: "64 word \<Rightarrow> 64 word \<Rightarrow> 64 word \<times> 64 word" where
  "atomic_u64_add_inline s val = (s, s + val)"

section \<open>Single-writer add: the new value\<close>

definition atomic_add_single_writer_inline :: "int \<Rightarrow> int \<Rightarrow> int" where
  "atomic_add_single_writer_inline s val = i32 (s + val)"

definition atomic_add64_single_writer_inline :: "int \<Rightarrow> int \<Rightarrow> int" where
  "atomic_add64_single_writer_inline s val = i64 (s + val)"

section \<open>What a compare-and-swap promises\<close>

text \<open>
  The contract every retry loop of the library relies on: the swap happens exactly when the
  cell holds what the caller expected, a failed one changes nothing and reports the value
  it found.
\<close>

locale cas_cell =
  fixes cas :: "'v \<Rightarrow> 'v \<Rightarrow> 'v \<Rightarrow> bool \<times> 'v \<times> 'v"
  assumes cas_hit: "cas s s d = (True, d, s)"
    and cas_miss: "s \<noteq> e \<Longrightarrow> cas s e d = (False, s, s)"
begin

lemma cas_ok_iff: "fst (cas s e d) \<longleftrightarrow> s = e"
  by (cases "s = e") (simp_all add: cas_hit cas_miss)

lemma cas_retry: "\<not> fst (cas s e d) \<Longrightarrow> fst (cas s (snd (snd (cas s e d))) d)"
  by (cases "s = e") (simp_all add: cas_hit cas_miss)

lemma cas_cell_after: "fst (snd (cas s e d)) = (if s = e then d else s)"
  by (cases "s = e") (simp_all add: cas_hit cas_miss)

end

interpretation int_cell: cas_cell atomic_cas_inline
  by unfold_locales (simp_all add: atomic_cas_inline_def)

interpretation u32_cell: cas_cell atomic_u32_cas_inline
  by unfold_locales (simp_all add: atomic_u32_cas_inline_def)

interpretation int64_cell: cas_cell atomic_cas64_inline
  by unfold_locales (simp_all add: atomic_cas64_inline_def)

interpretation u64_cell: cas_cell atomic_u64_cas_inline
  by unfold_locales (simp_all add: atomic_u64_cas_inline_def)

interpretation ptr_cell: cas_cell atomic_cas_ptr_inline
  by unfold_locales (simp_all add: atomic_cas_ptr_inline_def)

lemmas cas_hits [simp] = int_cell.cas_hit u32_cell.cas_hit ptr_cell.cas_hit

section \<open>The Windows branch\<close>

text \<open>
  The intrinsics work on \<open>LONG\<close> and \<open>LONG64\<close>, signed cells, also where the operation is unsigned:
  the header converts its arguments and results.  The intrinsics belong to the compiler; they are
  written out here as its documentation describes them.
\<close>

definition InterlockedExchangeAdd :: "int \<Rightarrow> int \<Rightarrow> int \<times> int" where
  "InterlockedExchangeAdd s v = (s, i32 (s + v))"

definition InterlockedExchangeAdd64 :: "int \<Rightarrow> int \<Rightarrow> int \<times> int" where
  "InterlockedExchangeAdd64 s v = (s, i64 (s + v))"

definition InterlockedCompareExchange :: "int \<Rightarrow> int \<Rightarrow> int \<Rightarrow> int \<times> int" where
  "InterlockedCompareExchange s desired expected = (s, if s = expected then desired else s)"

definition win_atomic_u32_get :: "int \<Rightarrow> w32" where
  "win_atomic_u32_get s = word_of_int s"

definition win_atomic_u32_set :: "int \<Rightarrow> w32 \<Rightarrow> int" where
  "win_atomic_u32_set s val = i32 (uint val)"

definition win_atomic_u64_get :: "int \<Rightarrow> 64 word" where
  "win_atomic_u64_get s = word_of_int s"

definition win_atomic_u64_set :: "int \<Rightarrow> 64 word \<Rightarrow> int" where
  "win_atomic_u64_set s val = i64 (uint val)"

definition win_atomic_add :: "int \<Rightarrow> int \<Rightarrow> int \<times> int" where
  "win_atomic_add s val = InterlockedExchangeAdd s val"

definition win_atomic_sub :: "int \<Rightarrow> int \<Rightarrow> int \<times> int" where
  "win_atomic_sub s val = InterlockedExchangeAdd s (i32 (- val))"

definition win_atomic_cas :: "int \<Rightarrow> int \<Rightarrow> int \<Rightarrow> bool \<times> int \<times> int" where
  "win_atomic_cas s expected desired =
    (let (old, s') = InterlockedCompareExchange s desired expected
     in if old = expected then (True, s', expected) else (False, s', old))"

definition win_atomic_u32_add :: "int \<Rightarrow> w32 \<Rightarrow> w32 \<times> int" where
  "win_atomic_u32_add s val = (let (old, s') = InterlockedExchangeAdd s (i32 (uint val)) in (word_of_int old, s'))"

definition win_atomic_u32_cas :: "int \<Rightarrow> w32 \<Rightarrow> w32 \<Rightarrow> bool \<times> int \<times> w32" where
  "win_atomic_u32_cas s expected desired =
    (let (old, s') = InterlockedCompareExchange s (i32 (uint desired)) (i32 (uint expected))
     in if word_of_int old = expected then (True, s', expected) else (False, s', word_of_int old))"

definition win_atomic_add64 :: "int \<Rightarrow> int \<Rightarrow> int \<times> int" where
  "win_atomic_add64 s val = InterlockedExchangeAdd64 s val"

definition win_atomic_sub64 :: "int \<Rightarrow> int \<Rightarrow> int \<times> int" where
  "win_atomic_sub64 s val = InterlockedExchangeAdd64 s (i64 (- val))"

definition win_atomic_cas64 :: "int \<Rightarrow> int \<Rightarrow> int \<Rightarrow> bool \<times> int \<times> int" where
  "win_atomic_cas64 s expected desired =
    (let (old, s') = InterlockedCompareExchange s desired expected
     in if old = expected then (True, s', expected) else (False, s', old))"

definition win_atomic_u64_add :: "int \<Rightarrow> 64 word \<Rightarrow> 64 word \<times> int" where
  "win_atomic_u64_add s val = (let (old, s') = InterlockedExchangeAdd64 s (i64 (uint val)) in (word_of_int old, s'))"

definition win_atomic_u64_cas :: "int \<Rightarrow> 64 word \<Rightarrow> 64 word \<Rightarrow> bool \<times> int \<times> 64 word" where
  "win_atomic_u64_cas s expected desired =
    (let (old, s') = InterlockedCompareExchange s (i64 (uint desired)) (i64 (uint expected))
     in if word_of_int old = expected then (True, s', expected) else (False, s', word_of_int old))"

definition win_atomic_cas_ptr :: "addr \<Rightarrow> addr \<Rightarrow> addr \<Rightarrow> bool \<times> addr \<times> addr" where
  "win_atomic_cas_ptr target expected desired =
    (let old = target; s' = (if old = expected then desired else target)
     in if old = expected then (True, s', expected) else (False, s', old))"

lemma i32_sint: "i32 x = sint (word_of_int x :: w32)"
  by (simp add: i32_def signed_take_bit_eq_take_bit_shift take_bit_eq_mod sint_sbintrunc')

lemma i64_sint: "i64 x = sint (word_of_int x :: 64 word)"
  by (simp add: i64_def signed_take_bit_eq_take_bit_shift take_bit_eq_mod sint_sbintrunc')

lemma i32_off_neg: "i32 (s + i32 (- v)) = i32 (s - v)"
  by (simp add: i32_sint)

lemma i64_off_neg: "i64 (s + i64 (- v)) = i64 (s - v)"
  by (simp add: i64_sint)

lemma sint_eq_word: "sint s = i32 (uint e) \<longleftrightarrow> s = e" for s e :: w32
  by (auto simp: i32_sint intro: signed_word_eqI)

lemma sint_eq_word64: "sint s = i64 (uint e) \<longleftrightarrow> s = e" for s e :: "64 word"
  by (auto simp: i64_sint intro: signed_word_eqI)

text \<open>C36: the two branches of the header agree: on every cell each Windows operation, with its
  conversions between signed and unsigned, does to the cell what the operation of the other branch does and
  returns the same, at the edges of the types too; an unsigned cell is read through its signed view.\<close>

theorem atomics_branches_agree:
  fixes u e d :: w32 and u' e' d' :: "64 word"
  shows "win_atomic_add s v = atomic_add_inline s v \<and> win_atomic_sub s v = atomic_sub_inline s v \<and>
    win_atomic_cas s x y = atomic_cas_inline s x y \<and>
    win_atomic_add64 s v = atomic_add64_inline s v \<and> win_atomic_sub64 s v = atomic_sub64_inline s v \<and>
    win_atomic_cas64 s x y = atomic_cas64_inline s x y \<and> win_atomic_cas_ptr p q r = atomic_cas_ptr_inline p q r \<and>
    win_atomic_u32_get (sint u) = atomic_u32_get_inline u \<and> win_atomic_u32_set (sint u) e = sint (atomic_u32_set_inline u e) \<and>
    win_atomic_u64_get (sint u') = atomic_u64_get_inline u' \<and> win_atomic_u64_set (sint u') e' = sint (atomic_u64_set_inline u' e') \<and>
    win_atomic_u32_add (sint u) e = map_prod id sint (atomic_u32_add_inline u e) \<and>
    win_atomic_u32_cas (sint u) e d = map_prod id (map_prod sint id) (atomic_u32_cas_inline u e d) \<and>
    win_atomic_u64_add (sint u') e' = map_prod id sint (atomic_u64_add_inline u' e') \<and>
    win_atomic_u64_cas (sint u') e' d' = map_prod id (map_prod sint id) (atomic_u64_cas_inline u' e' d')"
proof (intro conjI)
  show "win_atomic_add s v = atomic_add_inline s v" "win_atomic_add64 s v = atomic_add64_inline s v"
    by (simp_all add: win_atomic_add_def win_atomic_add64_def InterlockedExchangeAdd_def InterlockedExchangeAdd64_def
        atomic_add_inline_def atomic_add64_inline_def)
  show "win_atomic_sub s v = atomic_sub_inline s v" "win_atomic_sub64 s v = atomic_sub64_inline s v"
    by (simp_all add: win_atomic_sub_def win_atomic_sub64_def InterlockedExchangeAdd_def InterlockedExchangeAdd64_def
        atomic_sub_inline_def atomic_sub64_inline_def i32_off_neg i64_off_neg)
  show "win_atomic_cas s x y = atomic_cas_inline s x y" "win_atomic_cas64 s x y = atomic_cas64_inline s x y"
    "win_atomic_cas_ptr p q r = atomic_cas_ptr_inline p q r"
    by (simp_all add: win_atomic_cas_def win_atomic_cas64_def win_atomic_cas_ptr_def InterlockedCompareExchange_def
        atomic_cas_inline_def atomic_cas64_inline_def atomic_cas_ptr_inline_def)
  show "win_atomic_u32_get (sint u) = atomic_u32_get_inline u" "win_atomic_u64_get (sint u') = atomic_u64_get_inline u'"
    "win_atomic_u32_set (sint u) e = sint (atomic_u32_set_inline u e)" "win_atomic_u64_set (sint u') e' = sint (atomic_u64_set_inline u' e')"
    by (simp_all add: win_atomic_u32_get_def win_atomic_u64_get_def win_atomic_u32_set_def win_atomic_u64_set_def
        atomic_u32_get_inline_def atomic_u64_get_inline_def atomic_u32_set_inline_def atomic_u64_set_inline_def i32_sint i64_sint)
  show "win_atomic_u32_add (sint u) e = map_prod id sint (atomic_u32_add_inline u e)"
    by (simp add: win_atomic_u32_add_def InterlockedExchangeAdd_def atomic_u32_add_inline_def i32_sint)
  show "win_atomic_u64_add (sint u') e' = map_prod id sint (atomic_u64_add_inline u' e')"
    by (simp add: win_atomic_u64_add_def InterlockedExchangeAdd64_def atomic_u64_add_inline_def i64_sint)
  show "win_atomic_u32_cas (sint u) e d = map_prod id (map_prod sint id) (atomic_u32_cas_inline u e d)"
    by (simp add: win_atomic_u32_cas_def InterlockedCompareExchange_def atomic_u32_cas_inline_def sint_eq_word) (simp add: i32_sint)
  show "win_atomic_u64_cas (sint u') e' d' = map_prod id (map_prod sint id) (atomic_u64_cas_inline u' e' d')"
    by (simp add: win_atomic_u64_cas_def InterlockedCompareExchange_def atomic_u64_cas_inline_def sint_eq_word64) (simp add: i64_sint)
qed

end
