(* ===== verification/Bounded_Queue.thy ===== *)
theory Bounded_Queue
  imports Main
begin

text \<open>
  The interface of a bounded first-in-first-out queue, as the two rings of the library
  provide it and their users rely on it.  An operation returns \<open>None\<close> where the code
  would spin for ever with no other thread running.
\<close>

datatype 'a queue_op = Push 'a | Pop

datatype 'a queue_out = Pushed bool | Popped "'a option"

fun queue_run ::
  "('q \<Rightarrow> 'a \<Rightarrow> (bool \<times> 'q) option) \<Rightarrow> ('q \<Rightarrow> ('a option \<times> 'q) option) \<Rightarrow>
   'a queue_op list \<Rightarrow> 'q \<Rightarrow> ('a queue_out list \<times> 'q) option" where
  "queue_run push pop [] q = Some ([], q)"
| "queue_run push pop (Push x # ops) q =
     (case push q x of None \<Rightarrow> None
      | Some (ok, q') \<Rightarrow> map_option (\<lambda>(os, q''). (Pushed ok # os, q'')) (queue_run push pop ops q'))"
| "queue_run push pop (Pop # ops) q =
     (case pop q of None \<Rightarrow> None
      | Some (r, q') \<Rightarrow> map_option (\<lambda>(os, q''). (Popped r # os, q'')) (queue_run push pop ops q'))"

text \<open>The abstract queue: a list that holds at most \<open>n\<close> elements.\<close>

fun fifo_run :: "nat \<Rightarrow> 'a queue_op list \<Rightarrow> 'a list \<Rightarrow> 'a queue_out list \<times> 'a list" where
  "fifo_run n [] xs = ([], xs)"
| "fifo_run n (Push x # ops) xs =
     (let ok = (length xs < n); (os, ys) = fifo_run n ops (if ok then xs @ [x] else xs)
      in (Pushed ok # os, ys))"
| "fifo_run n (Pop # ops) xs =
     (case xs of
        [] \<Rightarrow> (let (os, ys) = fifo_run n ops [] in (Popped None # os, ys))
      | x # xs' \<Rightarrow> (let (os, ys) = fifo_run n ops xs' in (Popped (Some x) # os, ys)))"

locale bounded_fifo =
  fixes push :: "'q \<Rightarrow> 'a \<Rightarrow> (bool \<times> 'q) option"
    and pop :: "'q \<Rightarrow> ('a option \<times> 'q) option"
    and contents :: "'q \<Rightarrow> 'a list"
    and bound :: "'q \<Rightarrow> nat"
    and valid :: "'q \<Rightarrow> bool"
  assumes within: "valid q \<Longrightarrow> length (contents q) \<le> bound q"
    and push_ok: "valid q \<Longrightarrow> length (contents q) < bound q \<Longrightarrow>
      \<exists>q'. push q x = Some (True, q') \<and> valid q' \<and> bound q' = bound q \<and>
           contents q' = contents q @ [x]"
    and push_full: "valid q \<Longrightarrow> length (contents q) = bound q \<Longrightarrow> push q x = Some (False, q)"
    and pop_ok: "valid q \<Longrightarrow> contents q = x # xs \<Longrightarrow>
      \<exists>q'. pop q = Some (Some x, q') \<and> valid q' \<and> bound q' = bound q \<and> contents q' = xs"
    and pop_empty: "valid q \<Longrightarrow> contents q = [] \<Longrightarrow> pop q = Some (None, q)"
begin

lemma run_fifo:
  "valid q \<Longrightarrow> \<exists>q'. queue_run push pop ops q = Some (fst (fifo_run (bound q) ops (contents q)), q') \<and>
     valid q' \<and> bound q' = bound q \<and> contents q' = snd (fifo_run (bound q) ops (contents q))"
proof (induction ops arbitrary: q)
  case Nil
  then show ?case by simp
next
  case (Cons op ops)
  show ?case
  proof (cases op)
    case (Push x)
    show ?thesis
    proof (cases "length (contents q) < bound q")
      case True
      with push_ok [OF Cons.prems True, of x] Cons.IH Push show ?thesis
        by (fastforce simp: Let_def split: prod.splits)
    next
      case False
      with within [OF Cons.prems] have "push q x = Some (False, q)"
        by (intro push_full Cons.prems) simp
      with False Cons.IH [OF Cons.prems] Push show ?thesis
        by (auto simp: Let_def split: prod.splits)
    qed
  next
    case Pop
    show ?thesis
    proof (cases "contents q")
      case Nil
      with pop_empty [OF Cons.prems Nil] Cons.IH [OF Cons.prems] Pop show ?thesis
        by (auto simp: Let_def split: prod.splits)
    next
      case (Cons x xs)
      with pop_ok [OF Cons.prems Cons] Cons.IH Pop show ?thesis
        by (fastforce simp: Let_def split: prod.splits)
    qed
  qed
qed

end

end
