(* ===== verification/Ring_Queue.thy ===== *)
theory Ring_Queue
  imports Atomics Bounded_Queue
begin

text \<open>
  \<open>ring_queue.c\<close>: the bounded ring with per-slot sequence numbers, its single-thread
  operations (\<open>push_\<close>, \<open>pop_\<close>, \<open>peek_\<close>: the names lose their last
  underscore here) and its multi-producer/multi-consumer ones (\<open>push_mp_\<close>,
  \<open>pop_mc_\<close>), run here by one thread at a time.  The record is
  the C struct without its padding; a NULL array is \<open>None\<close>.  The caller's item buffer
  is a list with one element per slot, all calls using one item size.  A loop that would
  spin for ever with no other thread running is \<open>None\<close>
  (\<open>partial_function (option)\<close>).
\<close>

record RingQueue =
  rq_tail :: w32
  rq_head :: w32
  rq_capacity :: int
  rq_mask :: int
  rq_seqno :: "w32 list option"
  rq_peek_guard :: "int list option"

definition rq_slot :: "RingQueue \<Rightarrow> w32 \<Rightarrow> nat" where
  "rq_slot r pos = unat (pos AND word_of_int (rq_mask r))"

definition rq_seq :: "RingQueue \<Rightarrow> nat \<Rightarrow> w32" where
  "rq_seq r pos = (case rq_seqno r of None \<Rightarrow> 0 | Some s \<Rightarrow> s ! pos)"

definition rq_set_seq :: "RingQueue \<Rightarrow> nat \<Rightarrow> w32 \<Rightarrow> RingQueue" where
  "rq_set_seq r pos v = r\<lparr>rq_seqno := map_option (\<lambda>s. s[pos := v]) (rq_seqno r)\<rparr>"

definition rq_guard :: "RingQueue \<Rightarrow> nat \<Rightarrow> int" where
  "rq_guard r pos = (case rq_peek_guard r of None \<Rightarrow> 0 | Some g \<Rightarrow> g ! pos)"

definition rq_set_guard :: "RingQueue \<Rightarrow> nat \<Rightarrow> int \<Rightarrow> RingQueue" where
  "rq_set_guard r pos v = r\<lparr>rq_peek_guard := map_option (\<lambda>g. g[pos := v]) (rq_peek_guard r)\<rparr>"

section \<open>The peek guards\<close>

partial_function (option) ring_writer_lock :: "RingQueue \<Rightarrow> nat \<Rightarrow> RingQueue option" where
  "ring_writer_lock r pos =
     (let (ok, g, _) = atomic_cas_inline (rq_guard r pos) 0 (- 1) in
      if ok then Some (rq_set_guard r pos g) else ring_writer_lock (rq_set_guard r pos g) pos)"

definition ring_writer_unlock :: "RingQueue \<Rightarrow> nat \<Rightarrow> RingQueue" where
  "ring_writer_unlock r pos = rq_set_guard r pos 0"

partial_function (option) ring_reader_try ::
  "RingQueue \<Rightarrow> nat \<Rightarrow> int \<Rightarrow> (bool \<times> RingQueue) option" where
  "ring_reader_try r pos readers =
     (if readers < 0 \<or> readers = int_max then Some (False, r)
      else (let (ok, g, seen) = atomic_cas_inline (rq_guard r pos) readers (readers + 1) in
            if ok then Some (True, rq_set_guard r pos g)
            else ring_reader_try (rq_set_guard r pos g) pos seen))"

definition ring_reader_lock :: "RingQueue \<Rightarrow> nat \<Rightarrow> (bool \<times> RingQueue) option" where
  "ring_reader_lock r pos = ring_reader_try r pos (rq_guard r pos)"

definition ring_reader_unlock :: "RingQueue \<Rightarrow> nat \<Rightarrow> RingQueue" where
  "ring_reader_unlock r pos = rq_set_guard r pos (snd (atomic_sub_inline (rq_guard r pos) 1))"

section \<open>Life cycle\<close>

text \<open>
  \<open>seq_ok\<close> and \<open>guard_ok\<close> say whether the two \<open>malloc\<close> calls succeed.
\<close>

definition ring_queue_init :: "RingQueue option \<Rightarrow> int \<Rightarrow> bool \<Rightarrow> bool \<Rightarrow> RingQueue option" where
  "ring_queue_init r capacity seq_ok guard_ok =
     (case r of None \<Rightarrow> None
      | Some q \<Rightarrow>
          let q0 = q\<lparr>rq_capacity := 0, rq_mask := 0, rq_seqno := None, rq_peek_guard := None,
                     rq_head := 0, rq_tail := 0\<rparr>
          in if capacity \<le> 0 \<or> capacity > 2 ^ 30 \<or> capacity AND (capacity - 1) \<noteq> 0
             then Some q0
             else if \<not> seq_ok \<or> \<not> guard_ok then Some q0
             else Some (q0\<lparr>rq_capacity := capacity, rq_mask := capacity - 1,
                           rq_seqno := Some (map of_nat [0..<nat capacity]),
                           rq_peek_guard := Some (replicate (nat capacity) 0)\<rparr>))"

definition ring_queue_destroy :: "RingQueue option \<Rightarrow> RingQueue option" where
  "ring_queue_destroy r =
     map_option (\<lambda>q. q\<lparr>rq_seqno := None, rq_peek_guard := None, rq_capacity := 0, rq_mask := 0\<rparr>) r"

section \<open>Counting\<close>

definition ring_clamp_count :: "RingQueue \<Rightarrow> w32 \<Rightarrow> w32 \<Rightarrow> int" where
  "ring_clamp_count q h t =
     (let count = t - h in if count > word_of_int (rq_capacity q) then rq_capacity q else uint count)"

fun ring_count_retry :: "nat \<Rightarrow> RingQueue \<Rightarrow> int" where
  "ring_count_retry 0 q = (let h = rq_head q; t = rq_tail q in ring_clamp_count q h t)"
| "ring_count_retry (Suc retries) q =
     (let h1 = rq_head q; t = rq_tail q; h2 = rq_head q in
      if h1 = h2 then ring_clamp_count q h1 t else ring_count_retry retries q)"

definition ring_queue_count :: "RingQueue option \<Rightarrow> int" where
  "ring_queue_count r =
     (case r of None \<Rightarrow> 0
      | Some q \<Rightarrow> if rq_capacity q \<le> 0 then 0 else ring_count_retry 4 q)"

definition ring_queue_empty :: "RingQueue option \<Rightarrow> bool" where
  "ring_queue_empty r \<longleftrightarrow> ring_queue_count r = 0"

definition ring_queue_full :: "RingQueue option \<Rightarrow> bool" where
  "ring_queue_full r \<longleftrightarrow>
     (case r of None \<Rightarrow> True
      | Some q \<Rightarrow> rq_capacity q \<le> 0 \<or> ring_queue_count r \<ge> rq_capacity q)"

definition ring_queue_free :: "RingQueue option \<Rightarrow> int" where
  "ring_queue_free r =
     (case r of None \<Rightarrow> 0
      | Some q \<Rightarrow> if rq_capacity q \<le> 0 then 0 else rq_capacity q - ring_queue_count r)"

definition ring_queue_pos :: "RingQueue option \<Rightarrow> int \<Rightarrow> int" where
  "ring_queue_pos r index = (case r of None \<Rightarrow> 0 | Some q \<Rightarrow> index AND rq_mask q)"

section \<open>Single producer, single consumer\<close>

text \<open>The NULL and size guards shared by the operations: the ring, its arrays, the buffer.\<close>

definition rq_ready :: "bool \<Rightarrow> RingQueue \<Rightarrow> int \<Rightarrow> bool" where
  "rq_ready guarded q item_size \<longleftrightarrow>
     rq_seqno q \<noteq> None \<and> (guarded \<longrightarrow> rq_peek_guard q \<noteq> None) \<and> 0 < item_size"

definition ring_queue_push ::
  "RingQueue option \<Rightarrow> 'a list option \<Rightarrow> 'a option \<Rightarrow> int \<Rightarrow>
   (bool \<times> RingQueue option \<times> 'a list option) option" where
  "ring_queue_push r buffer item item_size =
     (case (r, buffer, item) of
        (Some q, Some buf, Some x) \<Rightarrow>
          if \<not> rq_ready True q item_size \<or> ring_queue_full r then Some (False, r, buffer)
          else (let t = rq_tail q; pos = rq_slot q t in
                case ring_writer_lock q pos of None \<Rightarrow> None
                | Some q1 \<Rightarrow>
                    let q2 = rq_set_seq (ring_writer_unlock q1 pos) pos (t + 1);
                        q3 = q2\<lparr>rq_tail := snd (atomic_u32_add_inline (rq_tail q2) 1)\<rparr>
                    in Some (True, Some q3, Some (buf[pos := x])))
      | _ \<Rightarrow> Some (False, r, buffer))"

definition ring_queue_pop ::
  "RingQueue option \<Rightarrow> 'a list option \<Rightarrow> int \<Rightarrow> 'a option \<times> RingQueue option" where
  "ring_queue_pop r buffer item_size =
     (case (r, buffer) of
        (Some q, Some buf) \<Rightarrow>
          if \<not> rq_ready False q item_size \<or> ring_queue_empty r then (None, r)
          else (let h = rq_head q; pos = rq_slot q h;
                    q1 = rq_set_seq q pos (h + word_of_int (rq_capacity q));
                    q2 = q1\<lparr>rq_head := snd (atomic_u32_add_inline (rq_head q1) 1)\<rparr>
                in (Some (buf ! pos), Some q2))
      | _ \<Rightarrow> (None, r))"

fun ring_peek_retry ::
  "nat \<Rightarrow> RingQueue \<Rightarrow> 'a list \<Rightarrow> ('a option \<times> RingQueue) option" where
  "ring_peek_retry 0 q buf = Some (None, q)"
| "ring_peek_retry (Suc retries) q buf =
     (let h = rq_head q; pos = rq_slot q h in
      if rq_seq q pos \<noteq> h + 1 then Some (None, q)
      else (case ring_reader_lock q pos of None \<Rightarrow> None
            | Some (False, q1) \<Rightarrow> ring_peek_retry retries q1 buf
            | Some (True, q1) \<Rightarrow>
                if rq_head q1 = h \<and> rq_seq q1 pos = h + 1
                then Some (Some (buf ! pos), ring_reader_unlock q1 pos)
                else ring_peek_retry retries (ring_reader_unlock q1 pos) buf))"

definition ring_queue_peek ::
  "RingQueue option \<Rightarrow> 'a list option \<Rightarrow> int \<Rightarrow> ('a option \<times> RingQueue option) option" where
  "ring_queue_peek r buffer item_size =
     (case (r, buffer) of
        (Some q, Some buf) \<Rightarrow>
          if \<not> rq_ready True q item_size then Some (None, r)
          else map_option (\<lambda>(x, q'). (x, Some q')) (ring_peek_retry 4 q buf)
      | _ \<Rightarrow> Some (None, r))"

section \<open>Multiple producers, multiple consumers\<close>

text \<open>The claim loops: \<open>Some (Some t)\<close> is the position won, \<open>Some None\<close> a full (empty) ring.\<close>

partial_function (option) ring_claim_tail :: "RingQueue \<Rightarrow> (w32 option \<times> RingQueue) option" where
  "ring_claim_tail q =
     (let t = rq_tail q; diff = rq_seq q (rq_slot q t) - t in
      if diff = 0 then
        (let (ok, tail', _) = atomic_u32_cas_inline (rq_tail q) t (t + 1) in
         if ok then Some (Some t, q\<lparr>rq_tail := tail'\<rparr>) else ring_claim_tail (q\<lparr>rq_tail := tail'\<rparr>))
      else if diff AND 0x80000000 \<noteq> 0 then Some (None, q)
      else ring_claim_tail q)"

definition ring_queue_push_mp ::
  "RingQueue option \<Rightarrow> 'a list option \<Rightarrow> 'a option \<Rightarrow> int \<Rightarrow>
   (bool \<times> RingQueue option \<times> 'a list option) option" where
  "ring_queue_push_mp r buffer item item_size =
     (case (r, buffer, item) of
        (Some q, Some buf, Some x) \<Rightarrow>
          if \<not> rq_ready True q item_size then Some (False, r, buffer)
          else (case ring_claim_tail q of None \<Rightarrow> None
                | Some (None, q1) \<Rightarrow> Some (False, Some q1, buffer)
                | Some (Some t, q1) \<Rightarrow>
                    let pos = rq_slot q1 t in
                    case ring_writer_lock q1 pos of None \<Rightarrow> None
                    | Some q2 \<Rightarrow>
                        Some (True, Some (rq_set_seq (ring_writer_unlock q2 pos) pos (t + 1)),
                              Some (buf[pos := x])))
      | _ \<Rightarrow> Some (False, r, buffer))"

partial_function (option) ring_claim_head :: "RingQueue \<Rightarrow> (w32 option \<times> RingQueue) option" where
  "ring_claim_head q =
     (let h = rq_head q; diff = rq_seq q (rq_slot q h) - (h + 1) in
      if diff = 0 then
        (let (ok, head', _) = atomic_u32_cas_inline (rq_head q) h (h + 1) in
         if ok then Some (Some h, q\<lparr>rq_head := head'\<rparr>) else ring_claim_head (q\<lparr>rq_head := head'\<rparr>))
      else if diff AND 0x80000000 \<noteq> 0 then Some (None, q)
      else ring_claim_head q)"

definition ring_queue_pop_mc ::
  "RingQueue option \<Rightarrow> 'a list option \<Rightarrow> int \<Rightarrow> ('a option \<times> RingQueue option) option" where
  "ring_queue_pop_mc r buffer item_size =
     (case (r, buffer) of
        (Some q, Some buf) \<Rightarrow>
          if \<not> rq_ready False q item_size then Some (None, r)
          else (case ring_claim_head q of None \<Rightarrow> None
                | Some (None, q1) \<Rightarrow> Some (None, Some q1)
                | Some (Some h, q1) \<Rightarrow>
                    let pos = rq_slot q1 h in
                    Some (Some (buf ! pos),
                          Some (rq_set_seq q1 pos (h + word_of_int (rq_capacity q1)))))
      | _ \<Rightarrow> Some (None, r))"


section \<open>The invariant and the queue it represents\<close>

definition rq_len :: "RingQueue \<Rightarrow> nat" where
  "rq_len q = unat (rq_tail q - rq_head q)"

definition ring_inv :: "nat \<Rightarrow> RingQueue \<Rightarrow> 'a list \<Rightarrow> bool" where
  "ring_inv k q buf \<longleftrightarrow>
     k \<le> 30 \<and> rq_capacity q = 2 ^ k \<and> rq_mask q = 2 ^ k - 1 \<and> length buf = 2 ^ k \<and>
     rq_len q \<le> 2 ^ k \<and>
     (\<exists>s. rq_seqno q = Some s \<and> length s = 2 ^ k \<and>
        (\<forall>i < 2 ^ k. s ! ((unat (rq_head q) + i) mod 2 ^ k) =
            rq_head q + of_nat i + (if i < rq_len q then 1 else 0))) \<and>
     (\<exists>g. rq_peek_guard q = Some g \<and> length g = 2 ^ k \<and> (\<forall>i < 2 ^ k. g ! i = 0))"

definition ring_list :: "RingQueue \<Rightarrow> 'a list \<Rightarrow> 'a list" where
  "ring_list q buf =
     map (\<lambda>i. buf ! ((unat (rq_head q) + i) mod nat (rq_capacity q))) [0..<rq_len q]"

lemma length_ring_list [simp]: "length (ring_list q buf) = rq_len q"
  by (simp add: ring_list_def)

lemma rq_slot_head_plus:
  assumes "k \<le> 30" "rq_mask q = 2 ^ k - 1"
  shows "rq_slot q (h + of_nat i) = (unat h + i) mod 2 ^ k"
proof -
  have "word_of_int (2 ^ k - 1) = (2 ^ k - 1 :: w32)" by simp
  then show ?thesis
    using assms slot_index [of k h i] by (simp add: rq_slot_def)
qed

lemma tail_eq: "rq_tail q = rq_head q + of_nat (rq_len q)"
  by (simp add: rq_len_def)

lemma pow_le_30: "k \<le> 30 \<Longrightarrow> (2::nat) ^ k \<le> 1073741824"
  using power_increasing [of k 30 "2::nat"] by simp

lemma of_nat_pow: "(of_nat (2 ^ k) :: w32) = 2 ^ k"
  by simp

lemma msb_iff:
  fixes w :: w32
  shows "w AND 0x80000000 \<noteq> 0 \<longleftrightarrow> 2147483648 \<le> unat w"
proof -
  have "w AND 0x80000000 \<noteq> 0 \<longleftrightarrow> bit w 31"
    using and_exp_eq_0_iff_not_bit [of w 31] by simp
  also have "\<dots> \<longleftrightarrow> bit (unat w) 31"
    by (simp add: bit_unsigned_iff)
  also have "\<dots> \<longleftrightarrow> odd (unat w div 2147483648)"
    by (simp add: bit_iff_odd)
  also have "\<dots> \<longleftrightarrow> 2147483648 \<le> unat w"
  proof -
    have "unat w < 4294967296" using unsigned_less [of w] by simp
    then have "unat w div 2147483648 < 2" by (simp add: div_less_iff_less_mult)
    then have "unat w div 2147483648 = 0 \<or> unat w div 2147483648 = 1" by linarith
    moreover have "unat w div 2147483648 = 0 \<longleftrightarrow> \<not> 2147483648 \<le> unat w"
      by (simp add: div_eq_0_iff not_le)
    ultimately show ?thesis by auto
  qed
  finally show ?thesis .
qed

lemma ring_count_len:
  assumes "ring_inv k q buf"
  shows "ring_queue_count (Some q) = int (rq_len q)"
proof -
  have k: "k \<le> 30" and c: "rq_capacity q = 2 ^ k" and l: "rq_len q \<le> 2 ^ k"
    using assms by (auto simp: ring_inv_def)
  have "\<not> rq_tail q - rq_head q > word_of_int (rq_capacity q)"
  proof -
    have "unat (word_of_int (rq_capacity q) :: w32) = 2 ^ k"
      using k by (simp add: c unat_pow)
    with l show ?thesis by (simp add: word_less_nat_alt rq_len_def)
  qed
  then show ?thesis
    by (simp add: ring_queue_count_def c numeral_eq_Suc ring_clamp_count_def rq_len_def)
qed

text \<open>The states after a push and after a pop, and that they keep the invariant.\<close>

definition ring_pushed :: "RingQueue \<Rightarrow> RingQueue" where
  "ring_pushed q = (rq_set_seq q (rq_slot q (rq_tail q)) (rq_tail q + 1))\<lparr>rq_tail := rq_tail q + 1\<rparr>"

definition ring_popped :: "RingQueue \<Rightarrow> RingQueue" where
  "ring_popped q =
     (rq_set_seq q (rq_slot q (rq_head q)) (rq_head q + word_of_int (rq_capacity q)))
       \<lparr>rq_head := rq_head q + 1\<rparr>"

lemma ring_inv_slots:
  assumes "ring_inv k q buf"
  shows "rq_slot q (rq_tail q) = (unat (rq_head q) + rq_len q) mod 2 ^ k"
    and "rq_slot q (rq_head q) = unat (rq_head q) mod 2 ^ k"
proof -
  have k: "k \<le> 30" "rq_mask q = 2 ^ k - 1"
    using assms by (auto simp: ring_inv_def)
  show "rq_slot q (rq_tail q) = (unat (rq_head q) + rq_len q) mod 2 ^ k"
    unfolding tail_eq by (rule rq_slot_head_plus [OF k])
  show "rq_slot q (rq_head q) = unat (rq_head q) mod 2 ^ k"
    using rq_slot_head_plus [OF k, of "rq_head q" 0] by simp
qed

lemma rq_len_pushed:
  assumes "ring_inv k q buf" "rq_len q < 2 ^ k"
  shows "rq_len (ring_pushed q) = rq_len q + 1"
proof -
  have "k \<le> 30" using assms(1) by (simp add: ring_inv_def)
  from pow_le_30 [OF this] assms(2) have "rq_len q + 1 < 2 ^ 32" by simp
  moreover have "rq_len (ring_pushed q) = unat ((of_nat (rq_len q) :: w32) + 1)"
    by (simp add: rq_len_def ring_pushed_def rq_set_seq_def algebra_simps)
  moreover have "(of_nat (rq_len q) :: w32) + 1 = of_nat (rq_len q + 1)" by simp
  ultimately show ?thesis by (simp only: unat_of_nat) simp
qed

lemma ring_inv_pushed:
  assumes inv: "ring_inv k q buf" and room: "rq_len q < 2 ^ k"
  shows "ring_inv k (ring_pushed q) (buf[rq_slot q (rq_tail q) := x])"
    and "ring_list (ring_pushed q) (buf[rq_slot q (rq_tail q) := x]) = ring_list q buf @ [x]"
proof -
  let ?n = "rq_len q" and ?u = "unat (rq_head q)" and ?p = "rq_slot q (rq_tail q)"
  note len' = rq_len_pushed [OF inv room]
  have p: "?p = (?u + ?n) mod 2 ^ k" by (rule ring_inv_slots [OF inv])
  obtain s where s: "rq_seqno q = Some s" "length s = 2 ^ k"
    and seq: "\<And>i. i < 2 ^ k \<Longrightarrow> s ! ((?u + i) mod 2 ^ k) =
        rq_head q + of_nat i + (if i < ?n then 1 else 0)"
    using inv by (auto simp: ring_inv_def)
  have head: "rq_head (ring_pushed q) = rq_head q"
    and seqno: "rq_seqno (ring_pushed q) = Some (s[?p := rq_tail q + 1])"
    by (simp_all add: ring_pushed_def rq_set_seq_def s)
  have seq': "s[?p := rq_tail q + 1] ! ((?u + i) mod 2 ^ k) =
      rq_head q + of_nat i + (if i < ?n + 1 then 1 else 0)" if i: "i < 2 ^ k" for i
  proof (cases "i = ?n")
    case True
    have "(?u + i) mod 2 ^ k = ?p" "?p < length s"
      using s(2) by (simp_all only: p True) simp
    with True show ?thesis by (simp add: tail_eq [symmetric])
  next
    case False
    then have "(?u + i) mod 2 ^ k \<noteq> ?p"
      using slot_inj [OF i room] p by metis
    with False show ?thesis using seq [OF i] by simp
  qed
  show inv': "ring_inv k (ring_pushed q) (buf[?p := x])"
    using inv room seq' s(2)
    by (auto simp: ring_inv_def len' head seqno) (auto simp: ring_pushed_def rq_set_seq_def)
  have cap: "rq_capacity q = 2 ^ k" "length buf = 2 ^ k" using inv by (auto simp: ring_inv_def)
  have old: "buf[?p := x] ! ((?u + i) mod 2 ^ k) = buf ! ((?u + i) mod 2 ^ k)" if "i < ?n" for i
  proof -
    have "(?u + i) mod 2 ^ k \<noteq> ?p"
      using slot_inj [of i "2 ^ k" ?n ?u] that room p by auto
    then show ?thesis by simp
  qed
  have cap': "rq_capacity (ring_pushed q) = 2 ^ k"
    by (simp add: ring_pushed_def rq_set_seq_def cap)
  have last: "buf[?p := x] ! ((?u + ?n) mod 2 ^ k) = x" using cap(2) by (simp add: p)
  have "ring_list (ring_pushed q) (buf[?p := x]) =
      map (\<lambda>i. buf[?p := x] ! ((?u + i) mod 2 ^ k)) [0..<?n] @ [x]"
    by (simp add: ring_list_def len' head cap' nat_power_eq last)
  also have "\<dots> = ring_list q buf @ [x]"
    using old by (simp add: ring_list_def cap nat_power_eq)
  finally show "ring_list (ring_pushed q) (buf[?p := x]) = ring_list q buf @ [x]" .
qed

lemma rq_len_popped:
  assumes "rq_len q \<noteq> 0"
  shows "rq_len (ring_popped q) = rq_len q - 1"
proof -
  have "(of_nat (rq_len q) :: w32) - 1 = of_nat (rq_len q - 1)"
    using assms by (simp add: of_nat_diff)
  moreover have "rq_len (ring_popped q) = unat ((of_nat (rq_len q) :: w32) - 1)"
    by (simp add: rq_len_def ring_popped_def rq_set_seq_def algebra_simps)
  moreover have "rq_len q - 1 < 2 ^ 32"
    by (simp add: rq_len_def less_imp_diff_less unat_lt_2p32)
  ultimately show ?thesis by (simp only: unat_of_nat) simp
qed

lemma ring_inv_popped:
  assumes inv: "ring_inv k q buf" and some: "rq_len q \<noteq> 0"
  shows "ring_inv k (ring_popped q) buf"
    and "buf ! rq_slot q (rq_head q) # ring_list (ring_popped q) buf = ring_list q buf"
proof -
  let ?n = "rq_len q" and ?u = "unat (rq_head q)" and ?p = "rq_slot q (rq_head q)"
  have k: "k \<le> 30" and n: "?n \<le> 2 ^ k" and cap: "rq_capacity q = 2 ^ k"
    using inv by (auto simp: ring_inv_def)
  note len' = rq_len_popped [OF some]
  have p: "?p = ?u mod 2 ^ k" by (rule ring_inv_slots [OF inv])
  obtain s where s: "rq_seqno q = Some s" "length s = 2 ^ k"
    and seq: "\<And>i. i < 2 ^ k \<Longrightarrow> s ! ((?u + i) mod 2 ^ k) =
        rq_head q + of_nat i + (if i < ?n then 1 else 0)"
    using inv by (auto simp: ring_inv_def)
  have head: "rq_head (ring_popped q) = rq_head q + 1"
    and seqno: "rq_seqno (ring_popped q) = Some (s[?p := rq_head q + 2 ^ k])"
    and cap': "rq_capacity (ring_popped q) = 2 ^ k"
    by (simp_all add: ring_popped_def rq_set_seq_def s cap)
  have shift: "(unat (rq_head q + 1) + i) mod 2 ^ k = (?u + Suc i) mod 2 ^ k" for i
  proof -
    have "(unat (rq_head q + of_nat 1) + i) mod 2 ^ k
        = (unat (rq_head q + of_nat 1) mod 2 ^ k + i) mod 2 ^ k"
      by (simp only: mod_add_left_eq)
    also have "\<dots> = ((?u + 1) mod 2 ^ k + i) mod 2 ^ k"
      using k by (simp only: unat_plus_mod)
    finally show ?thesis by (simp add: mod_add_left_eq)
  qed
  have seq': "s[?p := rq_head q + 2 ^ k] ! ((?u + Suc i) mod 2 ^ k) =
      rq_head q + 1 + of_nat i + (if i < ?n - 1 then 1 else 0)" if i: "i < 2 ^ k" for i
  proof (cases "Suc i < 2 ^ k")
    case True
    then have "(?u + Suc i) mod 2 ^ k \<noteq> ?p"
      using slot_inj [of "Suc i" "2 ^ k" 0 ?u] p by auto
    then show ?thesis using seq [OF True] some by (simp add: less_diff_conv)
  next
    case False
    with i have e: "Suc i = 2 ^ k" by simp
    then have "(?u + Suc i) mod 2 ^ k = ?p" by (simp only: p mod_add_self2)
    moreover have "(1 :: w32) + of_nat i = 2 ^ k"
      using arg_cong [OF e, of "of_nat :: nat \<Rightarrow> w32"] by simp
    moreover have "\<not> i < ?n - 1" using e n by simp
    ultimately show ?thesis using s(2) p by (simp add: add.assoc)
  qed
  have same: "rq_mask (ring_popped q) = rq_mask q" "rq_peek_guard (ring_popped q) = rq_peek_guard q"
    by (simp_all add: ring_popped_def rq_set_seq_def)
  show "ring_inv k (ring_popped q) buf"
    using inv seq' s(2)
    by (auto simp: ring_inv_def len' head seqno cap' shift same)
  have "ring_list q buf = map (\<lambda>i. buf ! ((?u + i) mod 2 ^ k)) [0..<?n]"
    by (simp add: ring_list_def cap nat_power_eq)
  also have "\<dots> = buf ! ?p # map (\<lambda>i. buf ! ((?u + Suc i) mod 2 ^ k)) [0..<?n - 1]"
    using some by (subst map_upt_Cons) (simp_all add: p)
  also have "\<dots> = buf ! ?p # ring_list (ring_popped q) buf"
    by (simp add: ring_list_def cap' nat_power_eq head shift len')
  finally show "buf ! ?p # ring_list (ring_popped q) buf = ring_list q buf" by simp
qed

section \<open>The operations on a valid ring\<close>

lemma rq_guard_idle:
  assumes "ring_inv k q buf" "p < 2 ^ k"
  shows "ring_writer_lock q p = Some (rq_set_guard q p (- 1))"
    and "ring_writer_unlock (rq_set_guard q p (- 1)) p = q"
    and "ring_reader_lock q p = Some (True, rq_set_guard q p 1)"
    and "ring_reader_unlock (rq_set_guard q p 1) p = q"
proof -
  obtain g where g: "rq_peek_guard q = Some g" "length g = 2 ^ k" "\<forall>i<2 ^ k. g ! i = 0"
    using assms(1) by (auto simp: ring_inv_def)
  have z: "rq_guard q p = 0" using g assms(2) by (simp add: rq_guard_def)
  have reset: "rq_set_guard (rq_set_guard q p v) p 0 = q" for v
  proof -
    have "g[p := 0] = g" using g assms(2) by (metis list_update_id)
    then show ?thesis by (simp add: rq_set_guard_def g(1))
  qed
  show "ring_writer_lock q p = Some (rq_set_guard q p (- 1))"
    by (subst ring_writer_lock.simps) (simp add: z)
  show "ring_writer_unlock (rq_set_guard q p (- 1)) p = q"
    by (simp add: ring_writer_unlock_def reset)
  show "ring_reader_lock q p = Some (True, rq_set_guard q p 1)"
    unfolding ring_reader_lock_def
    by (subst ring_reader_try.simps) (simp add: z int_max_def)
  have "rq_guard (rq_set_guard q p 1) p = 1"
    using g assms(2) by (simp add: rq_guard_def rq_set_guard_def)
  then show "ring_reader_unlock (rq_set_guard q p 1) p = q"
    by (simp add: ring_reader_unlock_def atomic_sub_inline_def reset)
qed

lemma ring_inv_ready: "ring_inv k q buf \<Longrightarrow> 0 < sz \<Longrightarrow> rq_ready g q sz"
  by (auto simp: ring_inv_def rq_ready_def)

lemma ring_inv_full_iff: "ring_inv k q buf \<Longrightarrow> ring_queue_full (Some q) \<longleftrightarrow> rq_len q = 2 ^ k"
proof -
  assume inv: "ring_inv k q buf"
  then have "rq_len q \<le> 2 ^ k" "rq_capacity q = 2 ^ k" by (auto simp: ring_inv_def)
  then show ?thesis
    by (auto simp: ring_queue_full_def ring_count_len [OF inv])
qed

lemma ring_slot_bound: "ring_inv k q buf \<Longrightarrow> rq_slot q (rq_tail q) < 2 ^ k \<and> rq_slot q (rq_head q) < 2 ^ k"
  by (simp add: ring_inv_slots)

lemma ring_push_cases:
  assumes inv: "ring_inv k q buf" and sz: "0 < sz"
  shows "ring_queue_push (Some q) (Some buf) (Some x) sz =
    (if rq_len q < 2 ^ k
     then Some (True, Some (ring_pushed q), Some (buf[rq_slot q (rq_tail q) := x]))
     else Some (False, Some q, Some buf))"
proof (cases "rq_len q < 2 ^ k")
  case True
  let ?p = "rq_slot q (rq_tail q)"
  from True have "\<not> ring_queue_full (Some q)" by (simp add: ring_inv_full_iff [OF inv])
  moreover note rq_guard_idle [OF inv, of ?p] ring_slot_bound [OF inv] ring_inv_ready [OF inv sz]
  ultimately show ?thesis using True
    by (simp add: ring_queue_push_def Let_def ring_pushed_def atomic_u32_add_inline_def)
      (simp add: rq_set_seq_def)
next
  case False
  then have "rq_len q = 2 ^ k" using inv by (auto simp: ring_inv_def)
  with False show ?thesis
    by (simp add: ring_queue_push_def ring_inv_full_iff [OF inv])
qed

lemma ring_seq_at:
  assumes "ring_inv k q buf" "i < 2 ^ k"
  shows "rq_seq q (rq_slot q (rq_head q + of_nat i)) =
    rq_head q + of_nat i + (if i < rq_len q then 1 else 0)"
proof -
  have k: "k \<le> 30" "rq_mask q = 2 ^ k - 1" using assms(1) by (auto simp: ring_inv_def)
  show ?thesis
    unfolding rq_slot_head_plus [OF k] using assms by (auto simp: ring_inv_def rq_seq_def)
qed

lemma ring_claim_tail_room:
  assumes inv: "ring_inv k q buf" and room: "rq_len q < 2 ^ k"
  shows "ring_claim_tail q = Some (Some (rq_tail q), q\<lparr>rq_tail := rq_tail q + 1\<rparr>)"
proof -
  have "rq_seq q (rq_slot q (rq_tail q)) = rq_tail q"
    using ring_seq_at [OF inv room] by (simp flip: tail_eq)
  then show ?thesis by (subst ring_claim_tail.simps) (simp add: Let_def)
qed

text \<open>
  A full ring is recognised by the sign of the difference, which needs a capacity of at
  least two: the difference is then \<open>1 - capacity\<close>, negative.
\<close>

lemma ring_claim_tail_full:
  assumes inv: "ring_inv k q buf" and full: "rq_len q = 2 ^ k" and k1: "1 \<le> k"
  shows "ring_claim_tail q = Some (None, q)"
proof -
  have k: "k \<le> 30" and m: "rq_mask q = 2 ^ k - 1" using inv by (auto simp: ring_inv_def)
  have "rq_slot q (rq_tail q) = rq_slot q (rq_head q)"
    using ring_inv_slots [OF inv] full by simp
  then have seq: "rq_seq q (rq_slot q (rq_tail q)) = rq_head q + 1"
    using ring_seq_at [OF inv, of 0] full by simp
  have "rq_tail q = rq_head q + 2 ^ k" using tail_eq [of q] full by simp
  with seq have d: "rq_seq q (rq_slot q (rq_tail q)) - rq_tail q = - (2 ^ k - 1)" by simp
  have u: "unat (2 ^ k - 1 :: w32) = 2 ^ k - 1"
  proof -
    have "(2 ^ k - 1 :: w32) = of_nat (2 ^ k - 1)" by (simp add: of_nat_diff)
    moreover have "(2::nat) ^ k - 1 < 2 ^ 32" using pow_le_30 [OF k] by simp
    ultimately show ?thesis by (simp only: unat_of_nat) simp
  qed
  have "2 \<le> (2::nat) ^ k" using k1 power_increasing [of 1 k "2::nat"] by simp
  with u have nz: "(2 ^ k - 1 :: w32) \<noteq> 0" by (metis One_nat_def Suc_1 diff_is_0_eq not_less_eq_eq unsigned_0)
  from u have "2147483648 \<le> unat (- (2 ^ k - 1 :: w32))"
    using unat_uminus [OF nz] pow_le_30 [OF k] by simp
  then have msb: "(rq_seq q (rq_slot q (rq_tail q)) - rq_tail q) AND 0x80000000 \<noteq> 0"
    unfolding d msb_iff .
  moreover from d nz have "rq_seq q (rq_slot q (rq_tail q)) \<noteq> rq_tail q" by auto
  ultimately show ?thesis
    by (subst ring_claim_tail.simps) (simp add: Let_def)
qed

lemma ring_claim_head_some:
  assumes inv: "ring_inv k q buf" and some: "rq_len q \<noteq> 0"
  shows "ring_claim_head q = Some (Some (rq_head q), q\<lparr>rq_head := rq_head q + 1\<rparr>)"
proof -
  have "rq_seq q (rq_slot q (rq_head q)) = rq_head q + 1"
    using ring_seq_at [OF inv, of 0] some by simp
  then show ?thesis by (subst ring_claim_head.simps) (simp add: Let_def)
qed

lemma ring_claim_head_none:
  assumes inv: "ring_inv k q buf" and none: "rq_len q = 0"
  shows "ring_claim_head q = Some (None, q)"
proof -
  have "rq_seq q (rq_slot q (rq_head q)) = rq_head q"
    using ring_seq_at [OF inv, of 0] none by simp
  moreover have "(- 1 :: w32) AND 0x80000000 \<noteq> 0" by simp
  ultimately show ?thesis by (subst ring_claim_head.simps) (simp add: Let_def)
qed

lemma rq_slot_fields [simp]:
  "rq_slot (q\<lparr>rq_tail := t\<rparr>) p = rq_slot q p" "rq_slot (q\<lparr>rq_head := h\<rparr>) p = rq_slot q p"
  by (simp_all add: rq_slot_def)

lemma rq_set_seq_tail: "rq_set_seq (q\<lparr>rq_tail := t\<rparr>) p v = (rq_set_seq q p v)\<lparr>rq_tail := t\<rparr>"
  and rq_set_seq_head: "rq_set_seq (q\<lparr>rq_head := h\<rparr>) p v = (rq_set_seq q p v)\<lparr>rq_head := h\<rparr>"
  by (simp_all add: rq_set_seq_def)

lemma rq_lock_tail:
  assumes "ring_inv k q buf" "p < 2 ^ k"
  shows "ring_writer_lock (q\<lparr>rq_tail := t\<rparr>) p = Some ((rq_set_guard q p (- 1))\<lparr>rq_tail := t\<rparr>)"
    and "ring_writer_unlock ((rq_set_guard q p (- 1))\<lparr>rq_tail := t\<rparr>) p = q\<lparr>rq_tail := t\<rparr>"
proof -
  have comm: "rq_set_guard (r\<lparr>rq_tail := t\<rparr>) p v = (rq_set_guard r p v)\<lparr>rq_tail := t\<rparr>" for r v
    by (simp add: rq_set_guard_def)
  have g: "rq_guard (q\<lparr>rq_tail := t\<rparr>) p = rq_guard q p" by (simp add: rq_guard_def)
  have z: "rq_guard q p = 0" using assms by (auto simp: ring_inv_def rq_guard_def)
  show "ring_writer_lock (q\<lparr>rq_tail := t\<rparr>) p = Some ((rq_set_guard q p (- 1))\<lparr>rq_tail := t\<rparr>)"
    by (subst ring_writer_lock.simps) (simp add: g z comm)
  show "ring_writer_unlock ((rq_set_guard q p (- 1))\<lparr>rq_tail := t\<rparr>) p = q\<lparr>rq_tail := t\<rparr>"
    using rq_guard_idle(2) [OF assms] by (simp add: ring_writer_unlock_def comm)
qed

lemma ring_push_mp_cases:
  assumes inv: "ring_inv k q buf" and sz: "0 < sz" and k1: "1 \<le> k"
  shows "ring_queue_push_mp (Some q) (Some buf) (Some x) sz =
    (if rq_len q < 2 ^ k
     then Some (True, Some (ring_pushed q), Some (buf[rq_slot q (rq_tail q) := x]))
     else Some (False, Some q, Some buf))"
proof (cases "rq_len q < 2 ^ k")
  case True
  show ?thesis
    using True ring_claim_tail_room [OF inv True] ring_inv_ready [OF inv sz]
      rq_lock_tail [OF inv] ring_slot_bound [OF inv]
    by (simp add: ring_queue_push_mp_def Let_def ring_pushed_def rq_set_seq_tail)
next
  case False
  then have "rq_len q = 2 ^ k" using inv by (auto simp: ring_inv_def)
  from ring_claim_tail_full [OF inv this k1] False ring_inv_ready [OF inv sz] show ?thesis
    by (simp add: ring_queue_push_mp_def)
qed

lemma ring_pop_cases:
  assumes inv: "ring_inv k q buf" and sz: "0 < sz"
  shows "ring_queue_pop (Some q) (Some buf) sz =
    (if rq_len q = 0 then (None, Some q)
     else (Some (buf ! rq_slot q (rq_head q)), Some (ring_popped q)))"
  using ring_inv_ready [OF inv sz] ring_count_len [OF inv]
  by (simp add: ring_queue_pop_def ring_queue_empty_def Let_def ring_popped_def
      atomic_u32_add_inline_def) (simp add: rq_set_seq_def)

lemma ring_pop_mc_cases:
  assumes inv: "ring_inv k q buf" and sz: "0 < sz"
  shows "ring_queue_pop_mc (Some q) (Some buf) sz =
    (if rq_len q = 0 then Some (None, Some q)
     else Some (Some (buf ! rq_slot q (rq_head q)), Some (ring_popped q)))"
  using ring_inv_ready [OF inv sz] ring_claim_head_none [OF inv] ring_claim_head_some [OF inv]
  by (simp add: ring_queue_pop_mc_def Let_def ring_popped_def rq_set_seq_head)

lemma ring_peek_cases:
  assumes inv: "ring_inv k q buf" and sz: "0 < sz"
  shows "ring_queue_peek (Some q) (Some buf) sz =
    Some (if rq_len q = 0 then None else Some (buf ! rq_slot q (rq_head q)), Some q)"
proof -
  let ?p = "rq_slot q (rq_head q)"
  have seq: "rq_seq q ?p = rq_head q + (if 0 < rq_len q then 1 else 0)"
    using ring_seq_at [OF inv, of 0] by simp
  have keep: "rq_head (rq_set_guard q ?p v) = rq_head q" "rq_seq (rq_set_guard q ?p v) ?p = rq_seq q ?p" for v
    by (simp_all add: rq_set_guard_def rq_seq_def)
  show ?thesis
    using ring_inv_ready [OF inv sz] rq_guard_idle [OF inv, of ?p] ring_slot_bound [OF inv] seq
    by (auto simp: ring_queue_peek_def numeral_eq_Suc Let_def keep)
qed

section \<open>Initialisation\<close>

lemma pow2_test:
  fixes c :: int
  assumes "0 < c" "c \<le> 2 ^ 30" "c AND (c - 1) = 0"
  shows "\<exists>k \<le> 30. c = 2 ^ k"
proof -
  define n where "n = nat c"
  have n: "0 < n" "c = int n" using assms(1) by (simp_all add: n_def)
  obtain k where k: "2 ^ k \<le> n" "n < 2 ^ (k + 1)"
    using ex_power_ivl1 [of 2 n] n(1) by (auto simp: Suc_le_eq)
  have "n = 2 ^ k"
  proof (rule ccontr)
    assume "n \<noteq> 2 ^ k"
    with k have lo: "2 ^ k \<le> n - 1" and hi: "n - 1 < 2 ^ (k + 1)" by simp_all
    have top: "bit m k" if "2 ^ k \<le> m" "m < 2 ^ (k + 1)" for m :: nat
    proof -
      have "m div 2 ^ k = 1"
        using that by (simp add: div_nat_eqI)
      then show ?thesis by (simp add: bit_iff_odd)
    qed
    have "bit (n AND (n - 1)) k" using top [OF k] top [OF lo hi] by (simp add: bit_and_iff)
    then have "n AND (n - 1) \<noteq> 0" by (rule contrapos_pn) simp
    moreover have "int (n AND (n - 1)) = c AND (c - 1)"
      using n by (simp add: of_nat_and_eq of_nat_diff Suc_le_eq)
    ultimately show False using assms(3) by simp
  qed
  moreover from this assms(2) n(2) have "k \<le> 30"
    using power_increasing_iff [of "2::int" k 30] by simp
  ultimately show ?thesis using n(2) by auto
qed

lemma pow2_accepted:
  fixes k :: nat
  shows "(2 ^ k :: int) AND (2 ^ k - 1) = 0"
  by (simp flip: mask_eq_exp_minus_1 take_bit_eq_mask)

lemma ring_init_inv:
  assumes "k \<le> 30" "length buf = 2 ^ k"
  shows "\<exists>q'. ring_queue_init (Some q) (2 ^ k) True True = Some q' \<and> ring_inv k q' buf \<and>
    ring_list q' buf = []"
proof -
  have le: "(2::int) ^ k \<le> 1073741824"
    using power_increasing [of k 30 "2::int"] assms(1) by simp
  have seq: "map of_nat [0..<nat (2 ^ k)] ! (i mod 2 ^ k) = (of_nat i :: w32)" if "i < 2 ^ k" for i
    using that by (simp add: nat_power_eq)
  show ?thesis
    using assms le seq
    by (simp add: ring_queue_init_def Let_def pow2_accepted ring_inv_def rq_len_def ring_list_def
        nat_power_eq not_le)
qed

section \<open>The rings as bounded queues\<close>

text \<open>A ring with its buffer, used with items of \<open>n + 1\<close> bytes.\<close>

type_synonym 'a ring = "RingQueue option \<times> 'a list option"

definition rq_push_sp :: "nat \<Rightarrow> 'a ring \<Rightarrow> 'a \<Rightarrow> (bool \<times> 'a ring) option" where
  "rq_push_sp n rb x = ring_queue_push (fst rb) (snd rb) (Some x) (int n + 1)"

definition rq_pop_sp :: "nat \<Rightarrow> 'a ring \<Rightarrow> ('a option \<times> 'a ring) option" where
  "rq_pop_sp n rb = (let (x, r) = ring_queue_pop (fst rb) (snd rb) (int n + 1) in Some (x, r, snd rb))"

definition rq_push_mp :: "nat \<Rightarrow> 'a ring \<Rightarrow> 'a \<Rightarrow> (bool \<times> 'a ring) option" where
  "rq_push_mp n rb x = ring_queue_push_mp (fst rb) (snd rb) (Some x) (int n + 1)"

definition rq_pop_mc :: "nat \<Rightarrow> 'a ring \<Rightarrow> ('a option \<times> 'a ring) option" where
  "rq_pop_mc n rb =
     map_option (\<lambda>(x, r). (x, r, snd rb)) (ring_queue_pop_mc (fst rb) (snd rb) (int n + 1))"

definition ring_valid :: "nat \<Rightarrow> 'a ring \<Rightarrow> bool" where
  "ring_valid kmin rb \<longleftrightarrow>
     (\<exists>q buf k. rb = (Some q, Some buf) \<and> kmin \<le> k \<and> ring_inv k q buf)"

definition ring_contents :: "'a ring \<Rightarrow> 'a list" where
  "ring_contents rb = (case rb of (Some q, Some buf) \<Rightarrow> ring_list q buf | _ \<Rightarrow> [])"

definition ring_bound :: "'a ring \<Rightarrow> nat" where
  "ring_bound rb = (case fst rb of Some q \<Rightarrow> nat (rq_capacity q) | None \<Rightarrow> 0)"

lemma ring_validE:
  assumes "ring_valid kmin rb"
  obtains q buf k where "rb = (Some q, Some buf)" "kmin \<le> k" "ring_inv k q buf"
    "ring_bound rb = 2 ^ k" "length (ring_contents rb) = rq_len q" "rq_len q \<le> 2 ^ k"
    "ring_contents rb = ring_list q buf"
  using assms by (auto simp: ring_valid_def ring_bound_def ring_contents_def ring_inv_def nat_power_eq)

lemma ring_bound_steps [simp]:
  "ring_bound (Some (ring_pushed q), b) = ring_bound (Some q, b')"
  "ring_bound (Some (ring_popped q), b) = ring_bound (Some q, b')"
  by (simp_all add: ring_bound_def ring_pushed_def ring_popped_def rq_set_seq_def)

interpretation sp_ring: bounded_fifo "rq_push_sp n" "rq_pop_sp n" ring_contents ring_bound "ring_valid 0"
  for n
proof (unfold_locales, goal_cases)
  case (1 q) then show ?case by (auto elim: ring_validE)
next
  case (2 q x)
  then obtain r buf k where *: "q = (Some r, Some buf)" "ring_inv k r buf" "rq_len r < 2 ^ k"
    by (auto elim: ring_validE)
  with ring_inv_pushed [OF *(2,3), of x] show ?case
    by (auto simp: rq_push_sp_def ring_push_cases ring_valid_def ring_contents_def)
next
  case (3 q x) then show ?case by (auto elim!: ring_validE simp: rq_push_sp_def ring_push_cases)
next
  case (4 q x xs)
  then obtain r buf k where *: "q = (Some r, Some buf)" "ring_inv k r buf" "rq_len r \<noteq> 0"
    "ring_list r buf = x # xs"
    by (auto elim!: ring_validE)
  with ring_inv_popped [OF *(2,3)] show ?case
    by (auto simp: rq_pop_sp_def ring_pop_cases ring_valid_def ring_contents_def)
next
  case (5 q) then show ?case by (auto elim!: ring_validE simp: rq_pop_sp_def ring_pop_cases)
qed

interpretation mpmc_ring: bounded_fifo "rq_push_mp n" "rq_pop_mc n" ring_contents ring_bound "ring_valid 1"
  for n
proof (unfold_locales, goal_cases)
  case (1 q) then show ?case by (auto elim: ring_validE)
next
  case (2 q x)
  then obtain r buf k where *: "q = (Some r, Some buf)" "ring_inv k r buf" "rq_len r < 2 ^ k" "1 \<le> k"
    by (auto elim: ring_validE)
  with ring_inv_pushed [OF *(2,3), of x] show ?case
    by (auto simp: rq_push_mp_def ring_push_mp_cases ring_valid_def ring_contents_def)
next
  case (3 q x) then show ?case
    by (auto elim!: ring_validE simp: rq_push_mp_def ring_push_mp_cases)
next
  case (4 q x xs)
  then obtain r buf k where *: "q = (Some r, Some buf)" "ring_inv k r buf" "rq_len r \<noteq> 0"
    "ring_list r buf = x # xs" "1 \<le> k"
    by (auto elim!: ring_validE)
  with ring_inv_popped [OF *(2,3)] show ?case
    by (auto simp: rq_pop_mc_def ring_pop_mc_cases ring_valid_def ring_contents_def)
next
  case (5 q) then show ?case
    by (auto elim!: ring_validE simp: rq_pop_mc_def ring_pop_mc_cases)
qed

section \<open>Properties\<close>

text \<open>C14: from any valid multi-producer ring with at least two slots, at any 32-bit position
  (the wrap of head and tail included), every sequence of pushes and pops run by one thread
  returns and answers exactly as a first-in-first-out queue bounded by the ring's capacity:
  a push fails only on a full ring, a pop only on an empty one.\<close>

theorem ring_mpmc_fifo:
  assumes "ring_valid 1 rb"
  shows "\<exists>rb'. queue_run (rq_push_mp n) (rq_pop_mc n) ops rb =
       Some (fst (fifo_run (ring_bound rb) ops (ring_contents rb)), rb') \<and>
     ring_valid 1 rb' \<and> ring_bound rb' = ring_bound rb \<and>
     ring_contents rb' = snd (fifo_run (ring_bound rb) ops (ring_contents rb))"
  using assms by (rule mpmc_ring.run_fifo)

theorem ring_mpmc_fifo_witness:
  "\<exists>r rb'. ring_queue_init (Some undefined) 2 True True = Some r \<and>
     queue_run (rq_push_mp 3) (rq_pop_mc 3) [Push 7, Push 8, Push 9, Pop, Pop, Pop]
       (Some r, Some [0, 0 :: nat]) =
     Some ([Pushed True, Pushed True, Pushed False, Popped (Some 7), Popped (Some 8), Popped None], rb')"
proof -
  have two: "(2::int) = 2 ^ 1" by simp
  obtain r where r: "ring_queue_init (Some undefined) 2 True True = Some r"
    "ring_inv 1 r [0, 0 :: nat]" "ring_list r [0, 0 :: nat] = []"
    using ring_init_inv [of 1 "[0, 0 :: nat]" undefined] by (auto simp flip: two)
  then have v: "ring_valid 1 (Some r, Some [0, 0 :: nat])"
    by (auto simp: ring_valid_def)
  have b: "ring_bound (Some r, Some [0, 0 :: nat]) = 2" "ring_contents (Some r, Some [0, 0 :: nat]) = []"
    using r by (auto simp: ring_bound_def ring_contents_def ring_inv_def)
  show ?thesis
    using ring_mpmc_fifo [OF v, of 3 "[Push 7, Push 8, Push 9, Pop, Pop, Pop]"] r(1)
    by (auto simp: b)
qed

text \<open>C40: on a valid ring with at least two slots the multi-producer push and the
  multi-consumer pop give, run alone, exactly the results and states of the single-producer
  push and single-consumer pop: the sequence-number test decides fullness and emptiness as
  the counter does.\<close>

theorem ring_mp_equals_sp:
  assumes "ring_inv k q buf" "1 \<le> k" "0 < sz"
  shows "ring_queue_push_mp (Some q) (Some buf) (Some x) sz =
           ring_queue_push (Some q) (Some buf) (Some x) sz \<and>
         ring_queue_pop_mc (Some q) (Some buf) sz = Some (ring_queue_pop (Some q) (Some buf) sz)"
  using ring_push_mp_cases [OF assms(1,3,2)] ring_push_cases [OF assms(1,3)]
    ring_pop_mc_cases [OF assms(1,3)] ring_pop_cases [OF assms(1,3)]
  by simp_all

theorem ring_mp_equals_sp_witness:
  "\<exists>r. ring_queue_init (Some undefined) 4 True True = Some r \<and>
     ring_queue_push_mp (Some r) (Some [0, 0, 0, 0 :: nat]) (Some 5) 8 =
       ring_queue_push (Some r) (Some [0, 0, 0, 0]) (Some 5) 8"
proof -
  obtain r where "ring_queue_init (Some undefined) (2 ^ 2) True True = Some r"
    "ring_inv 2 r [0, 0, 0, 0 :: nat]"
    using ring_init_inv [of 2 "[0, 0, 0, 0 :: nat]" undefined] by auto
  with ring_mp_equals_sp [of 2 r "[0, 0, 0, 0 :: nat]" 8 5] show ?thesis by simp
qed

text \<open>The state a one-slot ring reaches after two multi-producer pushes.\<close>

definition one_slot_stuck :: "RingQueue \<Rightarrow> bool" where
  "one_slot_stuck q \<longleftrightarrow>
     (let diff = rq_seq q (rq_slot q (rq_head q)) - (rq_head q + 1)
      in diff \<noteq> 0 \<and> diff AND 0x80000000 = 0)"

lemma claim_head_stuck:
  assumes "one_slot_stuck q"
  shows "ring_claim_head q = None"
proof (rule ccontr)
  assume "ring_claim_head q \<noteq> None"
  then obtain y where y: "ring_claim_head q = Some y" by blast
  have "\<not> one_slot_stuck q"
  proof (rule ring_claim_head.raw_induct [where P = "\<lambda>q y. \<not> one_slot_stuck q", OF _ y])
    fix f :: "RingQueue \<Rightarrow> (w32 option \<times> RingQueue) option" and q y
    assume IH: "\<And>q y. f q = Some y \<Longrightarrow> \<not> one_slot_stuck q"
      and eq: "(let h = rq_head q; diff = rq_seq q (rq_slot q h) - (h + 1) in
        if diff = 0 then
          (let (ok, head', _) = atomic_u32_cas_inline (rq_head q) h (h + 1) in
           if ok then Some (Some h, q\<lparr>rq_head := head'\<rparr>) else f (q\<lparr>rq_head := head'\<rparr>))
        else if diff AND 0x80000000 \<noteq> 0 then Some (None, q) else f q) = Some y"
    show "\<not> one_slot_stuck q"
    proof
      assume st: "one_slot_stuck q"
      with eq have "f q = Some y" by (simp add: one_slot_stuck_def Let_def)
      with IH st show False by blast
    qed
  qed
  with assms show False by blast
qed

text \<open>\<open>ring_queue_init\<close> accepts a capacity of one, but the multi-producer protocol does not
  work there: the second push succeeds on the full ring and overwrites the first item, and
  the pop that follows never returns.\<close>

theorem ring_one_slot_broken:
  "\<exists>r r1 r2. ring_queue_init (Some undefined) 1 True True = Some r \<and>
     ring_queue_push_mp (Some r) (Some [x0]) (Some a) 8 = Some (True, Some r1, Some [a]) \<and>
     ring_queue_full (Some r1) \<and>
     ring_queue_push_mp (Some r1) (Some [a]) (Some b) 8 = Some (True, Some r2, Some [b]) \<and>
     ring_queue_pop_mc (Some r2) (Some [b]) 8 = None"
proof -
  let ?r = "\<lambda>u :: RingQueue. \<lambda>t s. u\<lparr>rq_capacity := 1, rq_mask := 0, rq_seqno := Some [s], rq_peek_guard := Some [0],
             rq_head := 0, rq_tail := t\<rparr>"
  have init: "ring_queue_init (Some u) 1 True True = Some (?r u 0 0)" for u
    by (simp add: ring_queue_init_def Let_def)
  have push: "ring_queue_push_mp (Some (?r u t t)) (Some [y]) (Some z) 8 =
      Some (True, Some (?r u (t + 1) (t + 1)), Some [z])" for u t and y z :: 'a
  proof -
    have "ring_claim_tail (?r u t t) = Some (Some t, ?r u (t + 1) t)"
      by (subst ring_claim_tail.simps) (simp add: rq_seq_def rq_slot_def Let_def)
    moreover have "ring_writer_lock (?r u (t + 1) t) 0 = Some (rq_set_guard (?r u (t + 1) t) 0 (- 1))"
      by (subst ring_writer_lock.simps) (simp add: rq_guard_def)
    ultimately show ?thesis
      by (simp add: ring_queue_push_mp_def rq_ready_def rq_slot_def ring_writer_unlock_def
          rq_set_guard_def rq_set_seq_def)
  qed
  have full: "ring_queue_full (Some (?r u 1 1))" for u
    by (simp add: ring_queue_full_def ring_queue_count_def ring_clamp_count_def numeral_eq_Suc)
  have "one_slot_stuck (?r u 2 2)" for u
    by (simp add: one_slot_stuck_def rq_seq_def rq_slot_def)
  then have pop: "ring_queue_pop_mc (Some (?r u 2 2)) (Some [b]) 8 = None" for u
    by (simp add: ring_queue_pop_mc_def rq_ready_def claim_head_stuck)
  show ?thesis
    using init [where u = undefined] push [where u = undefined and t = 0 and y = x0 and z = a]
      push [where u = undefined and t = 1 and y = a and z = b]
      full [where u = undefined] pop [where u = undefined] by auto
qed

text \<open>Peek returns the element the next pop removes and leaves the ring and its guards as
  they were; on an empty ring it returns nothing.\<close>

theorem ring_peek_next_pop:
  assumes "ring_inv k q buf" "0 < sz"
  shows "ring_queue_peek (Some q) (Some buf) sz =
    Some (fst (ring_queue_pop (Some q) (Some buf) sz), Some q)"
  using ring_peek_cases [OF assms] ring_pop_cases [OF assms] by simp

theorem ring_peek_next_pop_witness:
  "\<exists>r. ring_queue_init (Some undefined) 2 True True = Some r \<and>
     ring_queue_peek (Some r) (Some [1, 2 :: nat]) 4 = Some (None, Some r)"
proof -
  obtain r where r: "ring_queue_init (Some undefined) (2 ^ 1) True True = Some r"
    "ring_inv 1 r [1, 2 :: nat]" "ring_list r [1, 2 :: nat] = []"
    using ring_init_inv [of 1 "[1, 2 :: nat]" undefined] by auto
  have "rq_len r = 0" using r(3) by (metis length_ring_list list.size(3))
  then have "fst (ring_queue_pop (Some r) (Some [1, 2 :: nat]) 4) = None"
    using ring_pop_cases [OF r(2), of 4] by simp
  with ring_peek_next_pop [OF r(2), of 4] r(1) show ?thesis by simp
qed

end
