(* ===== verification/Size_Class.thy ===== *)
theory Size_Class
  imports Prelude
begin

text \<open>
  The size classes of the pool allocator (\<open>memory_pool.c\<close>): the table of class sizes, the
  two lookup tables built once by \<open>memop_build_size2class\<close> and the constant-time
  \<open>memop_class_index\<close>.  The lemmas show that the table lookup is the linear search for
  the smallest class that fits, and bound what a block wastes.
\<close>

section \<open>The tables\<close>

definition MemClassSizes :: "nat list" where
  "MemClassSizes =
    [16, 32, 48, 64, 80, 96, 112, 128, 160, 192, 224, 256, 320, 384, 448, 512,
     640, 768, 896, 1024, 1280, 1536, 1792, 2048, 2560, 3072, 3584, 4096,
     5120, 6144, 7168, 8192, 10240, 12288, 14336, 16384]"

definition MEMOP_CLASS_COUNT :: nat where
  "MEMOP_CLASS_COUNT = 36"

definition MEMOP_MAX_SMALL :: nat where
  "MEMOP_MAX_SMALL = 16384"

definition memop_align_up :: "w32 \<Rightarrow> w32 \<Rightarrow> w32" where
  "memop_align_up v a = (v + a - 1) AND NOT (a - 1)"

text \<open>The inner \<open>while\<close> loop of \<open>memop_build_size2class\<close>, from class \<open>ci\<close>.\<close>

function class_scan :: "nat \<Rightarrow> nat \<Rightarrow> nat" where
  "class_scan sz ci =
    (if ci < MEMOP_CLASS_COUNT \<and> MemClassSizes ! ci < sz then class_scan sz (ci + 1) else ci)"
  by pat_completeness auto
termination by (relation "measure (\<lambda>(sz, ci). MEMOP_CLASS_COUNT - ci)") auto

declare class_scan.simps [simp del]

record size_tables =
  g_size2class :: "nat list"
  g_class_stride :: "nat list"

definition memop_build_size2class :: size_tables where
  "memop_build_size2class =
    \<lparr>g_size2class = map (\<lambda>idx. class_scan ((idx + 1) * 8) 0 mod 256) [0..<MEMOP_MAX_SMALL div 8],
     g_class_stride = map (\<lambda>ci. unat (memop_align_up (of_nat (MemClassSizes ! ci)) 16)) [0..<MEMOP_CLASS_COUNT]\<rparr>"

definition memop_class_index :: "size_tables \<Rightarrow> nat \<Rightarrow> int" where
  "memop_class_index T sz =
    (if sz = 0 \<or> sz > MEMOP_MAX_SMALL then - 1 else int (g_size2class T ! ((sz - 1) div 8)))"

section \<open>Facts of the tables\<close>

lemma length_MemClassSizes [simp]: "length MemClassSizes = MEMOP_CLASS_COUNT"
  by (simp add: MemClassSizes_def MEMOP_CLASS_COUNT_def)

lemma sorted_MemClassSizes: "sorted_wrt (<) MemClassSizes"
  by (simp add: MemClassSizes_def)

lemma class_size_mod_8: "ci < MEMOP_CLASS_COUNT \<Longrightarrow> MemClassSizes ! ci mod 8 = 0"
proof -
  have "\<forall>s \<in> set MemClassSizes. s mod 8 = 0" by (simp add: MemClassSizes_def)
  then show "ci < MEMOP_CLASS_COUNT \<Longrightarrow> ?thesis" by simp
qed

lemma class_size_max: "MemClassSizes ! 35 = MEMOP_MAX_SMALL"
  by (simp add: MemClassSizes_def MEMOP_MAX_SMALL_def)

text \<open>The stride of a class is its size: every class size is a multiple of 16.\<close>

lemma class_stride_eq: "g_class_stride memop_build_size2class = MemClassSizes"
proof -
  have "map (\<lambda>s. unat (memop_align_up (of_nat s) 16)) MemClassSizes = MemClassSizes"
    by (simp add: MemClassSizes_def memop_align_up_def)
  then have "map (\<lambda>ci. unat (memop_align_up (of_nat (MemClassSizes ! ci)) 16)) [0..<length MemClassSizes]
      = MemClassSizes"
    by (subst (asm) map_nth [of MemClassSizes, symmetric]) (simp add: comp_def)
  then show ?thesis by (simp add: memop_build_size2class_def)
qed

lemma class_gap: "ci + 1 < MEMOP_CLASS_COUNT \<Longrightarrow>
  MemClassSizes ! (ci + 1) \<le> MemClassSizes ! ci + 16 \<or>
  4 * MemClassSizes ! (ci + 1) \<le> 5 * MemClassSizes ! ci"
proof -
  have "\<forall>ci \<in> set [0..<35]. MemClassSizes ! (ci + 1) \<le> MemClassSizes ! ci + 16 \<or>
      4 * MemClassSizes ! (ci + 1) \<le> 5 * MemClassSizes ! ci"
    by (simp add: MemClassSizes_def upt_rec nth_Cons')
  then show "ci + 1 < MEMOP_CLASS_COUNT \<Longrightarrow> ?thesis" by (simp add: MEMOP_CLASS_COUNT_def)
qed

section \<open>The scan finds the first class that fits\<close>

lemma class_scan_all:
  "ci \<le> MEMOP_CLASS_COUNT \<Longrightarrow>
    class_scan sz ci \<le> MEMOP_CLASS_COUNT \<and>
    (class_scan sz ci < MEMOP_CLASS_COUNT \<longrightarrow> sz \<le> MemClassSizes ! class_scan sz ci) \<and>
    (\<forall>j. ci \<le> j \<longrightarrow> j < class_scan sz ci \<longrightarrow> MemClassSizes ! j < sz)"
proof (induction sz ci rule: class_scan.induct)
  case (1 sz ci)
  show ?case
  proof (cases "ci < MEMOP_CLASS_COUNT \<and> MemClassSizes ! ci < sz")
    case True
    then have "class_scan sz ci = class_scan sz (ci + 1)" by (simp add: class_scan.simps [of sz ci])
    moreover have "ci < MEMOP_CLASS_COUNT" "MemClassSizes ! ci < sz" using True by simp_all
    moreover have "MemClassSizes ! j < sz"
      if "ci \<le> j" "j < class_scan sz (ci + 1)" for j
      using "1.IH" [OF True] that True by (cases "j = ci") auto
    ultimately show ?thesis using "1.IH" [OF True] by auto
  next
    case False
    then have "class_scan sz ci = ci" by (subst class_scan.simps) (rule if_not_P)
    with False "1.prems" show ?thesis by auto
  qed
qed

lemma class_scan_spec:
  assumes "ci \<le> MEMOP_CLASS_COUNT"
  shows "class_scan sz ci \<le> MEMOP_CLASS_COUNT"
    "class_scan sz ci < MEMOP_CLASS_COUNT \<Longrightarrow> sz \<le> MemClassSizes ! class_scan sz ci"
    "ci \<le> j \<Longrightarrow> j < class_scan sz ci \<Longrightarrow> MemClassSizes ! j < sz"
  using class_scan_all [OF assms, of sz] by blast+

lemma class_scan_fits:
  assumes "sz \<le> MEMOP_MAX_SMALL"
  shows "class_scan sz 0 < MEMOP_CLASS_COUNT"
proof (rule ccontr)
  assume "\<not> ?thesis"
  then have "35 < class_scan sz 0" by (simp add: MEMOP_CLASS_COUNT_def)
  then have "MemClassSizes ! 35 < sz" by (intro class_scan_spec(3) [where ci = 0]) simp_all
  then show False using assms by (simp add: class_size_max)
qed

lemma round_up_8_le:
  fixes m :: nat
  assumes "m mod 8 = 0" "1 \<le> n"
  shows "((n - 1) div 8 + 1) * 8 \<le> m \<longleftrightarrow> n \<le> m"
proof -
  obtain k where m: "m = 8 * k" using assms(1) by blast
  have "((n - 1) div 8 + 1) * 8 \<le> m \<longleftrightarrow> (n - 1) div 8 < k" by (auto simp: m)
  also have "\<dots> \<longleftrightarrow> n - 1 < k * 8" by (rule div_less_iff_less_mult) simp
  also have "\<dots> \<longleftrightarrow> n \<le> m" using assms(2) by (auto simp: m)
  finally show ?thesis .
qed

lemma size2class_nth:
  assumes "1 \<le> n" "n \<le> MEMOP_MAX_SMALL"
  shows "g_size2class memop_build_size2class ! ((n - 1) div 8) = class_scan (((n - 1) div 8 + 1) * 8) 0"
proof -
  have b: "(n - 1) div 8 < MEMOP_MAX_SMALL div 8"
    using assms by (simp add: MEMOP_MAX_SMALL_def)
  then have "((n - 1) div 8 + 1) * 8 \<le> MEMOP_MAX_SMALL" by (simp add: MEMOP_MAX_SMALL_def)
  then have "class_scan (((n - 1) div 8 + 1) * 8) 0 < 256"
    by (rule order_less_trans [OF class_scan_fits]) (simp add: MEMOP_CLASS_COUNT_def)
  with b show ?thesis by (simp add: memop_build_size2class_def)
qed

lemma class_index_cases:
  assumes "1 \<le> n" "n \<le> MEMOP_MAX_SMALL"
  obtains c where "memop_class_index memop_build_size2class n = int c" "c < MEMOP_CLASS_COUNT"
    "n \<le> MemClassSizes ! c" "\<And>j. j < c \<Longrightarrow> MemClassSizes ! j < n"
proof -
  define r where "r = ((n - 1) div 8 + 1) * 8"
  define c where "c = class_scan r 0"
  have r: "r \<le> MEMOP_MAX_SMALL"
    using assms by (simp add: r_def MEMOP_MAX_SMALL_def)
  have c: "c < MEMOP_CLASS_COUNT"
    unfolding c_def using r by (rule class_scan_fits)
  have "memop_class_index memop_build_size2class n = int c"
    using assms size2class_nth [OF assms] by (simp add: memop_class_index_def c_def r_def)
  moreover have "n \<le> MemClassSizes ! c"
    using class_scan_spec(2) [where ci = 0 and sz = r] c round_up_8_le [OF class_size_mod_8 [OF c] assms(1)]
    by (simp add: c_def r_def)
  moreover have "MemClassSizes ! j < n" if "j < c" for j
  proof -
    have "MemClassSizes ! j < r"
      using class_scan_spec(3) [where ci = 0 and j = j and sz = r] that by (simp add: c_def)
    moreover have "j < MEMOP_CLASS_COUNT" using that c by simp
    ultimately show ?thesis
      using round_up_8_le [OF class_size_mod_8 assms(1), of j] by (simp add: r_def)
  qed
  ultimately show thesis using c that by blast
qed

lemma class_index_large: "MEMOP_MAX_SMALL < n \<Longrightarrow> memop_class_index T n = - 1"
  by (simp add: memop_class_index_def)

lemma class_index_zero: "memop_class_index T 0 = - 1"
  by (simp add: memop_class_index_def)

text \<open>C22: the constant-time class lookup is the linear search: for every size from 1 to the
  small limit it yields the smallest class whose blocks hold the size, and it rejects every
  other size.\<close>

theorem class_index_smallest_fit:
  "(if n = 0 \<or> MEMOP_MAX_SMALL < n then memop_class_index memop_build_size2class n = - 1
    else \<exists>c. memop_class_index memop_build_size2class n = int c \<and> c < MEMOP_CLASS_COUNT \<and>
           n \<le> g_class_stride memop_build_size2class ! c \<and>
           list_all (\<lambda>s. s < n) (take c (g_class_stride memop_build_size2class)))"
proof (cases "n = 0 \<or> MEMOP_MAX_SMALL < n")
  case True
  then show ?thesis by (auto simp: class_index_zero class_index_large)
next
  case False
  then obtain c where "memop_class_index memop_build_size2class n = int c" "c < MEMOP_CLASS_COUNT"
    "n \<le> MemClassSizes ! c" "\<And>j. j < c \<Longrightarrow> MemClassSizes ! j < n"
    using class_index_cases [of n] by (metis One_nat_def Suc_leI gr_zeroI not_less)
  with False show ?thesis
    by (auto simp: class_stride_eq list_all_length)
qed

lemma class_waste:
  assumes "1 \<le> n" "n \<le> MEMOP_MAX_SMALL" "memop_class_index memop_build_size2class n = int c"
  shows "n \<le> MemClassSizes ! c" "MemClassSizes ! c \<le> n + 15 \<or> 4 * (MemClassSizes ! c) \<le> 5 * n"
proof -
  obtain d where d: "memop_class_index memop_build_size2class n = int d" "d < MEMOP_CLASS_COUNT"
    "n \<le> MemClassSizes ! d" "\<And>j. j < d \<Longrightarrow> MemClassSizes ! j < n"
    using class_index_cases [OF assms(1,2)] by metis
  with assms(3) have [simp]: "d = c" by simp
  show "n \<le> MemClassSizes ! c" using d by simp
  show "MemClassSizes ! c \<le> n + 15 \<or> 4 * (MemClassSizes ! c) \<le> 5 * n"
  proof (cases c)
    case 0
    then show ?thesis using assms(1) by (simp add: MemClassSizes_def)
  next
    case (Suc j)
    then show ?thesis using d(2) d(4) [of j] class_gap [of j] by auto
  qed
qed

text \<open>Internal fragmentation: a block handed out for a request of \<open>n\<close> bytes is at most
  15 bytes or a quarter of the request larger than the request.\<close>

theorem class_waste_bound:
  assumes "1 \<le> n" "n \<le> MEMOP_MAX_SMALL"
  shows "let s = g_class_stride memop_build_size2class ! nat (memop_class_index memop_build_size2class n)
         in n \<le> s \<and> (s \<le> n + 15 \<or> 4 * s \<le> 5 * n)"
proof -
  obtain c where "memop_class_index memop_build_size2class n = int c"
    using class_index_cases [OF assms] by metis
  then show ?thesis
    using class_waste [OF assms, of c] by (simp add: class_stride_eq Let_def)
qed

theorem class_waste_bound_witness:
  "let s = g_class_stride memop_build_size2class ! nat (memop_class_index memop_build_size2class 129)
   in 129 \<le> s \<and> (s \<le> 129 + 15 \<or> 4 * s \<le> 5 * 129)"
  using class_waste_bound [of 129] by (simp add: MEMOP_MAX_SMALL_def)

end
