(* ===== verification/Chunk_Cache.thy ===== *)
theory Chunk_Cache
  imports Prelude
begin

text \<open>
  The lower half of \<open>memory_pool.c\<close>: pages from the operating system, 4 MB segments
  cut into 64 chunks of 64 KB, the per-thread and the global cache of empty chunks, and the
  delayed purge that gives idle segments back.

  The operating system is the argument \<open>mmap\<close>: its answer to a request given the history
  of earlier calls, newest first; \<open>mmap_law\<close> states what \<open>mmap\<close> promises.  The
  history is the field \<open>os_log\<close> and the bytes it leaves mapped are \<open>mapped\<close>.
  The clock is the field \<open>clk\<close>.  The singly linked lists of chunks threaded through the
  first word of each chunk are lists of chunk addresses; the write of that word is kept, in
  \<open>mem_bytes\<close>, because a live block must never be hit by it.  The counters
  \<open>cache_count\<close>, \<open>live\<close> and \<open>next_chunk\<close> are not reduced to 32 bits:
  each is bounded by the number of 64 KB chunks of a 47-bit address space.
\<close>

section \<open>Memory\<close>

type_synonym bytes = "addr \<Rightarrow> 8 word"

abbreviation (input) SPAN_SIZE :: nat where "SPAN_SIZE \<equiv> 65536"
abbreviation (input) SPAN_HEADER :: nat where "SPAN_HEADER \<equiv> 64"
abbreviation (input) SEG_SPANS :: nat where "SEG_SPANS \<equiv> 64"
abbreviation (input) SEG_SIZE :: nat where "SEG_SIZE \<equiv> 4194304"
abbreviation (input) HEAP_CACHE_MAX :: int where "HEAP_CACHE_MAX \<equiv> 64"
abbreviation (input) PURGE_DELAY_MS :: int where "PURGE_DELAY_MS \<equiv> 500"
abbreviation (input) PURGE_PERIOD_MS :: int where "PURGE_PERIOD_MS \<equiv> 100"
abbreviation (input) PURGE_HIGH :: int where "PURGE_HIGH \<equiv> 1024"
abbreviation (input) PURGE_LOW :: int where "PURGE_LOW \<equiv> 512"

definition write_ptr :: "addr \<Rightarrow> addr \<Rightarrow> bytes \<Rightarrow> bytes" where
  "write_ptr a v mem = (\<lambda>x. if a \<le> x \<and> x < a + 8 then of_nat (v div 256 ^ (x - a)) else mem x)"

definition memcpy_bytes :: "addr \<Rightarrow> addr \<Rightarrow> nat \<Rightarrow> bytes \<Rightarrow> bytes" where
  "memcpy_bytes dst src n mem = (\<lambda>x. if dst \<le> x \<and> x < dst + n then mem (src + (x - dst)) else mem x)"

definition memset_bytes :: "addr \<Rightarrow> 8 word \<Rightarrow> nat \<Rightarrow> bytes \<Rightarrow> bytes" where
  "memset_bytes dst v n mem = (\<lambda>x. if dst \<le> x \<and> x < dst + n then v else mem x)"

definition list_link :: "addr list \<Rightarrow> addr" where
  "list_link xs = (case xs of [] \<Rightarrow> 0 | x # _ \<Rightarrow> x)"

definition same_at :: "addr set \<Rightarrow> bytes \<Rightarrow> bytes \<Rightarrow> bool" where
  "same_at A m m' \<longleftrightarrow> (\<forall>x \<in> A. m' x = m x)"

lemma same_at_refl [simp]: "same_at A m m"
  by (simp add: same_at_def)

lemma same_at_trans: "same_at A m m' \<Longrightarrow> same_at A m' m'' \<Longrightarrow> same_at A m m''"
  by (simp add: same_at_def)

lemma same_at_mono: "same_at B m m' \<Longrightarrow> A \<subseteq> B \<Longrightarrow> same_at A m m'"
  by (auto simp: same_at_def)

lemma same_at_write_ptr: "A \<inter> {a..<a + 8} = {} \<Longrightarrow> same_at A m (write_ptr a v m)"
  by (auto simp: same_at_def write_ptr_def)

lemma same_at_memcpy: "A \<inter> {d..<d + n} = {} \<Longrightarrow> same_at A m (memcpy_bytes d s n m)"
  by (auto simp: same_at_def memcpy_bytes_def)

lemma same_at_memset: "A \<inter> {d..<d + n} = {} \<Longrightarrow> same_at A m (memset_bytes d v n m)"
  by (auto simp: same_at_def memset_bytes_def)

section \<open>The operating system\<close>

datatype os_event = Mmap addr nat | Munmap addr nat

type_synonym os_mmap = "os_event list \<Rightarrow> nat \<Rightarrow> addr option"

primrec mapped :: "os_event list \<Rightarrow> addr set" where
  "mapped [] = {}"
| "mapped (e # log) = (case e of
     Mmap a n \<Rightarrow> mapped log \<union> {a..<a + n}
   | Munmap a n \<Rightarrow> mapped log - {a..<a + n})"

definition mmap_law :: "os_mmap \<Rightarrow> bool" where
  "mmap_law mmap \<longleftrightarrow> (\<forall>log n a. mmap log n = Some a \<longrightarrow>
     0 < n \<and> 4096 \<le> a \<and> a mod 4096 = 0 \<and> a + n \<le> 2 ^ 47 \<and> mapped log \<inter> {a..<a + n} = {})"

text \<open>An operating system that hands out ever higher addresses, for the witnesses.\<close>

primrec os_top :: "os_event list \<Rightarrow> nat" where
  "os_top [] = 4096"
| "os_top (e # log) = (case e of Mmap a n \<Rightarrow> max (os_top log) ((a + n + 4095) div 4096 * 4096) | Munmap a n \<Rightarrow> os_top log)"

definition bump_mmap :: os_mmap where
  "bump_mmap log n = (if 0 < n \<and> os_top log + n \<le> 2 ^ 47 then Some (os_top log) else None)"

lemma os_top_bounds: "4096 \<le> os_top log \<and> os_top log mod 4096 = 0 \<and> (\<forall>x \<in> mapped log. x < os_top log)"
proof (induction log)
  case (Cons e log)
  show ?case
  proof (cases e)
    case (Mmap a n)
    have "a + n \<le> (a + n + 4095) div 4096 * 4096" by simp
    with Cons Mmap show ?thesis by (auto simp: max_def split: if_splits)
  next
    case (Munmap a n)
    with Cons show ?thesis by auto
  qed
qed simp

lemma bump_mmap_law: "mmap_law bump_mmap"
  using os_top_bounds by (fastforce simp: mmap_law_def bump_mmap_def split: if_splits)

text \<open>\<open>round_up\<close> is \<open>(x + (a - 1)) & ~(a - 1)\<close> for a power of two \<open>a\<close>.\<close>

definition round_up :: "nat \<Rightarrow> nat \<Rightarrow> nat" where
  "round_up x a = (x + (a - 1)) div a * a"

text \<open>The Linux paths: over-map, then unmap the two ends.\<close>

definition trim_map :: "addr \<Rightarrow> nat \<Rightarrow> nat \<Rightarrow> nat \<Rightarrow> os_event list \<Rightarrow> addr \<times> os_event list" where
  "trim_map raw over sz align log =
    (let base = round_up raw align;
         pre = base - raw;
         post = over - pre - sz;
         log1 = (if pre \<noteq> 0 then Munmap raw pre # log else log);
         log2 = (if post \<noteq> 0 then Munmap (base + sz) post # log1 else log1)
     in (base, log2))"

definition span_os_alloc :: "os_mmap \<Rightarrow> nat \<Rightarrow> os_event list \<Rightarrow> addr option \<times> os_event list" where
  "span_os_alloc mmap sz log =
    (let over = (sz + SPAN_SIZE) mod 2 ^ 64 in
     case mmap log over of
       None \<Rightarrow> (None, log)
     | Some raw \<Rightarrow> (case trim_map raw over sz SPAN_SIZE (Mmap raw over # log) of (base, log') \<Rightarrow> (Some base, log')))"

definition span_os_free :: "addr \<Rightarrow> nat \<Rightarrow> os_event list \<Rightarrow> os_event list" where
  "span_os_free p sz log = Munmap p sz # log"

definition seg_os_alloc :: "os_mmap \<Rightarrow> os_event list \<Rightarrow> addr option \<times> os_event list" where
  "seg_os_alloc mmap log =
    (let over = SEG_SIZE * 2 in
     case mmap log over of
       None \<Rightarrow> (None, log)
     | Some raw \<Rightarrow> (case trim_map raw over SEG_SIZE SEG_SIZE (Mmap raw over # log) of (base, log') \<Rightarrow> (Some base, log')))"

lemma round_up_props:
  assumes "0 < a"
  shows "x \<le> round_up x a" "round_up x a < x + a" "round_up x a mod a = 0"
proof -
  have "(x + (a - 1)) div a * a + (x + (a - 1)) mod a = x + (a - 1)" by (rule div_mult_mod_eq)
  moreover have "(x + (a - 1)) mod a < a" using assms by simp
  ultimately show "x \<le> round_up x a" "round_up x a < x + a"
    unfolding round_up_def using assms by linarith+
  show "round_up x a mod a = 0" by (simp add: round_up_def)
qed

lemma trim_map_mapped:
  assumes "0 < align" "over = sz + align" "mapped log \<inter> {raw..<raw + over} = {}"
    "trim_map raw over sz align (Mmap raw over # log) = (base, log')"
  shows "base mod align = 0" "raw \<le> base" "base + sz \<le> raw + over"
    "mapped log' = mapped log \<union> {base..<base + sz}"
proof -
  have b: "base = round_up raw align"
    using assms(4) by (simp add: trim_map_def Let_def)
  note r = round_up_props [OF assms(1), of raw, folded b]
  show "base mod align = 0" "raw \<le> base" using r by auto
  show "base + sz \<le> raw + over" using r assms(2) by simp
  define log1 where "log1 = (if base - raw \<noteq> 0 then Munmap raw (base - raw) # Mmap raw over # log else Mmap raw over # log)"
  define post where "post = over - (base - raw) - sz"
  have l: "log' = (if post \<noteq> 0 then Munmap (base + sz) post # log1 else log1)"
    using assms(4) unfolding trim_map_def Let_def b [symmetric] log1_def post_def by simp
  have e: "raw \<le> base" "base + sz + post = raw + over" "raw + (base - raw) = base"
    using r assms(2) by (simp_all add: post_def)
  have "mapped log1 = (mapped log \<union> {raw..<raw + over}) - {raw..<base}"
    using e(1,3) by (simp add: log1_def)
  moreover have "mapped log' = mapped log1 - {base + sz..<raw + over}"
    using e(2) by (simp add: l)
  moreover have "{raw..<raw + over} = {raw..<base} \<union> {base..<base + sz} \<union> {base + sz..<raw + over}"
    using e(1,2) by auto
  moreover have "{raw..<base} \<inter> {base..<base + sz} = {}" "{base..<base + sz} \<inter> {base + sz..<raw + over} = {}"
    by auto
  ultimately show "mapped log' = mapped log \<union> {base..<base + sz}"
    using assms(3) by blast
qed

lemma seg_os_alloc_some:
  assumes "mmap_law mmap" "seg_os_alloc mmap log = (Some base, log')"
  shows "base mod SEG_SIZE = 0" "0 < base" "mapped log' = mapped log \<union> {base..<base + SEG_SIZE}"
    "mapped log \<inter> {base..<base + SEG_SIZE} = {}" "base + SEG_SIZE \<le> 2 ^ 47"
proof -
  obtain raw where raw: "mmap log (SEG_SIZE * 2) = Some raw"
    and t: "trim_map raw (SEG_SIZE * 2) SEG_SIZE SEG_SIZE (Mmap raw (SEG_SIZE * 2) # log) = (base, log')"
    using assms(2) by (auto simp: seg_os_alloc_def Let_def split: option.splits prod.splits)
  have l: "4096 \<le> raw" "raw + SEG_SIZE * 2 \<le> 2 ^ 47" "mapped log \<inter> {raw..<raw + SEG_SIZE * 2} = {}"
    using assms(1) raw by (auto simp: mmap_law_def)
  note m = trim_map_mapped [OF _ _ l(3) t, simplified]
  show "base mod SEG_SIZE = 0" "mapped log' = mapped log \<union> {base..<base + SEG_SIZE}" using m by auto
  show "0 < base" "base + SEG_SIZE \<le> 2 ^ 47" using m l by simp_all
  have "{base..<base + SEG_SIZE} \<subseteq> {raw..<raw + SEG_SIZE * 2}" using m by auto
  then show "mapped log \<inter> {base..<base + SEG_SIZE} = {}" using l(3) by blast
qed

lemma seg_os_alloc_none: "seg_os_alloc mmap log = (None, log') \<Longrightarrow> log' = log"
  by (auto simp: seg_os_alloc_def Let_def split: option.splits prod.splits)

lemma span_os_alloc_some:
  assumes "mmap_law mmap" "span_os_alloc mmap sz log = (Some base, log')" "sz + SPAN_SIZE < 2 ^ 64"
  shows "base mod SPAN_SIZE = 0" "0 < base" "mapped log' = mapped log \<union> {base..<base + sz}"
    "mapped log \<inter> {base..<base + sz} = {}" "base + sz \<le> 2 ^ 47"
proof -
  let ?o = "sz + SPAN_SIZE"
  have o: "?o mod 2 ^ 64 = ?o" using assms(3) by (rule mod_less)
  obtain raw where raw: "mmap log ?o = Some raw"
    and t: "trim_map raw ?o sz SPAN_SIZE (Mmap raw ?o # log) = (base, log')"
    using assms(2) unfolding span_os_alloc_def Let_def o by (auto split: option.splits prod.splits)
  have l: "4096 \<le> raw" "raw + ?o \<le> 2 ^ 47" "mapped log \<inter> {raw..<raw + ?o} = {}"
    using assms(1) raw by (auto simp: mmap_law_def)
  note m = trim_map_mapped [OF _ _ l(3) t, simplified]
  show "base mod SPAN_SIZE = 0" "mapped log' = mapped log \<union> {base..<base + sz}" using m by auto
  show "0 < base" "base + sz \<le> 2 ^ 47" using m l by simp_all
  have "{base..<base + sz} \<subseteq> {raw..<raw + ?o}" using m by auto
  then show "mapped log \<inter> {base..<base + sz} = {}" using l(3) by blast
qed

lemma span_os_alloc_none: "span_os_alloc mmap sz log = (None, log') \<Longrightarrow> log' = log"
  by (auto simp: span_os_alloc_def Let_def split: option.splits prod.splits)

section \<open>Segments and the caches\<close>

record MemSegment =
  seg_base :: addr
  next_chunk :: nat
  live :: nat
  idle_since :: int
  doomed :: nat

record HeapCache =
  local_cache :: "addr list"
  local_count :: int

record ChunkPool =
  span_cache :: "addr list"
  cache_count :: int
  segments :: "MemSegment list"
  cache_avg :: int
  purging :: bool
  last_purge_ms :: int
  purge_count :: nat
  os_log :: "os_event list"
  clk :: int
  mem_bytes :: bytes

definition seg_of :: "addr \<Rightarrow> addr" where
  "seg_of p = p div SEG_SIZE * SEG_SIZE"

definition upd_seg :: "addr \<Rightarrow> (MemSegment \<Rightarrow> MemSegment) \<Rightarrow> MemSegment list \<Rightarrow> MemSegment list" where
  "upd_seg b f ss = map (\<lambda>s. if seg_base s = b then f s else s) ss"

text \<open>\<open>chunk_acquire\<close>: the lock-free path through the heap's own cache, then, under the
  lock, the global cache, the bump of the newest segment and a new segment.\<close>

definition chunk_new_segment :: "os_mmap \<Rightarrow> 'p ChunkPool_scheme \<Rightarrow> addr option \<times> 'p ChunkPool_scheme" where
  "chunk_new_segment mmap G =
    (case seg_os_alloc mmap (os_log G) of
       (None, log) \<Rightarrow> (None, G\<lparr>os_log := log\<rparr>)
     | (Some seg, log) \<Rightarrow>
         (Some (seg + SPAN_SIZE),
          G\<lparr>os_log := log,
            segments := \<lparr>seg_base = seg, next_chunk = 2, live = 1, idle_since = 0, doomed = 0\<rparr> # segments G\<rparr>))"

definition chunk_acquire_global :: "os_mmap \<Rightarrow> 'p ChunkPool_scheme \<Rightarrow> addr option \<times> 'p ChunkPool_scheme" where
  "chunk_acquire_global mmap G =
    (case span_cache G of
       mem # rest \<Rightarrow>
         (Some mem, G\<lparr>span_cache := rest, cache_count := cache_count G - 1,
            segments := upd_seg (seg_of mem) (\<lambda>s. s\<lparr>live := live s + 1\<rparr>) (segments G)\<rparr>)
     | [] \<Rightarrow>
         (case segments G of
            s # ss \<Rightarrow>
              if next_chunk s < SEG_SPANS then
                (Some (seg_base s + next_chunk s * SPAN_SIZE),
                 G\<lparr>segments := s\<lparr>next_chunk := next_chunk s + 1, live := live s + 1\<rparr> # ss\<rparr>)
              else chunk_new_segment mmap G
          | [] \<Rightarrow> chunk_new_segment mmap G))"

definition chunk_acquire ::
    "os_mmap \<Rightarrow> ('h HeapCache_scheme) option \<Rightarrow> 'p ChunkPool_scheme \<Rightarrow>
     addr option \<times> ('h HeapCache_scheme) option \<times> 'p ChunkPool_scheme" where
  "chunk_acquire mmap heap G =
    (case heap of
       Some h \<Rightarrow>
         (case local_cache h of
            mem # rest \<Rightarrow> (Some mem, Some (h\<lparr>local_cache := rest, local_count := local_count h - 1\<rparr>), G)
          | [] \<Rightarrow> (case chunk_acquire_global mmap G of (r, G') \<Rightarrow> (r, heap, G')))
     | None \<Rightarrow> (case chunk_acquire_global mmap G of (r, G') \<Rightarrow> (r, heap, G')))"

section \<open>Purge\<close>

text \<open>The first pass of \<open>purge_apply_locked\<close> over the segments from the cursor on: the
  segments kept and the condemned ones (last condemned first).\<close>

fun purge_condemn ::
    "int \<Rightarrow> bool \<Rightarrow> int \<Rightarrow> MemSegment list \<Rightarrow> MemSegment list \<Rightarrow> MemSegment list \<times> MemSegment list" where
  "purge_condemn now force target [] dm = ([], dm)"
| "purge_condemn now force target (s # ss) dm =
    (if force \<or> target > 0 then
       (if live s = 0 \<and> (force \<or> u64 (now - idle_since s) \<ge> PURGE_DELAY_MS) then
          purge_condemn now force (if force then target else target - (int (next_chunk s) - 1)) ss
            (s\<lparr>doomed := 1\<rparr> # dm)
        else (case purge_condemn now force target ss dm of (kept, d) \<Rightarrow> (s # kept, d)))
     else (s # ss, dm))"

definition seg_doomed :: "MemSegment list \<Rightarrow> addr \<Rightarrow> bool" where
  "seg_doomed ss c = list_ex (\<lambda>s. seg_base s = seg_of c \<and> doomed s \<noteq> 0) ss"

text \<open>The second pass: the links that skip the chunks taken out are rewritten in place.\<close>

fun purge_extract :: "MemSegment list \<Rightarrow> addr option \<Rightarrow> addr list \<Rightarrow> int \<Rightarrow> bytes \<Rightarrow> addr list \<times> int \<times> bytes" where
  "purge_extract ss link [] cnt mem = ([], cnt, mem)"
| "purge_extract ss link (c # cs) cnt mem =
    (if seg_doomed ss c then
       purge_extract ss link cs (cnt - 1)
         (case link of None \<Rightarrow> mem | Some l \<Rightarrow> write_ptr l (list_link cs) mem)
     else (case purge_extract ss (Some c) cs cnt mem of (kept, r) \<Rightarrow> (c # kept, r)))"

fun purge_unmap :: "MemSegment list \<Rightarrow> os_event list \<Rightarrow> nat \<Rightarrow> os_event list \<times> nat" where
  "purge_unmap [] log n = (log, n)"
| "purge_unmap (s # ss) log n = purge_unmap ss (span_os_free (seg_base s) SEG_SIZE log) (n + 1)"

definition purge_apply_locked :: "int \<Rightarrow> bool \<Rightarrow> int \<Rightarrow> 'p ChunkPool_scheme \<Rightarrow> 'p ChunkPool_scheme" where
  "purge_apply_locked now force target G =
    (case purge_condemn now force target (segments G) [] of (kept, dm) \<Rightarrow>
       if dm = [] then G\<lparr>segments := kept\<rparr>
       else (case purge_extract (kept @ dm) None (span_cache G) (cache_count G) (mem_bytes G) of (cache, cnt, mem) \<Rightarrow>
             (case purge_unmap dm (os_log G) (purge_count G) of (log, n) \<Rightarrow>
               G\<lparr>segments := kept, span_cache := cache, cache_count := cnt, mem_bytes := mem,
                 os_log := log, purge_count := n\<rparr>)))"

definition memop_purge_locked :: "int \<Rightarrow> 'p ChunkPool_scheme \<Rightarrow> 'p ChunkPool_scheme" where
  "memop_purge_locked now G =
    (if u64 (now - last_purge_ms G) < PURGE_PERIOD_MS then G
     else
       let G1 = G\<lparr>last_purge_ms := now\<rparr>;
           G2 = G1\<lparr>cache_avg := i32 (cache_avg G1 + c_div (i32 (cache_count G1 - cache_avg G1)) 4)\<rparr>;
           go = (\<lambda>G. let target = i32 (cache_count G - PURGE_LOW) in
                  if target > 0 then purge_apply_locked now False target G else G)
       in if \<not> purging G2
          then (if cache_avg G2 > PURGE_HIGH then go (G2\<lparr>purging := True\<rparr>) else G2)
          else (if cache_avg G2 < PURGE_LOW then G2\<lparr>purging := False\<rparr> else go G2))"

section \<open>Release\<close>

definition chunk_release_global :: "addr \<Rightarrow> 'p ChunkPool_scheme \<Rightarrow> 'p ChunkPool_scheme" where
  "chunk_release_global mem G =
    (let G1 = G\<lparr>mem_bytes := write_ptr mem (list_link (span_cache G)) (mem_bytes G),
               span_cache := mem # span_cache G, cache_count := cache_count G + 1,
               segments := upd_seg (seg_of mem) (\<lambda>s. if live s > 0 then s\<lparr>live := live s - 1\<rparr> else s) (segments G)\<rparr>
     in if list_ex (\<lambda>s. seg_base s = seg_of mem \<and> live s = 0) (segments G1)
        then memop_purge_locked (clk G1)
               (G1\<lparr>segments := upd_seg (seg_of mem) (\<lambda>s. s\<lparr>idle_since := clk G1\<rparr>) (segments G1)\<rparr>)
        else G1)"

definition chunk_release ::
    "('h HeapCache_scheme) option \<Rightarrow> addr \<Rightarrow> 'p ChunkPool_scheme \<Rightarrow>
     ('h HeapCache_scheme) option \<times> 'p ChunkPool_scheme" where
  "chunk_release heap mem G =
    (case heap of
       Some h \<Rightarrow>
         if local_count h < HEAP_CACHE_MAX then
           (Some (h\<lparr>local_cache := mem # local_cache h, local_count := local_count h + 1\<rparr>),
            G\<lparr>mem_bytes := write_ptr mem (list_link (local_cache h)) (mem_bytes G)\<rparr>)
         else (heap, chunk_release_global mem G)
     | None \<Rightarrow> (None, chunk_release_global mem G))"

fun release_all :: "addr list \<Rightarrow> 'p ChunkPool_scheme \<Rightarrow> 'p ChunkPool_scheme" where
  "release_all [] G = G"
| "release_all (mem # rest) G = release_all rest (chunk_release_global mem G)"

definition chunk_local_to_global ::
    "'h HeapCache_scheme \<Rightarrow> 'p ChunkPool_scheme \<Rightarrow> 'h HeapCache_scheme \<times> 'p ChunkPool_scheme" where
  "chunk_local_to_global h G =
    (h\<lparr>local_cache := [], local_count := 0\<rparr>, release_all (local_cache h) G)"

fun free_segments :: "MemSegment list \<Rightarrow> os_event list \<Rightarrow> os_event list" where
  "free_segments [] log = log"
| "free_segments (s # ss) log = free_segments ss (span_os_free (seg_base s) SEG_SIZE log)"

definition segments_free_all :: "'p ChunkPool_scheme \<Rightarrow> 'p ChunkPool_scheme" where
  "segments_free_all G =
    G\<lparr>segments := [], span_cache := [], cache_count := 0, os_log := free_segments (segments G) (os_log G)\<rparr>"

section \<open>The invariant\<close>

text \<open>\<open>chunks_inv G out X\<close>: \<open>out\<close> is the set of chunks handed out and not in the
  global cache; \<open>X\<close> are the mapped regions obtained directly from the system.  The
  chunks cut so far from the segments are exactly those out and those in the global cache;
  each segment's \<open>live\<close> counts its chunks that are out; every segment is mapped.\<close>

definition seg_chunks :: "MemSegment \<Rightarrow> addr set" where
  "seg_chunks s = {c. \<exists>i. 1 \<le> i \<and> i < next_chunk s \<and> c = seg_base s + i * SPAN_SIZE}"

definition seg_ok :: "MemSegment \<Rightarrow> bool" where
  "seg_ok s \<longleftrightarrow> seg_base s mod SEG_SIZE = 0 \<and> 0 < seg_base s \<and> 1 \<le> next_chunk s \<and>
     next_chunk s \<le> SEG_SPANS \<and> doomed s = 0"

definition region :: "addr \<Rightarrow> nat \<Rightarrow> addr set" where
  "region b n = {b..<b + n}"

definition regions_inv :: "MemSegment list \<Rightarrow> os_event list \<Rightarrow> (addr \<times> nat) set \<Rightarrow> bool" where
  "regions_inv ss log X \<longleftrightarrow>
     (\<forall>s \<in> set ss. region (seg_base s) SEG_SIZE \<subseteq> mapped log) \<and>
     (\<forall>b n. (b, n) \<in> X \<longrightarrow> region b n \<subseteq> mapped log) \<and>
     (\<forall>b n. (b, n) \<in> X \<longrightarrow> (\<forall>s \<in> set ss. region b n \<inter> region (seg_base s) SEG_SIZE = {})) \<and>
     (\<forall>b n b' n'. (b, n) \<in> X \<longrightarrow> (b', n') \<in> X \<longrightarrow> (b, n) \<noteq> (b', n') \<longrightarrow>
        region b n \<inter> region b' n' = {})"

definition out_count :: "addr set \<Rightarrow> addr \<Rightarrow> nat" where
  "out_count out b = card {c \<in> out. seg_of c = b}"

definition chunks_inv :: "'p ChunkPool_scheme \<Rightarrow> addr set \<Rightarrow> (addr \<times> nat) set \<Rightarrow> bool" where
  "chunks_inv G out X \<longleftrightarrow>
     (\<forall>s \<in> set (segments G). seg_ok s) \<and>
     distinct (map seg_base (segments G)) \<and>
     distinct (span_cache G) \<and>
     cache_count G = int (length (span_cache G)) \<and>
     out \<inter> set (span_cache G) = {} \<and>
     out \<union> set (span_cache G) = (\<Union>s \<in> set (segments G). seg_chunks s) \<and>
     (\<forall>s \<in> set (segments G). live s = out_count out (seg_base s)) \<and>
     regions_inv (segments G) (os_log G) X"

lemma finite_seg_chunks [simp]: "finite (seg_chunks s)"
proof -
  have "seg_chunks s \<subseteq> (\<lambda>i. seg_base s + i * SPAN_SIZE) ` {..<next_chunk s}"
    by (auto simp: seg_chunks_def)
  then show ?thesis by (rule finite_subset) simp
qed

lemma seg_of_chunk:
  assumes "seg_ok s" "c \<in> seg_chunks s"
  shows "seg_of c = seg_base s" "c mod SPAN_SIZE = 0" "seg_base s < c" "c + SPAN_SIZE \<le> seg_base s + SEG_SIZE"
proof -
  obtain i where i: "1 \<le> i" "i < next_chunk s" "c = seg_base s + i * SPAN_SIZE"
    using assms(2) by (auto simp: seg_chunks_def)
  have "i < 64" using i(2) assms(1) by (simp add: seg_ok_def)
  obtain k where k: "seg_base s = SEG_SIZE * k"
    using assms(1) by (auto simp: seg_ok_def)
  have "c = i * 65536 + k * SEG_SIZE" using i k by simp
  then have "c div SEG_SIZE = k" using \<open>i < 64\<close> by (simp add: div_mult_self1)
  then show "seg_of c = seg_base s" by (simp add: seg_of_def k)
  have "c = (64 * k + i) * 65536" using i k by simp
  then show "c mod SPAN_SIZE = 0" by (metis mod_mult_self2_is_0)
  show "seg_base s < c" "c + SPAN_SIZE \<le> seg_base s + SEG_SIZE"
    using i \<open>i < 64\<close> by simp_all
qed

lemma chunks_inv_finite: "chunks_inv G out X \<Longrightarrow> finite out"
  unfolding chunks_inv_def by (metis List.finite_set finite_UN_I finite_Un finite_seg_chunks)

lemma chunks_inv_chunk:
  assumes "chunks_inv G out X" "c \<in> out \<union> set (span_cache G)"
  obtains s where "s \<in> set (segments G)" "c \<in> seg_chunks s" "seg_ok s" "seg_of c = seg_base s"
    "c mod SPAN_SIZE = 0" "0 < c" "region c SPAN_SIZE \<subseteq> region (seg_base s) SEG_SIZE"
    "region c SPAN_SIZE \<subseteq> mapped (os_log G)"
proof -
  obtain s where s: "s \<in> set (segments G)" "c \<in> seg_chunks s" "seg_ok s"
    using assms unfolding chunks_inv_def by blast
  note f = seg_of_chunk [OF s(3,2)]
  have r: "region c SPAN_SIZE \<subseteq> region (seg_base s) SEG_SIZE" using f(3,4) by (auto simp: region_def)
  moreover have "region (seg_base s) SEG_SIZE \<subseteq> mapped (os_log G)"
    using assms(1) s(1) by (auto simp: chunks_inv_def regions_inv_def)
  moreover have "0 < c" using f(3) by simp
  ultimately show thesis using that [OF s(1,2,3) f(1,2)] by blast
qed

lemma chunks_inv_region_disjoint:
  assumes "chunks_inv G out X" "c \<in> out \<union> set (span_cache G)" "(b, n) \<in> X"
  shows "region c SPAN_SIZE \<inter> region b n = {}"
proof -
  obtain s where "s \<in> set (segments G)" "region c SPAN_SIZE \<subseteq> region (seg_base s) SEG_SIZE"
    using chunks_inv_chunk [OF assms(1,2)] by metis
  moreover have "region b n \<inter> region (seg_base s) SEG_SIZE = {}" if "s \<in> set (segments G)" for s
    using assms(1,3) that unfolding chunks_inv_def regions_inv_def by blast
  ultimately show ?thesis by blast
qed

lemma aligned_disjoint:
  fixes c c' n :: nat
  assumes "c mod n = 0" "c' mod n = 0" "c \<noteq> c'"
  shows "region c n \<inter> region c' n = {}"
proof (rule ccontr)
  assume "\<not> ?thesis"
  then have "\<exists>x. x \<in> region c n \<and> x \<in> region c' n" by blast
  then obtain x where x: "c \<le> x" "x < c + n" "c' \<le> x" "x < c' + n" by (auto simp only: region_def atLeastLessThan_iff)
  obtain k k' where k: "c = n * k" "c' = n * k'" using assms(1,2) by (metis dvdE mod_eq_0_iff_dvd)
  then have "0 < n" using x(2) assms(3) by (cases n) auto
  have "x div n = k" "x div n = k'"
    using x k by (metis div_nat_eqI mult.commute mult_Suc_right add.commute mult_Suc)+
  with k assms(3) show False by simp
qed

section \<open>Acquiring keeps the invariant\<close>

lemma map_seg_base_upd [simp]:
  "(\<And>s. seg_base (f s) = seg_base s) \<Longrightarrow> map seg_base (upd_seg b f ss) = map seg_base ss"
  by (simp add: upd_seg_def)

lemma set_upd_seg: "set (upd_seg b f ss) = (\<lambda>s. if seg_base s = b then f s else s) ` set ss"
  by (simp add: upd_seg_def)

lemma seg_chunks_cong:
  "seg_base s' = seg_base s \<Longrightarrow> next_chunk s' = next_chunk s \<Longrightarrow> seg_chunks s' = seg_chunks s"
  by (simp add: seg_chunks_def)

lemma regions_inv_bases:
  assumes "regions_inv ss log X" "seg_base ` set ss' \<subseteq> seg_base ` set ss"
  shows "regions_inv ss' log X"
proof -
  have "\<exists>t \<in> set ss. seg_base t = seg_base s" if "s \<in> set ss'" for s
    using assms(2) that by (metis imageE image_eqI subsetD)
  then show ?thesis using assms(1) unfolding regions_inv_def by metis
qed

lemma out_count_insert:
  assumes "finite A" "m \<notin> A"
  shows "out_count (insert m A) b = (if b = seg_of m then out_count A b + 1 else out_count A b)"
proof -
  have "{c \<in> insert m A. seg_of c = b} = (if b = seg_of m then insert m {c \<in> A. seg_of c = b} else {c \<in> A. seg_of c = b})"
    by auto
  with assms show ?thesis by (simp add: out_count_def)
qed

lemma out_count_remove:
  assumes "finite A" "m \<in> A"
  shows "out_count (A - {m}) b = (if b = seg_of m then out_count A b - 1 else out_count A b)"
proof -
  have "{c \<in> A - {m}. seg_of c = b} = (if b = seg_of m then {c \<in> A. seg_of c = b} - {m} else {c \<in> A. seg_of c = b})"
    by auto
  with assms show ?thesis by (simp add: out_count_def)
qed

lemma out_count_zero: "finite A \<Longrightarrow> out_count A b = 0 \<longleftrightarrow> (\<forall>c \<in> A. seg_of c \<noteq> b)"
  by (auto simp: out_count_def)

definition pool_frame :: "'p ChunkPool_scheme \<Rightarrow> 'p ChunkPool_scheme \<Rightarrow> bool" where
  "pool_frame G G' \<longleftrightarrow> clk G' = clk G \<and> ChunkPool.more G' = ChunkPool.more G"

lemma pool_frame_refl [simp]: "pool_frame G G"
  by (simp add: pool_frame_def)

lemma pool_frame_trans: "pool_frame G G' \<Longrightarrow> pool_frame G' G'' \<Longrightarrow> pool_frame G G''"
  by (simp add: pool_frame_def)

text \<open>Moving chunks between \<open>out\<close> and the cache, the segments' counters adjusted.\<close>

lemma chunks_inv_relive:
  assumes inv: "chunks_inv G out X"
    and seg: "segments G' = map g (segments G)" "os_log G' = os_log G"
    and g: "\<And>s. seg_base (g s) = seg_base s" "\<And>s. seg_chunks (g s) = seg_chunks s" "\<And>s. seg_ok (g s) = seg_ok s"
    and out: "out' \<union> set (span_cache G') = out \<union> set (span_cache G)" "out' \<inter> set (span_cache G') = {}"
      "distinct (span_cache G')" "cache_count G' = int (length (span_cache G'))"
    and live: "\<And>s. s \<in> set (segments G) \<Longrightarrow> live (g s) = out_count out' (seg_base s)"
  shows "chunks_inv G' out' X"
proof -
  have "(\<Union>s \<in> set (map g (segments G)). seg_chunks s) = (\<Union>s \<in> set (segments G). seg_chunks s)"
    by (simp add: image_image g)
  moreover have "map seg_base (map g (segments G)) = map seg_base (segments G)"
    by (simp add: g(1))
  moreover have "\<forall>s \<in> set (map g (segments G)). seg_ok s \<and> live s = out_count out' (seg_base s)"
    using inv live g by (simp add: chunks_inv_def)
  moreover have "regions_inv (map g (segments G)) (os_log G) X"
    by (rule regions_inv_bases [of "segments G"]) (use inv g in \<open>auto simp: chunks_inv_def\<close>)
  ultimately show ?thesis
    using inv out unfolding chunks_inv_def seg by metis
qed

lemma acquire_cached:
  assumes inv: "chunks_inv G out X" and c: "span_cache G = mem # rest"
  shows "mem \<notin> out" "chunks_inv (G\<lparr>span_cache := rest, cache_count := cache_count G - 1,
    segments := upd_seg (seg_of mem) (\<lambda>s. s\<lparr>live := live s + 1\<rparr>) (segments G)\<rparr>) (insert mem out) X"
proof -
  show n: "mem \<notin> out" using inv c by (auto simp: chunks_inv_def)
  have f: "finite out" using inv by (rule chunks_inv_finite)
  show "chunks_inv (G\<lparr>span_cache := rest, cache_count := cache_count G - 1,
    segments := upd_seg (seg_of mem) (\<lambda>s. s\<lparr>live := live s + 1\<rparr>) (segments G)\<rparr>) (insert mem out) X"
    by (rule chunks_inv_relive [OF inv, where g = "\<lambda>s. if seg_base s = seg_of mem then s\<lparr>live := live s + 1\<rparr> else s"])
      (use inv c in \<open>auto simp: upd_seg_def seg_ok_def seg_chunks_def out_count_insert [OF f n] chunks_inv_def\<close>)
qed

lemma acquire_bump:
  assumes inv: "chunks_inv G out X" and c: "segments G = s # ss" "next_chunk s < SEG_SPANS"
  defines "mem \<equiv> seg_base s + next_chunk s * SPAN_SIZE"
  shows "mem \<notin> out" "chunks_inv (G\<lparr>segments := s\<lparr>next_chunk := next_chunk s + 1, live := live s + 1\<rparr> # ss\<rparr>)
    (insert mem out) X"
proof -
  let ?s = "s\<lparr>next_chunk := next_chunk s + 1, live := live s + 1\<rparr>"
  have ok: "seg_ok s" "seg_ok ?s" using inv c by (auto simp: chunks_inv_def seg_ok_def)
  have ch: "seg_chunks ?s = insert mem (seg_chunks s)"
    using ok(1) by (auto simp: seg_chunks_def mem_def seg_ok_def less_Suc_eq)
  then have so: "seg_of mem = seg_base s"
    using seg_of_chunk(1) [OF ok(2), of mem] by simp
  have "mem \<notin> seg_chunks s" by (auto simp: seg_chunks_def mem_def)
  moreover have "mem \<notin> seg_chunks t" if "t \<in> set ss" for t
  proof
    assume "mem \<in> seg_chunks t"
    then have "seg_base t = seg_base s"
      using seg_of_chunk(1) [of t mem] inv c that so by (auto simp: chunks_inv_def)
    then show False using inv c that by (auto simp: chunks_inv_def image_iff)
  qed
  ultimately have new: "mem \<notin> out \<union> set (span_cache G)"
    using inv c unfolding chunks_inv_def by auto
  then show n: "mem \<notin> out" by blast
  have f: "finite out" using inv by (rule chunks_inv_finite)
  have r: "regions_inv (?s # ss) (os_log G) X"
    by (rule regions_inv_bases [of "segments G"]) (use inv c in \<open>auto simp: chunks_inv_def\<close>)
  have "live t = out_count (insert mem out) (seg_base t)" if "t \<in> set ss" for t
    using inv c that by (auto simp: chunks_inv_def out_count_insert [OF f n] so image_iff)
  moreover have "live ?s = out_count (insert mem out) (seg_base s)"
    using inv c by (simp add: chunks_inv_def out_count_insert [OF f n] so)
  moreover have "insert mem out \<union> set (span_cache G) = (\<Union>t \<in> set (?s # ss). seg_chunks t)"
    using inv c ch unfolding chunks_inv_def by auto
  ultimately show "chunks_inv (G\<lparr>segments := ?s # ss\<rparr>) (insert mem out) X"
    using inv c new ok(2) r by (auto simp: chunks_inv_def)
qed

lemma acquire_new_segment:
  assumes inv: "chunks_inv G out X" and law: "mmap_law mmap"
    and seg: "seg_os_alloc mmap (os_log G) = (Some b, log)"
  shows "b + SPAN_SIZE \<notin> out"
    "chunks_inv (G\<lparr>os_log := log, segments :=
        \<lparr>seg_base = b, next_chunk = 2, live = 1, idle_since = 0, doomed = 0\<rparr> # segments G\<rparr>)
      (insert (b + SPAN_SIZE) out) X"
    "mapped (os_log G) \<subseteq> mapped log"
proof -
  let ?s = "\<lparr>seg_base = b, next_chunk = 2, live = 1, idle_since = 0, doomed = 0\<rparr>"
  note m = seg_os_alloc_some [OF law seg]
  show "mapped (os_log G) \<subseteq> mapped log" using m(3) by blast
  have ok: "seg_ok ?s" using m(1,2) by (simp add: seg_ok_def)
  have ch: "seg_chunks ?s = {b + SPAN_SIZE}"
    by (auto simp: seg_chunks_def less_2_cases_iff intro: exI [of _ 1])
  have so: "seg_of (b + SPAN_SIZE) = b"
    using seg_of_chunk(1) [OF ok, of "b + SPAN_SIZE"] ch by simp
  have fresh: "region b SEG_SIZE \<inter> mapped (os_log G) = {}" using m(4) by (auto simp: region_def)
  have new_base: "seg_base t \<noteq> b" if "t \<in> set (segments G)" for t
  proof
    assume "seg_base t = b"
    with inv that have "region b SEG_SIZE \<subseteq> mapped (os_log G)"
      by (auto simp: chunks_inv_def regions_inv_def)
    with fresh have "region b SEG_SIZE = {}" by blast
    then show False by (simp add: region_def)
  qed
  have not_in: "b + SPAN_SIZE \<notin> seg_chunks t" if "t \<in> set (segments G)" for t
    using seg_of_chunk(1) [of t "b + SPAN_SIZE"] inv that new_base so by (auto simp: chunks_inv_def)
  then have new: "b + SPAN_SIZE \<notin> out \<union> set (span_cache G)"
    using inv unfolding chunks_inv_def by auto
  then show n: "b + SPAN_SIZE \<notin> out" by blast
  have f: "finite out" using inv by (rule chunks_inv_finite)
  have sub: "mapped (os_log G) \<subseteq> mapped log" "region b SEG_SIZE \<subseteq> mapped log"
    using m(3) by (auto simp: region_def)
  have r: "regions_inv (?s # segments G) log X"
  proof -
    have "regions_inv (segments G) (os_log G) X" using inv by (simp add: chunks_inv_def)
    then show ?thesis
      using sub fresh unfolding regions_inv_def by simp blast
  qed
  have zero: "out_count out b = 0"
    unfolding out_count_zero [OF f] using inv new_base
    by (metis UnI1 chunks_inv_chunk)
  have "live t = out_count (insert (b + SPAN_SIZE) out) (seg_base t)" if "t \<in> set (segments G)" for t
    using inv that new_base by (auto simp: chunks_inv_def out_count_insert [OF f n] so)
  moreover have "live ?s = out_count (insert (b + SPAN_SIZE) out) b"
    using zero by (simp add: out_count_insert [OF f n] so)
  moreover have "insert (b + SPAN_SIZE) out \<union> set (span_cache G) = (\<Union>t \<in> set (?s # segments G). seg_chunks t)"
    using inv ch unfolding chunks_inv_def by auto
  moreover have "b \<notin> seg_base ` set (segments G)" using new_base by auto
  ultimately show "chunks_inv (G\<lparr>os_log := log, segments := ?s # segments G\<rparr>) (insert (b + SPAN_SIZE) out) X"
    using inv new ok r by (auto simp: chunks_inv_def)
qed

definition acquired :: "'p ChunkPool_scheme \<Rightarrow> addr set \<Rightarrow> (addr \<times> nat) set \<Rightarrow> addr option \<Rightarrow> 'p ChunkPool_scheme \<Rightarrow> bool" where
  "acquired G out X r G' \<longleftrightarrow>
     pool_frame G G' \<and> mem_bytes G' = mem_bytes G \<and> mapped (os_log G) \<subseteq> mapped (os_log G') \<and>
     (case r of None \<Rightarrow> G' = G | Some mem \<Rightarrow> mem \<notin> out \<and> chunks_inv G' (insert mem out) X)"

lemma chunk_new_segment_acquired:
  assumes inv: "chunks_inv G out X" and law: "mmap_law mmap"
    and e: "chunk_new_segment mmap G = (r, G')"
  shows "acquired G out X r G'"
proof (cases "seg_os_alloc mmap (os_log G)")
  case (Pair b log)
  show ?thesis
  proof (cases b)
    case None
    with Pair e have "r = None" "G' = G"
      using seg_os_alloc_none by (fastforce simp: chunk_new_segment_def)+
    then show ?thesis by (simp add: acquired_def)
  next
    case (Some b')
    with Pair acquire_new_segment [OF inv law, of b' log] e show ?thesis
      by (auto simp: chunk_new_segment_def pool_frame_def acquired_def)
  qed
qed

lemma chunk_acquire_global_acquired:
  assumes inv: "chunks_inv G out X" and law: "mmap_law mmap"
    and acq: "chunk_acquire_global mmap G = (r, G')"
  shows "acquired G out X r G'"
  using acq chunk_new_segment_acquired [OF inv law] acquire_cached [OF inv] acquire_bump [OF inv]
  by (auto simp: chunk_acquire_global_def pool_frame_def acquired_def split: list.splits if_splits)

section \<open>Purging and releasing keep the invariant\<close>

lemma purge_condemn_spec:
  assumes "purge_condemn now force target ss dm = (kept, dm')" "distinct (map seg_base ss)"
  shows "\<exists>D. D \<subseteq> seg_base ` set ss \<and> kept = filter (\<lambda>s. seg_base s \<notin> D) ss \<and>
    dm' = rev (map (\<lambda>s. s\<lparr>doomed := 1\<rparr>) (filter (\<lambda>s. seg_base s \<in> D) ss)) @ dm \<and>
    (\<forall>s \<in> set ss. seg_base s \<in> D \<longrightarrow> live s = 0)"
  using assms
proof (induction now force target ss dm arbitrary: kept dm' rule: purge_condemn.induct)
  case (2 now force target s ss dm)
  let ?keep_all = "\<exists>D. D \<subseteq> seg_base ` set (s # ss) \<and> kept = filter (\<lambda>s. seg_base s \<notin> D) (s # ss) \<and>
    dm' = rev (map (\<lambda>s. s\<lparr>doomed := 1\<rparr>) (filter (\<lambda>s. seg_base s \<in> D) (s # ss))) @ dm \<and>
    (\<forall>s \<in> set (s # ss). seg_base s \<in> D \<longrightarrow> live s = 0)"
  have ns: "seg_base t \<noteq> seg_base s" if "t \<in> set ss" for t
    using "2.prems"(2) that by (metis distinct.simps(2) image_eqI list.map(2) set_map)
  consider (stop) "\<not> (force \<or> target > 0)"
    | (doom) "force \<or> target > 0" "live s = 0 \<and> (force \<or> u64 (now - idle_since s) \<ge> 500)"
    | (keep) "force \<or> target > 0" "\<not> (live s = 0 \<and> (force \<or> u64 (now - idle_since s) \<ge> 500))"
    by blast
  then show ?keep_all
  proof cases
    case stop
    with "2.prems" show ?thesis by (intro exI [of _ "{}"]) auto
  next
    case doom
    with "2.prems" obtain D where D: "D \<subseteq> seg_base ` set ss" "kept = filter (\<lambda>s. seg_base s \<notin> D) ss"
      "dm' = rev (map (\<lambda>s. s\<lparr>doomed := 1\<rparr>) (filter (\<lambda>s. seg_base s \<in> D) ss)) @ s\<lparr>doomed := 1\<rparr> # dm"
      "\<forall>s \<in> set ss. seg_base s \<in> D \<longrightarrow> live s = 0"
      using "2.IH"(1) [of kept dm'] by auto
    have "filter (\<lambda>t. seg_base t \<notin> insert (seg_base s) D) ss = filter (\<lambda>t. seg_base t \<notin> D) ss"
      "filter (\<lambda>t. seg_base t \<in> insert (seg_base s) D) ss = filter (\<lambda>t. seg_base t \<in> D) ss"
      using ns by (auto intro!: filter_cong)
    with D doom ns show ?thesis by (intro exI [of _ "insert (seg_base s) D"]) auto
  next
    case keep
    obtain k' where k': "purge_condemn now force target ss dm = (k', dm')" "kept = s # k'"
      using "2.prems"(1) keep by (auto split: prod.splits)
    then obtain D where D: "D \<subseteq> seg_base ` set ss" "k' = filter (\<lambda>s. seg_base s \<notin> D) ss"
      "dm' = rev (map (\<lambda>s. s\<lparr>doomed := 1\<rparr>) (filter (\<lambda>s. seg_base s \<in> D) ss)) @ dm"
      "\<forall>s \<in> set ss. seg_base s \<in> D \<longrightarrow> live s = 0"
      using "2.IH"(2) [of k' dm'] keep "2.prems"(2) by auto
    moreover have "seg_base s \<notin> D" using D(1) ns by (metis imageE subsetD)
    ultimately show ?thesis using k'(2) by (intro exI [of _ D]) auto
  qed
qed auto

definition words_of :: "addr set \<Rightarrow> addr set" where
  "words_of C = (\<Union>c \<in> C. {c..<c + 8})"

lemma words_of_insert [simp]: "words_of (insert c C) = {c..<c + 8} \<union> words_of C"
  by (simp add: words_of_def)

lemma words_of_Un [simp]: "words_of (C \<union> D) = words_of C \<union> words_of D"
  by (simp add: words_of_def)

lemma words_of_empty [simp]: "words_of {} = {}"
  by (simp add: words_of_def)

lemma words_of_mono: "C \<subseteq> D \<Longrightarrow> words_of C \<subseteq> words_of D"
  by (auto simp: words_of_def)

lemma purge_extract_bytes:
  assumes "purge_extract ss link cs cnt mem = (kept, cnt', mem')"
    "A \<inter> words_of (set cs) = {}" "A \<inter> words_of (set_option link) = {}"
  shows "same_at A mem mem'"
  using assms
proof (induction ss link cs cnt mem arbitrary: kept cnt' mem' rule: purge_extract.induct)
  case (2 ss link c cs cnt mem)
  have a: "A \<inter> words_of (set cs) = {}" "A \<inter> {c..<c + 8} = {}" using "2.prems"(2) by auto
  show ?case
  proof (cases "seg_doomed ss c")
    case True
    let ?m = "case link of None \<Rightarrow> mem | Some l \<Rightarrow> write_ptr l (list_link cs) mem"
    have "same_at A ?m mem'"
      using "2.IH"(1) [OF True] "2.prems"(1,3) a True by simp
    moreover have "same_at A mem ?m"
      using "2.prems"(3) by (cases link) (simp_all add: same_at_write_ptr)
    ultimately show ?thesis by (blast intro: same_at_trans)
  next
    case False
    then obtain k' where k': "purge_extract ss (Some c) cs cnt mem = (k', cnt', mem')"
      using "2.prems" by (auto split: prod.splits)
    show ?thesis by (rule "2.IH"(2) [OF False k']) (use a in simp_all)
  qed
qed simp

lemma purge_extract_spec:
  assumes "purge_extract ss link cs cnt mem = (kept, cnt', mem')"
  shows "kept = filter (\<lambda>c. \<not> seg_doomed ss c) cs \<and> cnt' - int (length kept) = cnt - int (length cs)"
  using assms
proof (induction ss link cs cnt mem arbitrary: kept cnt' mem' rule: purge_extract.induct)
  case (2 ss link c cs cnt mem)
  show ?case
  proof (cases "seg_doomed ss c")
    case True
    with "2.IH"(1) [OF True, of kept cnt' mem'] "2.prems" show ?thesis by auto
  next
    case False
    then obtain k' where k': "purge_extract ss (Some c) cs cnt mem = (k', cnt', mem')" "kept = c # k'"
      using "2.prems" by (auto split: prod.splits)
    from "2.IH"(2) [OF False k'(1)] k'(2) False show ?thesis by auto
  qed
qed simp

lemma mapped_span_os_free [simp]: "mapped (span_os_free b n log) = mapped log - region b n"
  by (simp add: span_os_free_def region_def)

lemma purge_unmap_spec:
  "purge_unmap ss log n = (log', n') \<Longrightarrow>
     mapped log' = mapped log - (\<Union>s \<in> set ss. region (seg_base s) SEG_SIZE) \<and> n' = n + length ss"
proof (induction ss arbitrary: log n)
  case (Cons s ss)
  from Cons.IH [of "span_os_free (seg_base s) SEG_SIZE log" "n + 1"] Cons.prems
  show ?case by (simp del: One_nat_def) blast
qed simp

text \<open>What a purge may change: it keeps the invariant for the same chunks out, and it writes
  only into the first words of cached chunks.\<close>

definition purged :: "'p ChunkPool_scheme \<Rightarrow> addr set \<Rightarrow> (addr \<times> nat) set \<Rightarrow> 'p ChunkPool_scheme \<Rightarrow> bool" where
  "purged G out X G' \<longleftrightarrow>
     chunks_inv G' out X \<and> pool_frame G G' \<and> set (span_cache G') \<subseteq> set (span_cache G) \<and>
     (\<forall>A. A \<inter> words_of (set (span_cache G)) = {} \<longrightarrow> same_at A (mem_bytes G) (mem_bytes G'))"

lemma purged_same: "chunks_inv G' out X \<Longrightarrow> pool_frame G G' \<Longrightarrow> span_cache G' = span_cache G \<Longrightarrow> mem_bytes G' = mem_bytes G \<Longrightarrow> purged G out X G'"
  by (simp add: purged_def)

lemma purge_keeps_inv:
  assumes inv: "chunks_inv G out X" and D: "D \<subseteq> seg_base ` set (segments G)"
    and idle: "\<forall>s \<in> set (segments G). seg_base s \<in> D \<longrightarrow> live s = 0"
    and segs: "segments G' = filter (\<lambda>s. seg_base s \<notin> D) (segments G)"
    and cache: "span_cache G' = filter (\<lambda>c. seg_of c \<notin> D) (span_cache G)"
      "cache_count G' = int (length (span_cache G'))"
    and log: "mapped (os_log G') = mapped (os_log G) - (\<Union>b \<in> D. region b SEG_SIZE)"
  shows "chunks_inv G' out X"
proof -
  have f: "finite out" using inv by (rule chunks_inv_finite)
  have out: "seg_of c \<notin> D" if "c \<in> out" for c
  proof
    assume "seg_of c \<in> D"
    then obtain s where s: "s \<in> set (segments G)" "seg_base s = seg_of c" using D by auto
    then have "out_count out (seg_of c) = 0"
      using idle inv \<open>seg_of c \<in> D\<close> unfolding chunks_inv_def by metis
    then show False using that out_count_zero [OF f] by blast
  qed
  have all: "out \<union> set (span_cache G) = (\<Union>s \<in> set (segments G). seg_chunks s)"
    and ok: "\<forall>s \<in> set (segments G). seg_ok s"
    using inv by (simp_all add: chunks_inv_def)
  have keep: "out \<union> set (span_cache G') = (\<Union>s \<in> set (segments G'). seg_chunks s)"
  proof (intro set_eqI iffI)
    fix c assume c: "c \<in> out \<union> set (span_cache G')"
    then have nd: "seg_of c \<notin> D" using out cache by auto
    have "c \<in> out \<union> set (span_cache G)" using c cache by auto
    with all obtain s where s: "s \<in> set (segments G)" "c \<in> seg_chunks s" by blast
    with ok nd have "s \<in> set (segments G')" using seg_of_chunk(1) segs by auto
    with s show "c \<in> (\<Union>s \<in> set (segments G'). seg_chunks s)" by blast
  next
    fix c assume "c \<in> (\<Union>s \<in> set (segments G'). seg_chunks s)"
    then obtain s where s: "s \<in> set (segments G)" "seg_base s \<notin> D" "c \<in> seg_chunks s"
      using segs by auto
    moreover have "seg_of c = seg_base s" using s ok seg_of_chunk(1) by blast
    ultimately show "c \<in> out \<union> set (span_cache G')" using all cache by auto
  qed
  have "regions_inv (segments G') (os_log G') X"
  proof -
    have r: "regions_inv (segments G) (os_log G) X" using inv by (simp add: chunks_inv_def)
    have x: "region b n \<inter> region d SEG_SIZE = {}" if a: "(b, n) \<in> X" "d \<in> D" for b n d
    proof -
      obtain s where "s \<in> set (segments G)" "seg_base s = d" using D a(2) by auto
      with r a(1) show ?thesis unfolding regions_inv_def by blast
    qed
    have d: "region (seg_base s) SEG_SIZE \<inter> region d SEG_SIZE = {}"
      if a: "s \<in> set (segments G)" "seg_base s \<notin> D" "d \<in> D" for s d
    proof -
      obtain t where "t \<in> set (segments G)" "seg_base t = d" using D a(3) by auto
      with ok a show ?thesis by (intro aligned_disjoint) (auto simp: seg_ok_def)
    qed
    have sub: "A \<subseteq> mapped (os_log G')" if "A \<subseteq> mapped (os_log G)" "\<And>b. b \<in> D \<Longrightarrow> A \<inter> region b SEG_SIZE = {}" for A
      using that unfolding log by blast
    have "region (seg_base s) SEG_SIZE \<subseteq> mapped (os_log G')" if a: "s \<in> set (segments G')" for s
      by (rule sub) (use r d a segs in \<open>auto simp: regions_inv_def\<close>)
    moreover have "region b n \<subseteq> mapped (os_log G')" if a: "(b, n) \<in> X" for b n
      by (rule sub) (use r x a in \<open>auto simp: regions_inv_def\<close>)
    moreover have "set (segments G') \<subseteq> set (segments G)" using segs by auto
    ultimately show ?thesis using r unfolding regions_inv_def by blast
  qed
  moreover have "distinct (map seg_base (segments G'))"
    using inv segs by (simp add: chunks_inv_def distinct_map_filter)
  ultimately show ?thesis
    using inv keep segs cache unfolding chunks_inv_def by auto
qed

lemma purge_apply_purged:
  assumes inv: "chunks_inv G out X"
  shows "purged G out X (purge_apply_locked now force target G)"
proof -
  obtain kept dm where k: "purge_condemn now force target (segments G) [] = (kept, dm)" by force
  have "distinct (map seg_base (segments G))" using inv by (simp add: chunks_inv_def)
  from purge_condemn_spec [OF k this] obtain D where D: "D \<subseteq> seg_base ` set (segments G)"
    "kept = filter (\<lambda>s. seg_base s \<notin> D) (segments G)"
    "dm = rev (map (\<lambda>s. s\<lparr>doomed := 1\<rparr>) (filter (\<lambda>s. seg_base s \<in> D) (segments G)))"
    "\<forall>s \<in> set (segments G). seg_base s \<in> D \<longrightarrow> live s = 0"
    by auto
  show ?thesis
  proof (cases "dm = []")
    case True
    then have "filter (\<lambda>s. seg_base s \<in> D) (segments G) = []" using D(3) by simp
    then have "kept = segments G" using D(2) by (auto simp: filter_empty_conv)
    then have "purge_apply_locked now force target G = G"
      using True by (simp add: purge_apply_locked_def k)
    then show ?thesis using inv by (simp add: purged_def)
  next
    case False
    obtain cache cnt mem where e: "purge_extract (kept @ dm) None (span_cache G) (cache_count G) (mem_bytes G) = (cache, cnt, mem)"
      by (metis prod_cases3)
    obtain log n where u: "purge_unmap dm (os_log G) (purge_count G) = (log, n)" by force
    let ?G = "G\<lparr>segments := kept, span_cache := cache, cache_count := cnt, mem_bytes := mem, os_log := log, purge_count := n\<rparr>"
    have res: "purge_apply_locked now force target G = ?G"
      using False by (simp add: purge_apply_locked_def k e u)
    have ok: "\<forall>s \<in> set (segments G). doomed s = 0" using inv by (auto simp: chunks_inv_def seg_ok_def)
    have sd: "seg_doomed (kept @ dm) c \<longleftrightarrow> seg_of c \<in> D" for c
    proof
      assume "seg_of c \<in> D"
      then obtain s where "s \<in> set (segments G)" "seg_base s = seg_of c" "seg_base s \<in> D" using D(1) by auto
      then have "s\<lparr>doomed := 1\<rparr> \<in> set dm" by (auto simp: D(3))
      with \<open>seg_base s = seg_of c\<close> show "seg_doomed (kept @ dm) c"
        unfolding seg_doomed_def list_ex_iff by (intro bexI [of _ "s\<lparr>doomed := 1\<rparr>"]) auto
    qed (use ok in \<open>auto simp: seg_doomed_def list_ex_iff D(2,3)\<close>)
    have cache: "cache = filter (\<lambda>c. seg_of c \<notin> D) (span_cache G)" "cnt = int (length cache)"
      using purge_extract_spec [OF e] inv by (auto simp: sd chunks_inv_def)
    have "(\<Union>s \<in> set dm. region (seg_base s) SEG_SIZE) = (\<Union>b \<in> D. region b SEG_SIZE)"
      using D(1) by (fastforce simp: D(3))
    then have "mapped log = mapped (os_log G) - (\<Union>b \<in> D. region b SEG_SIZE)"
      using purge_unmap_spec [OF u] by simp
    then have "chunks_inv ?G out X"
      by (intro purge_keeps_inv [OF inv D(1,4)]) (simp_all add: D(2) cache)
    then show ?thesis
      using purge_extract_bytes [OF e] by (auto simp: purged_def res pool_frame_def cache(1))
  qed
qed

lemma chunks_inv_cong:
  "chunks_inv G out X \<Longrightarrow> segments G' = segments G \<Longrightarrow> span_cache G' = span_cache G \<Longrightarrow>
    cache_count G' = cache_count G \<Longrightarrow> os_log G' = os_log G \<Longrightarrow> chunks_inv G' out X"
  by (simp add: chunks_inv_def)

lemma purged_from:
  "purged G1 out X G' \<Longrightarrow> pool_frame G G1 \<Longrightarrow> span_cache G1 = span_cache G \<Longrightarrow>
    mem_bytes G1 = mem_bytes G \<Longrightarrow> purged G out X G'"
  by (simp add: purged_def pool_frame_def)

lemma memop_purge_locked_purged:
  assumes inv: "chunks_inv G out X"
  shows "purged G out X (memop_purge_locked now G)"
proof -
  have go: "purged G out X (purge_apply_locked now False t (G\<lparr>last_purge_ms := l, cache_avg := a, purging := p\<rparr>))"
    for t l a p
    by (rule purged_from [OF purge_apply_purged]) (auto simp: pool_frame_def intro: chunks_inv_cong [OF inv])
  have go': "purged G out X (purge_apply_locked now False t (G\<lparr>last_purge_ms := l, cache_avg := a\<rparr>))"
    for t l a
    by (rule purged_from [OF purge_apply_purged]) (auto simp: pool_frame_def intro: chunks_inv_cong [OF inv])
  have same: "purged G out X (G\<lparr>last_purge_ms := l, cache_avg := a, purging := p\<rparr>)"
    "purged G out X (G\<lparr>last_purge_ms := l, cache_avg := a\<rparr>)" "purged G out X G" for l a p
    by (rule purged_same; auto simp: pool_frame_def intro: chunks_inv_cong [OF inv])+
  show ?thesis
    using go go' same by (simp add: memop_purge_locked_def Let_def)
qed

lemma upd_seg_map: "upd_seg b f ss = map (\<lambda>s. if seg_base s = b then f s else s) ss"
  by (rule upd_seg_def)

lemma chunk_release_global_released:
  assumes inv: "chunks_inv G out X" and m: "mem \<in> out"
  defines "G' \<equiv> chunk_release_global mem G"
  shows "chunks_inv G' (out - {mem}) X" "pool_frame G G'"
    "A \<inter> words_of (insert mem (set (span_cache G))) = {} \<Longrightarrow> same_at A (mem_bytes G) (mem_bytes G')"
    "set (span_cache G') \<subseteq> insert mem (set (span_cache G))"
proof -
  let ?f = "\<lambda>s. if live s > 0 then s\<lparr>live := live s - 1\<rparr> else s"
  let ?g = "\<lambda>s. if seg_base s = seg_of mem then ?f s else s"
  have f: "finite out" using inv by (rule chunks_inv_finite)
  define G1 where "G1 = G\<lparr>mem_bytes := write_ptr mem (list_link (span_cache G)) (mem_bytes G),
     span_cache := mem # span_cache G, cache_count := cache_count G + 1,
     segments := upd_seg (seg_of mem) ?f (segments G)\<rparr>"
  have c: "distinct (span_cache G)" "cache_count G = int (length (span_cache G))" "out \<inter> set (span_cache G) = {}"
    and lv: "\<And>s. s \<in> set (segments G) \<Longrightarrow> live s = out_count out (seg_base s)"
    using inv by (simp_all add: chunks_inv_def)
  have inv1: "chunks_inv G1 (out - {mem}) X"
    by (rule chunks_inv_relive [OF inv, where g = ?g])
      (use c lv m in \<open>auto simp: G1_def upd_seg_def seg_ok_def seg_chunks_def out_count_remove [OF f m]\<close>)
  define G2 where "G2 = G1\<lparr>segments := upd_seg (seg_of mem) (\<lambda>s. s\<lparr>idle_since := clk G1\<rparr>) (segments G1)\<rparr>"
  have inv2: "chunks_inv G2 (out - {mem}) X"
    by (rule chunks_inv_relive [OF inv1, where g = "\<lambda>s. if seg_base s = seg_of mem then s\<lparr>idle_since := clk G1\<rparr> else s"])
      (use inv1 in \<open>auto simp: G2_def upd_seg_def seg_ok_def seg_chunks_def chunks_inv_def\<close>)
  have p: "purged G1 (out - {mem}) X G'"
  proof (cases "list_ex (\<lambda>s. seg_base s = seg_of mem \<and> live s = 0) (segments G1)")
    case True
    then have "G' = memop_purge_locked (clk G1) G2"
      by (simp add: G'_def chunk_release_global_def Let_def G1_def G2_def)
    then show ?thesis
      using purged_from [OF memop_purge_locked_purged [OF inv2]] by (simp add: G2_def pool_frame_def)
  next
    case False
    then have "G' = G1" by (simp add: G'_def chunk_release_global_def Let_def G1_def)
    then show ?thesis using inv1 by (simp add: purged_def)
  qed
  then show "chunks_inv G' (out - {mem}) X" by (simp add: purged_def)
  show "pool_frame G G'" "set (span_cache G') \<subseteq> insert mem (set (span_cache G))"
    using p by (simp_all add: purged_def pool_frame_def G1_def)
  show "same_at A (mem_bytes G) (mem_bytes G')" if a: "A \<inter> words_of (insert mem (set (span_cache G))) = {}"
  proof -
    have "same_at A (mem_bytes G1) (mem_bytes G')" using p a by (simp add: purged_def G1_def)
    moreover have "same_at A (mem_bytes G) (mem_bytes G1)"
      using a by (auto simp: G1_def intro: same_at_write_ptr)
    ultimately show ?thesis by (blast intro: same_at_trans)
  qed
qed

section \<open>The per-thread caches\<close>

text \<open>\<open>lc h\<close> is the local cache of heap \<open>h\<close> and \<open>used\<close> the chunks in use: those out that
  are in no local cache.\<close>

definition lc_ok :: "(nat \<Rightarrow> addr list) \<Rightarrow> addr set \<Rightarrow> bool" where
  "lc_ok lc used \<longleftrightarrow> (\<forall>h. distinct (lc h)) \<and> (\<forall>h h'. h \<noteq> h' \<longrightarrow> set (lc h) \<inter> set (lc h') = {}) \<and>
     (\<forall>h. set (lc h) \<inter> used = {})"

definition caches_inv ::
    "'p ChunkPool_scheme \<Rightarrow> (nat \<Rightarrow> addr list) \<Rightarrow> addr set \<Rightarrow> (addr \<times> nat) set \<Rightarrow> bool" where
  "caches_inv G lc used X \<longleftrightarrow>
     chunks_inv G (used \<union> (\<Union>h. set (lc h))) X \<and> lc_ok lc used"

definition free_chunks :: "'p ChunkPool_scheme \<Rightarrow> (nat \<Rightarrow> addr list) \<Rightarrow> addr set" where
  "free_chunks G lc = set (span_cache G) \<union> (\<Union>h. set (lc h))"

lemma caches_inv_chunk:
  assumes "caches_inv G lc used X" "c \<in> used \<union> free_chunks G lc"
  shows "c mod SPAN_SIZE = 0" "0 < c" "region c SPAN_SIZE \<subseteq> mapped (os_log G)"
    "\<And>b n. (b, n) \<in> X \<Longrightarrow> region c SPAN_SIZE \<inter> region b n = {}"
proof -
  have i: "chunks_inv G (used \<union> (\<Union>h. set (lc h))) X"
    and c: "c \<in> (used \<union> (\<Union>h. set (lc h))) \<union> set (span_cache G)"
    using assms by (auto simp: caches_inv_def free_chunks_def)
  show "c mod SPAN_SIZE = 0" "0 < c" "region c SPAN_SIZE \<subseteq> mapped (os_log G)"
    using chunks_inv_chunk [OF i c] by metis+
  show "\<And>b n. (b, n) \<in> X \<Longrightarrow> region c SPAN_SIZE \<inter> region b n = {}"
    by (rule chunks_inv_region_disjoint [OF i c])
qed

lemma caches_inv_free_used: "caches_inv G lc used X \<Longrightarrow> used \<inter> free_chunks G lc = {}"
  by (auto simp: caches_inv_def chunks_inv_def free_chunks_def lc_ok_def)

lemma caches_inv_regions: "caches_inv G lc used X \<Longrightarrow> regions_inv (segments G) (os_log G) X"
  by (simp add: caches_inv_def chunks_inv_def)

text \<open>Regions obtained from and returned to the system directly.\<close>

lemma regions_invI:
  assumes "\<And>s. s \<in> set ss \<Longrightarrow> region (seg_base s) SEG_SIZE \<subseteq> mapped log"
    "\<And>b n. (b, n) \<in> X \<Longrightarrow> region b n \<subseteq> mapped log"
    "\<And>b n s. (b, n) \<in> X \<Longrightarrow> s \<in> set ss \<Longrightarrow> region b n \<inter> region (seg_base s) SEG_SIZE = {}"
    "\<And>b n b' n'. (b, n) \<in> X \<Longrightarrow> (b', n') \<in> X \<Longrightarrow> (b, n) \<noteq> (b', n') \<Longrightarrow> region b n \<inter> region b' n' = {}"
  shows "regions_inv ss log X"
  unfolding regions_inv_def using assms by blast

lemma regions_invD:
  assumes "regions_inv ss log X"
  shows "s \<in> set ss \<Longrightarrow> region (seg_base s) SEG_SIZE \<subseteq> mapped log"
    "(b, n) \<in> X \<Longrightarrow> region b n \<subseteq> mapped log"
    "(b, n) \<in> X \<Longrightarrow> s \<in> set ss \<Longrightarrow> region b n \<inter> region (seg_base s) SEG_SIZE = {}"
    "(b, n) \<in> X \<Longrightarrow> (b', n') \<in> X \<Longrightarrow> (b, n) \<noteq> (b', n') \<Longrightarrow> region b n \<inter> region b' n' = {}"
  using assms unfolding regions_inv_def by blast+

lemma caches_inv_add_region:
  assumes "caches_inv G lc used X" "mapped log' = mapped (os_log G) \<union> region b n" "mapped (os_log G) \<inter> region b n = {}"
  shows "caches_inv (G\<lparr>os_log := log'\<rparr>) lc used (insert (b, n) X)"
proof -
  have r: "regions_inv (segments G) (os_log G) X" by (rule caches_inv_regions [OF assms(1)])
  have s: "A \<inter> region b n = {}" "A \<subseteq> mapped log'" if "A \<subseteq> mapped (os_log G)" for A
    using assms(2,3) that by blast+
  note d = regions_invD [OF r]
  have "regions_inv (segments G) log' (insert (b, n) X)"
  proof (rule regions_invI)
    fix t assume "t \<in> set (segments G)"
    then show "region (seg_base t) SEG_SIZE \<subseteq> mapped log'" by (intro s(2) d(1))
  next
    fix b' n' assume "(b', n') \<in> insert (b, n) X"
    then show "region b' n' \<subseteq> mapped log'" using s(2) [OF d(2)] assms(2) by blast
  next
    fix b' n' t assume a: "(b', n') \<in> insert (b, n) X" "t \<in> set (segments G)"
    show "region b' n' \<inter> region (seg_base t) SEG_SIZE = {}"
    proof (cases "(b', n') = (b, n)")
      case True
      then show ?thesis using s(1) [OF d(1) [OF a(2)]] by blast
    next
      case False
      then show ?thesis using d(3) a by blast
    qed
  next
    fix b1 n1 b2 n2
    assume a: "(b1, n1) \<in> insert (b, n) X" "(b2, n2) \<in> insert (b, n) X" "(b1, n1) \<noteq> (b2, n2)"
    then consider "(b1, n1) \<in> X" "(b2, n2) \<in> X" | "(b1, n1) = (b, n)" "(b2, n2) \<in> X" | "(b1, n1) \<in> X" "(b2, n2) = (b, n)"
      by blast
    then show "region b1 n1 \<inter> region b2 n2 = {}"
    proof cases
      case 1
      show ?thesis by (rule d(4) [OF 1 a(3)])
    next
      case 2
      then show ?thesis using s(1) [OF d(2) [OF 2(2)]] by blast
    next
      case 3
      then show ?thesis using s(1) [OF d(2) [OF 3(1)]] by blast
    qed
  qed
  then show ?thesis using assms(1) by (simp add: caches_inv_def chunks_inv_def)
qed

lemma caches_inv_remove_region:
  assumes "caches_inv G lc used X" "(b, n) \<in> X"
  shows "caches_inv (G\<lparr>os_log := span_os_free b n (os_log G)\<rparr>) lc used (X - {(b, n)})"
proof -
  have r: "regions_inv (segments G) (os_log G) X" by (rule caches_inv_regions [OF assms(1)])
  have s: "A \<subseteq> mapped (span_os_free b n (os_log G))" if "A \<subseteq> mapped (os_log G)" "A \<inter> region b n = {}" for A
    using that by auto
  have "regions_inv (segments G) (span_os_free b n (os_log G)) (X - {(b, n)})"
  proof -
    have "region b' n' \<subseteq> mapped (span_os_free b n (os_log G))" if "(b', n') \<in> X - {(b, n)}" for b' n'
      using r that assms(2) unfolding regions_inv_def by (intro s) blast+
    moreover have "region (seg_base t) SEG_SIZE \<subseteq> mapped (span_os_free b n (os_log G))" if "t \<in> set (segments G)" for t
      using r that assms(2) unfolding regions_inv_def by (intro s) blast+
    ultimately show ?thesis using r unfolding regions_inv_def by blast
  qed
  then show ?thesis using assms(1) by (simp add: caches_inv_def chunks_inv_def)
qed

lemma UN_upd: "(\<Union>h. set ((lc(i := ys)) h)) = set ys \<union> (\<Union>h \<in> - {i}. set (lc h))"
proof -
  have "UNIV = insert i (- {i})" by auto
  then have "(\<Union>h. set ((lc(i := ys)) h)) = (\<Union>h \<in> insert i (- {i}). set ((lc(i := ys)) h))" by simp
  also have "\<dots> = set ys \<union> (\<Union>h \<in> - {i}. set ((lc(i := ys)) h))" by simp
  also have "(\<Union>h \<in> - {i}. set ((lc(i := ys)) h)) = (\<Union>h \<in> - {i}. set (lc h))" by simp
  finally show ?thesis .
qed

lemma UN_split: "(\<Union>h. set (lc h)) = set (lc i) \<union> (\<Union>h \<in> - {i}. set (lc h))"
  using UN_upd [of lc i "lc i"] by simp

lemma lc_ok_pop:
  assumes "lc_ok lc used" "lc i = m # rest"
  shows "m \<notin> used" "lc_ok (lc(i := rest)) (insert m used)"
proof -
  have d: "distinct (m # rest)" "set (m # rest) \<inter> used = {}"
    using assms unfolding lc_ok_def by metis+
  show "m \<notin> used" using d by simp
  have o: "h \<noteq> i \<Longrightarrow> set (lc h) \<inter> set (m # rest) = {}" for h
    using assms unfolding lc_ok_def by metis
  have "distinct ((lc(i := rest)) h)" for h using assms(1) d by (simp add: lc_ok_def)
  moreover have "set ((lc(i := rest)) h) \<inter> set ((lc(i := rest)) h') = {}" if "h \<noteq> h'" for h h'
    using assms(1) o that unfolding lc_ok_def by (cases "h = i"; cases "h' = i") auto
  moreover have "set ((lc(i := rest)) h) \<inter> insert m used = {}" for h
    using assms(1) d o [of h] unfolding lc_ok_def by (cases "h = i") auto
  ultimately show "lc_ok (lc(i := rest)) (insert m used)" unfolding lc_ok_def by blast
qed

lemma lc_ok_push:
  assumes "lc_ok lc used" "m \<in> used"
  shows "lc_ok (lc(i := m # lc i)) (used - {m})"
proof -
  have d: "m \<notin> set (lc h)" for h using assms by (auto simp: lc_ok_def)
  have "distinct ((lc(i := m # lc i)) h)" for h using assms(1) d by (simp add: lc_ok_def)
  moreover have "set ((lc(i := m # lc i)) h) \<inter> set ((lc(i := m # lc i)) h') = {}" if "h \<noteq> h'" for h h'
    using assms(1) d that unfolding lc_ok_def by (cases "h = i"; cases "h' = i") auto
  moreover have "set ((lc(i := m # lc i)) h) \<inter> (used - {m}) = {}" for h
    using assms(1) unfolding lc_ok_def by (cases "h = i") auto
  ultimately show ?thesis unfolding lc_ok_def by blast
qed

lemma lc_ok_shrink: "lc_ok lc used \<Longrightarrow> used' \<subseteq> used \<Longrightarrow> lc_ok lc used'"
  unfolding lc_ok_def by blast

lemma chunk_acquire_global_caches:
  assumes inv: "caches_inv G lc used X" and law: "mmap_law mmap"
    and e: "chunk_acquire_global mmap G = (Some m, G')"
  shows "m \<notin> used" "caches_inv G' lc (insert m used) X" "pool_frame G G'" "mem_bytes G' = mem_bytes G"
proof -
  have a: "acquired G (used \<union> (\<Union>h. set (lc h))) X (Some m) G'"
    by (rule chunk_acquire_global_acquired [OF _ law e]) (use inv in \<open>simp add: caches_inv_def\<close>)
  then show "m \<notin> used" "caches_inv G' lc (insert m used) X" "pool_frame G G'" "mem_bytes G' = mem_bytes G"
    using inv by (auto simp: acquired_def caches_inv_def lc_ok_def)
qed

lemma chunk_acquire_ok:
  assumes inv: "caches_inv G lc used X" and law: "mmap_law mmap" and lc: "lc i = local_cache hc"
    and e: "chunk_acquire mmap (Some hc) G = (r, ho, G')"
  obtains hc' where "ho = Some hc'" "HeapCache.more hc' = HeapCache.more hc" "pool_frame G G'"
    "mem_bytes G' = mem_bytes G" "r = None \<Longrightarrow> G' = G \<and> hc' = hc"
    "\<And>m. r = Some m \<Longrightarrow> m \<notin> used \<and> caches_inv G' (lc(i := local_cache hc')) (insert m used) X"
proof (cases "local_cache hc")
  case Nil
  then obtain g: "chunk_acquire_global mmap G = (r, G')" "ho = Some hc"
    using e by (auto simp: chunk_acquire_def split: prod.splits)
  have lc': "lc(i := local_cache hc) = lc" using lc by (metis fun_upd_triv)
  have "acquired G (used \<union> (\<Union>h. set (lc h))) X r G'"
    by (rule chunk_acquire_global_acquired [OF _ law g(1)]) (use inv in \<open>simp add: caches_inv_def\<close>)
  then have "pool_frame G G'" "mem_bytes G' = mem_bytes G" "r = None \<Longrightarrow> G' = G"
    by (auto simp: acquired_def)
  moreover have "m \<notin> used \<and> caches_inv G' (lc(i := local_cache hc)) (insert m used) X" if "r = Some m" for m
    using chunk_acquire_global_caches [OF inv law] g(1) that by (simp add: lc')
  ultimately show thesis using that [OF g(2)] by simp
next
  case (Cons m rest)
  then have r: "r = Some m" "ho = Some (hc\<lparr>local_cache := rest, local_count := local_count hc - 1\<rparr>)" "G' = G"
    using e by (simp_all add: chunk_acquire_def)
  have ok: "lc_ok lc used" "lc i = m # rest" using inv lc Cons by (simp_all add: caches_inv_def)
  have "insert m used \<union> (\<Union>h. set ((lc(i := rest)) h)) = used \<union> (\<Union>h. set (lc h))"
    unfolding UN_upd UN_split [of lc i] using ok(2) by auto
  then have "caches_inv G (lc(i := rest)) (insert m used) X"
    using inv lc_ok_pop [OF ok] by (simp add: caches_inv_def)
  with lc_ok_pop [OF ok] show thesis using that r by simp
qed

definition hits_only :: "addr set \<Rightarrow> 'p ChunkPool_scheme \<Rightarrow> 'p ChunkPool_scheme \<Rightarrow> bool" where
  "hits_only C G G' \<longleftrightarrow> (\<forall>A. A \<inter> words_of C = {} \<longrightarrow> same_at A (mem_bytes G) (mem_bytes G'))"

lemma hits_only_refl [simp]: "hits_only C G G"
  by (simp add: hits_only_def)

lemma hits_only_trans: "hits_only C G G' \<Longrightarrow> hits_only C G' G'' \<Longrightarrow> hits_only C G G''"
  unfolding hits_only_def by (blast intro: same_at_trans)

lemma hits_only_mono: "hits_only C G G' \<Longrightarrow> C \<subseteq> D \<Longrightarrow> hits_only D G G'"
proof -
  assume h: "hits_only C G G'" and "C \<subseteq> D"
  then have "words_of C \<subseteq> words_of D" by (simp add: words_of_mono)
  then have "A \<inter> words_of D = {} \<Longrightarrow> A \<inter> words_of C = {}" for A by blast
  with h show "hits_only D G G'" by (simp add: hits_only_def)
qed

lemma chunk_release_global_caches:
  assumes inv: "caches_inv G lc used X" and m: "m \<in> used"
  shows "caches_inv (chunk_release_global m G) lc (used - {m}) X" "pool_frame G (chunk_release_global m G)"
    "hits_only (insert m (free_chunks G lc)) G (chunk_release_global m G)"
    "free_chunks (chunk_release_global m G) lc \<subseteq> insert m (free_chunks G lc)"
proof -
  have i: "chunks_inv G (used \<union> (\<Union>h. set (lc h))) X" "m \<in> used \<union> (\<Union>h. set (lc h))"
    using inv m by (auto simp: caches_inv_def)
  note r = chunk_release_global_released [OF i]
  have "used \<union> (\<Union>h. set (lc h)) - {m} = (used - {m}) \<union> (\<Union>h. set (lc h))"
    using inv m by (auto simp: caches_inv_def lc_ok_def)
  with r(1) show "caches_inv (chunk_release_global m G) lc (used - {m}) X"
    using inv lc_ok_shrink [of lc used "used - {m}"] by (auto simp: caches_inv_def)
  show "pool_frame G (chunk_release_global m G)" by (rule r(2))
  show "free_chunks (chunk_release_global m G) lc \<subseteq> insert m (free_chunks G lc)"
    using r(4) by (auto simp: free_chunks_def)
  have "hits_only (insert m (set (span_cache G))) G (chunk_release_global m G)"
    using r(3) by (simp add: hits_only_def)
  then show "hits_only (insert m (free_chunks G lc)) G (chunk_release_global m G)"
    by (rule hits_only_mono) (auto simp: free_chunks_def)
qed

lemma chunk_release_ok:
  assumes inv: "caches_inv G lc used X" and m: "m \<in> used" and lc: "lc i = local_cache hc"
    and e: "chunk_release (Some hc) m G = (ho, G')"
  obtains hc' where "ho = Some hc'" "HeapCache.more hc' = HeapCache.more hc" "pool_frame G G'"
    "caches_inv G' (lc(i := local_cache hc')) (used - {m}) X" "hits_only (insert m (free_chunks G lc)) G G'"
proof (cases "local_count hc < 64")
  case True
  let ?h = "hc\<lparr>local_cache := m # local_cache hc, local_count := local_count hc + 1\<rparr>"
  have r: "ho = Some ?h" "G' = G\<lparr>mem_bytes := write_ptr m (list_link (local_cache hc)) (mem_bytes G)\<rparr>"
    using e True by (simp_all add: chunk_release_def)
  have "used - {m} \<union> (\<Union>h. set ((lc(i := m # local_cache hc)) h)) = used \<union> (\<Union>h. set (lc h))"
    unfolding UN_upd UN_split [of lc i] using m lc by auto
  moreover have "chunks_inv G' (used \<union> (\<Union>h. set (lc h))) X"
    using inv by (auto simp: r(2) caches_inv_def intro: chunks_inv_cong)
  ultimately have "caches_inv G' (lc(i := m # local_cache hc)) (used - {m}) X"
    using inv lc_ok_push [of lc used m i] m by (simp add: caches_inv_def lc)
  moreover have "hits_only (insert m (free_chunks G lc)) G G'"
    by (auto simp: hits_only_def r(2) intro: same_at_write_ptr)
  ultimately show thesis using that r by (simp add: pool_frame_def)
next
  case False
  then have r: "ho = Some hc" "G' = chunk_release_global m G"
    using e by (simp_all add: chunk_release_def)
  have lc': "lc(i := local_cache hc) = lc" using lc by (metis fun_upd_triv)
  show thesis
    using that [OF r(1)] chunk_release_global_caches [OF inv m] by (simp add: r(2) lc')
qed

lemma release_all_ok:
  assumes "caches_inv G lc used X" "set ms \<subseteq> used" "distinct ms"
  shows "caches_inv (release_all ms G) lc (used - set ms) X \<and> pool_frame G (release_all ms G) \<and>
    hits_only (set ms \<union> free_chunks G lc) G (release_all ms G)"
  using assms
proof (induction ms arbitrary: G used)
  case (Cons m ms)
  let ?G = "chunk_release_global m G"
  have m: "m \<in> used" "set ms \<subseteq> used - {m}" "distinct ms" using Cons.prems by auto
  note r = chunk_release_global_caches [OF Cons.prems(1) m(1)]
  have ih: "caches_inv (release_all ms ?G) lc (used - {m} - set ms) X" "pool_frame ?G (release_all ms ?G)"
    "hits_only (set ms \<union> free_chunks ?G lc) ?G (release_all ms ?G)"
    using Cons.IH [OF r(1) m(2,3)] by auto
  have "hits_only (set (m # ms) \<union> free_chunks G lc) ?G (release_all ms ?G)"
    by (rule hits_only_mono [OF ih(3)]) (use r(4) in auto)
  moreover have "hits_only (set (m # ms) \<union> free_chunks G lc) G ?G"
    by (rule hits_only_mono [OF r(3)]) auto
  ultimately have "hits_only (set (m # ms) \<union> free_chunks G lc) G (release_all ms ?G)"
    by (blast intro: hits_only_trans)
  moreover have "used - {m} - set ms = used - set (m # ms)" by auto
  moreover have "pool_frame G (release_all ms ?G)" using r(2) ih(2) by (rule pool_frame_trans)
  ultimately show ?case using ih(1) by simp
qed simp

lemma lc_ok_drop:
  assumes "lc_ok lc used"
  shows "lc_ok (lc(i := [])) (used \<union> set (lc i))"
proof -
  have "set ((lc(i := [])) h) \<inter> (used \<union> set (lc i)) = {}" for h
    using assms unfolding lc_ok_def by (cases "h = i") auto
  then show ?thesis using assms unfolding lc_ok_def by auto
qed

lemma chunk_local_to_global_ok:
  assumes inv: "caches_inv G lc used X" and lc: "lc i = local_cache hc"
    and e: "chunk_local_to_global hc G = (hc', G')"
  shows "local_cache hc' = []" "HeapCache.more hc' = HeapCache.more hc" "pool_frame G G'"
    "caches_inv G' (lc(i := [])) used X" "hits_only (free_chunks G lc) G G'"
proof -
  show "local_cache hc' = []" "HeapCache.more hc' = HeapCache.more hc"
    using e by (auto simp: chunk_local_to_global_def)
  have G': "G' = release_all (lc i) G" using e lc by (simp add: chunk_local_to_global_def)
  have ok: "lc_ok lc used" using inv by (simp add: caches_inv_def)
  have "used \<union> set (lc i) \<union> (\<Union>h. set ((lc(i := [])) h)) = used \<union> (\<Union>h. set (lc h))"
    unfolding UN_upd UN_split [of lc i] by auto
  then have i: "caches_inv G (lc(i := [])) (used \<union> set (lc i)) X"
    using inv lc_ok_drop [OF ok] by (simp add: caches_inv_def)
  have "used \<union> set (lc i) - set (lc i) = used" "distinct (lc i)" using ok by (auto simp: lc_ok_def)
  with release_all_ok [OF i, of "lc i"] show "caches_inv G' (lc(i := [])) used X" "pool_frame G G'"
    by (simp_all add: G')
  have "set (lc i) \<union> free_chunks G (lc(i := [])) = free_chunks G lc"
    unfolding free_chunks_def UN_upd UN_split [of lc i] by auto
  with release_all_ok [OF i, of "lc i"] \<open>distinct (lc i)\<close> show "hits_only (free_chunks G lc) G G'"
    by (simp add: G')
qed

lemma free_segments_spec:
  "mapped (free_segments ss log) = mapped log - (\<Union>s \<in> set ss. region (seg_base s) SEG_SIZE)"
  by (induction ss log rule: free_segments.induct) auto

section \<open>How far a purge goes\<close>

lemma card_seg_chunks: "card (seg_chunks s) = next_chunk s - 1"
proof -
  have "seg_chunks s = (\<lambda>i. seg_base s + i * SPAN_SIZE) ` {1..<next_chunk s}"
    by (auto simp: seg_chunks_def)
  moreover have "inj_on (\<lambda>i. seg_base s + i * SPAN_SIZE) {1..<next_chunk s}"
    by (auto simp: inj_on_def)
  ultimately show ?thesis by (simp add: card_image)
qed

text \<open>The automatic pass condemns only long-idle segments, and fewer than one segment's worth
  of chunks beyond the target.\<close>

lemma purge_condemn_target:
  assumes "purge_condemn now False target ss dm = (kept, dm')" "\<forall>s \<in> set ss. 1 \<le> next_chunk s \<and> next_chunk s \<le> 64"
  shows "\<exists>new. dm' = new @ dm \<and> (\<Sum>s \<leftarrow> new. int (next_chunk s) - 1) \<le> max 0 (target + 62) \<and>
    (\<forall>s \<in> set new. u64 (now - idle_since s) \<ge> PURGE_DELAY_MS)"
  using assms
proof (induction now "False" target ss dm arbitrary: kept dm' rule: purge_condemn.induct)
  case (2 now target s ss dm)
  show ?case
  proof (cases "target > 0")
    case False
    with "2.prems" show ?thesis by auto
  next
    case t: True
    show ?thesis
    proof (cases "live s = 0 \<and> u64 (now - idle_since s) \<ge> 500")
      case True
      let ?n = "int (next_chunk s) - 1"
      have n: "0 \<le> ?n" "?n \<le> 63" using "2.prems"(2) by auto
      obtain new where "dm' = new @ s\<lparr>doomed := 1\<rparr> # dm"
        "(\<Sum>s \<leftarrow> new. int (next_chunk s) - 1) \<le> max 0 (target - ?n + 62)"
        "\<forall>s \<in> set new. u64 (now - idle_since s) \<ge> 500"
        using "2.hyps"(1) [of kept dm'] "2.prems" t True by auto
      with n t True show ?thesis by (intro exI [of _ "new @ [s\<lparr>doomed := 1\<rparr>]"]) auto
    next
      case False
      then obtain k' where "purge_condemn now False target ss dm = (k', dm')"
        using "2.prems" t by (auto split: prod.splits)
      then show ?thesis using "2.hyps"(2) [of k' dm'] "2.prems" t False by auto
    qed
  qed
qed auto

lemma purge_extracted_le:
  assumes inv: "chunks_inv G out X"
  shows "int (length (filter (\<lambda>c. seg_of c \<in> D) (span_cache G))) \<le>
    (\<Sum>s \<leftarrow> filter (\<lambda>s. seg_base s \<in> D) (segments G). int (next_chunk s) - 1)"
proof -
  let ?S = "set (filter (\<lambda>s. seg_base s \<in> D) (segments G))"
  have d: "distinct (span_cache G)" "distinct (map seg_base (segments G))"
    and ok: "\<forall>s \<in> set (segments G). seg_ok s"
    and all: "out \<union> set (span_cache G) = (\<Union>s \<in> set (segments G). seg_chunks s)"
    using inv by (simp_all add: chunks_inv_def)
  have "{c \<in> set (span_cache G). seg_of c \<in> D} \<subseteq> (\<Union>s \<in> ?S. seg_chunks s)"
  proof
    fix c assume c: "c \<in> {c \<in> set (span_cache G). seg_of c \<in> D}"
    with all obtain s where s: "s \<in> set (segments G)" "c \<in> seg_chunks s" by blast
    with ok have "seg_of c = seg_base s" using seg_of_chunk(1) by blast
    with c s show "c \<in> (\<Union>s \<in> ?S. seg_chunks s)" by auto
  qed
  then have "card {c \<in> set (span_cache G). seg_of c \<in> D} \<le> card (\<Union>s \<in> ?S. seg_chunks s)"
    by (intro card_mono) simp_all
  also have "\<dots> \<le> (\<Sum>s \<in> ?S. card (seg_chunks s))" by (rule card_UN_le) simp
  also have "\<dots> = (\<Sum>s \<leftarrow> filter (\<lambda>s. seg_base s \<in> D) (segments G). next_chunk s - 1)"
    using d(2) by (subst sum_list_distinct_conv_sum_set) (auto simp: card_seg_chunks distinct_map)
  finally have "length (filter (\<lambda>c. seg_of c \<in> D) (span_cache G)) \<le>
      (\<Sum>s \<leftarrow> filter (\<lambda>s. seg_base s \<in> D) (segments G). next_chunk s - 1)"
    using d(1) by (metis distinct_card distinct_filter set_filter)
  also have "int \<dots> = (\<Sum>s \<leftarrow> filter (\<lambda>s. seg_base s \<in> D) (segments G). int (next_chunk s) - 1)"
  proof -
    have "int (\<Sum>s \<leftarrow> ss. next_chunk s - 1) = (\<Sum>s \<leftarrow> ss. int (next_chunk s) - 1)"
      if "\<forall>s \<in> set ss. seg_ok s" for ss
      using that by (induction ss) (auto simp: seg_ok_def of_nat_diff)
    then show ?thesis using ok by simp
  qed
  finally show ?thesis by simp
qed

lemma purge_apply_count:
  assumes inv: "chunks_inv G out X" and t: "0 \<le> target"
  shows "cache_count G - (target + 62) \<le> cache_count (purge_apply_locked now False target G)"
proof -
  obtain kept dm where k: "purge_condemn now False target (segments G) [] = (kept, dm)" by force
  have dist: "distinct (map seg_base (segments G))" and ok: "\<forall>s \<in> set (segments G). seg_ok s"
    using inv by (simp_all add: chunks_inv_def)
  from purge_condemn_spec [OF k dist] obtain D where D: "D \<subseteq> seg_base ` set (segments G)"
    "kept = filter (\<lambda>s. seg_base s \<notin> D) (segments G)"
    "dm = rev (map (\<lambda>s. s\<lparr>doomed := 1\<rparr>) (filter (\<lambda>s. seg_base s \<in> D) (segments G)))" by auto
  have "(\<Sum>s \<leftarrow> dm. int (next_chunk s) - 1) \<le> target + 62"
    using purge_condemn_target [OF k] ok t by (fastforce simp: seg_ok_def)
  moreover have "(\<Sum>s \<leftarrow> dm. int (next_chunk s) - 1) =
      (\<Sum>s \<leftarrow> filter (\<lambda>s. seg_base s \<in> D) (segments G). int (next_chunk s) - 1)"
    unfolding D(3) by (simp add: rev_map [symmetric] sum_list_rev comp_def)
  ultimately have le: "int (length (filter (\<lambda>c. seg_of c \<in> D) (span_cache G))) \<le> target + 62"
    using purge_extracted_le [OF inv, of D] by linarith
  have inv': "chunks_inv (purge_apply_locked now False target G) out X"
    using purge_apply_purged [OF inv] by (simp add: purged_def)
  show ?thesis
  proof (cases "dm = []")
    case True
    then show ?thesis using t by (simp add: purge_apply_locked_def k)
  next
    case False
    have sd: "seg_doomed (kept @ dm) c \<Longrightarrow> seg_of c \<in> D" for c
      using ok by (auto simp: seg_doomed_def list_ex_iff D(2,3) seg_ok_def)
    obtain cache cnt mem where e: "purge_extract (kept @ dm) None (span_cache G) (cache_count G) (mem_bytes G) = (cache, cnt, mem)"
      by (metis prod_cases3)
    have "length cache = length (filter (\<lambda>c. \<not> seg_doomed (kept @ dm) c) (span_cache G))"
      "cnt - int (length cache) = cache_count G - int (length (span_cache G))"
      using purge_extract_spec [OF e] by auto
    moreover have "length (filter (\<lambda>c. seg_doomed (kept @ dm) c) (span_cache G)) \<le>
        length (filter (\<lambda>c. seg_of c \<in> D) (span_cache G))"
      using sd by (intro length_filter_mono)
    moreover have "length (filter (\<lambda>c. seg_doomed (kept @ dm) c) (span_cache G)) +
        length (filter (\<lambda>c. \<not> seg_doomed (kept @ dm) c) (span_cache G)) = length (span_cache G)"
      by (rule sum_length_filter_compl)
    ultimately have "int (length (span_cache G)) - (target + 62) \<le> int (length cache)" using le by linarith
    then have "cache_count G - (target + 62) \<le> cnt"
      using \<open>cnt - int (length cache) = _\<close> by linarith
    then show ?thesis using False by (simp add: purge_apply_locked_def k e split: prod.splits)
  qed
qed

section \<open>Properties\<close>

definition chunk_pool_zero :: "os_event list \<Rightarrow> ChunkPool" where
  "chunk_pool_zero log =
    \<lparr>span_cache = [], cache_count = 0, segments = [], cache_avg = 0, purging = False,
     last_purge_ms = 0, purge_count = 0, os_log = log, clk = 0, mem_bytes = (\<lambda>_. 0)\<rparr>"

lemma chunk_pool_zero_inv: "chunks_inv (chunk_pool_zero log) {} {}"
  by (simp add: chunk_pool_zero_def chunks_inv_def regions_inv_def)

text \<open>Purging is safe: whatever the clock, the mode and the target, every chunk that is
  out (in use or in a thread's cache) stays mapped, keeps its contents, and the pool's
  invariant holds afterwards.\<close>

theorem purge_safe:
  assumes "chunks_inv G out X" "c \<in> out"
  shows "let G' = purge_apply_locked now force target G in
    chunks_inv G' out X \<and> region c SPAN_SIZE \<subseteq> mapped (os_log G') \<and>
    same_at (region c SPAN_SIZE) (mem_bytes G) (mem_bytes G')"
proof -
  let ?G = "purge_apply_locked now force target G"
  have p: "purged G out X ?G" using assms(1) by (rule purge_apply_purged)
  then have inv: "chunks_inv ?G out X" by (simp add: purged_def)
  have c: "c \<in> out \<union> set (span_cache G)" "c \<in> out \<union> set (span_cache ?G)" using assms(2) by auto
  have "region c SPAN_SIZE \<inter> words_of (set (span_cache G)) = {}"
  proof -
    have "region c SPAN_SIZE \<inter> region d SPAN_SIZE = {}" if "d \<in> set (span_cache G)" for d
    proof (rule aligned_disjoint)
      show "c mod SPAN_SIZE = 0" using chunks_inv_chunk [OF assms(1) c(1)] by metis
      show "d mod SPAN_SIZE = 0" using chunks_inv_chunk [OF assms(1), of d] that by blast
      show "c \<noteq> d" using assms that by (auto simp: chunks_inv_def)
    qed
    moreover have "{d..<d + 8} \<subseteq> region d SPAN_SIZE" for d by (auto simp: region_def)
    ultimately show ?thesis unfolding words_of_def by blast
  qed
  moreover have "region c SPAN_SIZE \<subseteq> mapped (os_log ?G)"
    using chunks_inv_chunk [OF inv c(2)] by metis
  ultimately show ?thesis using p inv by (simp add: purged_def)
qed

theorem purge_safe_witness:
  "\<exists>m G. chunk_acquire_global bump_mmap (chunk_pool_zero []) = (Some m, G) \<and>
     region m SPAN_SIZE \<subseteq> mapped (os_log (purge_apply_locked 1000 True 0 G))"
proof -
  obtain m G where a: "chunk_acquire_global bump_mmap (chunk_pool_zero []) = (Some m, G)"
    by (simp add: chunk_acquire_global_def chunk_new_segment_def chunk_pool_zero_def seg_os_alloc_def
        bump_mmap_def trim_map_def Let_def)
  have "acquired (chunk_pool_zero []) {} {} (Some m) G"
    by (rule chunk_acquire_global_acquired [OF chunk_pool_zero_inv bump_mmap_law a])
  then have "chunks_inv G {m} {}" by (simp add: acquired_def)
  from purge_safe [OF this, of m 1000 True 0] a show ?thesis by (auto simp: Let_def)
qed

text \<open>Hysteresis of the automatic purge: it never takes the global cache more than 62
  chunks below the low-water mark (it stops within one segment of it), and leaves a cache
  that is already below the mark alone.\<close>

theorem purge_keeps_low_mark:
  assumes "chunks_inv G out X" "cache_count G < 2147483648"
  shows "min (cache_count G) (PURGE_LOW - 62) \<le> cache_count (memop_purge_locked now G)"
proof -
  have c: "0 \<le> cache_count G" using assms(1) by (simp add: chunks_inv_def)
  have "450 \<le> cache_count (purge_apply_locked now False t (G\<lparr>last_purge_ms := l, cache_avg := a, purging := p\<rparr>))"
    if "512 < cache_count G" "t = cache_count G - 512" for t l a p
    using purge_apply_count [OF chunks_inv_cong [OF assms(1)] _,
        of "G\<lparr>last_purge_ms := l, cache_avg := a, purging := p\<rparr>" t now] that by simp
  moreover have "450 \<le> cache_count (purge_apply_locked now False t (G\<lparr>last_purge_ms := l, cache_avg := a\<rparr>))"
    if "512 < cache_count G" "t = cache_count G - 512" for t l a
    using purge_apply_count [OF chunks_inv_cong [OF assms(1)] _,
        of "G\<lparr>last_purge_ms := l, cache_avg := a\<rparr>" t now] that by simp
  moreover have "i32 (cache_count G - 512) = cache_count G - 512" using c assms(2) by simp
  ultimately show ?thesis
    by (auto simp: memop_purge_locked_def Let_def min_def not_le dest: less_imp_le)
qed

theorem purge_keeps_low_mark_witness:
  "min (cache_count (chunk_pool_zero [])) (PURGE_LOW - 62) \<le>
    cache_count (memop_purge_locked 250 (chunk_pool_zero []))"
  using purge_keeps_low_mark [OF chunk_pool_zero_inv, of "[]" 250] by (simp add: chunk_pool_zero_def)

end
