(* ===== verification/Site_Table.thy ===== *)
theory Site_Table
  imports Prelude
begin

text \<open>
  The creation-site table of \<open>memory_pool.c\<close> (\<open>memop_site_hash\<close>,
  \<open>memop_site_record\<close>, \<open>memop_site_lookup\<close>): a fixed table of 4096 entries with
  linear probing, keyed by the span's address.  A table index is a \<open>12 word\<close>, the range of
  \<open>idx & MEMOP_SITE_TABLE_MASK\<close>.  On Linux no stack is captured: \<open>frame_count\<close> is 0.
  The theorem shows that the table is a finite map until it is full.
\<close>

type_synonym site_idx = "12 word"

record MemSiteEntry =
  span_base :: addr
  frame_count :: int
  created_ms :: int

type_synonym site_table = "site_idx \<Rightarrow> MemSiteEntry"

record site_state =
  leak_watch_enabled :: bool
  site_table :: site_table

definition site_zero :: MemSiteEntry where
  "site_zero = \<lparr>span_base = 0, frame_count = 0, created_ms = 0\<rparr>"

definition memop_site_hash :: "addr \<Rightarrow> site_idx" where
  "memop_site_hash a =
    (let v0 = drop_bit 16 (of_nat a :: 64 word);
         v1 = (v0 XOR drop_bit 33 v0) * 0xff51afd7ed558ccd;
         v2 = (v1 XOR drop_bit 33 v1) * 0xc4ceb9fe1a85ec53;
         v3 = v2 XOR drop_bit 33 v2
     in ucast (v3 AND 0xfff))"

lemma site_dist_step:
  fixes idx start :: site_idx
  assumes "idx + 1 \<noteq> start"
  shows "unat (start - (idx + 1) - 1) < unat (start - idx - 1)"
proof -
  have "start - idx - 1 \<noteq> 0" using assms by (metis add_diff_cancel_left' diff_diff_eq eq_iff_diff_eq_0)
  then have "unat (start - idx - 1) \<noteq> 0" by (simp add: unat_eq_0)
  moreover have "start - (idx + 1) - 1 = (start - idx - 1) - 1" by simp
  ultimately show ?thesis
    by (metis \<open>start - idx - 1 \<noteq> 0\<close> diff_less neq0_conv unat_minus_one zero_less_one)
qed

text \<open>The probe of both loops: the first slot from \<open>idx\<close> on that is free or holds the
  span, or \<open>None\<close> when the search is back at \<open>start\<close>.\<close>

function site_probe :: "site_table \<Rightarrow> addr \<Rightarrow> site_idx \<Rightarrow> site_idx \<Rightarrow> site_idx option" where
  "site_probe T b start idx =
    (if span_base (T idx) = 0 \<or> span_base (T idx) = b then Some idx
     else if idx + 1 = start then None
     else site_probe T b start (idx + 1))"
  by pat_completeness auto

termination
proof (relation "measure (\<lambda>(T, b, start, idx). unat (start - idx - 1))", goal_cases)
  case 1
  show ?case by simp
next
  case (2 T b start idx)
  show ?case unfolding in_measure prod.case by (rule site_dist_step [OF 2(2)])
qed

declare site_probe.simps [simp del]

definition memop_site_record :: "addr \<Rightarrow> int \<Rightarrow> site_state \<Rightarrow> site_state" where
  "memop_site_record b now S =
    (if \<not> leak_watch_enabled S then S
     else case site_probe (site_table S) b (memop_site_hash b) (memop_site_hash b) of
       Some idx \<Rightarrow> S\<lparr>site_table := (site_table S)(idx := \<lparr>span_base = b, frame_count = 0, created_ms = now\<rparr>)\<rparr>
     | None \<Rightarrow> S)"

text \<open>The lookup fills \<open>(site_frame_count, created_ms)\<close> of the caller's record.\<close>

definition memop_site_lookup :: "addr \<Rightarrow> site_state \<Rightarrow> int \<times> int" where
  "memop_site_lookup b S =
    (case site_probe (site_table S) b (memop_site_hash b) (memop_site_hash b) of
       Some idx \<Rightarrow> let e = site_table S idx in
         if span_base e = 0 then (0, 0) else (frame_count e, created_ms e)
     | None \<Rightarrow> (0, 0))"

definition memop_leak_watch_enable :: "bool \<Rightarrow> site_state \<Rightarrow> site_state" where
  "memop_leak_watch_enable on S = S\<lparr>leak_watch_enabled := on\<rparr>"

section \<open>The probe sequence\<close>

text \<open>The probe in closed form: slot \<open>start + n\<close> for the first \<open>n\<close> that stops it.\<close>

definition stops :: "site_table \<Rightarrow> addr \<Rightarrow> site_idx \<Rightarrow> bool" where
  "stops T b i \<longleftrightarrow> span_base (T i) = 0 \<or> span_base (T i) = b"

lemma site_probe_some:
  "site_probe T b start idx = Some i \<Longrightarrow>
    \<exists>n. i = idx + of_nat n \<and> n \<le> unat (start - idx - 1) \<and> stops T b i \<and> (\<forall>k < n. \<not> stops T b (idx + of_nat k))"
proof (induction T b start idx rule: site_probe.induct)
  case (1 T b start idx)
  show ?case
  proof (cases "stops T b idx")
    case True
    with "1.prems" show ?thesis
      by (subst (asm) site_probe.simps) (auto simp: stops_def intro: exI [of _ 0])
  next
    case False
    then have ne: "idx + 1 \<noteq> start" "site_probe T b start (idx + 1) = Some i"
      using "1.prems" by (subst (asm) site_probe.simps, auto simp: stops_def split: if_splits)+
    with "1.IH" False obtain n where n: "i = idx + 1 + of_nat n" "n \<le> unat (start - (idx + 1) - 1)"
      "stops T b i" "\<forall>k < n. \<not> stops T b (idx + 1 + of_nat k)"
      by (auto simp: stops_def)
    have "\<not> stops T b (idx + of_nat k)" if "k < Suc n" for k
    proof (cases k)
      case (Suc j)
      then have "\<not> stops T b (idx + 1 + of_nat j)" using n(4) that by simp
      then show ?thesis by (simp add: Suc add.assoc)
    qed (use False in simp)
    moreover have "i = idx + of_nat (Suc n)" using n(1) by (simp add: ac_simps)
    moreover have "Suc n \<le> unat (start - idx - 1)" using n(2) site_dist_step [OF ne(1)] by simp
    ultimately show ?thesis using n(3) by blast
  qed
qed

lemma site_probe_reaches:
  "(\<forall>k < n. \<not> stops T b (idx + of_nat k)) \<Longrightarrow> stops T b (idx + of_nat n) \<Longrightarrow> n \<le> unat (start - idx - 1) \<Longrightarrow>
    site_probe T b start idx = Some (idx + of_nat n)"
proof (induction n arbitrary: idx)
  case 0
  then show ?case by (subst site_probe.simps) (simp add: stops_def)
next
  case (Suc n)
  have ns: "\<not> stops T b idx" using Suc.prems(1) by (auto dest: spec [of _ 0])
  have "unat (start - idx - 1) \<noteq> 0" using Suc.prems(3) by linarith
  then have ne: "start - idx - 1 \<noteq> 0" by (metis unat_0)
  then have ne': "idx + 1 \<noteq> start" by auto
  have "unat (start - (idx + 1) - 1) = unat (start - idx - 1) - 1"
    using unat_minus_one [OF ne] by (simp add: diff_diff_eq)
  then have "n \<le> unat (start - (idx + 1) - 1)" using Suc.prems(3) by simp
  moreover have "\<forall>k < n. \<not> stops T b (idx + 1 + of_nat k)"
    using Suc.prems(1) by (auto simp: add.assoc dest: spec [of _ "Suc _"])
  moreover have "stops T b (idx + 1 + of_nat n)" using Suc.prems(2) by (simp add: add.assoc)
  ultimately have "site_probe T b start (idx + 1) = Some (idx + 1 + of_nat n)" by (intro Suc.IH)
  then show ?case using ns ne' by (subst site_probe.simps) (simp add: stops_def add.assoc)
qed

section \<open>The table as a map\<close>

definition site_find :: "site_table \<Rightarrow> addr \<Rightarrow> site_idx option" where
  "site_find T b = site_probe T b (memop_site_hash b) (memop_site_hash b)"

definition site_inv :: "site_table \<Rightarrow> bool" where
  "site_inv T \<longleftrightarrow> (\<forall>i. span_base (T i) \<noteq> 0 \<longrightarrow> site_find T (span_base (T i)) = Some i)"

lemma probe_length: "unat ((h :: site_idx) - h - 1) = 4095"
proof -
  have "(- 1 :: site_idx) = 4095" by simp
  then have "unat (- 1 :: site_idx) = 4095" by (simp only: unat_numeral) simp
  then show ?thesis by simp
qed

lemma site_find_some:
  "site_find T b = Some i \<Longrightarrow> \<exists>n. n < 4096 \<and> i = memop_site_hash b + of_nat n \<and> stops T b i \<and>
    (\<forall>k < n. \<not> stops T b (memop_site_hash b + of_nat k))"
proof -
  assume "site_find T b = Some i"
  then obtain n where "i = memop_site_hash b + of_nat n" "n \<le> 4095" "stops T b i"
    "\<forall>k < n. \<not> stops T b (memop_site_hash b + of_nat k)"
    using site_probe_some [of T b "memop_site_hash b" "memop_site_hash b" i]
    unfolding site_find_def probe_length by blast
  moreover have "n < 4096" using \<open>n \<le> 4095\<close> by simp
  ultimately show ?thesis by blast
qed

lemma site_find_reaches:
  assumes "n < 4096" "stops T b (memop_site_hash b + of_nat n)"
    "\<And>k. k < n \<Longrightarrow> \<not> stops T b (memop_site_hash b + of_nat k)"
  shows "site_find T b = Some (memop_site_hash b + of_nat n)"
  unfolding site_find_def by (rule site_probe_reaches) (use assms in \<open>auto simp only: probe_length\<close>)

lemma of_nat_12_inj:
  "k < 4096 \<Longrightarrow> n < 4096 \<Longrightarrow> (of_nat k :: site_idx) = of_nat n \<longleftrightarrow> k = n"
  by (simp add: word_of_nat_eq_iff take_bit_eq_mod)

lemma site_find_stable:
  assumes "site_find T c = Some i" "i \<noteq> idx" "span_base e \<noteq> 0" "span_base e \<noteq> c"
  shows "site_find (T(idx := e)) c = Some i"
proof -
  obtain n where n: "n < 4096" "i = memop_site_hash c + of_nat n" "stops T c i"
    "\<forall>k < n. \<not> stops T c (memop_site_hash c + of_nat k)"
    using site_find_some [OF assms(1)] by blast
  show ?thesis
    unfolding n(2) by (rule site_find_reaches [OF n(1)]) (use n assms in \<open>auto simp: stops_def\<close>)
qed

lemma site_find_new:
  assumes "site_find T b = Some idx" "span_base e = b"
  shows "site_find (T(idx := e)) b = Some idx"
proof -
  obtain n where n: "n < 4096" "idx = memop_site_hash b + of_nat n"
    "\<forall>k < n. \<not> stops T b (memop_site_hash b + of_nat k)"
    using site_find_some [OF assms(1)] by blast
  have "memop_site_hash b + of_nat k \<noteq> idx" if "k < n" for k
    using that n(1,2) by (simp add: of_nat_12_inj)
  then show ?thesis
    unfolding n(2) by (intro site_find_reaches [OF n(1)]) (use n assms in \<open>auto simp: stops_def\<close>)
qed

lemma site_find_present:
  assumes "site_inv T" "span_base (T i) = c" "c \<noteq> 0"
  shows "site_find T c = Some i"
  using assms by (auto simp: site_inv_def)

lemma site_lookup_present:
  assumes "site_inv (site_table S)" "span_base (site_table S i) = c" "c \<noteq> 0"
  shows "memop_site_lookup c S = (frame_count (site_table S i), created_ms (site_table S i))"
  using site_find_present [OF assms] assms by (simp add: memop_site_lookup_def site_find_def Let_def)

lemma site_lookup_absent:
  assumes "\<And>i. span_base (site_table S i) \<noteq> c"
  shows "memop_site_lookup c S = (0, 0)"
proof (cases "site_find (site_table S) c")
  case None
  then show ?thesis by (simp add: memop_site_lookup_def site_find_def)
next
  case (Some i)
  with site_find_some [OF Some] assms have "span_base (site_table S i) = 0" by (auto simp: stops_def)
  with Some show ?thesis by (simp add: memop_site_lookup_def site_find_def Let_def)
qed

lemma site_record_inv:
  assumes inv: "site_inv (site_table S)" and b: "b \<noteq> 0"
  shows "site_inv (site_table (memop_site_record b now S))"
proof (cases "leak_watch_enabled S \<and> site_find (site_table S) b \<noteq> None")
  case True
  then obtain idx where f: "site_find (site_table S) b = Some idx" by blast
  let ?e = "\<lparr>span_base = b, frame_count = 0, created_ms = now\<rparr>"
  let ?T = "(site_table S)(idx := ?e)"
  have T: "site_table (memop_site_record b now S) = ?T"
    using True f by (simp add: memop_site_record_def site_find_def)
  have "site_find ?T (span_base (?T i)) = Some i" if nz: "span_base (?T i) \<noteq> 0" for i
  proof (cases "i = idx")
    case True
    then show ?thesis using site_find_new [OF f, of ?e] by simp
  next
    case False
    let ?c = "span_base (site_table S i)"
    have c: "site_find (site_table S) ?c = Some i"
      using nz False by (intro site_find_present [OF inv]) auto
    then have "?c \<noteq> b" using f False by auto
    with site_find_stable [OF c False, of ?e] False b show ?thesis by simp
  qed
  then show ?thesis by (simp add: T site_inv_def)
next
  case False
  then have "memop_site_record b now S = S"
    by (auto simp: memop_site_record_def site_find_def split: option.splits)
  then show ?thesis using inv by simp
qed

text \<open>C38: the table is a map: recording a span's creation makes the lookup of that span
  return the recorded time and leaves the lookup of every other span as it was, as long as
  the probe finds a slot; a full table is left unchanged.\<close>

theorem site_record_lookup:
  assumes "site_inv (site_table S)" "b \<noteq> 0" "c \<noteq> 0" "leak_watch_enabled S"
  shows "if site_find (site_table S) b = None then memop_site_record b now S = S
    else memop_site_lookup c (memop_site_record b now S) =
      (if c = b then (0, now) else memop_site_lookup c S)"
proof (cases "site_find (site_table S) b")
  case None
  then show ?thesis using assms by (simp add: memop_site_record_def site_find_def)
next
  case (Some idx)
  let ?S = "memop_site_record b now S"
  let ?e = "\<lparr>span_base = b, frame_count = 0, created_ms = now\<rparr>"
  have T: "site_table ?S = (site_table S)(idx := ?e)"
    using Some assms(4) by (simp add: memop_site_record_def site_find_def)
  have inv: "site_inv (site_table ?S)" using site_record_inv [OF assms(1,2)] .
  have idx: "span_base (site_table S idx) = 0 \<or> span_base (site_table S idx) = b"
    using site_find_some [OF Some] by (auto simp: stops_def)
  have "memop_site_lookup c ?S = (if c = b then (0, now) else memop_site_lookup c S)"
  proof (cases "c = b")
    case True
    then show ?thesis using site_lookup_present [OF inv, of idx c] assms(3) by (simp add: T)
  next
    case False
    show ?thesis
    proof (cases "\<exists>i. span_base (site_table S i) = c")
      case True
      then obtain i where i: "span_base (site_table S i) = c" by blast
      then have "i \<noteq> idx" using idx False assms(3) by auto
      then show ?thesis
        using site_lookup_present [OF inv, of i c] site_lookup_present [OF assms(1) i assms(3)] i assms(3) False
        by (simp add: T)
    next
      case none: False
      then have "span_base (site_table ?S i) \<noteq> c" for i using False by (simp add: T)
      then have "memop_site_lookup c ?S = (0, 0)" by (rule site_lookup_absent)
      moreover have "memop_site_lookup c S = (0, 0)" using none by (intro site_lookup_absent) auto
      ultimately show ?thesis using False by simp
    qed
  qed
  then show ?thesis using Some by simp
qed

definition site_empty :: site_state where
  "site_empty = \<lparr>leak_watch_enabled = False, site_table = (\<lambda>_. site_zero)\<rparr>"

lemma site_empty_inv: "site_inv (site_table site_empty)"
  by (simp add: site_empty_def site_inv_def site_zero_def)

theorem site_record_lookup_witness:
  "memop_site_lookup 65536 (memop_site_record 65536 42 (memop_leak_watch_enable True site_empty)) = (0, 42)"
proof -
  let ?S = "memop_leak_watch_enable True site_empty"
  have S: "site_inv (site_table ?S)" "leak_watch_enabled ?S"
    using site_empty_inv by (simp_all add: memop_leak_watch_enable_def)
  have "site_find (site_table ?S) 65536 \<noteq> None"
    unfolding site_find_def
    by (subst site_probe.simps) (simp add: memop_leak_watch_enable_def site_empty_def site_zero_def)
  with site_record_lookup [OF S(1) _ _ S(2), of 65536 65536 42] show ?thesis by simp
qed

end
