(* ===== verification/Error_Events.thy ===== *)
theory Error_Events
  imports Prelude
begin

text \<open>
  \<open>event_handler.c\<close>: the handler to which the library reports its errors, and the handler of
  crashes.  The lists, the strings and the copies between buffers report without a context.
\<close>

section \<open>Errors\<close>

record CallContextGlobalEvent =
  Func :: string
  File :: string
  Line :: int

datatype ErrorHandler = Default_handler | Application addr

datatype event_effect = No_effect | Printed string CallContextGlobalEvent | Handled addr "CallContextGlobalEvent option" string

text \<open>The default handler reads the context it gets; without one that is an access through NULL (None).\<close>

definition default_handler :: "CallContextGlobalEvent option \<Rightarrow> string \<Rightarrow> event_effect option" where
  "default_handler ctx msg = map_option (Printed msg) ctx"

text \<open>\<open>msg\<close> is the formatted message; the buffer takes 255 characters of it.\<close>

definition xpb_event_trigger_error ::
    "ErrorHandler option \<Rightarrow> CallContextGlobalEvent option \<Rightarrow> string \<Rightarrow> event_effect option" where
  "xpb_event_trigger_error g_error_handler ctx msg =
    (let buffer = take 255 msg in
     case g_error_handler of
       None \<Rightarrow> Some No_effect
     | Some Default_handler \<Rightarrow> default_handler ctx buffer
     | Some (Application f) \<Rightarrow> Some (Handled f ctx buffer))"

definition xpb_set_error_handler :: "ErrorHandler option \<Rightarrow> ErrorHandler option" where
  "xpb_set_error_handler handler = (case handler of None \<Rightarrow> Some Default_handler | Some h \<Rightarrow> Some h)"

lemma trigger_without_context:
  "xpb_event_trigger_error h None msg = None \<longleftrightarrow> h = Some Default_handler"
  by (auto simp: xpb_event_trigger_error_def default_handler_def Let_def split: option.split ErrorHandler.split)

section \<open>Crashes\<close>

text \<open>What \<open>crash_handler\<close> writes if \<open>crash.log\<close> opens (the frames come from the system), and the exit code.\<close>

datatype crash_line = Crash_header | Crash_signal int string | Crash_frame nat string

definition print_stacktrace :: "string list \<Rightarrow> crash_line list" where
  "print_stacktrace symbols = map (\<lambda>i. Crash_frame i (symbols ! i)) [0..<length (take 32 symbols)]"

definition crash_handler :: "bool \<Rightarrow> string list \<Rightarrow> int \<Rightarrow> crash_line list \<times> int" where
  "crash_handler can_open symbols sig =
    (if can_open
     then ([Crash_header, Crash_signal sig (if sig = 11 then ''SIGSEGV'' else if sig = 6 then ''SIGABRT'' else ''OUTRO'')] @ print_stacktrace symbols, 1)
     else ([], 1))"

end
