(* ===== verification/Memory_Pool.thy ===== *)
theory Memory_Pool
  imports Size_Class Chunk_Cache Site_Table Atomics Error_Events
begin

text \<open>
  The upper half of \<open>memory_pool.c\<close>: spans (64 KB chunks cut into blocks of one size
  class), per-thread heaps, allocation and free with their hot and cold paths, the
  cross-thread free list of a span, large blocks, reallocation, buffers, thread exit,
  shutdown and introspection.

  A heap is named by its id; \<open>hp\<close> is the store of heaps and \<open>heaps\<close> the list
  \<open>G.heaps\<close>.  A span is named by its base address; \<open>hdr\<close> is the store of span headers.
  The doubly linked lists of spans (\<open>spans[c]\<close>, \<open>full_head\<close>) are lists of span bases and
  the free lists threaded through the blocks are lists of block addresses; the writes of the
  links inside the blocks are kept, in \<open>mem_bytes\<close>.  \<open>tls t\<close> is \<open>g_heap\<close> of thread \<open>t\<close>.
  Operations run one at a time, each on behalf of a thread \<open>t\<close>; the atomic retry loops
  succeed at the first attempt then.
\<close>

section \<open>State\<close>

record mem_env =
  env_mmap :: os_mmap
  env_calloc :: "nat \<Rightarrow> bool"

record MemSpan =
  sp_owner :: "nat option"
  local_free :: "addr list"
  remote_free :: "addr list"
  class_id :: nat
  stride :: nat
  block_count :: nat
  sp_used :: nat
  bump_idx :: nat
  sp_state :: nat

record MemHeap = HeapCache +
  spans :: "addr list list"
  full_list :: "addr list"
  active :: bool
  s_alloc :: nat
  s_free :: nat
  s_span_allocs :: nat
  s_remote_frees :: nat

record MemPool = ChunkPool +
  heaps :: "nat list"
  hp :: "nat \<Rightarrow> MemHeap"
  next_id :: nat
  heaps_created :: nat
  heaps_destroyed :: nat
  hdr :: "addr \<Rightarrow> MemSpan"
  tls :: "nat \<Rightarrow> nat option"
  init_state :: int
  tables :: size_tables
  sites :: site_state
  error_events :: nat
  g_error_handler :: "ErrorHandler option"

abbreviation (input) CLASS_LARGE :: nat where "CLASS_LARGE \<equiv> 4294967295"
abbreviation (input) SPAN_AVAILABLE :: nat where "SPAN_AVAILABLE \<equiv> 0"
abbreviation (input) SPAN_FULL :: nat where "SPAN_FULL \<equiv> 1"
abbreviation (input) MEMOP_UNINIT :: int where "MEMOP_UNINIT \<equiv> 0"
abbreviation (input) MEMOP_READY :: int where "MEMOP_READY \<equiv> 2"
abbreviation (input) FULL_SCAN_K :: nat where "FULL_SCAN_K \<equiv> 2"

definition heap_zero :: MemHeap where
  "heap_zero =
    \<lparr>local_cache = [], local_count = 0, spans = replicate MEMOP_CLASS_COUNT [], full_list = [],
     active = False, s_alloc = 0, s_free = 0, s_span_allocs = 0, s_remote_frees = 0\<rparr>"

definition span_zero :: MemSpan where
  "span_zero =
    \<lparr>sp_owner = None, local_free = [], remote_free = [], class_id = 0, stride = 0, block_count = 0,
     sp_used = 0, bump_idx = 0, sp_state = 0\<rparr>"

definition upd_span :: "addr \<Rightarrow> (MemSpan \<Rightarrow> MemSpan) \<Rightarrow> MemPool \<Rightarrow> MemPool" where
  "upd_span a f P = P\<lparr>hdr := (hdr P)(a := f (hdr P a))\<rparr>"

definition upd_heap :: "nat \<Rightarrow> (MemHeap \<Rightarrow> MemHeap) \<Rightarrow> MemPool \<Rightarrow> MemPool" where
  "upd_heap h f P = P\<lparr>hp := (hp P)(h := f (hp P h))\<rparr>"

section \<open>Life cycle\<close>

text \<open>The busy state is seen only while another thread is inside the initialisation, so the loop that waits for
  its end is left out; the registration of the copy at the end is \<open>xplat_instance_register\<close> of theory
  \<open>Instance\<close>, which keeps its state apart from the pool's and is composed with the pool in \<open>platform_init\<close>.\<close>

definition memop_init :: "MemPool \<Rightarrow> MemPool" where
  "memop_init P =
    (if init_state P = MEMOP_READY then P
     else P\<lparr>tables := memop_build_size2class, init_state := MEMOP_READY\<rparr>)"

definition heap_create_locked :: "mem_env \<Rightarrow> MemPool \<Rightarrow> nat option \<times> MemPool" where
  "heap_create_locked E P =
    (if env_calloc E (next_id P) then
       let h = next_id P + 1 in
       (Some h, P\<lparr>hp := (hp P)(h := heap_zero\<lparr>active := True\<rparr>), next_id := h, heaps := h # heaps P,
                  heaps_created := heaps_created P + 1\<rparr>)
     else (None, P))"

definition get_heap :: "mem_env \<Rightarrow> nat \<Rightarrow> MemPool \<Rightarrow> nat option \<times> MemPool" where
  "get_heap E t P =
    (case tls P t of
       Some h \<Rightarrow> (Some h, P)
     | None \<Rightarrow> (case heap_create_locked E (memop_init P) of
         (r, P') \<Rightarrow> (r, P'\<lparr>tls := (tls P')(t := r)\<rparr>)))"

section \<open>Chunks for a heap\<close>

definition heap_chunk_acquire :: "mem_env \<Rightarrow> nat \<Rightarrow> MemPool \<Rightarrow> addr option \<times> MemPool" where
  "heap_chunk_acquire E h P =
    (case chunk_acquire (env_mmap E) (Some (hp P h)) P of
       (r, ho, P') \<Rightarrow> (r, case ho of None \<Rightarrow> P' | Some h' \<Rightarrow> P'\<lparr>hp := (hp P')(h := h')\<rparr>))"

definition heap_chunk_release :: "nat option \<Rightarrow> addr \<Rightarrow> MemPool \<Rightarrow> MemPool" where
  "heap_chunk_release ho m P =
    (case ho of
       None \<Rightarrow> snd (chunk_release (None :: MemHeap option) m P)
     | Some h \<Rightarrow> (case chunk_release (Some (hp P h)) m P of
         (ho', P') \<Rightarrow> (case ho' of None \<Rightarrow> P' | Some h' \<Rightarrow> P'\<lparr>hp := (hp P')(h := h')\<rparr>)))"

section \<open>Spans\<close>

definition span_of :: "addr \<Rightarrow> addr" where
  "span_of p = p div SPAN_SIZE * SPAN_SIZE"

definition span_create :: "mem_env \<Rightarrow> nat \<Rightarrow> nat \<Rightarrow> MemPool \<Rightarrow> addr option \<times> MemPool" where
  "span_create E h c P =
    (let str = g_class_stride (tables P) ! c in
     case heap_chunk_acquire E h P of
       (None, P1) \<Rightarrow> (None, P1)
     | (Some mem, P1) \<Rightarrow>
         (Some mem,
          P1\<lparr>sites := memop_site_record mem (clk P1) (sites P1),
             hdr := (hdr P1)(mem :=
               \<lparr>sp_owner = Some h, local_free = [], remote_free = [], class_id = c, stride = str,
                block_count = (SPAN_SIZE - SPAN_HEADER) div str, sp_used = 0, bump_idx = 0,
                sp_state = SPAN_AVAILABLE\<rparr>)\<rparr>))"

fun drain_links :: "addr list \<Rightarrow> addr list \<Rightarrow> bytes \<Rightarrow> addr list \<times> bytes" where
  "drain_links [] l mem = (l, mem)"
| "drain_links (b # bs) l mem = drain_links bs (b # l) (write_ptr b (list_link l) mem)"

definition span_drain_remote :: "addr \<Rightarrow> MemPool \<Rightarrow> nat \<times> MemPool" where
  "span_drain_remote a P =
    (let s = hdr P a; n = length (remote_free s) in
     if remote_free s = [] then (0, P)
     else case drain_links (remote_free s) (local_free s) (mem_bytes P) of
       (l, mem) \<Rightarrow>
         (n, P\<lparr>mem_bytes := mem,
               hdr := (hdr P)(a := s\<lparr>remote_free := [], local_free := l, sp_used := sub_u32 (sp_used s) n\<rparr>)\<rparr>))"

section \<open>The lists of a heap\<close>

definition heap_list_insert_head :: "nat \<Rightarrow> nat \<Rightarrow> addr \<Rightarrow> MemPool \<Rightarrow> MemPool" where
  "heap_list_insert_head h c a = upd_heap h (\<lambda>H. H\<lparr>spans := (spans H)[c := a # spans H ! c]\<rparr>)"

definition heap_list_unlink :: "nat \<Rightarrow> nat \<Rightarrow> addr \<Rightarrow> MemPool \<Rightarrow> MemPool" where
  "heap_list_unlink h c a = upd_heap h (\<lambda>H. H\<lparr>spans := (spans H)[c := remove1 a (spans H ! c)]\<rparr>)"

definition heap_full_push_tail :: "nat \<Rightarrow> addr \<Rightarrow> MemPool \<Rightarrow> MemPool" where
  "heap_full_push_tail h a P =
    upd_span a (\<lambda>s. s\<lparr>sp_state := SPAN_FULL\<rparr>) (upd_heap h (\<lambda>H. H\<lparr>full_list := full_list H @ [a]\<rparr>) P)"

definition heap_full_unlink :: "nat \<Rightarrow> addr \<Rightarrow> MemPool \<Rightarrow> MemPool" where
  "heap_full_unlink h a P =
    upd_span a (\<lambda>s. s\<lparr>sp_state := SPAN_AVAILABLE\<rparr>) (upd_heap h (\<lambda>H. H\<lparr>full_list := remove1 a (full_list H)\<rparr>) P)"

section \<open>Refill\<close>

text \<open>Take the head of a span's local list (the code reads it only when it is there).\<close>

definition span_take :: "addr \<Rightarrow> MemPool \<Rightarrow> (addr \<times> addr) option \<times> MemPool" where
  "span_take a P =
    (case local_free (hdr P a) of
       [] \<Rightarrow> (None, P)
     | b # rest \<Rightarrow> (Some (a, b), upd_span a (\<lambda>s. s\<lparr>local_free := rest\<rparr>) P))"

text \<open>The first loop of \<open>memop_refill\<close>: the class list from a span on.\<close>

fun refill_scan :: "nat \<Rightarrow> nat \<Rightarrow> addr list \<Rightarrow> MemPool \<Rightarrow> (addr \<times> addr) option \<times> MemPool" where
  "refill_scan h c [] P = (None, P)"
| "refill_scan h c (a # as) P =
    (let s = hdr P a in
     if local_free s \<noteq> [] then span_take a P
     else if bump_idx s < block_count s then
       (Some (a, a + SPAN_HEADER + bump_idx s * (g_class_stride (tables P) ! c)),
        upd_span a (\<lambda>s. s\<lparr>bump_idx := bump_idx s + 1\<rparr>) P)
     else case span_drain_remote a P of
       (n, P1) \<Rightarrow>
         if n > 0 then span_take a P1
         else refill_scan h c as (heap_full_push_tail h a (heap_list_unlink h c a P1)))"

text \<open>The second loop: at most \<open>k\<close> full spans, the list rotated past those without
  remote frees.\<close>

fun full_scan :: "nat \<Rightarrow> nat \<Rightarrow> nat \<Rightarrow> addr option \<Rightarrow> MemPool \<Rightarrow> (addr \<times> addr) option \<times> MemPool" where
  "full_scan h c 0 start P = (None, P)"
| "full_scan h c (Suc k) start P =
    (case full_list (hp P h) of
       [] \<Rightarrow> (None, P)
     | fs # _ \<Rightarrow>
       if start = Some fs then (None, P)
       else
         let start' = (if start = None then Some fs else start) in
         case span_drain_remote fs P of
           (n, P1) \<Rightarrow>
             if n > 0 then
               let P2 = heap_list_insert_head h (class_id (hdr P1 fs)) fs (heap_full_unlink h fs P1) in
               if class_id (hdr P2 fs) = c then span_take fs P2
               else full_scan h c k start' P2
             else
               full_scan h c k start'
                 (if last (full_list (hp P1 h)) \<noteq> fs then heap_full_push_tail h fs (heap_full_unlink h fs P1)
                  else P1))"

definition refill_got :: "nat \<Rightarrow> nat \<Rightarrow> addr \<Rightarrow> MemPool \<Rightarrow> MemPool" where
  "refill_got h c a P =
    upd_span a (\<lambda>s. s\<lparr>sp_used := sp_used s + 1\<rparr>)
      (if list_link (spans (hp P h) ! c) \<noteq> a
       then heap_list_insert_head h c a (heap_list_unlink h c a P) else P)"

definition memop_refill :: "mem_env \<Rightarrow> nat \<Rightarrow> nat \<Rightarrow> MemPool \<Rightarrow> addr option \<times> MemPool" where
  "memop_refill E h c P =
    (case refill_scan h c (spans (hp P h) ! c) P of
       (Some (a, b), P1) \<Rightarrow> (Some b, refill_got h c a P1)
     | (None, P1) \<Rightarrow>
       (case full_scan h c FULL_SCAN_K None P1 of
          (Some (a, b), P2) \<Rightarrow> (Some b, refill_got h c a P2)
        | (None, P2) \<Rightarrow>
          (case span_create E h c P2 of
             (None, P3) \<Rightarrow> (None, P3)
           | (Some a, P3) \<Rightarrow>
               let P4 = heap_list_insert_head h c a P3;
                   P5 = upd_heap h (\<lambda>H. H\<lparr>s_span_allocs := s_span_allocs H + 1\<rparr>) P4;
                   P6 = upd_span a (\<lambda>s. s\<lparr>bump_idx := 1\<rparr>) P5
               in (Some (a + SPAN_HEADER), refill_got h c a P6))))"

section \<open>Allocation and free\<close>

definition bump_stats :: "nat \<Rightarrow> nat \<Rightarrow> nat \<Rightarrow> MemPool \<Rightarrow> MemPool" where
  "bump_stats h na ns = upd_heap h (\<lambda>H. H\<lparr>s_alloc := s_alloc H + na, s_span_allocs := s_span_allocs H + ns\<rparr>)"

definition large_total :: "nat \<Rightarrow> nat" where
  "large_total sz =
    (let total = (sz + SPAN_HEADER) mod 2 ^ 64
     in (total + (SPAN_SIZE - 1)) mod 2 ^ 64 div SPAN_SIZE * SPAN_SIZE)"

definition memop_alloc_large :: "mem_env \<Rightarrow> nat \<Rightarrow> nat \<Rightarrow> MemPool \<Rightarrow> addr option \<times> MemPool" where
  "memop_alloc_large E h sz P =
    (let total = large_total sz; units = total div SPAN_SIZE in
     case (if units = 1 then heap_chunk_acquire E h P
           else case span_os_alloc (env_mmap E) total (os_log P) of (r, log) \<Rightarrow> (r, P\<lparr>os_log := log\<rparr>)) of
       (None, P1) \<Rightarrow> (None, P1)
     | (Some mem, P1) \<Rightarrow>
         (Some (mem + SPAN_HEADER),
          bump_stats h 1 1 (upd_span mem (\<lambda>s. s\<lparr>sp_owner := None, class_id := CLASS_LARGE,
              stride := nat (u32 (int total - int SPAN_HEADER)), block_count := units mod 2 ^ 32,
              sp_used := 1, bump_idx := 0, sp_state := SPAN_AVAILABLE\<rparr>) P1)))"

definition memop_alloc_raw :: "mem_env \<Rightarrow> nat \<Rightarrow> nat \<Rightarrow> MemPool \<Rightarrow> addr option \<times> MemPool" where
  "memop_alloc_raw E t sz P =
    (if sz = 0 then (None, P)
     else case get_heap E t P of
       (None, P1) \<Rightarrow> (None, P1)
     | (Some h, P1) \<Rightarrow>
       (let ci = memop_class_index (tables P1) sz in
        if ci < 0 then memop_alloc_large E h sz P1
        else
          let c = nat ci; as = spans (hp P1 h) ! c; a = hd as; s = hdr P1 a in
          if as \<noteq> [] \<and> local_free s \<noteq> [] then
            (Some (hd (local_free s)),
             bump_stats h 1 0 (upd_span a (\<lambda>s. s\<lparr>local_free := tl (local_free s), sp_used := sp_used s + 1\<rparr>) P1))
          else if as \<noteq> [] \<and> bump_idx s < block_count s then
            (Some (a + SPAN_HEADER + bump_idx s * (g_class_stride (tables P1) ! c)),
             bump_stats h 1 0 (upd_span a (\<lambda>s. s\<lparr>bump_idx := bump_idx s + 1, sp_used := sp_used s + 1\<rparr>) P1))
          else case memop_refill E h c P1 of
            (None, P2) \<Rightarrow> (None, P2)
          | (Some b, P2) \<Rightarrow> (Some b, bump_stats h 1 0 P2)))"

definition stat_free :: "nat option \<Rightarrow> nat \<Rightarrow> MemPool \<Rightarrow> MemPool" where
  "stat_free ho nr P =
    (case ho of
       None \<Rightarrow> P
     | Some h \<Rightarrow> upd_heap h (\<lambda>H. H\<lparr>s_free := s_free H + 1, s_remote_frees := s_remote_frees H + nr\<rparr>) P)"

definition free_large :: "nat option \<Rightarrow> addr \<Rightarrow> MemPool \<Rightarrow> MemPool" where
  "free_large gh a P =
    (let P1 = stat_free gh 0 P in
     if block_count (hdr P a) = 1 then heap_chunk_release gh a P1
     else P1\<lparr>os_log := span_os_free a (block_count (hdr P a) * SPAN_SIZE) (os_log P1)\<rparr>)"

definition free_local :: "nat \<Rightarrow> addr \<Rightarrow> addr \<Rightarrow> MemPool \<Rightarrow> MemPool" where
  "free_local h a p P =
    (let P1 = P\<lparr>mem_bytes := write_ptr p (list_link (local_free (hdr P a))) (mem_bytes P)\<rparr>;
         P2 = upd_span a (\<lambda>s. s\<lparr>local_free := p # local_free s, sp_used := sub_u32 (sp_used s) 1\<rparr>) P1;
         P3 = stat_free (Some h) 0 P2;
         c = class_id (hdr P3 a)
     in if sp_state (hdr P3 a) = SPAN_FULL then
          heap_list_insert_head h c a (heap_full_unlink h a P3)
        else if sp_used (hdr P3 a) = 0 \<and> spans (hp P3 h) ! c \<noteq> [a] then
          heap_chunk_release (Some h) a (heap_list_unlink h c a P3)
        else P3)"

definition free_remote :: "nat option \<Rightarrow> addr \<Rightarrow> addr \<Rightarrow> MemPool \<Rightarrow> MemPool" where
  "free_remote gh a p P =
    stat_free gh 1
      (upd_span a (\<lambda>s. s\<lparr>remote_free := p # remote_free s\<rparr>)
        (P\<lparr>mem_bytes := write_ptr p (list_link (remote_free (hdr P a))) (mem_bytes P)\<rparr>))"

definition memop_free_raw :: "nat \<Rightarrow> addr \<Rightarrow> MemPool \<Rightarrow> MemPool" where
  "memop_free_raw t p P =
    (if p = 0 then P
     else
       let a = span_of p; gh = tls P t in
       if class_id (hdr P a) = CLASS_LARGE then free_large gh a P
       else if sp_owner (hdr P a) = gh \<and> gh \<noteq> None then free_local (the gh) a p P
       else free_remote gh a p P)"

definition memop_usable_size :: "addr \<Rightarrow> MemPool \<Rightarrow> nat" where
  "memop_usable_size p P =
    (let s = hdr P (span_of p)
     in if class_id s = CLASS_LARGE then stride s else g_class_stride (tables P) ! class_id s)"

definition memop_calloc_raw :: "mem_env \<Rightarrow> nat \<Rightarrow> nat \<Rightarrow> nat \<Rightarrow> MemPool \<Rightarrow> addr option \<times> MemPool" where
  "memop_calloc_raw E t count sz P =
    (if sz \<noteq> 0 \<and> count > (2 ^ 64 - 1) div sz then (None, P)
     else
       let total = (count * sz) mod 2 ^ 64 in
       case memop_alloc_raw E t total P of
         (None, P1) \<Rightarrow> (None, P1)
       | (Some p, P1) \<Rightarrow> (Some p, P1\<lparr>mem_bytes := memset_bytes p 0 total (mem_bytes P1)\<rparr>))"

text \<open>\<open>memcpy\<close> of the C library; between ranges that overlap its behaviour is undefined (None).\<close>

definition c_memcpy :: "addr \<Rightarrow> addr \<Rightarrow> nat \<Rightarrow> bytes \<Rightarrow> bytes option" where
  "c_memcpy dst src n m = (if dst < src + n \<and> src < dst + n then None else Some (memcpy_bytes dst src n m))"

definition memop_copy_raw :: "addr \<Rightarrow> addr \<Rightarrow> nat \<Rightarrow> MemPool \<Rightarrow> (addr option \<times> MemPool) option" where
  "memop_copy_raw dst src sz P =
    (if dst = 0 \<or> src = 0 then Some (None, P)
     else map_option (\<lambda>m. (Some dst, P\<lparr>mem_bytes := m\<rparr>)) (c_memcpy dst src sz (mem_bytes P)))"

definition memop_zero_raw :: "addr \<Rightarrow> nat \<Rightarrow> MemPool \<Rightarrow> addr option \<times> MemPool" where
  "memop_zero_raw dst sz P =
    (if dst = 0 then (None, P)
     else (Some dst, P\<lparr>mem_bytes := memset_bytes dst 0 sz (mem_bytes P)\<rparr>))"

definition memop_realloc_raw :: "mem_env \<Rightarrow> nat \<Rightarrow> addr \<Rightarrow> nat \<Rightarrow> MemPool \<Rightarrow> addr option \<times> MemPool" where
  "memop_realloc_raw E t p sz P =
    (if p = 0 then memop_alloc_raw E t sz P
     else if sz = 0 then (None, memop_free_raw t p P)
     else
       let old = memop_usable_size p P;
           cls = class_id (hdr P (span_of p));
           large = (cls = CLASS_LARGE);
           new = memop_class_index (tables P) sz
       in if \<not> large \<and> new \<ge> 0 \<and> new \<le> int cls then (Some p, P)
          else if large \<and> new < 0 \<and> sz \<le> old then (Some p, P)
          else case memop_alloc_raw E t sz P of
            (None, P1) \<Rightarrow> (None, P1)
          | (Some np, P1) \<Rightarrow>
              (Some np,
               memop_free_raw t p (P1\<lparr>mem_bytes := memcpy_bytes np p (if sz < old then sz else old) (mem_bytes P1)\<rparr>)))"

section \<open>Buffers\<close>

record MemBuffer =
  Ptr :: addr
  Size :: nat

definition buffer_zero :: MemBuffer where
  "buffer_zero = \<lparr>Ptr = 0, Size = 0\<rparr>"

definition memop_alloc :: "mem_env \<Rightarrow> nat \<Rightarrow> nat \<Rightarrow> MemPool \<Rightarrow> MemBuffer \<times> MemPool" where
  "memop_alloc E t sz P =
    (case memop_alloc_raw E t sz P of
       (None, P1) \<Rightarrow> (buffer_zero, P1)
     | (Some p, P1) \<Rightarrow> (\<lparr>Ptr = p, Size = memop_usable_size p P1\<rparr>, P1))"

definition memop_free :: "nat \<Rightarrow> MemBuffer option \<Rightarrow> MemPool \<Rightarrow> MemBuffer option \<times> MemPool" where
  "memop_free t buf P =
    (case buf of
       None \<Rightarrow> (None, P)
     | Some b \<Rightarrow> if Ptr b = 0 then (buf, P) else (Some buffer_zero, memop_free_raw t (Ptr b) P))"

definition memop_realloc :: "mem_env \<Rightarrow> nat \<Rightarrow> MemBuffer option \<Rightarrow> nat \<Rightarrow> MemPool \<Rightarrow> MemBuffer \<times> MemBuffer option \<times> MemPool" where
  "memop_realloc E t buf sz P =
    (case memop_realloc_raw E t (case buf of None \<Rightarrow> 0 | Some b \<Rightarrow> Ptr b) sz P of
       (r, P1) \<Rightarrow>
         let out = (case r of None \<Rightarrow> buffer_zero | Some np \<Rightarrow> \<lparr>Ptr = np, Size = memop_usable_size np P1\<rparr>)
         in (out, if r \<noteq> None \<or> sz = 0 then map_option (\<lambda>_. out) buf else buf, P1))"

text \<open>
  The report of an error without a context, as the pool, the lists and the strings make it.  With
  the default handler the report itself crashes (None); the handler of the application is taken
  to return and to leave the library alone, and the events it has seen are counted.  The texts
  of the messages are left out.
\<close>

definition trigger_event :: "MemPool \<Rightarrow> MemPool option" where
  "trigger_event P =
    (case xpb_event_trigger_error (g_error_handler P) None [] of
       None \<Rightarrow> None
     | Some effect \<Rightarrow> Some (P\<lparr>error_events := error_events P + 1\<rparr>))"

text \<open>None is a crash in the report of an error, or undefined behaviour; sizes and offsets are
  \<open>uint64\<close>, and no sum of them is formed before the range is checked.\<close>

definition memop_copy ::
    "MemBuffer option \<Rightarrow> nat \<Rightarrow> MemBuffer option \<Rightarrow> nat \<Rightarrow> nat \<Rightarrow> MemPool \<Rightarrow> (nat \<times> MemPool) option" where
  "memop_copy dst dst_offset src sz offset P =
    (case (dst, src) of
       (Some d, Some s) \<Rightarrow>
         if Ptr d = 0 \<or> Ptr s = 0 \<or> sz = 0 then Some (0, P)
         else if offset > Size s \<or> sz > Size s - offset then map_option (Pair 0) (trigger_event P)
         else if dst_offset > Size d \<or> sz > Size d - dst_offset then map_option (Pair 0) (trigger_event P)
         else map_option (\<lambda>m. (sz, P\<lparr>mem_bytes := m\<rparr>)) (c_memcpy (Ptr d + dst_offset) (Ptr s + offset) sz (mem_bytes P))
     | _ \<Rightarrow> Some (0, P))"

definition memop_append :: "MemBuffer option \<Rightarrow> addr \<Rightarrow> nat \<Rightarrow> nat \<Rightarrow> MemPool \<Rightarrow> (nat \<times> MemPool) option" where
  "memop_append dst src sz offset P =
    (case dst of
       None \<Rightarrow> Some (0, P)
     | Some d \<Rightarrow>
         if Ptr d = 0 \<or> src = 0 \<or> sz = 0 then Some (0, P)
         else if offset > Size d \<or> sz > Size d - offset then map_option (Pair 0) (trigger_event P)
         else map_option (\<lambda>m. (sz, P\<lparr>mem_bytes := m\<rparr>)) (c_memcpy (Ptr d + offset) src sz (mem_bytes P)))"

abbreviation fatal_errors :: "MemPool \<Rightarrow> bool" where
  "fatal_errors P \<equiv> g_error_handler P = Some Default_handler"

lemma trigger_event_eq:
  "trigger_event P = (if fatal_errors P then None else Some (P\<lparr>error_events := error_events P + 1\<rparr>))"
  using trigger_without_context [of "g_error_handler P" "[]"] by (auto simp: trigger_event_def split: option.split)

section \<open>Threads, shutdown, introspection\<close>

definition memop_on_created_thread :: "mem_env \<Rightarrow> nat \<Rightarrow> MemPool \<Rightarrow> MemPool" where
  "memop_on_created_thread E t P = (case get_heap E t P of (r, P1) \<Rightarrow> P1\<lparr>tls := (tls P1)(t := r)\<rparr>)"

text \<open>The two loops of \<open>memop_on_ended_thread\<close>: a span that is empty once its remote
  frees are drained goes to the global cache, the others are kept (in reverse order in a class,
  in order in the full list).\<close>

fun ended_class :: "addr list \<Rightarrow> addr list \<Rightarrow> MemPool \<Rightarrow> addr list \<times> MemPool" where
  "ended_class [] kept P = (kept, P)"
| "ended_class (a # as) kept P =
    (let P1 = snd (span_drain_remote a P) in
     if sp_used (hdr P1 a) = 0 then ended_class as kept (heap_chunk_release None a P1)
     else ended_class as (a # kept) P1)"

fun ended_full :: "addr list \<Rightarrow> addr list \<Rightarrow> MemPool \<Rightarrow> addr list \<times> MemPool" where
  "ended_full [] kept P = (kept, P)"
| "ended_full (a # as) kept P =
    (let P1 = snd (span_drain_remote a P) in
     if sp_used (hdr P1 a) = 0 then ended_full as kept (heap_chunk_release None a P1)
     else ended_full as (kept @ [a]) P1)"

fun ended_classes :: "nat \<Rightarrow> nat list \<Rightarrow> MemPool \<Rightarrow> MemPool" where
  "ended_classes h [] P = P"
| "ended_classes h (c # cs) P =
    (let as = spans (hp P h) ! c;
         P1 = upd_heap h (\<lambda>H. H\<lparr>spans := (spans H)[c := []]\<rparr>) P
     in case ended_class as [] P1 of
       (kept, P2) \<Rightarrow> ended_classes h cs (upd_heap h (\<lambda>H. H\<lparr>spans := (spans H)[c := kept]\<rparr>) P2))"

definition memop_on_ended_thread :: "nat \<Rightarrow> MemPool \<Rightarrow> MemPool" where
  "memop_on_ended_thread t P =
    (case tls P t of
       None \<Rightarrow> P
     | Some h \<Rightarrow>
         let P1 = ended_classes h [0..<MEMOP_CLASS_COUNT] P;
             full = full_list (hp P1 h);
             P2 = upd_heap h (\<lambda>H. H\<lparr>full_list := []\<rparr>) P1
         in case ended_full full [] P2 of
           (kept, P3) \<Rightarrow>
             let P4 = upd_heap h (\<lambda>H. H\<lparr>full_list := kept\<rparr>) P3
             in case chunk_local_to_global (hp P4 h) P4 of
               (h', P5) \<Rightarrow>
                 P5\<lparr>hp := (hp P5)(h := h'\<lparr>active := False\<rparr>), heaps_destroyed := heaps_destroyed P5 + 1,
                    tls := (tls P5)(t := None)\<rparr>)"

definition memop_shutdown :: "nat \<Rightarrow> MemPool \<Rightarrow> MemPool" where
  "memop_shutdown t P =
    (if init_state P \<noteq> MEMOP_READY then P
     else
       let P1 = segments_free_all (P\<lparr>heaps := [], hp := (\<lambda>_. heap_zero)\<rparr>)
       in P1\<lparr>sites := (sites P1)\<lparr>site_table := \<lambda>_. site_zero\<rparr>,
             span_cache := [], cache_count := 0, segments := [], cache_avg := 0, purging := False,
             last_purge_ms := 0, purge_count := 0, heaps := [], next_id := 0, heaps_created := 0,
             heaps_destroyed := 0, tls := (tls P1)(t := None), init_state := MEMOP_UNINIT\<rparr>)"

definition memop_purge :: "MemPool \<Rightarrow> MemPool" where
  "memop_purge P = (if init_state P \<noteq> MEMOP_READY then P else purge_apply_locked (clk P) True 0 P)"

definition memop_test_reset :: "nat \<Rightarrow> MemPool \<Rightarrow> MemPool" where
  "memop_test_reset t P = memop_init (memop_shutdown t P)"

record MemPoolStats =
  lanes_created :: nat
  lanes_destroyed :: nat
  alloc_count :: nat
  free_count :: nat
  sync_refills :: nat
  remote_frees :: nat
  os_reserved_bytes :: nat
  cached_chunks :: int
  stat_purge_count :: nat

definition memop_get_stats :: "MemPool \<Rightarrow> MemPoolStats \<times> MemPool" where
  "memop_get_stats P =
    (let P = memop_init P; hs = map (hp P) (heaps P) in
     (\<lparr>lanes_created = heaps_created P, lanes_destroyed = heaps_destroyed P,
       alloc_count = sum_list (map s_alloc hs), free_count = sum_list (map s_free hs),
       sync_refills = sum_list (map s_span_allocs hs), remote_frees = sum_list (map s_remote_frees hs),
       os_reserved_bytes = length (segments P) * SEG_SIZE, cached_chunks = cache_count P,
       stat_purge_count = purge_count P\<rparr>, P))"

text \<open>The spans of a heap in the order the introspection walks them.\<close>

definition heap_spans :: "MemHeap \<Rightarrow> addr list" where
  "heap_spans H = concat (map (\<lambda>c. spans H ! c) [0..<MEMOP_CLASS_COUNT]) @ full_list H"

definition memop_span_count :: "MemPool \<Rightarrow> nat \<times> MemPool" where
  "memop_span_count P =
    (let P = memop_init P in (sum_list (map (\<lambda>h. length (heap_spans (hp P h))) (heaps P)), P))"

record MemSpanInfo =
  info_base :: addr
  info_class_id :: nat
  info_stride :: nat
  info_block_count :: nat
  info_used :: nat
  site_frame_count :: int
  info_created_ms :: int

definition memop_fill_span_info :: "MemPool \<Rightarrow> addr \<Rightarrow> MemSpanInfo" where
  "memop_fill_span_info P a =
    (let s = hdr P a; site = memop_site_lookup a (sites P) in
     \<lparr>info_base = a, info_class_id = class_id s, info_stride = stride s, info_block_count = block_count s,
      info_used = sp_used s, site_frame_count = fst site, info_created_ms = snd site\<rparr>)"

text \<open>\<open>memop_snapshot_spans\<close>: the nested loops that stop at \<open>max\<close> entries.\<close>

fun snapshot_list :: "MemPool \<Rightarrow> addr list \<Rightarrow> nat \<Rightarrow> MemSpanInfo list \<Rightarrow> MemSpanInfo list" where
  "snapshot_list P [] mx out = out"
| "snapshot_list P (a # as) mx out =
    (if length out < mx then snapshot_list P as mx (out @ [memop_fill_span_info P a]) else out)"

fun snapshot_classes :: "MemPool \<Rightarrow> addr list list \<Rightarrow> nat \<Rightarrow> MemSpanInfo list \<Rightarrow> MemSpanInfo list" where
  "snapshot_classes P [] mx out = out"
| "snapshot_classes P (as # rest) mx out =
    (if length out < mx then snapshot_classes P rest mx (snapshot_list P as mx out) else out)"

fun snapshot_heaps :: "MemPool \<Rightarrow> nat list \<Rightarrow> nat \<Rightarrow> MemSpanInfo list \<Rightarrow> MemSpanInfo list" where
  "snapshot_heaps P [] mx out = out"
| "snapshot_heaps P (h # hs) mx out =
    (if length out < mx then
       snapshot_heaps P hs mx
         (snapshot_list P (full_list (hp P h)) mx
           (snapshot_classes P (map (\<lambda>c. spans (hp P h) ! c) [0..<MEMOP_CLASS_COUNT]) mx out))
     else out)"

definition memop_snapshot_spans :: "nat \<Rightarrow> MemPool \<Rightarrow> MemSpanInfo list \<times> MemPool" where
  "memop_snapshot_spans mx P =
    (if mx = 0 then ([], P) else let P = memop_init P in (snapshot_heaps P (heaps P) mx [], P))"

definition memop_enable_leak_watch :: "bool \<Rightarrow> MemPool \<Rightarrow> MemPool" where
  "memop_enable_leak_watch on P = P\<lparr>sites := memop_leak_watch_enable on (sites P)\<rparr>"

end
