(* ===== verification/Pool_Invariant.thy ===== *)
theory Pool_Invariant
  imports Memory_Pool
begin

text \<open>
  The invariant of the pool allocator and the lemmas on its parts: what a well-formed span is,
  which spans a heap owns, how span blocks and large blocks lie in memory, and how the list
  operations of a heap change the picture.
\<close>

section \<open>Spans\<close>

definition span_block :: "addr \<Rightarrow> nat \<Rightarrow> nat \<Rightarrow> addr" where
  "span_block a str i = a + SPAN_HEADER + i * str"

definition span_blocks :: "addr \<Rightarrow> MemSpan \<Rightarrow> addr set" where
  "span_blocks a s = span_block a (stride s) ` {..<bump_idx s}"

definition span_free :: "MemSpan \<Rightarrow> addr set" where
  "span_free s = set (local_free s) \<union> set (remote_free s)"

definition span_live :: "addr \<Rightarrow> MemSpan \<Rightarrow> addr set" where
  "span_live a s = span_blocks a s - span_free s"

definition span_ok :: "nat \<Rightarrow> nat \<Rightarrow> nat \<Rightarrow> addr \<Rightarrow> MemSpan \<Rightarrow> bool" where
  "span_ok h c st a s \<longleftrightarrow>
     sp_owner s = Some h \<and> class_id s = c \<and> c < MEMOP_CLASS_COUNT \<and> sp_state s = st \<and>
     stride s = MemClassSizes ! c \<and> block_count s = (SPAN_SIZE - SPAN_HEADER) div stride s \<and>
     bump_idx s \<le> block_count s \<and> a mod SPAN_SIZE = 0 \<and>
     distinct (local_free s @ remote_free s) \<and> span_free s \<subseteq> span_blocks a s \<and>
     sp_used s + length (local_free s) = bump_idx s"

lemma span_okD:
  assumes "span_ok h c st a s"
  shows "sp_owner s = Some h" "class_id s = c" "c < MEMOP_CLASS_COUNT" "sp_state s = st"
    "stride s = MemClassSizes ! c" "block_count s = (SPAN_SIZE - SPAN_HEADER) div stride s"
    "bump_idx s \<le> block_count s" "a mod SPAN_SIZE = 0"
    "distinct (local_free s @ remote_free s)" "span_free s \<subseteq> span_blocks a s"
    "sp_used s + length (local_free s) = bump_idx s"
  using assms unfolding span_ok_def by blast+

lemma class_size_bounds:
  assumes "c < MEMOP_CLASS_COUNT"
  shows "16 \<le> MemClassSizes ! c" "MemClassSizes ! c \<le> 16384"
proof -
  have "\<forall>s \<in> set MemClassSizes. 16 \<le> s \<and> s \<le> 16384" by (simp add: MemClassSizes_def)
  then show "16 \<le> MemClassSizes ! c" "MemClassSizes ! c \<le> 16384" using assms by simp_all
qed

lemma span_ok_stride:
  assumes "span_ok h c st a s"
  shows "16 \<le> stride s" "stride s \<le> 16384" "3 \<le> block_count s" "block_count s * stride s \<le> 65472"
    "class_id s \<noteq> CLASS_LARGE" "block_count s \<le> 65472"
proof -
  note d = span_okD [OF assms]
  show s: "16 \<le> stride s" "stride s \<le> 16384" using class_size_bounds [OF d(3)] d(5) by simp_all
  have "65472 div 16384 \<le> 65472 div stride s" using s by (intro div_le_mono2) simp_all
  then show "3 \<le> block_count s" unfolding d(6) by simp
  show p: "block_count s * stride s \<le> 65472" unfolding d(6) by simp
  show "class_id s \<noteq> CLASS_LARGE" using d(2,3) by (simp add: MEMOP_CLASS_COUNT_def)
  have "block_count s * 1 \<le> block_count s * stride s" using s(1) by (intro mult_le_mono2) simp
  then show "block_count s \<le> 65472" using p by linarith
qed

lemma span_block_bounds:
  assumes "span_ok h c st a s" "i < block_count s"
  shows "a + SPAN_HEADER \<le> span_block a (stride s) i" "span_block a (stride s) i + stride s \<le> a + SPAN_SIZE"
proof -
  have "(i + 1) * stride s \<le> block_count s * stride s" using assms(2) by (intro mult_le_mono1) simp
  then have "i * stride s + stride s \<le> 65472" using span_ok_stride(4) [OF assms(1)] by (simp add: algebra_simps)
  then show "a + SPAN_HEADER \<le> span_block a (stride s) i" "span_block a (stride s) i + stride s \<le> a + SPAN_SIZE"
    by (simp_all add: span_block_def)
qed

lemma span_blocks_bounds:
  assumes "span_ok h c st a s" "b \<in> span_blocks a s"
  shows "a + SPAN_HEADER \<le> b" "b + stride s \<le> a + SPAN_SIZE"
proof -
  obtain i where "i < bump_idx s" "b = span_block a (stride s) i" using assms(2) by (auto simp: span_blocks_def)
  moreover have "bump_idx s \<le> block_count s" using assms(1) by (rule span_okD)
  ultimately show "a + SPAN_HEADER \<le> b" "b + stride s \<le> a + SPAN_SIZE"
    using span_block_bounds [OF assms(1), of i] by auto
qed

lemma span_of_inside:
  assumes "a mod SPAN_SIZE = 0" "a \<le> p" "p < a + SPAN_SIZE"
  shows "span_of p = a"
proof -
  obtain k where k: "a = SPAN_SIZE * k" using assms(1) by auto
  then have "p div SPAN_SIZE = k" using assms by (intro div_nat_eqI) simp_all
  then show ?thesis by (simp add: span_of_def k)
qed

lemma span_of_block:
  assumes "span_ok h c st a s" "b \<in> span_blocks a s"
  shows "span_of b = a"
proof (rule span_of_inside)
  show "a mod SPAN_SIZE = 0" using assms(1) by (rule span_okD)
  show "a \<le> b" "b < a + SPAN_SIZE" using span_blocks_bounds [OF assms] span_ok_stride [OF assms(1)] by simp_all
qed

lemma span_block_inj: "0 < str \<Longrightarrow> span_block a str i = span_block a str j \<longleftrightarrow> i = j"
  by (simp add: span_block_def)

lemma card_span_blocks: "span_ok h c st a s \<Longrightarrow> card (span_blocks a s) = bump_idx s"
  unfolding span_blocks_def using span_ok_stride(1) [of h c st a s]
  by (subst card_image) (auto simp: inj_on_def span_block_def)

lemma span_blocks_disjoint:
  assumes "span_ok h c st a s" "b \<in> span_blocks a s" "b' \<in> span_blocks a s" "b \<noteq> b'"
  shows "{b..<b + stride s} \<inter> {b'..<b' + stride s} = {}"
proof -
  obtain i j where ij: "b = span_block a (stride s) i" "b' = span_block a (stride s) j"
    using assms by (auto simp: span_blocks_def)
  have "i * stride s + stride s \<le> j * stride s \<or> j * stride s + stride s \<le> i * stride s"
  proof -
    have "i + 1 \<le> j \<or> j + 1 \<le> i" using assms(4) ij by (cases i j rule: linorder_cases) auto
    then have "(i + 1) * stride s \<le> j * stride s \<or> (j + 1) * stride s \<le> i * stride s"
      using mult_le_mono1 by blast
    then show ?thesis by (simp add: add.commute)
  qed
  then show ?thesis unfolding ij span_block_def by auto
qed

lemma span_used_live:
  assumes "span_ok h c st a s"
  shows "sp_used s = card (span_live a s) + length (remote_free s)"
proof -
  have d: "distinct (local_free s @ remote_free s)" "span_free s \<subseteq> span_blocks a s"
    "sp_used s + length (local_free s) = bump_idx s" using span_okD [OF assms] by blast+
  have f: "finite (span_free s)" by (simp add: span_free_def)
  have "card (span_free s) = length (local_free s) + length (remote_free s)"
    using d(1) by (metis distinct_card length_append set_append span_free_def)
  moreover have "card (span_live a s) = card (span_blocks a s) - card (span_free s)"
    unfolding span_live_def using f d(2) by (rule card_Diff_subset)
  moreover have "card (span_free s) \<le> card (span_blocks a s)"
    using d(2) by (intro card_mono) (simp_all add: span_blocks_def)
  ultimately show ?thesis using d(3) card_span_blocks [OF assms] by simp
qed

text \<open>The updates of one span header that the operations perform.\<close>

lemma span_ok_take:
  assumes "span_ok h c st a s" "local_free s = b # rest"
  defines "s' \<equiv> s\<lparr>local_free := rest, sp_used := sp_used s + 1\<rparr>"
  shows "span_ok h c st a s'" "b \<notin> span_live a s" "span_live a s' = insert b (span_live a s)"
  using assms by (auto simp: span_ok_def span_free_def span_live_def span_blocks_def)

lemma span_ok_bump:
  assumes "span_ok h c st a s" "bump_idx s < block_count s"
  defines "s' \<equiv> s\<lparr>bump_idx := bump_idx s + 1, sp_used := sp_used s + 1\<rparr>"
  defines "b \<equiv> span_block a (stride s) (bump_idx s)"
  shows "span_ok h c st a s'" "b \<notin> span_live a s" "span_live a s' = insert b (span_live a s)"
proof -
  have blocks: "span_blocks a s' = insert b (span_blocks a s)"
    by (auto simp: span_blocks_def s'_def b_def lessThan_Suc)
  have "b \<notin> span_blocks a s"
    using span_ok_stride(1) [OF assms(1)] by (auto simp: span_blocks_def b_def span_block_inj)
  moreover have "span_free s \<subseteq> span_blocks a s" using assms(1) by (rule span_okD)
  ultimately show "b \<notin> span_live a s" "span_live a s' = insert b (span_live a s)"
    using blocks by (auto simp: span_live_def s'_def span_free_def)
  show "span_ok h c st a s'"
    using assms(1,2) blocks by (auto simp: span_ok_def s'_def span_free_def)
qed

lemma span_ok_free_local:
  assumes "span_ok h c st a s" "p \<in> span_live a s"
  defines "s' \<equiv> s\<lparr>local_free := p # local_free s, sp_used := sub_u32 (sp_used s) 1\<rparr>"
  shows "span_ok h c st a s'" "span_live a s' = span_live a s - {p}"
proof -
  have "finite (span_live a s)" by (simp add: span_live_def span_blocks_def)
  then have u: "1 \<le> sp_used s"
    using span_used_live [OF assms(1)] assms(2) by (metis One_nat_def Suc_leI add_gr_0 card_gt_0_iff empty_iff)
  have "sp_used s < 4294967296"
    using span_ok_stride(6) [OF assms(1)] span_okD(7,11) [OF assms(1)] by linarith
  with u have "sub_u32 (sp_used s) 1 = sp_used s - 1" by simp
  then show "span_ok h c st a s'" "span_live a s' = span_live a s - {p}"
    using assms u by (auto simp: span_ok_def s'_def span_free_def span_live_def span_blocks_def)
qed

lemma span_ok_free_remote:
  assumes "span_ok h c st a s" "p \<in> span_live a s"
  defines "s' \<equiv> s\<lparr>remote_free := p # remote_free s\<rparr>"
  shows "span_ok h c st a s'" "span_live a s' = span_live a s - {p}"
  using assms by (auto simp: span_ok_def s'_def span_free_def span_live_def span_blocks_def)

lemma drain_links_list: "fst (drain_links bs l m) = rev bs @ l"
  by (induction bs l m rule: drain_links.induct) auto

lemma span_ok_drain:
  assumes "span_ok h c st a s"
  defines "s' \<equiv> s\<lparr>remote_free := [], local_free := rev (remote_free s) @ local_free s,
     sp_used := sub_u32 (sp_used s) (length (remote_free s))\<rparr>"
  shows "span_ok h c st a s'" "span_live a s' = span_live a s" "sp_used s' = card (span_live a s)"
proof -
  have le: "length (remote_free s) \<le> sp_used s" using span_used_live [OF assms(1)] by simp
  have "sp_used s < 4294967296"
    using span_ok_stride(6) [OF assms(1)] span_okD(7,11) [OF assms(1)] by linarith
  with le have u: "sub_u32 (sp_used s) (length (remote_free s)) = sp_used s - length (remote_free s)" by simp
  show "span_ok h c st a s'" "span_live a s' = span_live a s"
    using assms(1) le by (auto simp: span_ok_def s'_def u span_free_def span_live_def span_blocks_def)
  show "sp_used s' = card (span_live a s)"
    using span_used_live [OF assms(1)] u by (simp add: s'_def)
qed

section \<open>The lists of a heap\<close>

definition heap_set :: "MemHeap \<Rightarrow> addr set" where
  "heap_set H = (\<Union>c < MEMOP_CLASS_COUNT. set (spans H ! c)) \<union> set (full_list H)"

definition heap_ok :: "nat \<Rightarrow> MemHeap \<Rightarrow> (addr \<Rightarrow> MemSpan) \<Rightarrow> bool" where
  "heap_ok h H hm \<longleftrightarrow>
     length (spans H) = MEMOP_CLASS_COUNT \<and>
     (\<forall>c < MEMOP_CLASS_COUNT. distinct (spans H ! c) \<and> (\<forall>a \<in> set (spans H ! c). span_ok h c SPAN_AVAILABLE a (hm a))) \<and>
     distinct (full_list H) \<and> (\<forall>a \<in> set (full_list H). \<exists>c. span_ok h c SPAN_FULL a (hm a))"

lemma heap_set_cases:
  assumes "heap_ok h H hm" "a \<in> heap_set H"
  obtains (avail) c where "a \<in> set (spans H ! c)" "c < MEMOP_CLASS_COUNT" "span_ok h c SPAN_AVAILABLE a (hm a)"
  | (full) c where "a \<in> set (full_list H)" "span_ok h c SPAN_FULL a (hm a)"
  using assms unfolding heap_ok_def heap_set_def by blast

lemma heap_set_ok: "heap_ok h H hm \<Longrightarrow> a \<in> heap_set H \<Longrightarrow> \<exists>c st. span_ok h c st a (hm a)"
  by (erule heap_set_cases) blast+

lemma heap_ok_class: "heap_ok h H hm \<Longrightarrow> c < MEMOP_CLASS_COUNT \<Longrightarrow> a \<in> set (spans H ! c) \<Longrightarrow> span_ok h c SPAN_AVAILABLE a (hm a)"
  unfolding heap_ok_def by blast

lemma heap_ok_full: "heap_ok h H hm \<Longrightarrow> a \<in> set (full_list H) \<Longrightarrow> span_ok h (class_id (hm a)) SPAN_FULL a (hm a)"
  unfolding heap_ok_def by (metis span_okD(2))

lemma heap_set_class: "c < MEMOP_CLASS_COUNT \<Longrightarrow> a \<in> set (spans H ! c) \<Longrightarrow> a \<in> heap_set H"
  unfolding heap_set_def by blast

lemma heap_set_full: "a \<in> set (full_list H) \<Longrightarrow> a \<in> heap_set H"
  unfolding heap_set_def by blast

lemma heap_ok_cong:
  assumes "heap_ok h H hm" "spans H' = spans H" "full_list H' = full_list H" "\<And>a. a \<in> heap_set H \<Longrightarrow> hm' a = hm a"
  shows "heap_ok h H' hm'"
  using assms heap_set_class heap_set_full unfolding heap_ok_def by metis

lemma heap_set_cong: "spans H' = spans H \<Longrightarrow> full_list H' = full_list H \<Longrightarrow> heap_set H' = heap_set H"
  by (simp add: heap_set_def)

text \<open>A span's header tells where it is.\<close>

lemma heap_set_avail:
  assumes "heap_ok h H hm" "a \<in> heap_set H" "sp_state (hm a) = SPAN_AVAILABLE"
  shows "a \<in> set (spans H ! class_id (hm a))" "class_id (hm a) < MEMOP_CLASS_COUNT"
    "span_ok h (class_id (hm a)) SPAN_AVAILABLE a (hm a)"
  using assms by (auto elim!: heap_set_cases dest: span_okD)

lemma heap_set_is_full:
  assumes "heap_ok h H hm" "a \<in> heap_set H" "sp_state (hm a) \<noteq> SPAN_AVAILABLE"
  shows "a \<in> set (full_list H)" "span_ok h (class_id (hm a)) SPAN_FULL a (hm a)"
proof -
  show a: "a \<in> set (full_list H)" using assms by (auto elim!: heap_set_cases dest: span_okD)
  show "span_ok h (class_id (hm a)) SPAN_FULL a (hm a)" by (rule heap_ok_full [OF assms(1) a])
qed

lemma heap_not_full: "heap_ok h H hm \<Longrightarrow> c < MEMOP_CLASS_COUNT \<Longrightarrow> a \<in> set (spans H ! c) \<Longrightarrow> a \<notin> set (full_list H)"
  using heap_ok_class heap_ok_full by (metis span_okD(4) zero_neq_one)

lemma heap_other_class:
  "heap_ok h H hm \<Longrightarrow> c < MEMOP_CLASS_COUNT \<Longrightarrow> a \<in> set (spans H ! c) \<Longrightarrow> c' < MEMOP_CLASS_COUNT \<Longrightarrow>
    a \<in> set (spans H ! c') \<Longrightarrow> c' = c"
  using heap_ok_class by (metis span_okD(2))

lemma heap_ok_set_hdr:
  assumes ok: "heap_ok h H hm" and a: "a \<in> heap_set H"
    and s: "\<And>c st. span_ok h c st a (hm a) \<Longrightarrow> span_ok h c st a s"
  shows "heap_ok h H (hm(a := s))"
proof -
  have "span_ok h c 0 x ((hm(a := s)) x)" if "c < MEMOP_CLASS_COUNT" "x \<in> set (spans H ! c)" for c x
    using heap_ok_class [OF ok that] s by (cases "x = a") auto
  moreover have "\<exists>c. span_ok h c 1 x ((hm(a := s)) x)" if "x \<in> set (full_list H)" for x
    using heap_ok_full [OF ok that] s by (cases "x = a") auto
  ultimately show ?thesis using ok unfolding heap_ok_def by blast
qed

lemma heap_unlink_class:
  assumes ok: "heap_ok h H hm" and c: "c < MEMOP_CLASS_COUNT" "a \<in> set (spans H ! c)"
  defines "H' \<equiv> H\<lparr>spans := (spans H)[c := remove1 a (spans H ! c)]\<rparr>"
  shows "heap_ok h H' hm" "heap_set H' = heap_set H - {a}"
proof -
  have len: "length (spans H) = MEMOP_CLASS_COUNT" and d: "distinct (spans H ! c)"
    using ok c unfolding heap_ok_def by blast+
  have sp: "set (spans H' ! c') = (if c' = c then set (spans H ! c) - {a} else set (spans H ! c'))"
    "distinct (spans H ! c') \<Longrightarrow> distinct (spans H' ! c')"
    if "c' < MEMOP_CLASS_COUNT" for c'
    using that len d by (cases "c' = c"; auto simp: H'_def)+
  have full: "full_list H' = full_list H" "length (spans H') = MEMOP_CLASS_COUNT" using len by (simp_all add: H'_def)
  show "heap_ok h H' hm"
    using ok sp full unfolding heap_ok_def by (metis DiffD1)
  have "a \<notin> set (spans H ! c')" if "c' < MEMOP_CLASS_COUNT" "c' \<noteq> c" for c'
    using heap_other_class [OF ok c that(1)] that(2) by blast
  then have "(\<Union>c' < MEMOP_CLASS_COUNT. set (spans H' ! c')) = (\<Union>c' < MEMOP_CLASS_COUNT. set (spans H ! c')) - {a}"
    using sp(1) by (auto split: if_splits)
  moreover have "a \<notin> set (full_list H)" using heap_not_full [OF ok c] .
  ultimately show "heap_set H' = heap_set H - {a}" unfolding heap_set_def full by blast
qed

lemma heap_unlink_full:
  assumes ok: "heap_ok h H hm" and a: "a \<in> set (full_list H)"
  defines "H' \<equiv> H\<lparr>full_list := remove1 a (full_list H)\<rparr>"
  shows "heap_ok h H' hm" "heap_set H' = heap_set H - {a}"
proof -
  have d: "distinct (full_list H)" using ok unfolding heap_ok_def by blast
  then have f: "set (full_list H') = set (full_list H) - {a}" "distinct (full_list H')" "spans H' = spans H"
    by (simp_all add: H'_def)
  then show "heap_ok h H' hm" using ok unfolding heap_ok_def by (metis DiffD1)
  have "a \<notin> set (spans H ! c)" if "c < MEMOP_CLASS_COUNT" for c
    using heap_not_full [OF ok that] a by blast
  then show "heap_set H' = heap_set H - {a}" unfolding heap_set_def f by blast
qed

lemma heap_insert_class:
  assumes ok: "heap_ok h H hm" and c: "c < MEMOP_CLASS_COUNT" and a: "a \<notin> heap_set H" "span_ok h c SPAN_AVAILABLE a (hm a)"
  defines "H' \<equiv> H\<lparr>spans := (spans H)[c := a # spans H ! c]\<rparr>"
  shows "heap_ok h H' hm" "heap_set H' = insert a (heap_set H)"
proof -
  have len: "length (spans H) = MEMOP_CLASS_COUNT" using ok unfolding heap_ok_def by blast
  have na: "a \<notin> set (spans H ! c)" using a(1) c heap_set_class by blast
  have sp: "set (spans H' ! c') = (if c' = c then insert a (set (spans H ! c)) else set (spans H ! c'))"
    "distinct (spans H ! c') \<Longrightarrow> distinct (spans H' ! c')"
    if "c' < MEMOP_CLASS_COUNT" for c'
    using that len na by (cases "c' = c"; auto simp: H'_def)+
  have full: "full_list H' = full_list H" "length (spans H') = MEMOP_CLASS_COUNT" using len by (simp_all add: H'_def)
  have "span_ok h c' 0 x (hm x)" if "c' < MEMOP_CLASS_COUNT" "x \<in> set (spans H' ! c')" for c' x
    using heap_ok_class [OF ok that(1)] sp(1) [OF that(1)] that(2) a(2) by (auto split: if_splits)
  then show "heap_ok h H' hm"
    using ok sp(2) full unfolding heap_ok_def by metis
  have "(\<Union>c' < MEMOP_CLASS_COUNT. set (spans H' ! c')) = insert a (\<Union>c' < MEMOP_CLASS_COUNT. set (spans H ! c'))"
    using sp(1) c by (auto split: if_splits)
  then show "heap_set H' = insert a (heap_set H)" unfolding heap_set_def full by blast
qed

lemma heap_insert_full:
  assumes ok: "heap_ok h H hm" and a: "a \<notin> heap_set H" "span_ok h c SPAN_FULL a (hm a)"
  defines "H' \<equiv> H\<lparr>full_list := full_list H @ [a]\<rparr>"
  shows "heap_ok h H' hm" "heap_set H' = insert a (heap_set H)"
proof -
  have "a \<notin> set (full_list H)" using a(1) heap_set_full by blast
  then show "heap_ok h H' hm" using ok a(2) by (auto simp: heap_ok_def H'_def)
  show "heap_set H' = insert a (heap_set H)" by (auto simp: heap_set_def H'_def)
qed

section \<open>The heaps together\<close>

definition lists_ok :: "nat set \<Rightarrow> (nat \<Rightarrow> MemHeap) \<Rightarrow> (addr \<Rightarrow> MemSpan) \<Rightarrow> bool" where
  "lists_ok hs hf hm \<longleftrightarrow> (\<forall>h \<in> hs. heap_ok h (hf h) hm)"

definition spans_of :: "nat set \<Rightarrow> (nat \<Rightarrow> MemHeap) \<Rightarrow> addr set" where
  "spans_of hs hf = (\<Union>h \<in> hs. heap_set (hf h))"

lemma heap_sets_disjoint:
  assumes "lists_ok hs hf hm" "h \<in> hs" "h' \<in> hs" "h \<noteq> h'"
  shows "heap_set (hf h) \<inter> heap_set (hf h') = {}"
proof (rule ccontr)
  assume "\<not> ?thesis"
  then obtain a where a: "a \<in> heap_set (hf h)" "a \<in> heap_set (hf h')" by blast
  have "sp_owner (hm a) = Some h" using assms(1,2) a(1) heap_set_ok span_okD(1) unfolding lists_ok_def by metis
  moreover have "sp_owner (hm a) = Some h'" using assms(1,3) a(2) heap_set_ok span_okD(1) unfolding lists_ok_def by metis
  ultimately show False using assms(4) by simp
qed

lemma spans_of_owner:
  assumes "lists_ok hs hf hm" "a \<in> spans_of hs hf"
  obtains h where "h \<in> hs" "a \<in> heap_set (hf h)" "sp_owner (hm a) = Some h" "heap_ok h (hf h) hm"
  using assms heap_set_ok span_okD(1) unfolding lists_ok_def spans_of_def by (metis UN_E)

lemma spans_of_ok:
  assumes "lists_ok hs hf hm" "a \<in> spans_of hs hf"
  shows "\<exists>h c st. h \<in> hs \<and> span_ok h c st a (hm a)"
  using spans_of_owner [OF assms] heap_set_ok by metis

lemma lists_ok_upd:
  assumes ok: "lists_ok hs hf hm" and h: "h \<in> hs" and new: "heap_ok h H' hm'"
    and same: "\<And>a. a \<in> spans_of hs hf \<Longrightarrow> a \<notin> heap_set (hf h) \<Longrightarrow> hm' a = hm a"
  shows "lists_ok hs (hf(h := H')) hm'"
    "spans_of hs (hf(h := H')) = (spans_of hs hf - heap_set (hf h)) \<union> heap_set H'"
proof -
  have "heap_ok h' (hf h') hm'" if "h' \<in> hs" "h' \<noteq> h" for h'
  proof (rule heap_ok_cong [of h' "hf h'" hm])
    show "heap_ok h' (hf h') hm" using ok that by (simp add: lists_ok_def)
    fix a assume a: "a \<in> heap_set (hf h')"
    then have "a \<notin> heap_set (hf h)" using heap_sets_disjoint [OF ok that(1) h that(2)] by blast
    then show "hm' a = hm a" using same a that(1) by (auto simp: spans_of_def)
  qed simp_all
  then show "lists_ok hs (hf(h := H')) hm'" using new by (simp add: lists_ok_def)
  have "x \<notin> heap_set (hf h)" if "x \<in> heap_set (hf h')" "h' \<in> hs" "h' \<noteq> h" for h' x
    using heap_sets_disjoint [OF ok that(2) h that(3)] that(1) by blast
  then show "spans_of hs (hf(h := H')) = (spans_of hs hf - heap_set (hf h)) \<union> heap_set H'"
    using h unfolding spans_of_def by (auto split: if_splits)
qed

lemma lists_ok_same_lists:
  assumes "lists_ok hs hf hm" "\<And>h. h \<in> hs \<Longrightarrow> spans (hf' h) = spans (hf h)" "\<And>h. h \<in> hs \<Longrightarrow> full_list (hf' h) = full_list (hf h)"
  shows "lists_ok hs hf' hm" "spans_of hs hf' = spans_of hs hf"
proof -
  show "lists_ok hs hf' hm"
    unfolding lists_ok_def
  proof
    fix h assume h: "h \<in> hs"
    then have "heap_ok h (hf h) hm" using assms(1) by (simp add: lists_ok_def)
    then show "heap_ok h (hf' h) hm"
      by (rule heap_ok_cong [OF _ assms(2) [OF h] assms(3) [OF h] refl])
  qed
  have "heap_set (hf' h) = heap_set (hf h)" if "h \<in> hs" for h
    using assms(2,3) that by (intro heap_set_cong) auto
  then show "spans_of hs hf' = spans_of hs hf" by (simp add: spans_of_def)
qed

section \<open>Large blocks\<close>

definition large_ok :: "(addr \<Rightarrow> MemSpan) \<Rightarrow> addr set \<Rightarrow> bool" where
  "large_ok hm L \<longleftrightarrow> (\<forall>a \<in> L. class_id (hm a) = CLASS_LARGE \<and> 1 \<le> block_count (hm a) \<and>
     a mod SPAN_SIZE = 0 \<and> 0 < a \<and>
     stride (hm a) = nat (u32 (int (block_count (hm a) * SPAN_SIZE) - int SPAN_HEADER)))"

definition large_chunks :: "(addr \<Rightarrow> MemSpan) \<Rightarrow> addr set \<Rightarrow> addr set" where
  "large_chunks hm L = {a \<in> L. block_count (hm a) = 1}"

definition large_regions :: "(addr \<Rightarrow> MemSpan) \<Rightarrow> addr set \<Rightarrow> (addr \<times> nat) set" where
  "large_regions hm L = {(a, n). a \<in> L \<and> block_count (hm a) \<noteq> 1 \<and> n = block_count (hm a) * SPAN_SIZE}"

lemma large_ok_stride:
  assumes "large_ok hm L" "a \<in> L"
  shows "stride (hm a) \<le> block_count (hm a) * SPAN_SIZE - SPAN_HEADER"
proof -
  have b: "1 \<le> block_count (hm a)" "stride (hm a) = nat (u32 (int (block_count (hm a) * SPAN_SIZE) - int SPAN_HEADER))"
    using assms by (auto simp: large_ok_def)
  have "0 \<le> int (block_count (hm a) * SPAN_SIZE) - int SPAN_HEADER" using b(1) by simp
  then have "u32 (int (block_count (hm a) * SPAN_SIZE) - int SPAN_HEADER) \<le> int (block_count (hm a) * SPAN_SIZE) - int SPAN_HEADER"
    unfolding u32_def by (rule zmod_le_nonneg_dividend)
  then show ?thesis unfolding b(2) by linarith
qed

section \<open>The invariant of the pool\<close>

definition life_ok :: "MemPool \<Rightarrow> bool" where
  "life_ok P \<longleftrightarrow>
     distinct (heaps P) \<and> (\<forall>h \<in> set (heaps P). 1 \<le> h \<and> h \<le> next_id P) \<and>
     (\<forall>t h. tls P t = Some h \<longrightarrow> h \<in> set (heaps P)) \<and>
     (\<forall>t t' h. tls P t = Some h \<longrightarrow> tls P t' = Some h \<longrightarrow> t = t') \<and>
     (\<forall>h. h \<notin> set (heaps P) \<longrightarrow> local_cache (hp P h) = []) \<and>
     (init_state P = MEMOP_UNINIT \<or> init_state P = MEMOP_READY) \<and>
     (init_state P = MEMOP_READY \<longrightarrow> tables P = memop_build_size2class) \<and>
     (heaps P \<noteq> [] \<longrightarrow> init_state P = MEMOP_READY)"

definition pool_spans :: "MemPool \<Rightarrow> addr set" where
  "pool_spans P = spans_of (set (heaps P)) (hp P)"

definition caches :: "MemPool \<Rightarrow> nat \<Rightarrow> addr list" where
  "caches P = (\<lambda>h. local_cache (hp P h))"

definition pool_inv :: "MemPool \<Rightarrow> addr set \<Rightarrow> bool" where
  "pool_inv P L \<longleftrightarrow> life_ok P \<and> lists_ok (set (heaps P)) (hp P) (hdr P) \<and> large_ok (hdr P) L \<and>
     caches_inv P (caches P) (pool_spans P \<union> large_chunks (hdr P) L) (large_regions (hdr P) L)"

definition blocks_live :: "MemPool \<Rightarrow> addr set \<Rightarrow> addr set" where
  "blocks_live P L = (\<Union>a \<in> pool_spans P. span_live a (hdr P a)) \<union> (\<lambda>a. a + SPAN_HEADER) ` L"

definition extent :: "MemPool \<Rightarrow> addr \<Rightarrow> addr set" where
  "extent P p = {p..<p + memop_usable_size p P}"

lemma pool_invD:
  assumes "pool_inv P L"
  shows "life_ok P" "lists_ok (set (heaps P)) (hp P) (hdr P)" "large_ok (hdr P) L"
    "caches_inv P (caches P) (pool_spans P \<union> large_chunks (hdr P) L) (large_regions (hdr P) L)"
  using assms by (simp_all add: pool_inv_def)

lemma pool_spans_ok:
  assumes "pool_inv P L" "a \<in> pool_spans P"
  shows "\<exists>h c st. h \<in> set (heaps P) \<and> span_ok h c st a (hdr P a)"
  using spans_of_ok [OF pool_invD(2) [OF assms(1)]] assms(2) by (simp add: pool_spans_def)

lemma pool_spans_not_large:
  assumes "pool_inv P L" "a \<in> pool_spans P" shows "a \<notin> L"
proof
  assume "a \<in> L"
  then have "class_id (hdr P a) = CLASS_LARGE" using pool_invD(3) [OF assms(1)] by (simp add: large_ok_def)
  moreover obtain h c st where "span_ok h c st a (hdr P a)" using pool_spans_ok [OF assms] by blast
  ultimately show False using span_ok_stride(5) by blast
qed

lemma pool_tables:
  assumes "pool_inv P L" "a \<in> pool_spans P" shows "tables P = memop_build_size2class"
proof -
  have "heaps P \<noteq> []" using assms(2) by (auto simp: pool_spans_def spans_of_def)
  then show ?thesis using pool_invD(1) [OF assms(1)] by (simp add: life_ok_def)
qed

text \<open>Where a block lies.  \<open>all_blocks\<close> are the blocks ever cut from the spans in use and the
  large blocks; the live ones are among them.\<close>

definition all_blocks :: "MemPool \<Rightarrow> addr set \<Rightarrow> addr set" where
  "all_blocks P L = (\<Union>a \<in> pool_spans P. span_blocks a (hdr P a)) \<union> (\<lambda>a. a + SPAN_HEADER) ` L"

lemma live_all_blocks: "blocks_live P L \<subseteq> all_blocks P L"
  by (auto simp: blocks_live_def all_blocks_def span_live_def)

definition span_region :: "MemPool \<Rightarrow> addr \<Rightarrow> addr set" where
  "span_region P a = region a (if class_id (hdr P a) = CLASS_LARGE then block_count (hdr P a) * SPAN_SIZE else SPAN_SIZE)"

lemma span_block_usable:
  assumes "pool_inv P L" "a \<in> pool_spans P" "b \<in> span_blocks a (hdr P a)"
  shows "span_of b = a" "memop_usable_size b P = stride (hdr P a)"
    "extent P b \<subseteq> {a + SPAN_HEADER..<a + SPAN_SIZE}" "{b..<b + 8} \<subseteq> extent P b"
proof -
  obtain h c st where ok: "span_ok h c st a (hdr P a)" using pool_spans_ok [OF assms(1,2)] by blast
  show so: "span_of b = a" using span_of_block [OF ok assms(3)] .
  show u: "memop_usable_size b P = stride (hdr P a)"
    using pool_tables [OF assms(1,2)] span_okD [OF ok] span_ok_stride(5) [OF ok]
    by (simp add: memop_usable_size_def so class_stride_eq Let_def)
  show "extent P b \<subseteq> {a + SPAN_HEADER..<a + SPAN_SIZE}" "{b..<b + 8} \<subseteq> extent P b"
    using span_blocks_bounds [OF ok assms(3)] span_ok_stride(1) [OF ok] by (auto simp: extent_def u)
qed

lemma large_block_usable:
  assumes "large_ok (hdr P) L" "a \<in> L"
  shows "span_of (a + SPAN_HEADER) = a" "memop_usable_size (a + SPAN_HEADER) P = stride (hdr P a)"
    "extent P (a + SPAN_HEADER) \<subseteq> {a + SPAN_HEADER..<a + block_count (hdr P a) * SPAN_SIZE}"
proof -
  have b: "class_id (hdr P a) = CLASS_LARGE" "1 \<le> block_count (hdr P a)" "a mod SPAN_SIZE = 0"
    using assms by (auto simp: large_ok_def)
  show so: "span_of (a + SPAN_HEADER) = a" by (rule span_of_inside [OF b(3)]) simp_all
  show u: "memop_usable_size (a + SPAN_HEADER) P = stride (hdr P a)"
    by (simp add: memop_usable_size_def so b)
  have "65536 \<le> block_count (hdr P a) * 65536" using b(2) by simp
  with large_ok_stride [OF assms] have "64 + stride (hdr P a) \<le> block_count (hdr P a) * 65536" by linarith
  then show "extent P (a + SPAN_HEADER) \<subseteq> {a + SPAN_HEADER..<a + block_count (hdr P a) * SPAN_SIZE}"
    by (auto simp: extent_def u)
qed

section \<open>Blocks do not overlap\<close>

lemma home_kind:
  assumes inv: "pool_inv P L" and a: "a \<in> pool_spans P \<union> L"
  shows "(a \<in> pool_spans P \<union> large_chunks (hdr P) L \<and> span_region P a = region a SPAN_SIZE) \<or>
    (\<exists>n. (a, n) \<in> large_regions (hdr P) L \<and> span_region P a = region a n)"
proof (cases "a \<in> L")
  case True
  then have "class_id (hdr P a) = CLASS_LARGE" using pool_invD(3) [OF inv] by (simp add: large_ok_def)
  with True show ?thesis by (auto simp: large_chunks_def large_regions_def span_region_def)
next
  case False
  then have "a \<in> pool_spans P" using a by blast
  moreover obtain h c st where "span_ok h c st a (hdr P a)" using pool_spans_ok [OF inv calculation] by blast
  ultimately show ?thesis using span_ok_stride(5) by (auto simp: span_region_def)
qed

lemma homes_disjoint:
  assumes inv: "pool_inv P L" and a: "a \<in> pool_spans P \<union> L" "a' \<in> pool_spans P \<union> L" "a \<noteq> a'"
  shows "span_region P a \<inter> span_region P a' = {}"
proof -
  note c = caches_inv_chunk [OF pool_invD(4) [OF inv]]
  have rr: "region b n \<inter> region b' n' = {}"
    if "(b, n) \<in> large_regions (hdr P) L" "(b', n') \<in> large_regions (hdr P) L" "b \<noteq> b'" for b n b' n'
    using caches_inv_regions [OF pool_invD(4) [OF inv]] that unfolding regions_inv_def by blast
  have ud: "region u SPAN_SIZE \<inter> region u' SPAN_SIZE = {}"
    if "u \<in> pool_spans P \<union> large_chunks (hdr P) L" "u' \<in> pool_spans P \<union> large_chunks (hdr P) L" "u \<noteq> u'" for u u'
    using c(1) that by (intro aligned_disjoint) auto
  have ur: "region u SPAN_SIZE \<inter> region b n = {}"
    if "u \<in> pool_spans P \<union> large_chunks (hdr P) L" "(b, n) \<in> large_regions (hdr P) L" for u b n
    using c(4) that by blast
  show ?thesis
    using home_kind [OF inv a(1)] home_kind [OF inv a(2)] rr ud ur a(3) by (metis Int_commute)
qed

lemma home_mapped:
  assumes inv: "pool_inv P L" and a: "a \<in> pool_spans P \<union> L"
  shows "span_region P a \<subseteq> mapped (os_log P)"
proof -
  note c = caches_inv_chunk [OF pool_invD(4) [OF inv]]
  have "region b n \<subseteq> mapped (os_log P)" if "(b, n) \<in> large_regions (hdr P) L" for b n
    using caches_inv_regions [OF pool_invD(4) [OF inv]] that unfolding regions_inv_def by blast
  then show ?thesis using home_kind [OF inv a] c(3) by (metis UnI1)
qed

lemma block_home:
  assumes inv: "pool_inv P L" and p: "p \<in> all_blocks P L"
  shows "span_of p \<in> pool_spans P \<union> L" "extent P p \<subseteq> span_region P (span_of p)" "span_of p + SPAN_HEADER \<le> p"
proof -
  consider (small) a where "a \<in> pool_spans P" "p \<in> span_blocks a (hdr P a)" | (large) a where "a \<in> L" "p = a + SPAN_HEADER"
    using p by (auto simp: all_blocks_def)
  then have "span_of p \<in> pool_spans P \<union> L \<and> extent P p \<subseteq> span_region P (span_of p) \<and> span_of p + SPAN_HEADER \<le> p"
  proof cases
    case small
    obtain h c st where ok: "span_ok h c st a (hdr P a)" using pool_spans_ok [OF inv small(1)] by blast
    then have "span_region P a = {a..<a + SPAN_SIZE}"
      using span_ok_stride(5) [OF ok] by (simp add: span_region_def region_def)
    then show ?thesis
      using span_block_usable [OF inv small] small span_blocks_bounds [OF ok small(2)] by auto
  next
    case large
    have "class_id (hdr P a) = CLASS_LARGE" using pool_invD(3) [OF inv] large(1) by (simp add: large_ok_def)
    then have "span_region P a = {a..<a + block_count (hdr P a) * SPAN_SIZE}" by (simp add: span_region_def region_def)
    then show ?thesis
      using large_block_usable [OF pool_invD(3) [OF inv] large(1)] large by auto
  qed
  then show "span_of p \<in> pool_spans P \<union> L" "extent P p \<subseteq> span_region P (span_of p)" "span_of p + SPAN_HEADER \<le> p" by auto
qed

lemma block_cases:
  assumes inv: "pool_inv P L" and p: "p \<in> all_blocks P L"
  shows "(span_of p \<in> pool_spans P \<and> p \<in> span_blocks (span_of p) (hdr P (span_of p))) \<or>
    (span_of p \<in> L \<and> p = span_of p + SPAN_HEADER)"
  using p span_block_usable(1) [OF inv] large_block_usable(1) [OF pool_invD(3) [OF inv]]
  by (auto simp: all_blocks_def)

lemma extents_disjoint:
  assumes inv: "pool_inv P L" and p: "p \<in> all_blocks P L" "q \<in> all_blocks P L" "p \<noteq> q"
  shows "extent P p \<inter> extent P q = {}"
proof (cases "span_of p = span_of q")
  case False
  then show ?thesis
    using homes_disjoint [OF inv] block_home [OF inv p(1)] block_home [OF inv p(2)] by blast
next
  case True
  let ?a = "span_of p"
  have "?a \<in> pool_spans P" "p \<in> span_blocks ?a (hdr P ?a)" "q \<in> span_blocks ?a (hdr P ?a)"
    using block_cases [OF inv p(1)] block_cases [OF inv p(2)] p(3) True pool_spans_not_large [OF inv] by metis+
  moreover obtain h c st where ok: "span_ok h c st ?a (hdr P ?a)"
    using pool_spans_ok [OF inv \<open>?a \<in> pool_spans P\<close>] by blast
  ultimately show ?thesis
    using span_blocks_disjoint [OF ok] p(3) span_block_usable(2) [OF inv] by (simp add: extent_def)
qed

lemma extent_not_free_chunk:
  assumes inv: "pool_inv P L" and p: "p \<in> all_blocks P L"
  shows "extent P p \<inter> words_of (free_chunks P (caches P)) = {}"
proof -
  have "span_region P (span_of p) \<inter> region d SPAN_SIZE = {}" if d: "d \<in> free_chunks P (caches P)" for d
  proof -
    note ci = pool_invD(4) [OF inv]
    have nd: "d \<notin> pool_spans P \<union> large_chunks (hdr P) L" using caches_inv_free_used [OF ci] d by blast
    show ?thesis
      using home_kind [OF inv block_home(1) [OF inv p]] caches_inv_chunk [OF ci] d nd
        aligned_disjoint [of "span_of p" SPAN_SIZE d]
      by (metis Int_commute UnI1 UnI2)
  qed
  moreover have "{d..<d + 8} \<subseteq> region d SPAN_SIZE" for d by (auto simp: region_def)
  ultimately show ?thesis
    using block_home(2) [OF inv p] unfolding words_of_def by blast
qed

text \<open>The words the allocator may write: the first words of free blocks and of free chunks.\<close>

lemma extent_not_word:
  assumes inv: "pool_inv P L" and p: "p \<in> all_blocks P L" "b \<in> all_blocks P L" "p \<noteq> b" "{b..<b + 8} \<subseteq> extent P b"
  shows "extent P p \<inter> {b..<b + 8} = {}"
  using extents_disjoint [OF inv p(1,2,3)] p(4) by blast

end
