(* ===== verification/Pool_Correct.thy ===== *)
theory Pool_Correct
  imports Pool_Invariant
begin

text \<open>
  Every operation of the pool allocator keeps the invariant and does to the set of live blocks
  exactly what it should: allocation adds a fresh block that is large enough, free removes the
  block, everything else leaves the set alone; in all cases the blocks that stay live keep their
  size and their contents.
\<close>

section \<open>What an operation keeps\<close>

definition same_life :: "MemPool \<Rightarrow> MemPool \<Rightarrow> bool" where
  "same_life P P' \<longleftrightarrow> heaps P' = heaps P \<and> tls P' = tls P \<and> next_id P' = next_id P \<and>
     init_state P' = init_state P \<and> tables P' = tables P"

definition keeps :: "addr set \<Rightarrow> MemPool \<Rightarrow> MemPool \<Rightarrow> bool" where
  "keeps B P P' \<longleftrightarrow> (\<forall>q \<in> B. memop_usable_size q P' = memop_usable_size q P \<and>
     same_at (extent P q) (mem_bytes P) (mem_bytes P'))"

definition quiet :: "MemPool \<Rightarrow> addr set \<Rightarrow> MemPool \<Rightarrow> bool" where
  "quiet P L P' \<longleftrightarrow> pool_inv P' L \<and> blocks_live P' L = blocks_live P L \<and> keeps (blocks_live P L) P P' \<and> same_life P P'"

lemma same_life_refl [simp]: "same_life P P"
  by (simp add: same_life_def)

lemma same_life_trans: "same_life P P1 \<Longrightarrow> same_life P1 P2 \<Longrightarrow> same_life P P2"
  by (simp add: same_life_def)

lemma keeps_refl [simp]: "keeps B P P"
  by (simp add: keeps_def)

lemma keeps_trans: "keeps B P P1 \<Longrightarrow> keeps B P1 P2 \<Longrightarrow> keeps B P P2"
  by (auto simp: keeps_def extent_def same_at_def)

lemma keeps_mono: "keeps B P P' \<Longrightarrow> A \<subseteq> B \<Longrightarrow> keeps A P P'"
  by (auto simp: keeps_def)

lemma quiet_refl: "pool_inv P L \<Longrightarrow> quiet P L P"
  by (simp add: quiet_def)

lemma quiet_trans: "quiet P L P1 \<Longrightarrow> quiet P1 L P2 \<Longrightarrow> quiet P L P2"
  by (auto simp: quiet_def intro: keeps_trans same_life_trans)

lemma usable_cong:
  "tables P' = tables P \<Longrightarrow> class_id (hdr P' (span_of q)) = class_id (hdr P (span_of q)) \<Longrightarrow>
    stride (hdr P' (span_of q)) = stride (hdr P (span_of q)) \<Longrightarrow> memop_usable_size q P' = memop_usable_size q P"
  by (simp add: memop_usable_size_def Let_def)

lemma caches_inv_cong:
  "caches_inv G lc used X \<Longrightarrow> segments G' = segments G \<Longrightarrow> span_cache G' = span_cache G \<Longrightarrow>
    cache_count G' = cache_count G \<Longrightarrow> os_log G' = os_log G \<Longrightarrow> caches_inv G' lc used X"
  unfolding caches_inv_def using chunks_inv_cong by blast

definition same_chunks :: "MemPool \<Rightarrow> MemPool \<Rightarrow> bool" where
  "same_chunks P P' \<longleftrightarrow> segments P' = segments P \<and> span_cache P' = span_cache P \<and>
     cache_count P' = cache_count P \<and> os_log P' = os_log P"

lemma life_ok_cong: "life_ok P \<Longrightarrow> same_life P P' \<Longrightarrow> caches P' = caches P \<Longrightarrow> life_ok P'"
  by (auto simp: life_ok_def same_life_def caches_def fun_eq_iff)

lemma large_cong:
  assumes "\<And>a. a \<in> L \<Longrightarrow> hm' a = hm a"
  shows "large_ok hm' L = large_ok hm L" "large_chunks hm' L = large_chunks hm L"
    "large_regions hm' L = large_regions hm L"
  using assms by (simp_all add: large_ok_def large_chunks_def large_regions_def cong: conj_cong)

text \<open>Updates that touch no list, no header and no chunk.\<close>

lemma quiet_same:
  assumes inv: "pool_inv P L" and same: "same_life P P'" "same_chunks P P'" "caches P' = caches P" "hdr P' = hdr P"
    and lists: "\<And>h. spans (hp P' h) = spans (hp P h)" "\<And>h. full_list (hp P' h) = full_list (hp P h)"
    and mem: "mem_bytes P' = mem_bytes P"
  shows "quiet P L P'" "pool_spans P' = pool_spans P"
proof -
  have hs: "heaps P' = heaps P" "tables P' = tables P" using same(1) by (simp_all add: same_life_def)
  note l = lists_ok_same_lists [OF pool_invD(2) [OF inv], of "hp P'"]
  show sp: "pool_spans P' = pool_spans P" unfolding pool_spans_def hs using l(2) lists by blast
  have "caches_inv P' (caches P) (pool_spans P \<union> large_chunks (hdr P) L) (large_regions (hdr P) L)"
    by (rule caches_inv_cong [OF pool_invD(4) [OF inv]]) (use same(2) in \<open>simp_all add: same_chunks_def\<close>)
  then have "pool_inv P' L"
    using pool_invD [OF inv] l lists life_ok_cong [OF _ same(1,3)]
    by (simp add: pool_inv_def hs sp same(3,4))
  moreover have "memop_usable_size q P' = memop_usable_size q P" for q
    by (rule usable_cong) (simp_all add: hs same(4))
  ultimately show "quiet P L P'"
    by (simp add: quiet_def blocks_live_def sp same keeps_def mem)
qed

lemma quiet_stat_free: "pool_inv P L \<Longrightarrow> quiet P L (stat_free ho n P)"
  by (rule quiet_same; auto simp: stat_free_def upd_heap_def same_life_def same_chunks_def caches_def fun_eq_iff split: option.splits)

lemma quiet_bump_stats: "pool_inv P L \<Longrightarrow> quiet P L (bump_stats h a b P)"
  by (rule quiet_same; auto simp: bump_stats_def upd_heap_def same_life_def same_chunks_def caches_def fun_eq_iff)

section \<open>Updating one span\<close>

lemma live_of_span:
  assumes inv: "pool_inv P L" and a: "a \<in> pool_spans P"
  shows "blocks_live P L = {p \<in> blocks_live P L. span_of p \<noteq> a} \<union> span_live a (hdr P a)"
    "p \<in> span_live a (hdr P a) \<Longrightarrow> span_of p = a"
proof -
  have "p \<in> span_live a (hdr P a)" if "p \<in> blocks_live P L" "span_of p = a" for p
  proof -
    from that(1) consider (s) b where "b \<in> pool_spans P" "p \<in> span_live b (hdr P b)" | (l) b where "b \<in> L" "p = b + SPAN_HEADER"
      by (auto simp: blocks_live_def)
    then show ?thesis
    proof cases
      case s
      then have "span_of p = b" using span_block_usable(1) [OF inv s(1)] by (auto simp: span_live_def)
      with s that show ?thesis by simp
    next
      case l
      then have "a \<in> L" using large_block_usable(1) [OF pool_invD(3) [OF inv]] that(2) by metis
      with pool_spans_not_large [OF inv a] show ?thesis by simp
    qed
  qed
  moreover show so: "p \<in> span_live a (hdr P a) \<Longrightarrow> span_of p = a" for p
    using span_block_usable(1) [OF inv a] by (auto simp: span_live_def)
  moreover have "span_live a (hdr P a) \<subseteq> blocks_live P L" using a by (auto simp: blocks_live_def)
  ultimately show "blocks_live P L = {p \<in> blocks_live P L. span_of p \<noteq> a} \<union> span_live a (hdr P a)" by blast
qed

text \<open>Changing the header of one span, with writes into the words of free blocks only.\<close>

lemma span_update:
  fixes m :: bytes
  assumes inv: "pool_inv P L" and a: "a \<in> pool_spans P"
    and s: "\<And>h c st. span_ok h c st a (hdr P a) \<Longrightarrow> span_ok h c st a s"
  defines "P' \<equiv> P\<lparr>mem_bytes := m, hdr := (hdr P)(a := s)\<rparr>"
  shows "pool_inv P' L" "pool_spans P' = pool_spans P" "same_life P P'"
    "blocks_live P' L = {p \<in> blocks_live P L. span_of p \<noteq> a} \<union> span_live a s"
    "memop_usable_size q P' = memop_usable_size q P"
proof -
  obtain h where h: "h \<in> set (heaps P)" "a \<in> heap_set (hp P h)" "heap_ok h (hp P h) (hdr P)"
    using spans_of_owner [OF pool_invD(2) [OF inv]] a unfolding pool_spans_def by metis
  obtain c st where ok: "span_ok h c st a (hdr P a)" using heap_set_ok [OF h(3,2)] by blast
  have ok': "span_ok h c st a s" using s [OF ok] .
  have anl: "a \<notin> L" using pool_spans_not_large [OF inv a] .
  have "heap_ok h (hp P h) ((hdr P)(a := s))"
    by (rule heap_ok_set_hdr [OF h(3,2)]) (rule s)
  then have l: "lists_ok (set (heaps P)) ((hp P)(h := hp P h)) ((hdr P)(a := s))"
    by (rule lists_ok_upd [OF pool_invD(2) [OF inv] h(1)]) (use h(2) in auto)
  show sp: "pool_spans P' = pool_spans P" by (simp add: pool_spans_def P'_def)
  have lg: "large_ok ((hdr P)(a := s)) L = large_ok (hdr P) L"
    "large_chunks ((hdr P)(a := s)) L = large_chunks (hdr P) L"
    "large_regions ((hdr P)(a := s)) L = large_regions (hdr P) L"
    by (rule large_cong; use anl in auto)+
  have ca: "caches P' = caches P" by (simp add: caches_def P'_def)
  show sl: "same_life P P'" by (simp add: same_life_def P'_def)
  have "caches_inv P' (caches P) (pool_spans P \<union> large_chunks (hdr P) L) (large_regions (hdr P) L)"
    by (rule caches_inv_cong [OF pool_invD(4) [OF inv]]) (simp_all add: P'_def)
  then show inv': "pool_inv P' L"
    using pool_invD [OF inv] l life_ok_cong [OF _ sl ca]
    unfolding pool_inv_def sp ca by (simp add: P'_def lg)
  show "memop_usable_size q P' = memop_usable_size q P"
    by (rule usable_cong) (use span_okD [OF ok] span_okD [OF ok'] in \<open>auto simp: P'_def\<close>)
  have "{p \<in> blocks_live P' L. span_of p \<noteq> a} = {p \<in> blocks_live P L. span_of p \<noteq> a}"
  proof -
    have "span_of p \<noteq> a \<Longrightarrow> p \<in> span_live b (hdr P' b) \<longleftrightarrow> p \<in> span_live b (hdr P b)" if "b \<in> pool_spans P" for p b
    proof (cases "b = a")
      case True
      then show "span_of p \<noteq> a \<Longrightarrow> ?thesis"
        using span_of_block [OF ok] span_of_block [OF ok'] by (auto simp: span_live_def P'_def)
    qed (simp add: P'_def)
    then show ?thesis unfolding blocks_live_def sp by blast
  qed
  moreover have "hdr P' a = s" by (simp add: P'_def)
  ultimately show "blocks_live P' L = {p \<in> blocks_live P L. span_of p \<noteq> a} \<union> span_live a s"
    using live_of_span(1) [OF inv', of a] a sp by simp
qed

definition allocated :: "MemPool \<Rightarrow> addr set \<Rightarrow> addr \<Rightarrow> MemPool \<Rightarrow> addr set \<Rightarrow> bool" where
  "allocated P L b P' L' \<longleftrightarrow> pool_inv P' L' \<and> b \<notin> blocks_live P L \<and>
     blocks_live P' L' = insert b (blocks_live P L) \<and> keeps (blocks_live P L) P P' \<and> same_life P P'"

definition released :: "MemPool \<Rightarrow> addr set \<Rightarrow> addr \<Rightarrow> MemPool \<Rightarrow> addr set \<Rightarrow> bool" where
  "released P L b P' L' \<longleftrightarrow> pool_inv P' L' \<and>
     blocks_live P' L' = blocks_live P L - {b} \<and> keeps (blocks_live P L - {b}) P P' \<and> same_life P P'"

lemma quiet_allocated: "quiet P L P1 \<Longrightarrow> allocated P1 L b P2 L2 \<Longrightarrow> allocated P L b P2 L2"
  by (auto simp: quiet_def allocated_def intro: keeps_trans same_life_trans)

lemma allocated_quiet: "allocated P L b P1 L1 \<Longrightarrow> quiet P1 L1 P2 \<Longrightarrow> allocated P L b P2 L1"
  by (auto simp: quiet_def allocated_def intro: keeps_trans same_life_trans keeps_mono)

lemma released_quiet: "released P L b P1 L1 \<Longrightarrow> quiet P1 L1 P2 \<Longrightarrow> released P L b P2 L1"
  by (auto simp: quiet_def released_def intro: keeps_trans same_life_trans)

lemma quiet_released: "quiet P L P1 \<Longrightarrow> released P1 L b P2 L2 \<Longrightarrow> released P L b P2 L2"
  by (auto simp: quiet_def released_def intro: keeps_trans same_life_trans keeps_mono)

lemma alloc_update:
  assumes inv: "pool_inv P L" and a: "a \<in> pool_spans P" and ok: "span_ok h c st a (hdr P a)"
    and s: "span_ok h c st a s" "b \<notin> span_live a (hdr P a)" "span_live a s = insert b (span_live a (hdr P a))"
  defines "P' \<equiv> P\<lparr>hdr := (hdr P)(a := s)\<rparr>"
  shows "allocated P L b P' L" "memop_usable_size b P' = MemClassSizes ! c" "pool_spans P' = pool_spans P"
proof -
  have s': "span_ok h' c' st' a (hdr P a) \<Longrightarrow> span_ok h' c' st' a s" for h' c' st'
    using s(1) span_okD(1,2,4) [OF ok] span_okD(1,2,4) [of h' c' st' a "hdr P a"] by simp
  have e: "P' = P\<lparr>mem_bytes := mem_bytes P, hdr := (hdr P)(a := s)\<rparr>" by (simp add: P'_def)
  note u = span_update [OF inv a s', where m = "mem_bytes P", folded e]
  have b: "b \<in> span_blocks a s" using s(3) by (auto simp: span_live_def)
  have so: "span_of b = a" by (rule span_of_block [OF s(1) b])
  have ls: "blocks_live P L = {p \<in> blocks_live P L. span_of p \<noteq> a} \<union> span_live a (hdr P a)"
    by (rule live_of_span(1) [OF inv a])
  have "b \<notin> {p \<in> blocks_live P L. span_of p \<noteq> a} \<union> span_live a (hdr P a)" using so s(2) by simp
  then have nb: "b \<notin> blocks_live P L" by (subst ls)
  have "blocks_live P' L = insert b ({p \<in> blocks_live P L. span_of p \<noteq> a} \<union> span_live a (hdr P a))"
    using u(4) s(3) by simp
  then have "blocks_live P' L = insert b (blocks_live P L)" by (simp only: ls [symmetric])
  moreover have "keeps (blocks_live P L) P P'" using u(5) by (simp add: keeps_def P'_def)
  ultimately show "allocated P L b P' L" using u(1,3) nb by (simp add: allocated_def)
  show "pool_spans P' = pool_spans P" by (rule u(2))
  have h: "hdr P' a = s" by (simp add: P'_def)
  have "a \<in> pool_spans P'" using a u(2) by simp
  from span_block_usable(2) [OF u(1) this] b have "memop_usable_size b P' = stride s" by (simp add: h)
  then show "memop_usable_size b P' = MemClassSizes ! c" using span_okD(5) [OF s(1)] by simp
qed

lemma alloc_take:
  assumes inv: "pool_inv P L" and a: "a \<in> pool_spans P" and ok: "span_ok h c st a (hdr P a)"
    and f: "local_free (hdr P a) = b # rest"
  defines "P' \<equiv> upd_span a (\<lambda>s. s\<lparr>local_free := rest, sp_used := sp_used s + 1\<rparr>) P"
  shows "allocated P L b P' L" "memop_usable_size b P' = MemClassSizes ! c" "pool_spans P' = pool_spans P"
  using alloc_update [OF inv a ok span_ok_take [OF ok f]] by (simp_all add: P'_def upd_span_def)

lemma alloc_bump:
  assumes inv: "pool_inv P L" and a: "a \<in> pool_spans P" and ok: "span_ok h c st a (hdr P a)"
    and f: "bump_idx (hdr P a) < block_count (hdr P a)"
  defines "P' \<equiv> upd_span a (\<lambda>s. s\<lparr>bump_idx := bump_idx s + 1, sp_used := sp_used s + 1\<rparr>) P"
    and "b \<equiv> a + SPAN_HEADER + bump_idx (hdr P a) * MemClassSizes ! c"
  shows "allocated P L b P' L" "memop_usable_size b P' = MemClassSizes ! c" "pool_spans P' = pool_spans P"
proof -
  have b: "b = span_block a (stride (hdr P a)) (bump_idx (hdr P a))"
    using span_okD(5) [OF ok] by (simp add: span_block_def b_def)
  show "allocated P L b P' L" "memop_usable_size b P' = MemClassSizes ! c" "pool_spans P' = pool_spans P"
    using alloc_update [OF inv a ok span_ok_bump [OF ok f]] by (simp_all add: P'_def upd_span_def b)
qed

section \<open>Draining and freeing within a span\<close>

lemma drain_links_same:
  "A \<inter> words_of (set bs) = {} \<Longrightarrow> same_at A m (snd (drain_links bs l m))"
proof (induction bs l m rule: drain_links.induct)
  case (2 b bs l m)
  then have "A \<inter> words_of (set bs) = {}" "A \<inter> {b..<b + 8} = {}" by auto
  then show ?case using "2.IH" same_at_write_ptr [of A b m "list_link l"] by (auto intro: same_at_trans)
qed simp

lemma span_blocks_all: "a \<in> pool_spans P \<Longrightarrow> b \<in> span_blocks a (hdr P a) \<Longrightarrow> b \<in> all_blocks P L"
  by (auto simp: all_blocks_def)

lemma extent_not_span_words:
  assumes inv: "pool_inv P L" and a: "a \<in> pool_spans P" and C: "C \<subseteq> span_blocks a (hdr P a)"
    and p: "p \<in> all_blocks P L" "p \<notin> C"
  shows "extent P p \<inter> words_of C = {}"
proof -
  have "extent P p \<inter> {b..<b + 8} = {}" if "b \<in> C" for b
  proof -
    have b: "b \<in> span_blocks a (hdr P a)" using C that by blast
    then have "b \<in> all_blocks P L" by (rule span_blocks_all [OF a])
    moreover have "{b..<b + 8} \<subseteq> extent P b" by (rule span_block_usable(4) [OF inv a b])
    moreover have "p \<noteq> b" using p(2) that by blast
    ultimately show ?thesis using extent_not_word [OF inv p(1)] by blast
  qed
  then show ?thesis unfolding words_of_def by blast
qed

lemma span_update_keeps:
  fixes m :: bytes
  assumes inv: "pool_inv P L" and a: "a \<in> pool_spans P"
    and s: "\<And>h c st. span_ok h c st a (hdr P a) \<Longrightarrow> span_ok h c st a s"
    and C: "C \<subseteq> span_blocks a (hdr P a)" "\<And>A. A \<inter> words_of C = {} \<Longrightarrow> same_at A (mem_bytes P) m"
    and B: "B \<subseteq> all_blocks P L" "B \<inter> C = {}"
  shows "keeps B P (P\<lparr>mem_bytes := m, hdr := (hdr P)(a := s)\<rparr>)"
  unfolding keeps_def
proof (intro ballI conjI)
  fix q assume q: "q \<in> B"
  show "memop_usable_size q (P\<lparr>mem_bytes := m, hdr := (hdr P)(a := s)\<rparr>) = memop_usable_size q P"
    by (rule span_update(5) [OF inv a s])
  have "extent P q \<inter> words_of C = {}"
    by (rule extent_not_span_words [OF inv a C(1)]) (use q B in auto)
  then show "same_at (extent P q) (mem_bytes P) (mem_bytes (P\<lparr>mem_bytes := m, hdr := (hdr P)(a := s)\<rparr>))"
    using C(2) by simp
qed

lemma drain_quiet:
  assumes inv: "pool_inv P L" and a: "a \<in> pool_spans P"
    and e: "span_drain_remote a P = (n, P')"
  shows "quiet P L P'" "pool_spans P' = pool_spans P" "hp P' = hp P"
    "sp_used (hdr P' a) = card (span_live a (hdr P' a))"
    "0 < n \<Longrightarrow> local_free (hdr P' a) \<noteq> []"
    "\<And>x. sp_state (hdr P' x) = sp_state (hdr P x) \<and> class_id (hdr P' x) = class_id (hdr P x)"
    "span_live a (hdr P' a) = span_live a (hdr P a)" "clk P' = clk P" "remote_free (hdr P' a) = []"
proof -
  let ?s = "hdr P a"
  obtain h c st where ok: "span_ok h c st a ?s" using pool_spans_ok [OF inv a] by blast
  let ?thesis_all = "quiet P L P' \<and> pool_spans P' = pool_spans P \<and> hp P' = hp P \<and>
    sp_used (hdr P' a) = card (span_live a (hdr P' a)) \<and> (0 < n \<longrightarrow> local_free (hdr P' a) \<noteq> []) \<and>
    (\<forall>x. sp_state (hdr P' x) = sp_state (hdr P x) \<and> class_id (hdr P' x) = class_id (hdr P x)) \<and>
    span_live a (hdr P' a) = span_live a (hdr P a) \<and> clk P' = clk P \<and> remote_free (hdr P' a) = []"
  have ?thesis_all
  proof (cases "remote_free ?s = []")
    case True
    then have "n = 0" "P' = P" using e by (simp_all add: span_drain_remote_def)
    with inv span_used_live [OF ok] True show ?thesis by (simp add: quiet_refl)
  next
    case False
    let ?s' = "?s\<lparr>remote_free := [], local_free := rev (remote_free ?s) @ local_free ?s,
        sp_used := sub_u32 (sp_used ?s) (length (remote_free ?s))\<rparr>"
    obtain m where l: "drain_links (remote_free ?s) (local_free ?s) (mem_bytes P) = (rev (remote_free ?s) @ local_free ?s, m)"
      using drain_links_list [of "remote_free ?s" "local_free ?s" "mem_bytes P"] by (metis prod.collapse)
    have P': "n = length (remote_free ?s)" "P' = P\<lparr>mem_bytes := m, hdr := (hdr P)(a := ?s')\<rparr>"
      using e False by (auto simp: span_drain_remote_def l Let_def)
    have s: "span_ok h' c' st' a ?s \<Longrightarrow> span_ok h' c' st' a ?s'" for h' c' st' by (rule span_ok_drain(1))
    note u = span_update [OF inv a s, where m = m, folded P'(2)]
    have bl: "blocks_live P' L = blocks_live P L"
      using u(4) live_of_span(1) [OF inv a] span_ok_drain(2) [OF ok] by simp
    have "keeps (blocks_live P L) P P'"
      unfolding P'(2)
    proof (rule span_update_keeps [OF inv a s, where C = "set (remote_free ?s)"])
      show "set (remote_free ?s) \<subseteq> span_blocks a ?s" using span_okD(10) [OF ok] by (auto simp: span_free_def)
      show "A \<inter> words_of (set (remote_free ?s)) = {} \<Longrightarrow> same_at A (mem_bytes P) m" for A
        using drain_links_same [of A "remote_free ?s" "mem_bytes P" "local_free ?s"] by (simp add: l)
      show "blocks_live P L \<subseteq> all_blocks P L" by (rule live_all_blocks)
      show "blocks_live P L \<inter> set (remote_free ?s) = {}"
      proof (rule ccontr)
        assume "\<not> ?thesis"
        then obtain p where p: "p \<in> blocks_live P L" "p \<in> span_free ?s" by (auto simp: span_free_def)
        then have "span_of p = a" using span_of_block [OF ok] span_okD(10) [OF ok] by blast
        then have "p \<in> span_live a ?s" using p(1) live_of_span(1) [OF inv a] by blast
        with p(2) show False by (simp add: span_live_def)
      qed
    qed
    then have "quiet P L P'" using u(1,3) bl by (simp add: quiet_def)
    then show ?thesis using u(2) span_ok_drain(2,3) [OF ok] False by (simp add: P'(2))
  qed
  then show "quiet P L P'" "pool_spans P' = pool_spans P" "hp P' = hp P"
    "sp_used (hdr P' a) = card (span_live a (hdr P' a))" "0 < n \<Longrightarrow> local_free (hdr P' a) \<noteq> []"
    "\<And>x. sp_state (hdr P' x) = sp_state (hdr P x) \<and> class_id (hdr P' x) = class_id (hdr P x)"
    "span_live a (hdr P' a) = span_live a (hdr P a)" "clk P' = clk P" "remote_free (hdr P' a) = []"
    by blast+
qed

section \<open>Moving a span between the lists of its heap\<close>

lemma span_move:
  assumes inv: "pool_inv P L" and h: "h \<in> set (heaps P)" and a: "a \<in> heap_set (hp P h)"
    and H: "heap_ok h H ((hdr P)(a := s))" "heap_set H = heap_set (hp P h)" "local_cache H = local_cache (hp P h)"
    and s: "class_id s = class_id (hdr P a)" "stride s = stride (hdr P a)" "span_live a s = span_live a (hdr P a)"
  defines "P' \<equiv> P\<lparr>hp := (hp P)(h := H), hdr := (hdr P)(a := s)\<rparr>"
  shows "quiet P L P'" "pool_spans P' = pool_spans P"
proof -
  have ap: "a \<in> pool_spans P" using h a by (auto simp: pool_spans_def spans_of_def)
  have anl: "a \<notin> L" using pool_spans_not_large [OF inv ap] .
  note l = lists_ok_upd [OF pool_invD(2) [OF inv] h H(1)]
  have l1: "lists_ok (set (heaps P)) ((hp P)(h := H)) ((hdr P)(a := s))" by (rule l) (use a in auto)
  have l2: "spans_of (set (heaps P)) ((hp P)(h := H)) = (spans_of (set (heaps P)) (hp P) - heap_set (hp P h)) \<union> heap_set H"
    by (rule l) (use a in auto)
  have "heap_set (hp P h) \<subseteq> spans_of (set (heaps P)) (hp P)" using h by (auto simp: spans_of_def)
  then show sp: "pool_spans P' = pool_spans P" using l2 H(2) by (auto simp: pool_spans_def P'_def)
  have lg: "large_ok ((hdr P)(a := s)) L = large_ok (hdr P) L"
    "large_chunks ((hdr P)(a := s)) L = large_chunks (hdr P) L"
    "large_regions ((hdr P)(a := s)) L = large_regions (hdr P) L"
    by (rule large_cong; use anl in auto)+
  have ca: "caches P' = caches P" using H(3) by (auto simp: caches_def P'_def)
  have sl: "same_life P P'" by (simp add: same_life_def P'_def)
  have "caches_inv P' (caches P) (pool_spans P \<union> large_chunks (hdr P) L) (large_regions (hdr P) L)"
    by (rule caches_inv_cong [OF pool_invD(4) [OF inv]]) (simp_all add: P'_def)
  then have inv': "pool_inv P' L"
    using pool_invD [OF inv] l1 life_ok_cong [OF _ sl ca]
    unfolding pool_inv_def sp ca by (simp add: P'_def lg)
  have "span_live x (hdr P' x) = span_live x (hdr P x)" for x using s(3) by (simp add: P'_def)
  then have "blocks_live P' L = blocks_live P L" by (simp add: blocks_live_def sp)
  moreover have "memop_usable_size q P' = memop_usable_size q P" for q
    by (rule usable_cong) (use s in \<open>auto simp: P'_def\<close>)
  ultimately show "quiet P L P'" using inv' sl by (simp add: quiet_def keeps_def P'_def)
qed

lemma span_ok_state:
  "span_ok h c st a s \<Longrightarrow> span_ok h c st' a (s\<lparr>sp_state := st'\<rparr>)" "span_live a (s\<lparr>sp_state := st'\<rparr>) = span_live a s"
  by (auto simp: span_ok_def span_free_def span_live_def span_blocks_def)

lemma heap_ok_upd_out: "heap_ok h H hm \<Longrightarrow> a \<notin> heap_set H \<Longrightarrow> heap_ok h H (hm(a := s))"
  by (erule heap_ok_cong) auto

lemma exhausted_to_full:
  assumes inv: "pool_inv P L" and h: "h \<in> set (heaps P)" and c: "c < MEMOP_CLASS_COUNT" and a: "a \<in> set (spans (hp P h) ! c)"
  defines "P' \<equiv> heap_full_push_tail h a (heap_list_unlink h c a P)"
  shows "quiet P L P'" "pool_spans P' = pool_spans P"
    "spans (hp P' h) ! c = remove1 a (spans (hp P h) ! c)" "clk P' = clk P"
proof -
  let ?H = "hp P h" and ?s = "hdr P a\<lparr>sp_state := SPAN_FULL\<rparr>"
  have ok: "heap_ok h ?H (hdr P)" using pool_invD(2) [OF inv] h by (simp add: lists_ok_def)
  let ?H1 = "?H\<lparr>spans := (spans ?H)[c := remove1 a (spans ?H ! c)]\<rparr>"
  let ?H2 = "?H1\<lparr>full_list := full_list ?H1 @ [a]\<rparr>"
  have P': "P' = P\<lparr>hp := (hp P)(h := ?H2), hdr := (hdr P)(a := ?s)\<rparr>"
    by (simp add: P'_def heap_full_push_tail_def heap_list_unlink_def upd_heap_def upd_span_def)
  note u = heap_unlink_class [OF ok c a]
  have ok1: "heap_ok h ?H1 ((hdr P)(a := ?s))" by (rule heap_ok_upd_out [OF u(1)]) (simp add: u(2))
  have sa: "span_ok h c SPAN_FULL a (((hdr P)(a := ?s)) a)"
    using span_ok_state(1) [OF heap_ok_class [OF ok c a]] by simp
  note i = heap_insert_full [OF ok1 _ sa]
  have nin: "a \<notin> heap_set ?H1" by (simp add: u(2))
  have hs: "heap_set ?H2 = heap_set ?H" using i(2) [OF nin] u(2) heap_set_class [OF c a] by auto
  note m = span_move [OF inv h heap_set_class [OF c a] i(1) [OF nin] hs, of, folded P']
  show "quiet P L P'" by (rule m) (simp_all add: span_ok_state)
  show "pool_spans P' = pool_spans P" by (rule m) (simp_all add: span_ok_state)
  have "c < length (spans ?H)" using ok c by (simp add: heap_ok_def)
  then show "spans (hp P' h) ! c = remove1 a (spans (hp P h) ! c)" "clk P' = clk P" by (simp_all add: P')
qed

lemma full_to_class:
  assumes inv: "pool_inv P L" and h: "h \<in> set (heaps P)" and a: "a \<in> set (full_list (hp P h))"
  defines "c \<equiv> class_id (hdr P a)"
  defines "P' \<equiv> heap_list_insert_head h c a (heap_full_unlink h a P)"
  shows "quiet P L P'" "pool_spans P' = pool_spans P" "spans (hp P' h) ! c = a # spans (hp P h) ! c"
    "c < MEMOP_CLASS_COUNT" "clk P' = clk P" "hdr P' a = hdr P a\<lparr>sp_state := SPAN_AVAILABLE\<rparr>"
proof -
  let ?H = "hp P h" and ?s = "hdr P a\<lparr>sp_state := SPAN_AVAILABLE\<rparr>"
  have ok: "heap_ok h ?H (hdr P)" using pool_invD(2) [OF inv] h by (simp add: lists_ok_def)
  let ?H1 = "?H\<lparr>full_list := remove1 a (full_list ?H)\<rparr>"
  let ?H2 = "?H1\<lparr>spans := (spans ?H1)[c := a # spans ?H1 ! c]\<rparr>"
  have P': "P' = P\<lparr>hp := (hp P)(h := ?H2), hdr := (hdr P)(a := ?s)\<rparr>"
    by (simp add: P'_def heap_full_unlink_def heap_list_insert_head_def upd_heap_def upd_span_def)
  note u = heap_unlink_full [OF ok a]
  have so: "span_ok h c SPAN_FULL a (hdr P a)" unfolding c_def by (rule heap_ok_full [OF ok a])
  show c: "c < MEMOP_CLASS_COUNT" by (rule span_okD(3) [OF so])
  have ok1: "heap_ok h ?H1 ((hdr P)(a := ?s))" by (rule heap_ok_upd_out [OF u(1)]) (simp add: u(2))
  have sa: "span_ok h c SPAN_AVAILABLE a (((hdr P)(a := ?s)) a)" using span_ok_state(1) [OF so] by simp
  have nin: "a \<notin> heap_set ?H1" by (simp add: u(2))
  note i = heap_insert_class [OF ok1 c nin sa]
  have hs: "heap_set ?H2 = heap_set ?H" using i(2) u(2) heap_set_full [OF a] by auto
  note m = span_move [OF inv h heap_set_full [OF a] i(1) hs, of, folded P']
  show "quiet P L P'" by (rule m) (simp_all add: span_ok_state)
  show "pool_spans P' = pool_spans P" by (rule m) (simp_all add: span_ok_state)
  have "c < length (spans ?H)" using ok c by (simp add: heap_ok_def)
  then show "spans (hp P' h) ! c = a # spans (hp P h) ! c" "clk P' = clk P" "hdr P' a = ?s"
    by (simp_all add: P')
qed

lemma full_rotate:
  assumes inv: "pool_inv P L" and h: "h \<in> set (heaps P)" and a: "a \<in> set (full_list (hp P h))"
  defines "P' \<equiv> heap_full_push_tail h a (heap_full_unlink h a P)"
  shows "quiet P L P'" "pool_spans P' = pool_spans P" "clk P' = clk P"
proof -
  let ?H = "hp P h" and ?s = "hdr P a\<lparr>sp_state := SPAN_FULL\<rparr>"
  have ok: "heap_ok h ?H (hdr P)" using pool_invD(2) [OF inv] h by (simp add: lists_ok_def)
  let ?H1 = "?H\<lparr>full_list := remove1 a (full_list ?H)\<rparr>"
  let ?H2 = "?H1\<lparr>full_list := full_list ?H1 @ [a]\<rparr>"
  have P': "P' = P\<lparr>hp := (hp P)(h := ?H2), hdr := (hdr P)(a := ?s)\<rparr>"
    by (simp add: P'_def heap_full_unlink_def heap_full_push_tail_def upd_heap_def upd_span_def)
  note u = heap_unlink_full [OF ok a]
  have so: "span_ok h (class_id (hdr P a)) SPAN_FULL a (hdr P a)" by (rule heap_ok_full [OF ok a])
  have ok1: "heap_ok h ?H1 ((hdr P)(a := ?s))" by (rule heap_ok_upd_out [OF u(1)]) (simp add: u(2))
  have sa: "span_ok h (class_id (hdr P a)) SPAN_FULL a (((hdr P)(a := ?s)) a)" using span_ok_state(1) [OF so] by simp
  have nin: "a \<notin> heap_set ?H1" by (simp add: u(2))
  note i = heap_insert_full [OF ok1 nin sa]
  have hs: "heap_set ?H2 = heap_set ?H" using i(2) u(2) heap_set_full [OF a] by auto
  note m = span_move [OF inv h heap_set_full [OF a] i(1) hs, of, folded P']
  show "quiet P L P'" by (rule m) (simp_all add: span_ok_state)
  show "pool_spans P' = pool_spans P" by (rule m) (simp_all add: span_ok_state)
  show "clk P' = clk P" by (simp add: P')
qed

section \<open>Chunks and the pool\<close>

lemma more_fields:
  fixes P P' :: MemPool
  assumes "ChunkPool.more P' = ChunkPool.more P"
  shows "heaps P' = heaps P" "hp P' = hp P" "next_id P' = next_id P" "hdr P' = hdr P" "tls P' = tls P"
    "init_state P' = init_state P" "tables P' = tables P" "sites P' = sites P" "error_events P' = error_events P"
    "g_error_handler P' = g_error_handler P"
  using assms by (cases P; cases P'; simp)+

lemma heap_more_fields:
  fixes H H' :: MemHeap
  assumes "HeapCache.more H' = HeapCache.more H"
  shows "spans H' = spans H" "full_list H' = full_list H"
  using assms by (cases H; cases H'; simp)+

text \<open>What a step of the chunk layer on behalf of heap \<open>h\<close> leaves alone.\<close>

definition chunk_step :: "nat \<Rightarrow> MemPool \<Rightarrow> MemPool \<Rightarrow> bool" where
  "chunk_step h P P' \<longleftrightarrow> same_life P P' \<and> hdr P' = hdr P \<and> clk P' = clk P \<and>
     (\<forall>h'. spans (hp P' h') = spans (hp P h') \<and> full_list (hp P' h') = full_list (hp P h')) \<and>
     (\<forall>h'. h' \<noteq> h \<longrightarrow> hp P' h' = hp P h')"

lemma chunk_step_lists:
  assumes inv: "pool_inv P L" and st: "chunk_step h P P'" and h: "h \<in> set (heaps P)"
  shows "lists_ok (set (heaps P')) (hp P') (hdr P')" "pool_spans P' = pool_spans P" "life_ok P'"
proof -
  have hs: "heaps P' = heaps P" using st by (simp add: chunk_step_def same_life_def)
  note l = lists_ok_same_lists [OF pool_invD(2) [OF inv], of "hp P'"]
  show "lists_ok (set (heaps P')) (hp P') (hdr P')" using l(1) st by (simp add: hs chunk_step_def)
  show "pool_spans P' = pool_spans P" using l(2) st by (simp add: hs chunk_step_def pool_spans_def)
  have "local_cache (hp P' h') = []" if "h' \<notin> set (heaps P)" for h'
  proof -
    have "h' \<noteq> h" using that h by blast
    then have "hp P' h' = hp P h'" using st by (simp add: chunk_step_def)
    then show ?thesis using pool_invD(1) [OF inv] that by (simp add: life_ok_def)
  qed
  then show "life_ok P'"
  proof -
    assume lc: "\<And>h'. h' \<notin> set (heaps P) \<Longrightarrow> local_cache (hp P' h') = []"
    have eqs: "heaps P' = heaps P" "tls P' = tls P" "next_id P' = next_id P" "init_state P' = init_state P" "tables P' = tables P"
      using st by (simp_all add: chunk_step_def same_life_def)
    have l: "life_ok P" by (rule pool_invD(1) [OF inv])
    show "life_ok P'" unfolding life_ok_def eqs using l [unfolded life_ok_def] lc by blast
  qed
qed

lemma heap_chunk_acquire_ok:
  assumes inv: "pool_inv P L" and law: "mmap_law (env_mmap E)" and h: "h \<in> set (heaps P)"
    and e: "heap_chunk_acquire E h P = (r, P')"
  shows "chunk_step h P P'" "mem_bytes P' = mem_bytes P" "r = None \<Longrightarrow> P' = P"
    "r = Some m \<Longrightarrow> m \<notin> pool_spans P \<union> L \<and>
      caches_inv P' (caches P') (insert m (pool_spans P \<union> large_chunks (hdr P) L)) (large_regions (hdr P) L)"
proof -
  obtain r0 ho P0 where a: "chunk_acquire (env_mmap E) (Some (hp P h)) P = (r0, ho, P0)" by (metis prod_cases3)
  have lc: "caches P h = local_cache (hp P h)" by (simp add: caches_def)
  obtain H where H: "ho = Some H" "HeapCache.more H = HeapCache.more (hp P h)" "pool_frame P P0"
    "mem_bytes P0 = mem_bytes P" "r0 = None \<Longrightarrow> P0 = P \<and> H = hp P h"
    "\<And>m. r0 = Some m \<Longrightarrow> m \<notin> pool_spans P \<union> large_chunks (hdr P) L \<and>
      caches_inv P0 ((caches P)(h := local_cache H)) (insert m (pool_spans P \<union> large_chunks (hdr P) L)) (large_regions (hdr P) L)"
    using chunk_acquire_ok [OF pool_invD(4) [OF inv] law lc a] by metis
  have P': "r = r0" "P' = P0\<lparr>hp := (hp P0)(h := H)\<rparr>" using e by (simp_all add: heap_chunk_acquire_def a H(1))
  have m: "ChunkPool.more P0 = ChunkPool.more P" "clk P0 = clk P" using H(3) by (auto simp: pool_frame_def)
  note mf = more_fields [OF m(1)] and hf = heap_more_fields [OF H(2)]
  show "chunk_step h P P'" using mf hf m(2) by (simp add: chunk_step_def same_life_def P')
  show "mem_bytes P' = mem_bytes P" using H(4) by (simp add: P')
  show "r = None \<Longrightarrow> P' = P" using H(5) mf by (simp add: P')
  assume r: "r = Some m"
  have ca: "caches P' = (caches P)(h := local_cache H)" using mf by (auto simp: caches_def P')
  have ci: "caches_inv P' (caches P') (insert m (pool_spans P \<union> large_chunks (hdr P) L)) (large_regions (hdr P) L)"
    unfolding ca by (rule caches_inv_cong [of P0]) (use H(6) r P'(1) in \<open>auto simp: P'(2)\<close>)
  have "m \<notin> L"
  proof
    assume l: "m \<in> L"
    have "m \<notin> large_chunks (hdr P) L" using H(6) r P'(1) by blast
    then have lr: "(m, block_count (hdr P m) * SPAN_SIZE) \<in> large_regions (hdr P) L" and "1 \<le> block_count (hdr P m)"
      using l pool_invD(3) [OF inv] by (auto simp: large_chunks_def large_regions_def large_ok_def)
    moreover have "region m SPAN_SIZE \<inter> region m (block_count (hdr P m) * SPAN_SIZE) = {}"
      using caches_inv_chunk(4) [OF ci _ lr] by blast
    ultimately show False by (simp add: region_def)
  qed
  then show "m \<notin> pool_spans P \<union> L \<and>
      caches_inv P' (caches P') (insert m (pool_spans P \<union> large_chunks (hdr P) L)) (large_regions (hdr P) L)"
    using H(6) r P'(1) ci by blast
qed

lemma new_span_ok:
  assumes "c < MEMOP_CLASS_COUNT" "a mod SPAN_SIZE = 0"
  shows "span_ok h c SPAN_AVAILABLE a
    \<lparr>sp_owner = Some h, local_free = [], remote_free = [], class_id = c, stride = MemClassSizes ! c,
     block_count = (SPAN_SIZE - SPAN_HEADER) div MemClassSizes ! c, sp_used = 0, bump_idx = 0, sp_state = SPAN_AVAILABLE\<rparr>"
  using assms by (simp add: span_ok_def span_free_def)

lemma span_created:
  assumes inv: "pool_inv P L" and law: "mmap_law (env_mmap E)" and h: "h \<in> set (heaps P)" and c: "c < MEMOP_CLASS_COUNT"
    and e: "span_create E h c P = (r, P1)"
  shows "r = None \<Longrightarrow> P1 = P"
    "r = Some a \<Longrightarrow> quiet P L (heap_list_insert_head h c a P1) \<and>
      a \<in> pool_spans (heap_list_insert_head h c a P1) \<and>
      span_ok h c SPAN_AVAILABLE a (hdr (heap_list_insert_head h c a P1) a) \<and>
      bump_idx (hdr (heap_list_insert_head h c a P1) a) = 0 \<and>
      spans (hp (heap_list_insert_head h c a P1) h) ! c = a # spans (hp P h) ! c"
proof -
  obtain r0 P0 where q: "heap_chunk_acquire E h P = (r0, P0)" by force
  note k = heap_chunk_acquire_ok [OF inv law h q]
  show "r = None \<Longrightarrow> P1 = P" using e k(3) by (auto simp: span_create_def q Let_def split: option.splits)
  assume r: "r = Some a"
  define P3 where "P3 = heap_list_insert_head h c a P1"
  define s where "s = \<lparr>sp_owner = Some h, local_free = [], remote_free = [], class_id = c, stride = MemClassSizes ! c,
     block_count = (SPAN_SIZE - SPAN_HEADER) div MemClassSizes ! c, sp_used = 0, bump_idx = 0, sp_state = SPAN_AVAILABLE\<rparr>"
  have "heaps P \<noteq> []" using h by auto
  then have tb: "tables P = memop_build_size2class" using pool_invD(1) [OF inv] by (simp add: life_ok_def)
  have r0: "r0 = Some a" using e r by (auto simp: span_create_def q Let_def split: option.splits)
  then have P1: "P1 = P0\<lparr>sites := memop_site_record a (clk P0) (sites P0), hdr := (hdr P0)(a := s)\<rparr>"
    using e r by (simp add: span_create_def q tb class_stride_eq Let_def s_def)
  have new: "a \<notin> pool_spans P" "a \<notin> L"
    and ci: "caches_inv P0 (caches P0) (insert a (pool_spans P \<union> large_chunks (hdr P) L)) (large_regions (hdr P) L)"
    using k(4) r0 by blast+
  have am: "a mod SPAN_SIZE = 0" using caches_inv_chunk(1) [OF ci] by blast
  have so: "span_ok h c SPAN_AVAILABLE a s" unfolding s_def by (rule new_span_ok [OF c am])
  have sz: "span_live a s = {}" "bump_idx s = 0" by (simp_all add: s_def span_live_def span_blocks_def)
  note st = chunk_step_lists [OF inv k(1) h]
  have eqs: "heaps P0 = heaps P" "hdr P0 = hdr P" "spans (hp P0 h) = spans (hp P h)" "full_list (hp P0 h) = full_list (hp P h)"
    using k(1) by (simp_all add: chunk_step_def same_life_def)
  let ?H = "hp P0 h" and ?H' = "(hp P0 h)\<lparr>spans := (spans (hp P0 h))[c := a # spans (hp P0 h) ! c]\<rparr>"
  have P3: "P3 = P0\<lparr>sites := memop_site_record a (clk P0) (sites P0), hdr := (hdr P0)(a := s),
      hp := (hp P0)(h := ?H')\<rparr>"
    by (simp add: P3_def heap_list_insert_head_def upd_heap_def P1)
  have hsub: "heap_set ?H \<subseteq> pool_spans P" using h heap_set_cong [OF eqs(3,4)] by (auto simp: pool_spans_def spans_of_def)
  have nin: "a \<notin> heap_set ?H" using new(1) hsub by blast
  have hok: "heap_ok h ?H ((hdr P0)(a := s))"
    by (rule heap_ok_upd_out [OF _ nin]) (use st(1) h eqs in \<open>auto simp: lists_ok_def\<close>)
  have sa: "span_ok h c SPAN_AVAILABLE a (((hdr P0)(a := s)) a)" using so by simp
  note i = heap_insert_class [OF hok c nin sa]
  have hh: "h \<in> set (heaps P0)" using h eqs by simp
  have oth: "((hdr P0)(a := s)) x = hdr P0 x" if "x \<in> spans_of (set (heaps P0)) (hp P0)" for x
    using that new(1) st(2) by (auto simp: pool_spans_def)
  note l = lists_ok_upd [OF st(1) hh i(1)]
  have l1: "lists_ok (set (heaps P0)) ((hp P0)(h := ?H')) ((hdr P0)(a := s))" by (rule l) (use oth in blast)
  have l2: "spans_of (set (heaps P0)) ((hp P0)(h := ?H')) = (spans_of (set (heaps P0)) (hp P0) - heap_set ?H) \<union> heap_set ?H'"
    by (rule l) (use oth in blast)
  have "heap_set ?H \<subseteq> spans_of (set (heaps P0)) (hp P0)" using hh by (auto simp: spans_of_def)
  then have sp: "pool_spans P3 = insert a (pool_spans P)"
    using l2 i(2) st(2) by (auto simp: pool_spans_def P3)
  have lg: "large_ok ((hdr P0)(a := s)) L = large_ok (hdr P) L"
    "large_chunks ((hdr P0)(a := s)) L = large_chunks (hdr P) L"
    "large_regions ((hdr P0)(a := s)) L = large_regions (hdr P) L"
    by (rule large_cong; use new(2) eqs in auto)+
  have ca: "caches P3 = caches P0" by (auto simp: caches_def P3)
  have sl: "same_life P0 P3" by (simp add: same_life_def P3)
  have sl': "same_life P P3" using k(1) sl by (auto simp: chunk_step_def intro: same_life_trans)
  have "caches_inv P3 (caches P0) (insert a (pool_spans P \<union> large_chunks (hdr P) L)) (large_regions (hdr P) L)"
    by (rule caches_inv_cong [OF ci]) (simp_all add: P3)
  then have inv': "pool_inv P3 L"
    using pool_invD(3) [OF inv] l1 life_ok_cong [OF st(3) sl ca]
    unfolding pool_inv_def sp ca by (simp add: P3 lg)
  have "span_live x (hdr P3 x) = span_live x (hdr P x)" if "x \<in> pool_spans P" for x
    using that new(1) eqs by (auto simp: P3)
  moreover have "span_live a (hdr P3 a) = {}" by (simp add: P3 sz)
  ultimately have bl: "blocks_live P3 L = blocks_live P L" by (simp add: blocks_live_def sp)
  have "keeps (blocks_live P L) P P3"
    unfolding keeps_def
  proof (intro ballI conjI)
    fix q assume q: "q \<in> blocks_live P L"
    then have "span_of q \<in> pool_spans P \<union> L" using block_home(1) [OF inv] live_all_blocks by blast
    then have "span_of q \<noteq> a" using new by blast
    then show "memop_usable_size q P3 = memop_usable_size q P"
      using sl' eqs by (intro usable_cong) (auto simp: same_life_def P3)
    show "same_at (extent P q) (mem_bytes P) (mem_bytes P3)" using k(2) by (simp add: P3)
  qed
  moreover have "c < length (spans (hp P0 h))" using hok c by (simp add: heap_ok_def)
  ultimately have "quiet P L P3 \<and> a \<in> pool_spans P3 \<and> span_ok h c SPAN_AVAILABLE a (hdr P3 a) \<and>
      bump_idx (hdr P3 a) = 0 \<and> spans (hp P3 h) ! c = a # spans (hp P h) ! c"
    using inv' bl sl' sp so eqs sz by (simp add: quiet_def P3)
  then show "quiet P L (heap_list_insert_head h c a P1) \<and>
      a \<in> pool_spans (heap_list_insert_head h c a P1) \<and>
      span_ok h c SPAN_AVAILABLE a (hdr (heap_list_insert_head h c a P1) a) \<and>
      bump_idx (hdr (heap_list_insert_head h c a P1) a) = 0 \<and>
      spans (hp (heap_list_insert_head h c a P1) h) ! c = a # spans (hp P h) ! c" by (simp only: P3_def)
qed

section \<open>Refill\<close>

text \<open>A block found by a scan, taken from its span but not yet counted in \<open>used\<close>; the span
  heads its class list.\<close>

definition found :: "MemPool \<Rightarrow> addr set \<Rightarrow> nat \<Rightarrow> nat \<Rightarrow> addr \<Rightarrow> addr \<Rightarrow> MemPool \<Rightarrow> bool" where
  "found P L h c a b P1 \<longleftrightarrow> (\<exists>P0. quiet P L P0 \<and> a \<in> pool_spans P0 \<and> span_ok h c SPAN_AVAILABLE a (hdr P0 a) \<and>
     (\<exists>as. spans (hp P0 h) ! c = a # as) \<and>
     ((\<exists>rest. local_free (hdr P0 a) = b # rest \<and> P1 = upd_span a (\<lambda>s. s\<lparr>local_free := rest\<rparr>) P0) \<or>
      (bump_idx (hdr P0 a) < block_count (hdr P0 a) \<and> b = a + SPAN_HEADER + bump_idx (hdr P0 a) * MemClassSizes ! c \<and>
       P1 = upd_span a (\<lambda>s. s\<lparr>bump_idx := bump_idx s + 1\<rparr>) P0)))"

lemma quiet_found: "quiet P L P1 \<Longrightarrow> found P1 L h c a b P2 \<Longrightarrow> found P L h c a b P2"
  unfolding found_def using quiet_trans by blast

lemma quiet_inv: "quiet P L P1 \<Longrightarrow> pool_inv P1 L" "quiet P L P1 \<Longrightarrow> same_life P P1"
  by (simp_all add: quiet_def)

lemma found_got:
  assumes "found P L h c a b P1"
  shows "allocated P L b (refill_got h c a P1) L" "memop_usable_size b (refill_got h c a P1) = MemClassSizes ! c"
proof -
  obtain P0 as where q: "quiet P L P0" "a \<in> pool_spans P0" "span_ok h c SPAN_AVAILABLE a (hdr P0 a)"
    "spans (hp P0 h) ! c = a # as"
    and k: "(\<exists>rest. local_free (hdr P0 a) = b # rest \<and> P1 = upd_span a (\<lambda>s. s\<lparr>local_free := rest\<rparr>) P0) \<or>
      (bump_idx (hdr P0 a) < block_count (hdr P0 a) \<and> b = a + SPAN_HEADER + bump_idx (hdr P0 a) * MemClassSizes ! c \<and>
       P1 = upd_span a (\<lambda>s. s\<lparr>bump_idx := bump_idx s + 1\<rparr>) P0)"
    using assms unfolding found_def by blast
  have inv: "pool_inv P0 L" using q(1) by (rule quiet_inv)
  have "allocated P0 L b (refill_got h c a P1) L \<and> memop_usable_size b (refill_got h c a P1) = MemClassSizes ! c"
    using k
  proof (elim disjE exE conjE)
    fix rest assume l: "local_free (hdr P0 a) = b # rest" "P1 = upd_span a (\<lambda>s. s\<lparr>local_free := rest\<rparr>) P0"
    have "refill_got h c a P1 = upd_span a (\<lambda>s. s\<lparr>local_free := rest, sp_used := sp_used s + 1\<rparr>) P0"
      using q(4) by (simp add: refill_got_def l(2) upd_span_def list_link_def)
    with alloc_take(1,2) [OF inv q(2,3) l(1)] show ?thesis by simp
  next
    assume l: "bump_idx (hdr P0 a) < block_count (hdr P0 a)" "b = a + SPAN_HEADER + bump_idx (hdr P0 a) * MemClassSizes ! c"
      "P1 = upd_span a (\<lambda>s. s\<lparr>bump_idx := bump_idx s + 1\<rparr>) P0"
    have "refill_got h c a P1 = upd_span a (\<lambda>s. s\<lparr>bump_idx := bump_idx s + 1, sp_used := sp_used s + 1\<rparr>) P0"
      using q(4) by (simp add: refill_got_def l(3) upd_span_def list_link_def)
    with alloc_bump(1,2) [OF inv q(2,3) l(1)] l(2) show ?thesis by simp
  qed
  then show "allocated P L b (refill_got h c a P1) L" "memop_usable_size b (refill_got h c a P1) = MemClassSizes ! c"
    using quiet_allocated [OF q(1)] by blast+
qed

lemma pool_class_stride:
  "pool_inv P L \<Longrightarrow> h \<in> set (heaps P) \<Longrightarrow> g_class_stride (tables P) = MemClassSizes"
  using pool_invD(1) [of P L] class_stride_eq by (auto simp: life_ok_def)

lemma pool_heap_ok: "pool_inv P L \<Longrightarrow> h \<in> set (heaps P) \<Longrightarrow> heap_ok h (hp P h) (hdr P)"
  using pool_invD(2) by (simp add: lists_ok_def)

lemma pool_spans_heap: "h \<in> set (heaps P) \<Longrightarrow> a \<in> heap_set (hp P h) \<Longrightarrow> a \<in> pool_spans P"
  by (auto simp: pool_spans_def spans_of_def)

lemma same_life_heaps: "same_life P P' \<Longrightarrow> heaps P' = heaps P"
  by (simp add: same_life_def)

definition scan_result :: "MemPool \<Rightarrow> addr set \<Rightarrow> nat \<Rightarrow> nat \<Rightarrow> (addr \<times> addr) option \<Rightarrow> MemPool \<Rightarrow> bool" where
  "scan_result P L h c r P' \<longleftrightarrow> (case r of None \<Rightarrow> quiet P L P' | Some (a, b) \<Rightarrow> found P L h c a b P')"

lemma quiet_scan_result: "quiet P L P1 \<Longrightarrow> scan_result P1 L h c r P2 \<Longrightarrow> scan_result P L h c r P2"
  by (auto simp: scan_result_def intro: quiet_trans quiet_found split: option.splits)

lemma refill_scan_ok:
  "pool_inv P L \<Longrightarrow> h \<in> set (heaps P) \<Longrightarrow> c < MEMOP_CLASS_COUNT \<Longrightarrow> spans (hp P h) ! c = as \<Longrightarrow>
    refill_scan h c as P = (r, P') \<Longrightarrow> scan_result P L h c r P'"
proof (induction as arbitrary: P)
  case Nil
  then show ?case by (simp add: scan_result_def quiet_refl)
next
  case (Cons a as)
  let ?s = "hdr P a"
  have ain: "a \<in> set (spans (hp P h) ! c)" using Cons.prems(4) by simp
  have ap: "a \<in> pool_spans P"
    using pool_spans_heap [OF Cons.prems(2) heap_set_class [OF Cons.prems(3) ain]] .
  have ok: "span_ok h c SPAN_AVAILABLE a ?s"
    by (rule heap_ok_class [OF pool_heap_ok [OF Cons.prems(1,2)] Cons.prems(3) ain])
  note str = pool_class_stride [OF Cons.prems(1,2)]
  show ?case
  proof (cases "local_free ?s")
    case (Cons b rest)
    then have "r = Some (a, b)" "P' = upd_span a (\<lambda>s. s\<lparr>local_free := rest\<rparr>) P"
      using Cons.prems(5) by (simp_all add: span_take_def Let_def)
    then show ?thesis
      using quiet_refl [OF Cons.prems(1)] ap ok Cons Cons.prems(4)
      unfolding scan_result_def found_def by simp blast
  next
    case Nil
    show ?thesis
    proof (cases "bump_idx ?s < block_count ?s")
      case True
      then have "r = Some (a, a + SPAN_HEADER + bump_idx ?s * MemClassSizes ! c)"
        "P' = upd_span a (\<lambda>s. s\<lparr>bump_idx := bump_idx s + 1\<rparr>) P"
        using Cons.prems(5) Nil str by (simp_all add: Let_def)
      then show ?thesis
        using quiet_refl [OF Cons.prems(1)] ap ok True Cons.prems(4)
        unfolding scan_result_def found_def by simp blast
    next
      case False
      obtain n P1 where d: "span_drain_remote a P = (n, P1)" by force
      note q = drain_quiet [OF Cons.prems(1) ap d]
      have inv1: "pool_inv P1 L" and hs1: "heaps P1 = heaps P"
        using quiet_inv [OF q(1)] same_life_heaps by auto
      have sp1: "spans (hp P1 h) ! c = a # as" using q(3) Cons.prems(4) by simp
      show ?thesis
      proof (cases "0 < n")
        case True
        then obtain b rest where l: "local_free (hdr P1 a) = b # rest" using q(5) by (cases "local_free (hdr P1 a)") auto
        have "r = Some (a, b)" "P' = upd_span a (\<lambda>s. s\<lparr>local_free := rest\<rparr>) P1"
          using Cons.prems(5) Nil False True by (simp_all add: Let_def d span_take_def l)
        moreover have "span_ok h c SPAN_AVAILABLE a (hdr P1 a)"
          using heap_ok_class [OF pool_heap_ok [OF inv1] Cons.prems(3)] Cons.prems(2) hs1 sp1 by simp
        ultimately show ?thesis
          using q(1,2) ap l sp1 unfolding scan_result_def found_def by simp blast
      next
        case z: False
        let ?P2 = "heap_full_push_tail h a (heap_list_unlink h c a P1)"
        have h1: "h \<in> set (heaps P1)" using Cons.prems(2) hs1 by simp
        have a1: "a \<in> set (spans (hp P1 h) ! c)" using sp1 by simp
        note f = exhausted_to_full [OF inv1 h1 Cons.prems(3) a1]
        have "refill_scan h c as ?P2 = (r, P')"
          using Cons.prems(5) Nil False z by (simp add: Let_def d)
        moreover have "pool_inv ?P2 L" "h \<in> set (heaps ?P2)"
          using quiet_inv [OF f(1)] same_life_heaps h1 by auto
        moreover have "spans (hp ?P2 h) ! c = as" using f(3) sp1 by simp
        ultimately have "scan_result ?P2 L h c r P'" using Cons.IH Cons.prems(3) by blast
        then show ?thesis using quiet_scan_result quiet_trans [OF q(1) f(1)] by blast
      qed
    qed
  qed
qed

lemma full_scan_ok:
  "pool_inv P L \<Longrightarrow> h \<in> set (heaps P) \<Longrightarrow> c < MEMOP_CLASS_COUNT \<Longrightarrow>
    full_scan h c k start P = (r, P') \<Longrightarrow> scan_result P L h c r P'"
proof (induction k arbitrary: P start)
  case 0
  then show ?case by (simp add: scan_result_def quiet_refl)
next
  case (Suc k)
  show ?case
  proof (cases "full_list (hp P h)")
    case Nil
    with Suc.prems show ?thesis by (simp add: scan_result_def quiet_refl)
  next
    case (Cons a rest)
    show ?thesis
    proof (cases "start = Some a")
      case True
      with Suc.prems Cons show ?thesis by (simp add: scan_result_def quiet_refl)
    next
      case ns: False
      have afull: "a \<in> set (full_list (hp P h))" using Cons by simp
      have ap: "a \<in> pool_spans P" using pool_spans_heap [OF Suc.prems(2) heap_set_full [OF afull]] .
      obtain n P1 where d: "span_drain_remote a P = (n, P1)" by force
      note q = drain_quiet [OF Suc.prems(1) ap d]
      have inv1: "pool_inv P1 L" and hs1: "heaps P1 = heaps P"
        using quiet_inv [OF q(1)] same_life_heaps by auto
      have h1: "h \<in> set (heaps P1)" using Suc.prems(2) hs1 by simp
      have a1: "a \<in> set (full_list (hp P1 h))" using afull q(3) by simp
      define start' where "start' = (if start = None then Some a else start)"
      show ?thesis
      proof (cases "0 < n")
        case True
        let ?c = "class_id (hdr P1 a)"
        define P2 where "P2 = heap_list_insert_head h ?c a (heap_full_unlink h a P1)"
        note f = full_to_class [OF inv1 h1 a1, folded P2_def]
        have inv2: "pool_inv P2 L" and h2: "h \<in> set (heaps P2)"
          using quiet_inv [OF f(1)] same_life_heaps h1 by auto
        have q2: "quiet P L P2" by (rule quiet_trans [OF q(1) f(1)])
        have c2: "class_id (hdr P2 a) = ?c" using f(6) by simp
        have step: "full_scan h c (Suc k) start P = (if class_id (hdr P2 a) = c then span_take a P2 else full_scan h c k start' P2)"
          using Cons ns \<open>0 < n\<close> by (simp add: Let_def d P2_def start'_def)
        show ?thesis
        proof (cases "?c = c")
          case True
          obtain b rst where l: "local_free (hdr P1 a) = b # rst" using q(5) \<open>0 < n\<close> by (cases "local_free (hdr P1 a)") auto
          then have l2: "local_free (hdr P2 a) = b # rst" using f(6) by simp
          have "r = Some (a, b)" "P' = upd_span a (\<lambda>s. s\<lparr>local_free := rst\<rparr>) P2"
            using Suc.prems(4) True c2 unfolding step by (simp_all add: span_take_def l2)
          moreover have "a \<in> pool_spans P2" using f(2) q(2) ap by simp
          moreover have "span_ok h c SPAN_AVAILABLE a (hdr P2 a)"
            using heap_ok_class [OF pool_heap_ok [OF inv2 h2] Suc.prems(3)] f(3) True by simp
          moreover have "spans (hp P2 h) ! c = a # spans (hp P1 h) ! c" using f(3) True by simp
          ultimately show ?thesis using q2 l2 unfolding scan_result_def found_def by simp blast
        next
          case False
          then have "full_scan h c k start' P2 = (r, P')"
            using Suc.prems(4) c2 unfolding step by simp
          then show ?thesis using Suc.IH [OF inv2 h2 Suc.prems(3)] quiet_scan_result [OF q2] by blast
        qed
      next
        case z: False
        define P2 where "P2 = (if last (full_list (hp P1 h)) \<noteq> a then heap_full_push_tail h a (heap_full_unlink h a P1) else P1)"
        have q2: "quiet P1 L P2"
          using full_rotate(1) [OF inv1 h1 a1] quiet_refl [OF inv1] by (simp add: P2_def)
        then have inv2: "pool_inv P2 L" and h2: "h \<in> set (heaps P2)"
          using quiet_inv [OF q2] same_life_heaps h1 by auto
        have "full_scan h c k start' P2 = (r, P')"
          using Suc.prems(4) Cons ns z by (simp add: Let_def d P2_def start'_def)
        then show ?thesis
          using Suc.IH [OF inv2 h2 Suc.prems(3)] quiet_scan_result [OF quiet_trans [OF q(1) q2]] by blast
      qed
    qed
  qed
qed

section \<open>Allocation\<close>

definition max_request :: nat where
  "max_request = 4294901760"

definition alloc_result :: "MemPool \<Rightarrow> addr set \<Rightarrow> nat \<Rightarrow> addr option \<Rightarrow> MemPool \<Rightarrow> addr set \<Rightarrow> bool" where
  "alloc_result P L sz r P' L' \<longleftrightarrow> (case r of
     None \<Rightarrow> L' = L \<and> quiet P L P'
   | Some b \<Rightarrow> allocated P L b P' L' \<and> sz \<le> memop_usable_size b P')"

lemma quiet_alloc_result: "quiet P L P1 \<Longrightarrow> alloc_result P1 L sz r P2 L' \<Longrightarrow> alloc_result P L sz r P2 L'"
  by (auto simp: alloc_result_def intro: quiet_trans quiet_allocated split: option.splits)

lemma memop_refill_ok:
  assumes inv: "pool_inv P L" and law: "mmap_law (env_mmap E)" and h: "h \<in> set (heaps P)" and c: "c < MEMOP_CLASS_COUNT"
    and e: "memop_refill E h c P = (r, P')" and sz: "sz \<le> MemClassSizes ! c"
  shows "alloc_result P L sz r P' L"
proof -
  obtain r1 P1 where s1: "refill_scan h c (spans (hp P h) ! c) P = (r1, P1)" by force
  have k1: "scan_result P L h c r1 P1" by (rule refill_scan_ok [OF inv h c refl s1])
  show ?thesis
  proof (cases r1)
    case (Some ab)
    then obtain a b where "r1 = Some (a, b)" by force
    with e s1 k1 found_got [of P L h c a b P1] sz show ?thesis
      by (auto simp: memop_refill_def scan_result_def alloc_result_def)
  next
    case None
    then have q1: "quiet P L P1" using k1 by (simp add: scan_result_def)
    have i1: "pool_inv P1 L" "h \<in> set (heaps P1)" using quiet_inv [OF q1] same_life_heaps h by auto
    obtain r2 P2 where s2: "full_scan h c FULL_SCAN_K None P1 = (r2, P2)" by force
    have k2: "scan_result P L h c r2 P2"
      using full_scan_ok [OF i1 c s2] quiet_scan_result [OF q1] by blast
    show ?thesis
    proof (cases r2)
      case (Some ab)
      then obtain a b where "r2 = Some (a, b)" by force
      with e s1 s2 None k2 found_got [of P L h c a b P2] sz show ?thesis
        by (auto simp: memop_refill_def scan_result_def alloc_result_def del: full_scan.simps)
    next
      case none2: None
      then have q2: "quiet P L P2" using k2 by (simp add: scan_result_def)
      have i2: "pool_inv P2 L" "h \<in> set (heaps P2)" using quiet_inv [OF q2] same_life_heaps h by auto
      obtain r3 P3 where s3: "span_create E h c P2 = (r3, P3)" by force
      note k3 = span_created [OF i2(1) law i2(2) c s3]
      show ?thesis
      proof (cases r3)
        case None
        then show ?thesis
          using e s1 s2 s3 \<open>r1 = None\<close> none2 k3(1) q2
          by (simp add: memop_refill_def alloc_result_def del: full_scan.simps)
      next
        case (Some a)
        define P4 where "P4 = heap_list_insert_head h c a P3"
        define P5 where "P5 = upd_heap h (\<lambda>H. H\<lparr>s_span_allocs := s_span_allocs H + 1\<rparr>) P4"
        have q4: "quiet P2 L P4" and a4: "a \<in> pool_spans P4" "span_ok h c SPAN_AVAILABLE a (hdr P4 a)" "bump_idx (hdr P4 a) = 0"
          "spans (hp P4 h) ! c = a # spans (hp P2 h) ! c"
          using k3(2) [OF Some] by (auto simp: P4_def)
        have q5: "quiet P4 L P5" "pool_spans P5 = pool_spans P4"
          unfolding P5_def
          by (rule quiet_same [OF quiet_inv(1) [OF q4]];
              auto simp: upd_heap_def same_life_def same_chunks_def caches_def fun_eq_iff)+
        have q: "quiet P L P5" by (rule quiet_trans [OF q2 quiet_trans [OF q4 q5(1)]])
        have a5: "hdr P5 = hdr P4" "spans (hp P5 h) ! c = a # spans (hp P2 h) ! c"
          using a4(4) by (simp_all add: P5_def upd_heap_def)
        have "0 < block_count (hdr P4 a)" using span_ok_stride(3) [OF a4(2)] by simp
        then have "found P L h c a (a + SPAN_HEADER) (upd_span a (\<lambda>s. s\<lparr>bump_idx := 1\<rparr>) P5)"
          unfolding found_def using q a4 a5 q5(2)
          by (intro exI [of _ P5]) (auto simp: upd_span_def)
        moreover have "r = Some (a + SPAN_HEADER)" "P' = refill_got h c a (upd_span a (\<lambda>s. s\<lparr>bump_idx := 1\<rparr>) P5)"
          using e s1 s2 s3 \<open>r1 = None\<close> none2 Some
          by (simp_all add: memop_refill_def P4_def P5_def Let_def del: full_scan.simps)
        ultimately show ?thesis using found_got sz by (auto simp: alloc_result_def)
      qed
    qed
  qed
qed

text \<open>A large block entering the picture.\<close>

lemma large_added:
  assumes inv: "pool_inv P L" and h: "h \<in> set (heaps P)" and st: "chunk_step h P P1" and mem: "mem_bytes P1 = mem_bytes P"
    and new: "a \<notin> pool_spans P \<union> L" "a mod SPAN_SIZE = 0" "0 < a"
    and s: "class_id s = CLASS_LARGE" "1 \<le> block_count s"
      "stride s = nat (u32 (int (block_count s * SPAN_SIZE) - int SPAN_HEADER))"
    and ci: "caches_inv P1 (caches P1)
      (pool_spans P \<union> large_chunks ((hdr P)(a := s)) (insert a L)) (large_regions ((hdr P)(a := s)) (insert a L))"
  defines "P' \<equiv> upd_span a (\<lambda>_. s) P1"
  shows "allocated P L (a + SPAN_HEADER) P' (insert a L)" "memop_usable_size (a + SPAN_HEADER) P' = stride s"
proof -
  note c = chunk_step_lists [OF inv st h]
  have eqs: "heaps P1 = heaps P" "hdr P1 = hdr P" using st by (simp_all add: chunk_step_def same_life_def)
  have P': "P' = P1\<lparr>hdr := (hdr P)(a := s)\<rparr>" by (simp add: P'_def upd_span_def eqs)
  have sl: "same_life P1 P'" "caches P' = caches P1" by (simp_all add: P' same_life_def caches_def)
  have hok: "heap_ok x (hp P1 x) ((hdr P)(a := s))" if x: "x \<in> set (heaps P1)" for x
  proof (rule heap_ok_upd_out)
    show "heap_ok x (hp P1 x) (hdr P)" using c(1) x eqs by (simp add: lists_ok_def)
    have "heap_set (hp P1 x) \<subseteq> pool_spans P1" using x by (auto simp: pool_spans_def spans_of_def)
    then show "a \<notin> heap_set (hp P1 x)" using c(2) new(1) by blast
  qed
  have sp: "pool_spans P' = pool_spans P" using c(2) by (simp add: P' pool_spans_def)
  have lg: "large_ok ((hdr P)(a := s)) (insert a L)"
    using pool_invD(3) [OF inv] new s by (auto simp: large_ok_def)
  have "caches_inv P' (caches P1) (pool_spans P \<union> large_chunks ((hdr P)(a := s)) (insert a L))
      (large_regions ((hdr P)(a := s)) (insert a L))"
    by (rule caches_inv_cong [OF ci]) (simp_all add: P')
  then have inv': "pool_inv P' (insert a L)"
    using lg hok life_ok_cong [OF c(3) sl] unfolding pool_inv_def sp sl(2)
    by (simp add: P' lists_ok_def)
  have h': "hdr P' a = s" by (simp add: P')
  show us: "memop_usable_size (a + SPAN_HEADER) P' = stride s"
    using large_block_usable(2) [OF pool_invD(3) [OF inv'], of a] by (simp add: h')
  have sof: "span_of q \<in> pool_spans P \<union> L" if "q \<in> blocks_live P L" for q
    using that block_home(1) [OF inv] live_all_blocks by blast
  have "span_of (a + SPAN_HEADER) = a" by (rule span_of_inside [OF new(2)]) simp_all
  then have nl: "a + SPAN_HEADER \<notin> blocks_live P L" using sof new(1) by metis
  have "span_live x (hdr P' x) = span_live x (hdr P x)" if "x \<in> pool_spans P" for x
    using that new(1) by (auto simp: P')
  then have bl: "blocks_live P' (insert a L) = insert (a + SPAN_HEADER) (blocks_live P L)"
    by (simp add: blocks_live_def sp)
  have tb: "tables P1 = tables P" "same_life P P'"
    using st sl(1) by (auto simp: chunk_step_def P' same_life_def)
  have "keeps (blocks_live P L) P P'"
    unfolding keeps_def
  proof (intro ballI conjI)
    fix q assume q: "q \<in> blocks_live P L"
    then have "span_of q \<noteq> a" using sof new(1) by metis
    then show "memop_usable_size q P' = memop_usable_size q P"
      by (intro usable_cong) (simp_all add: tb P')
    show "same_at (extent P q) (mem_bytes P) (mem_bytes P')" by (simp add: P' mem)
  qed
  then show "allocated P L (a + SPAN_HEADER) P' (insert a L)"
    using inv' nl bl tb by (simp add: allocated_def)
qed

lemma large_total_eq:
  assumes "sz \<le> max_request"
  shows "large_total sz = (sz + 65599) div SPAN_SIZE * SPAN_SIZE" "sz + SPAN_HEADER \<le> large_total sz"
    "large_total sz \<le> 4294967296" "SPAN_SIZE \<le> large_total sz"
proof -
  have b: "sz \<le> 4294901760" using assms by (simp add: max_request_def)
  then show e: "large_total sz = (sz + 65599) div SPAN_SIZE * SPAN_SIZE"
    by (simp add: large_total_def Let_def)
  have m: "(sz + 65599) div 65536 * 65536 + (sz + 65599) mod 65536 = sz + 65599" by (rule div_mult_mod_eq)
  have r: "(sz + 65599) mod 65536 < 65536" by simp
  show l: "sz + SPAN_HEADER \<le> large_total sz" unfolding e using m r by linarith
  show "large_total sz \<le> 4294967296"
  proof (cases "large_total sz \<le> 4294967296")
    case False
    obtain k where k: "large_total sz = k * 65536" using e by simp
    with False have "65537 \<le> k" by simp
    then have "4295032832 \<le> large_total sz" using k by simp
    with m b show ?thesis unfolding e by linarith
  qed simp
  obtain k where k: "large_total sz = k * 65536" using e by simp
  moreover have "k \<noteq> 0" using l k by auto
  ultimately show "SPAN_SIZE \<le> large_total sz" by simp
qed

lemma quiet_allocated_stats: "allocated P L b P1 L1 \<Longrightarrow> allocated P L b (bump_stats h x y P1) L1"
  using allocated_quiet quiet_bump_stats by (metis allocated_def)

lemma usable_bump_stats [simp]: "memop_usable_size b (bump_stats h x y P) = memop_usable_size b P"
  by (simp add: memop_usable_size_def bump_stats_def upd_heap_def Let_def)

lemma memop_alloc_large_ok:
  assumes inv: "pool_inv P L" and law: "mmap_law (env_mmap E)" and h: "h \<in> set (heaps P)"
    and sz: "sz \<le> max_request" and e: "memop_alloc_large E h sz P = (r, P')"
  obtains L' where "alloc_result P L sz r P' L'"
proof -
  note t = large_total_eq [OF sz]
  let ?t = "large_total sz" and ?u = "large_total sz div SPAN_SIZE"
  have tu: "?t = ?u * SPAN_SIZE" using t(1) by simp
  have u: "1 \<le> ?u" "?u mod 2 ^ 32 = ?u" using t(3,4) by (auto intro!: mod_less)
  have st: "nat (u32 (int ?t - int SPAN_HEADER)) = ?t - SPAN_HEADER" using t(3,4) by simp
  define mk where "mk = (\<lambda>s :: MemSpan. s\<lparr>sp_owner := None, class_id := CLASS_LARGE, stride := nat (u32 (int ?t - int SPAN_HEADER)),
     block_count := ?u mod 2 ^ 32, sp_used := 1, bump_idx := 0, sp_state := SPAN_AVAILABLE\<rparr>)"
  have hs: "class_id (mk s) = CLASS_LARGE" "block_count (mk s) = ?u" "1 \<le> block_count (mk s)"
    "stride (mk s) = nat (u32 (int (block_count (mk s) * SPAN_SIZE) - int SPAN_HEADER))" "stride (mk s) = ?t - SPAN_HEADER" for s
    unfolding mk_def using u st tu by simp_all
  have szs: "sz \<le> ?t - SPAN_HEADER" using t(2) by simp
  have res: "alloc_result P L sz (Some (a + SPAN_HEADER)) (bump_stats h 1 1 (upd_span a mk P1)) (insert a L)"
    if st: "chunk_step h P P1" "mem_bytes P1 = mem_bytes P" and new: "a \<notin> pool_spans P \<union> L" "a mod SPAN_SIZE = 0" "0 < a"
      and ci: "caches_inv P1 (caches P1) (pool_spans P \<union> large_chunks ((hdr P)(a := mk (hdr P a))) (insert a L))
        (large_regions ((hdr P)(a := mk (hdr P a))) (insert a L))" for a P1
  proof -
    have "hdr P1 = hdr P" using st(1) by (simp add: chunk_step_def)
    then have u: "upd_span a mk P1 = upd_span a (\<lambda>_. mk (hdr P a)) P1" by (simp add: upd_span_def)
    note l = large_added [OF inv h st new hs(1,3,4) ci]
    show ?thesis
      unfolding alloc_result_def u using quiet_allocated_stats [OF l(1)] l(2) hs(5) szs by simp
  qed
  show thesis
  proof (cases "?u = 1")
    case True
    obtain r1 P1 where a: "heap_chunk_acquire E h P = (r1, P1)" by force
    note k = heap_chunk_acquire_ok [OF inv law h a]
    show thesis
    proof (cases r1)
      case None
      then show thesis
        using that [of L] e True a k(3) inv by (simp add: memop_alloc_large_def Let_def alloc_result_def quiet_refl)
    next
      case (Some m)
      note n = k(4) [OF Some]
      have P': "r = Some (m + SPAN_HEADER)" "P' = bump_stats h 1 1 (upd_span m mk P1)"
        using e True a Some by (simp_all add: memop_alloc_large_def Let_def mk_def)
      have ml: "m \<notin> L" using n by blast
      have "large_chunks ((hdr P)(m := mk (hdr P m))) (insert m L) = insert m (large_chunks (hdr P) L)"
        "large_regions ((hdr P)(m := mk (hdr P m))) (insert m L) = large_regions (hdr P) L"
        using True hs(2) ml by (auto simp: large_chunks_def large_regions_def split: if_splits)
      moreover have "m mod SPAN_SIZE = 0" "0 < m" using caches_inv_chunk(1,2) n by blast+
      ultimately have "alloc_result P L sz (Some (m + SPAN_HEADER)) (bump_stats h 1 1 (upd_span m mk P1)) (insert m L)"
        using n by (intro res [OF k(1,2)]) auto
      then show thesis using that P' by blast
    qed
  next
    case False
    obtain r1 log where a: "span_os_alloc (env_mmap E) ?t (os_log P) = (r1, log)" by force
    show thesis
    proof (cases r1)
      case None
      then show thesis
        using that [of L] e False a span_os_alloc_none [of "env_mmap E" ?t "os_log P" log] inv
        by (simp add: memop_alloc_large_def Let_def alloc_result_def quiet_refl)
    next
      case (Some m)
      let ?P1 = "P\<lparr>os_log := log\<rparr>"
      have P': "r = Some (m + SPAN_HEADER)" "P' = bump_stats h 1 1 (upd_span m mk ?P1)"
        using e False a Some by (simp_all add: memop_alloc_large_def Let_def mk_def)
      have tb: "?t + SPAN_SIZE < 2 ^ 64" using t(3) by simp
      note o = span_os_alloc_some [OF law a [unfolded Some] tb]
      have reg: "mapped log = mapped (os_log P) \<union> region m ?t" "mapped (os_log P) \<inter> region m ?t = {}"
        using o(3,4) by (simp_all add: region_def)
      have "m \<in> region m ?t" using t(4) by (simp add: region_def)
      then have nm: "m \<notin> mapped (os_log P)" using reg(2) by blast
      have new: "m \<notin> pool_spans P \<union> L"
      proof
        assume x: "m \<in> pool_spans P \<union> L"
        have "m \<in> span_region P m"
          using home_kind [OF inv x] pool_invD(3) [OF inv]
          by (auto simp: region_def large_regions_def large_ok_def)
        then show False using home_mapped [OF inv x] nm by blast
      qed
      have ml: "m \<notin> L" using new by blast
      have "large_chunks ((hdr P)(m := mk (hdr P m))) (insert m L) = large_chunks (hdr P) L"
        "large_regions ((hdr P)(m := mk (hdr P m))) (insert m L) = insert (m, ?t) (large_regions (hdr P) L)"
        using False hs(2) ml tu by (auto simp: large_chunks_def large_regions_def split: if_splits)
      moreover have "caches_inv ?P1 (caches P) (pool_spans P \<union> large_chunks (hdr P) L) (insert (m, ?t) (large_regions (hdr P) L))"
        by (rule caches_inv_add_region [OF pool_invD(4) [OF inv] reg])
      moreover have "chunk_step h P ?P1" "caches ?P1 = caches P"
        by (simp_all add: chunk_step_def same_life_def caches_def)
      ultimately have "alloc_result P L sz (Some (m + SPAN_HEADER)) (bump_stats h 1 1 (upd_span m mk ?P1)) (insert m L)"
        using new o(1,2) by (intro res) simp_all
      then show thesis using that P' by blast
    qed
  qed
qed

section \<open>The heap of a thread\<close>

text \<open>A step after which the pool is as good as before: the same live blocks, untouched.\<close>

definition steady :: "MemPool \<Rightarrow> addr set \<Rightarrow> MemPool \<Rightarrow> bool" where
  "steady P L P' \<longleftrightarrow> pool_inv P' L \<and> blocks_live P' L = blocks_live P L \<and> keeps (blocks_live P L) P P'"

lemma steady_refl: "pool_inv P L \<Longrightarrow> steady P L P"
  by (simp add: steady_def)

lemma steady_trans: "steady P L P1 \<Longrightarrow> steady P1 L P2 \<Longrightarrow> steady P L P2"
  by (auto simp: steady_def intro: keeps_trans)

lemma quiet_steady: "quiet P L P' \<Longrightarrow> steady P L P'"
  by (simp add: steady_def quiet_def)

lemma no_heaps_no_blocks: "pool_inv P L \<Longrightarrow> heaps P = [] \<Longrightarrow> pool_spans P = {}"
  by (simp add: pool_spans_def spans_of_def)

lemma steady_lifeI:
  assumes inv: "pool_inv P L" and eqs: "hdr P' = hdr P" "same_chunks P P'" "mem_bytes P' = mem_bytes P"
    and l: "life_ok P'" "lists_ok (set (heaps P')) (hp P') (hdr P)" "pool_spans P' = pool_spans P" "caches P' = caches P"
    and u: "\<And>q. q \<in> blocks_live P L \<Longrightarrow> memop_usable_size q P' = memop_usable_size q P"
  shows "steady P L P'"
proof -
  have "caches_inv P' (caches P) (pool_spans P \<union> large_chunks (hdr P) L) (large_regions (hdr P) L)"
    by (rule caches_inv_cong [OF pool_invD(4) [OF inv]]) (use eqs(2) in \<open>simp_all add: same_chunks_def\<close>)
  then show ?thesis
    using pool_invD(3) [OF inv] l u eqs(1,3) by (simp add: steady_def pool_inv_def blocks_live_def keeps_def)
qed

lemma usable_tables:
  assumes inv: "pool_inv P L" and q: "q \<in> blocks_live P L" and eqs: "hdr P' = hdr P"
    and t: "heaps P \<noteq> [] \<Longrightarrow> tables P' = tables P"
  shows "memop_usable_size q P' = memop_usable_size q P"
proof (cases "heaps P = []")
  case True
  then have "q \<in> (\<lambda>a. a + SPAN_HEADER) ` L"
    using q no_heaps_no_blocks [OF inv] by (auto simp: blocks_live_def)
  then obtain a where "a \<in> L" "q = a + SPAN_HEADER" by blast
  then show ?thesis
    using large_block_usable(1) [OF pool_invD(3) [OF inv]] pool_invD(3) [OF inv]
    by (auto simp: memop_usable_size_def large_ok_def eqs)
next
  case False
  then show ?thesis using t by (intro usable_cong) (simp_all add: eqs)
qed

lemma memop_init_steady:
  assumes inv: "pool_inv P L"
  shows "steady P L (memop_init P)" "init_state (memop_init P) = MEMOP_READY" "tls (memop_init P) = tls P"
    "heaps (memop_init P) = heaps P"
proof -
  note l = pool_invD(1) [OF inv]
  show "steady P L (memop_init P)"
    using pool_invD(1,2) [OF inv]
    by (intro steady_lifeI [OF inv] usable_tables [OF inv])
      (auto simp: memop_init_def same_chunks_def life_ok_def pool_spans_def caches_def)
qed (auto simp: memop_init_def)

lemma heap_zero_ok: "heap_ok h (heap_zero\<lparr>active := True\<rparr>) hm" "heap_set (heap_zero\<lparr>active := True\<rparr>) = {}"
  by (simp_all add: heap_ok_def heap_zero_def heap_set_def)

lemma get_heap_ok:
  assumes inv: "pool_inv P L" and e: "get_heap E t P = (r, P')"
  shows "steady P L P'" "r = Some h \<Longrightarrow> h \<in> set (heaps P')" "tls P' t = r" "t' \<noteq> t \<Longrightarrow> tls P' t' = tls P t'"
proof -
  have "steady P L P' \<and> (r = Some h \<longrightarrow> h \<in> set (heaps P')) \<and> tls P' t = r \<and> (t' \<noteq> t \<longrightarrow> tls P' t' = tls P t')"
  proof (cases "tls P t")
    case (Some x)
    then have "r = Some x" "P' = P" using e by (simp_all add: get_heap_def)
    with Some show ?thesis using inv pool_invD(1) [OF inv] by (auto simp: steady_refl life_ok_def)
  next
    case None
    let ?P1 = "memop_init P"
    note i = memop_init_steady [OF inv]
    have inv1: "pool_inv ?P1 L" using i(1) by (simp add: steady_def)
    note l1 = pool_invD(1) [OF inv1]
    show ?thesis
    proof (cases "env_calloc E (next_id ?P1)")
      case False
      then have r: "r = None" "P' = ?P1\<lparr>tls := (tls ?P1)(t := None)\<rparr>"
        using e None by (simp_all add: get_heap_def heap_create_locked_def)
      have "(tls ?P1)(t := None) = tls ?P1" using None i(3) by auto
      then have "P' = ?P1" using r by simp
      then show ?thesis using i r None by simp
    next
      case True
      let ?h = "next_id ?P1 + 1"
      let ?P2 = "?P1\<lparr>hp := (hp ?P1)(?h := heap_zero\<lparr>active := True\<rparr>), next_id := ?h, heaps := ?h # heaps ?P1,
         heaps_created := heaps_created ?P1 + 1, tls := (tls ?P1)(t := Some ?h)\<rparr>"
      have r: "r = Some ?h" "P' = ?P2"
        using e None True by (auto simp: get_heap_def heap_create_locked_def Let_def)
      have nh: "?h \<notin> set (heaps ?P1)" using l1 unfolding life_ok_def by fastforce
      have lc: "local_cache (hp ?P1 ?h) = []" using l1 nh unfolding life_ok_def by blast
      have life: "life_ok ?P2"
      proof -
        have "tls ?P1 t' \<noteq> Some ?h" for t' using l1 nh unfolding life_ok_def by blast
        then show ?thesis
          using l1 nh i(2) unfolding life_ok_def
          by (auto simp: heap_zero_def split: if_splits)
      qed
      have lists: "lists_ok (set (heaps ?P2)) (hp ?P2) (hdr ?P1)"
        using pool_invD(2) [OF inv1] nh heap_zero_ok(1) by (auto simp: lists_ok_def)
      have sp: "pool_spans ?P2 = pool_spans ?P1"
        using nh heap_zero_ok(2) by (auto simp: pool_spans_def spans_of_def split: if_splits)
      have ca: "caches ?P2 = caches ?P1" using lc by (auto simp: caches_def heap_zero_def)
      have "steady ?P1 L ?P2"
        by (rule steady_lifeI [OF inv1 _ _ _ life lists sp ca]; (rule usable_tables [OF inv1])?)
          (auto simp: same_chunks_def)
      then have "steady P L P'" unfolding r(2) by (rule steady_trans [OF i(1)])
      then show ?thesis using r i(3) by simp
    qed
  qed
  then show "steady P L P'" "r = Some h \<Longrightarrow> h \<in> set (heaps P')" "tls P' t = r" "t' \<noteq> t \<Longrightarrow> tls P' t' = tls P t'"
    by blast+
qed

section \<open>The contract of allocation\<close>

definition alloc_spec :: "MemPool \<Rightarrow> addr set \<Rightarrow> nat \<Rightarrow> addr option \<Rightarrow> MemPool \<Rightarrow> addr set \<Rightarrow> bool" where
  "alloc_spec P L sz r P' L' \<longleftrightarrow>
     pool_inv P' L' \<and> keeps (blocks_live P L) P P' \<and>
     (case r of
        None \<Rightarrow> blocks_live P' L' = blocks_live P L
      | Some b \<Rightarrow> b \<notin> blocks_live P L \<and> blocks_live P' L' = insert b (blocks_live P L) \<and> sz \<le> memop_usable_size b P')"

lemma steady_alloc_spec: "steady P L P1 \<Longrightarrow> alloc_spec P1 L sz r P2 L' \<Longrightarrow> alloc_spec P L sz r P2 L'"
  by (auto simp: alloc_spec_def steady_def intro: keeps_trans split: option.splits)

lemma alloc_result_spec: "alloc_result P L sz r P' L' \<Longrightarrow> alloc_spec P L sz r P' L'"
  by (auto simp: alloc_spec_def alloc_result_def quiet_def allocated_def split: option.splits)

lemma alloc_spec_stats:
  assumes "alloc_result P L sz (Some b) P1 L'"
  shows "alloc_result P L sz (Some b) (bump_stats h x y P1) L'"
  using assms quiet_allocated_stats by (simp add: alloc_result_def)

lemma bump_pick:
  assumes "pool_inv P L" "h \<in> set (heaps P)" "c < MEMOP_CLASS_COUNT" "spans (hp P h) ! c = a # as"
  shows "a \<in> pool_spans P" "span_ok h c SPAN_AVAILABLE a (hdr P a)"
proof -
  have a: "a \<in> set (spans (hp P h) ! c)" using assms(4) by simp
  show "a \<in> pool_spans P" using pool_spans_heap [OF assms(2) heap_set_class [OF assms(3) a]] .
  show "span_ok h c SPAN_AVAILABLE a (hdr P a)" by (rule heap_ok_class [OF pool_heap_ok [OF assms(1,2)] assms(3) a])
qed

lemma memop_alloc_raw_ok:
  assumes inv: "pool_inv P L" and law: "mmap_law (env_mmap E)" and sz: "sz \<le> max_request"
    and e: "memop_alloc_raw E t sz P = (r, P')"
  obtains L' where "alloc_spec P L sz r P' L'"
proof (cases "sz = 0")
  case True
  with e inv have "alloc_spec P L sz r P' L"
    by (simp add: memop_alloc_raw_def alloc_spec_def)
  then show thesis by (rule that)
next
  case nz: False
  obtain ho P1 where g: "get_heap E t P = (ho, P1)" by force
  note gh = get_heap_ok [OF inv g]
  have inv1: "pool_inv P1 L" using gh(1) by (simp add: steady_def)
  show thesis
  proof (cases ho)
    case None
    then have "r = None" "P' = P1" using e nz g by (simp_all add: memop_alloc_raw_def)
    then have "alloc_spec P L sz r P' L" using gh(1) by (simp add: alloc_spec_def steady_def)
    then show thesis by (rule that)
  next
    case (Some h)
    have h: "h \<in> set (heaps P1)" using gh(2) Some by blast
    have tb: "tables P1 = memop_build_size2class" using pool_invD(1) [OF inv1] h by (auto simp: life_ok_def)
    note str = pool_class_stride [OF inv1 h]
    have "\<exists>L'. alloc_result P1 L sz r P' L'"
    proof (cases "sz \<le> MEMOP_MAX_SMALL")
      case False
      then have "memop_alloc_large E h sz P1 = (r, P')"
        using e nz g Some by (simp add: memop_alloc_raw_def class_index_large Let_def)
      then show ?thesis using memop_alloc_large_ok [OF inv1 law h sz] by metis
    next
      case True
      obtain c where c: "memop_class_index memop_build_size2class sz = int c" "c < MEMOP_CLASS_COUNT" "sz \<le> MemClassSizes ! c"
        using class_index_cases [of sz] True nz by (metis One_nat_def Suc_leI gr_zeroI)
      let ?as = "spans (hp P1 h) ! c"
      let ?a = "List.hd ?as" let ?s = "hdr P1 ?a"
      note unf = memop_alloc_raw_def Let_def
      consider (take) "?as \<noteq> []" "local_free ?s \<noteq> []"
        | (bump) "?as \<noteq> []" "local_free ?s = []" "bump_idx ?s < block_count ?s"
        | (refill) "\<not> (?as \<noteq> [] \<and> local_free ?s \<noteq> [])" "\<not> (?as \<noteq> [] \<and> bump_idx ?s < block_count ?s)"
        by blast
      then show ?thesis
      proof cases
        case take
        then obtain as where as: "?as = ?a # as" by (cases ?as) auto
        note b = bump_pick [OF inv1 h c(2) as]
        obtain x rest where l: "local_free ?s = x # rest" using take(2) by (cases "local_free ?s") auto
        have "r = Some x" "P' = bump_stats h 1 0 (upd_span ?a (\<lambda>s. s\<lparr>local_free := rest, sp_used := sp_used s + 1\<rparr>) P1)"
          using e nz g Some take l c(1) tb by (simp_all add: unf upd_span_def)
        then show ?thesis
          using alloc_take(1,2) [OF inv1 b l] c(3) by (intro exI [of _ L]) (auto simp: alloc_result_def intro: quiet_allocated_stats)
      next
        case bump
        then obtain as where as: "?as = ?a # as" by (cases ?as) auto
        note b = bump_pick [OF inv1 h c(2) as]
        have "r = Some (?a + SPAN_HEADER + bump_idx ?s * MemClassSizes ! c)"
          "P' = bump_stats h 1 0 (upd_span ?a (\<lambda>s. s\<lparr>bump_idx := bump_idx s + 1, sp_used := sp_used s + 1\<rparr>) P1)"
          using e nz g Some bump c(1) tb str by (simp_all add: unf upd_span_def)
        then show ?thesis
          using alloc_bump(1,2) [OF inv1 b bump(3)] c(3) by (intro exI [of _ L]) (auto simp: alloc_result_def intro: quiet_allocated_stats)
      next
        case refill
        obtain r1 P2 where f: "memop_refill E h c P1 = (r1, P2)" by force
        have res: "alloc_result P1 L sz r1 P2 L" by (rule memop_refill_ok [OF inv1 law h c(2) f c(3)])
        have "\<not> memop_class_index (tables P1) sz < 0" "nat (memop_class_index (tables P1) sz) = c"
          using c(1) tb by simp_all
        then have "memop_alloc_raw E t sz P = (case r1 of None \<Rightarrow> (None, P2) | Some b \<Rightarrow> (Some b, bump_stats h 1 0 P2))"
          unfolding memop_alloc_raw_def Let_def g Some using nz f
          by (simp add: if_not_P [OF refill(1)] if_not_P [OF refill(2)])
        then show ?thesis
          using e res by (intro exI [of _ L]) (cases r1, auto intro: alloc_spec_stats)
      qed
    qed
    then obtain L' where "alloc_result P1 L sz r P' L'" by blast
    then have "alloc_spec P L sz r P' L'" by (intro steady_alloc_spec [OF gh(1)] alloc_result_spec)
    then show thesis by (rule that)
  qed
qed

section \<open>Free\<close>

lemma heap_chunk_release_ok:
  assumes inv: "caches_inv P (caches P) used X" and m: "m \<in> used" and h: "gh = None \<or> gh = Some h"
  defines "P' \<equiv> heap_chunk_release gh m P"
  shows "chunk_step h P P'" "caches_inv P' (caches P') (used - {m}) X"
    "hits_only (insert m (free_chunks P (caches P))) P P'"
proof -
  have "chunk_step h P P' \<and> caches_inv P' (caches P') (used - {m}) X \<and> hits_only (insert m (free_chunks P (caches P))) P P'"
  proof (cases gh)
    case None
    then have P': "P' = chunk_release_global m P" by (simp add: P'_def heap_chunk_release_def chunk_release_def)
    note r = chunk_release_global_caches [OF inv m]
    have f: "pool_frame P P'" using r(2) by (simp add: P')
    then have m: "ChunkPool.more P' = ChunkPool.more P" "clk P' = clk P" by (auto simp: pool_frame_def)
    note mf = more_fields [OF m(1)]
    have "caches P' = caches P" using mf by (simp add: caches_def)
    then show ?thesis using r mf m(2) by (simp add: P' [symmetric] chunk_step_def same_life_def)
  next
    case (Some h')
    then have gh: "gh = Some h" using h by simp
    obtain ho P0 where e: "chunk_release (Some (hp P h)) m P = (ho, P0)" by force
    have lc: "caches P h = local_cache (hp P h)" by (simp add: caches_def)
    obtain H where H: "ho = Some H" "HeapCache.more H = HeapCache.more (hp P h)" "pool_frame P P0"
      "caches_inv P0 ((caches P)(h := local_cache H)) (used - {m}) X" "hits_only (insert m (free_chunks P (caches P))) P P0"
      using chunk_release_ok [OF inv m lc e] by metis
    have P': "P' = P0\<lparr>hp := (hp P0)(h := H)\<rparr>" by (simp add: P'_def heap_chunk_release_def gh e H(1))
    have mm: "ChunkPool.more P0 = ChunkPool.more P" "clk P0 = clk P" using H(3) by (auto simp: pool_frame_def)
    note mf = more_fields [OF mm(1)] and hf = heap_more_fields [OF H(2)]
    have ca: "caches P' = (caches P)(h := local_cache H)" using mf by (auto simp: caches_def P')
    have "caches_inv P' (caches P') (used - {m}) X"
      unfolding ca by (rule caches_inv_cong [OF H(4)]) (simp_all add: P')
    moreover have "hits_only (insert m (free_chunks P (caches P))) P P'" using H(5) by (simp add: hits_only_def P')
    ultimately show ?thesis using mf hf mm(2) by (simp add: chunk_step_def same_life_def P')
  qed
  then show "chunk_step h P P'" "caches_inv P' (caches P') (used - {m}) X"
    "hits_only (insert m (free_chunks P (caches P))) P P'" by blast+
qed

lemma extents_safe:
  assumes inv: "pool_inv P L" and q: "q \<in> all_blocks P L" "span_of q \<noteq> m"
    and m: "m \<in> pool_spans P \<union> large_chunks (hdr P) L"
  shows "extent P q \<inter> words_of (insert m (free_chunks P (caches P))) = {}"
proof -
  have ml: "m \<in> pool_spans P \<union> L" using m by (auto simp: large_chunks_def)
  have "span_region P m = region m SPAN_SIZE"
    using home_kind [OF inv ml] m pool_spans_not_large [OF inv] by (auto simp: large_chunks_def large_regions_def)
  moreover have "{m..<m + 8} \<subseteq> region m SPAN_SIZE" by (auto simp: region_def)
  moreover have "span_region P (span_of q) \<inter> span_region P m = {}"
    by (rule homes_disjoint [OF inv block_home(1) [OF inv q(1)] ml q(2)])
  ultimately have "extent P q \<inter> {m..<m + 8} = {}" using block_home(2) [OF inv q(1)] by blast
  then show ?thesis using extent_not_free_chunk [OF inv q(1)] by auto
qed

text \<open>Dropping an empty span from its list and giving its chunk back.\<close>

lemma span_dropped:
  assumes inv: "pool_inv P L" and h: "h \<in> set (heaps P)" and ah: "a \<in> heap_set (hp P h)"
    and H: "heap_ok h H (hdr P)" "heap_set H = heap_set (hp P h) - {a}" "local_cache H = local_cache (hp P h)"
    and empty: "span_live a (hdr P a) = {}" and gh: "gh = None \<or> gh = Some h"
  defines "P' \<equiv> heap_chunk_release gh a (P\<lparr>hp := (hp P)(h := H)\<rparr>)"
  shows "quiet P L P'" "pool_spans P' = pool_spans P - {a}"
proof -
  define P1 where "P1 = P\<lparr>hp := (hp P)(h := H)\<rparr>"
  note P1 = P1_def
  have ap: "a \<in> pool_spans P" by (rule pool_spans_heap [OF h ah])
  note l = lists_ok_upd [OF pool_invD(2) [OF inv] h H(1)]
  have l1: "lists_ok (set (heaps P)) ((hp P)(h := H)) (hdr P)" by (rule l) simp
  have l2: "spans_of (set (heaps P)) ((hp P)(h := H)) = (spans_of (set (heaps P)) (hp P) - heap_set (hp P h)) \<union> heap_set H"
    by (rule l) simp
  have "heap_set (hp P h) \<subseteq> pool_spans P" using h by (auto simp: pool_spans_def spans_of_def)
  then have sp1: "pool_spans P1 = pool_spans P - {a}"
    using l2 H(2) ah by (auto simp: pool_spans_def P1)
  have ca1: "caches P1 = caches P" using H(3) by (auto simp: caches_def P1)
  have ci1: "caches_inv P1 (caches P1) (pool_spans P \<union> large_chunks (hdr P) L) (large_regions (hdr P) L)"
    unfolding ca1 by (rule caches_inv_cong [OF pool_invD(4) [OF inv]]) (simp_all add: P1)
  have au: "a \<in> pool_spans P \<union> large_chunks (hdr P) L" using ap by blast
  have P': "P' = heap_chunk_release gh a P1" by (simp add: P'_def P1_def)
  have st: "chunk_step h P1 P'" and ci: "caches_inv P' (caches P') (pool_spans P \<union> large_chunks (hdr P) L - {a}) (large_regions (hdr P) L)"
    and hits: "hits_only (insert a (free_chunks P1 (caches P1))) P1 P'"
    using heap_chunk_release_ok [OF ci1 au gh] by (simp_all add: P')
  have eqs: "heaps P' = heaps P" "hdr P' = hdr P" "\<And>x. spans (hp P' x) = spans (hp P1 x)" "\<And>x. full_list (hp P' x) = full_list (hp P1 x)"
    using st by (simp_all add: chunk_step_def same_life_def P1)
  have l1': "lists_ok (set (heaps P')) (hp P1) (hdr P')" using l1 by (simp add: eqs P1)
  note ls = lists_ok_same_lists [OF l1', of "hp P'"]
  have lo: "lists_ok (set (heaps P')) (hp P') (hdr P')" by (rule ls) (simp_all add: eqs)
  have "pool_spans P' = pool_spans P1"
    unfolding pool_spans_def using ls(2) eqs by (simp add: P1)
  then show sp: "pool_spans P' = pool_spans P - {a}" using sp1 by simp
  have sl: "same_life P P'" using st by (auto simp: chunk_step_def same_life_def P1)
  have life: "life_ok P'"
  proof -
    have "local_cache (hp P' x) = []" if x: "x \<notin> set (heaps P)" for x
    proof -
      have "x \<noteq> h" using x h by blast
      then have "hp P' x = hp P x" using st by (simp add: chunk_step_def P1)
      then show ?thesis using pool_invD(1) [OF inv] x by (simp add: life_ok_def)
    qed
    moreover have e: "heaps P' = heaps P" "tls P' = tls P" "next_id P' = next_id P" "init_state P' = init_state P" "tables P' = tables P"
      using sl by (simp_all add: same_life_def)
    ultimately show ?thesis unfolding life_ok_def e using pool_invD(1) [OF inv, unfolded life_ok_def] by blast
  qed
  have al: "a \<notin> L" using pool_spans_not_large [OF inv ap] .
  then have "a \<notin> large_chunks (hdr P) L" by (simp add: large_chunks_def)
  then have "pool_spans P \<union> large_chunks (hdr P) L - {a} = pool_spans P' \<union> large_chunks (hdr P') L"
    using sp eqs(2) by auto
  then have inv': "pool_inv P' L"
    using life lo ci pool_invD(3) [OF inv] by (simp add: pool_inv_def eqs(2))
  have bl: "blocks_live P' L = blocks_live P L"
    using empty by (auto simp: blocks_live_def sp eqs(2))
  have "keeps (blocks_live P L) P P'"
    unfolding keeps_def
  proof (intro ballI conjI)
    fix q assume q: "q \<in> blocks_live P L"
    have "span_of q \<noteq> a"
      using q empty live_of_span [OF inv ap] by blast
    moreover have "q \<in> all_blocks P L" using q live_all_blocks by blast
    ultimately have "extent P q \<inter> words_of (insert a (free_chunks P (caches P))) = {}"
      by (intro extents_safe [OF inv _ _ au])
    moreover have "free_chunks P1 (caches P1) = free_chunks P (caches P)" unfolding free_chunks_def ca1 by (simp add: P1)
    ultimately show "same_at (extent P q) (mem_bytes P) (mem_bytes P')" using hits by (simp add: hits_only_def P1)
    show "memop_usable_size q P' = memop_usable_size q P"
      using sl by (intro usable_cong) (simp_all add: eqs(2) same_life_def)
  qed
  then show "quiet P L P'" using inv' bl sl by (simp add: quiet_def)
qed

lemma span_removed:
  assumes inv: "pool_inv P L" and h: "h \<in> set (heaps P)" and c: "c < MEMOP_CLASS_COUNT" and a: "a \<in> set (spans (hp P h) ! c)"
    and empty: "span_live a (hdr P a) = {}" and gh: "gh = None \<or> gh = Some h"
  shows "quiet P L (heap_chunk_release gh a (heap_list_unlink h c a P))"
  using span_dropped(1) [OF inv h heap_set_class [OF c a] heap_unlink_class [OF pool_heap_ok [OF inv h] c a] _ empty gh]
  by (simp add: heap_list_unlink_def upd_heap_def)

lemma span_removed_full:
  assumes inv: "pool_inv P L" and h: "h \<in> set (heaps P)" and a: "a \<in> set (full_list (hp P h))"
    and empty: "span_live a (hdr P a) = {}" and gh: "gh = None \<or> gh = Some h"
  shows "quiet P L (heap_chunk_release gh a (upd_heap h (\<lambda>H. H\<lparr>full_list := remove1 a (full_list H)\<rparr>) P))"
  using span_dropped(1) [OF inv h heap_set_full [OF a] heap_unlink_full [OF pool_heap_ok [OF inv h] a] _ empty gh]
  by (simp add: upd_heap_def)

lemma span_freed:
  fixes m :: bytes
  assumes inv: "pool_inv P L" and a: "a \<in> pool_spans P" and p: "p \<in> span_live a (hdr P a)"
    and s: "\<And>h c st. span_ok h c st a (hdr P a) \<Longrightarrow> span_ok h c st a s" "span_live a s = span_live a (hdr P a) - {p}"
    and m: "m = write_ptr p v (mem_bytes P)"
  defines "P' \<equiv> P\<lparr>mem_bytes := m, hdr := (hdr P)(a := s)\<rparr>"
  shows "released P L p P' L" "pool_spans P' = pool_spans P"
proof -
  note u = span_update [OF inv a s(1), where m = m, folded P'_def]
  have so: "span_of p = a" using live_of_span(2) [OF inv a p] .
  have "blocks_live P' L = {x \<in> blocks_live P L. span_of x \<noteq> a} \<union> (span_live a (hdr P a) - {p})"
    using u(4) s(2) by simp
  also have "\<dots> = ({x \<in> blocks_live P L. span_of x \<noteq> a} \<union> span_live a (hdr P a)) - {p}"
    using so by blast
  also have "\<dots> = blocks_live P L - {p}" using live_of_span(1) [OF inv a] by simp
  finally have bl: "blocks_live P' L = blocks_live P L - {p}" .
  have "keeps (blocks_live P L - {p}) P P'"
    unfolding P'_def
  proof (rule span_update_keeps [OF inv a s(1), where C = "{p}"])
    show "{p} \<subseteq> span_blocks a (hdr P a)" using p by (simp add: span_live_def)
    show "A \<inter> words_of {p} = {} \<Longrightarrow> same_at A (mem_bytes P) m" for A
      unfolding m by (rule same_at_write_ptr) simp
    show "blocks_live P L - {p} \<subseteq> all_blocks P L" using live_all_blocks by blast
    show "(blocks_live P L - {p}) \<inter> {p} = {}" by auto
  qed
  then show "released P L p P' L" using u(1,3) bl by (simp add: released_def)
  show "pool_spans P' = pool_spans P" by (rule u(2))
qed

lemma stat_free_fields [simp]:
  "hdr (stat_free gh n P) = hdr P" "mem_bytes (stat_free gh n P) = mem_bytes P" "os_log (stat_free gh n P) = os_log P"
  "heaps (stat_free gh n P) = heaps P" "tls (stat_free gh n P) = tls P"
  "spans (hp (stat_free gh n P) h) = spans (hp P h)" "full_list (hp (stat_free gh n P) h) = full_list (hp P h)"
  by (auto simp: stat_free_def upd_heap_def split: option.splits)

lemma stat_free_spans [simp]: "pool_inv P L \<Longrightarrow> pool_spans (stat_free gh n P) = pool_spans P"
  by (rule quiet_same; auto simp: stat_free_def upd_heap_def same_life_def same_chunks_def caches_def fun_eq_iff split: option.splits)

lemma released_quiet_same: "released P L b P1 L1 \<Longrightarrow> quiet P1 L1 P2 \<Longrightarrow> released P L b P2 L1"
  by (rule released_quiet)

lemma free_remote_ok:
  assumes inv: "pool_inv P L" and a: "a \<in> pool_spans P" and p: "p \<in> span_live a (hdr P a)"
  shows "released P L p (free_remote gh a p P) L"
proof -
  let ?s = "(hdr P a)\<lparr>remote_free := p # remote_free (hdr P a)\<rparr>"
  obtain h c st where ok: "span_ok h c st a (hdr P a)" using pool_spans_ok [OF inv a] by blast
  have s: "span_ok h c st a ?s" if "span_ok h c st a (hdr P a)" for h c st by (rule span_ok_free_remote(1) [OF that p])
  note f = span_freed [OF inv a p s span_ok_free_remote(2) [OF ok p] refl]
  have e: "free_remote gh a p P = stat_free gh 1
      (P\<lparr>mem_bytes := write_ptr p (list_link (remote_free (hdr P a))) (mem_bytes P), hdr := (hdr P)(a := ?s)\<rparr>)"
    by (simp add: free_remote_def upd_span_def)
  show ?thesis
    unfolding e using f(1) quiet_stat_free released_quiet by (metis released_def)
qed

lemma free_local_ok:
  assumes inv: "pool_inv P L" and h: "h \<in> set (heaps P)" and a: "a \<in> heap_set (hp P h)" and p: "p \<in> span_live a (hdr P a)"
  shows "released P L p (free_local h a p P) L"
proof -
  let ?s = "(hdr P a)\<lparr>local_free := p # local_free (hdr P a), sp_used := sub_u32 (sp_used (hdr P a)) 1\<rparr>"
  have ap: "a \<in> pool_spans P" by (rule pool_spans_heap [OF h a])
  obtain c st where ok: "span_ok h c st a (hdr P a)" using heap_set_ok [OF pool_heap_ok [OF inv h] a] by blast
  have s: "span_ok h c st a ?s" if "span_ok h c st a (hdr P a)" for h c st by (rule span_ok_free_local(1) [OF that p])
  define P2 where "P2 = P\<lparr>mem_bytes := write_ptr p (list_link (local_free (hdr P a))) (mem_bytes P), hdr := (hdr P)(a := ?s)\<rparr>"
  have f: "released P L p P2 L" "pool_spans P2 = pool_spans P"
    using span_freed [OF inv ap p s span_ok_free_local(2) [OF ok p] refl] by (simp_all add: P2_def)
  have inv2: "pool_inv P2 L" using f(1) by (simp add: released_def)
  define P3 where "P3 = stat_free (Some h) 0 P2"
  have q3: "quiet P2 L P3" unfolding P3_def by (rule quiet_stat_free [OF inv2])
  have inv3: "pool_inv P3 L" by (rule quiet_inv [OF q3])
  have r3: "released P L p P3 L" by (rule released_quiet [OF f(1) q3])
  have h3: "h \<in> set (heaps P3)" "a \<in> heap_set (hp P3 h)"
    using h a heap_set_cong [of "hp P3 h" "hp P h"] by (simp_all add: P3_def P2_def)
  note ok3 = pool_heap_ok [OF inv3 h3(1)]
  let ?c = "class_id (hdr P3 a)"
  have e: "free_local h a p P = (if sp_state (hdr P3 a) = SPAN_FULL then heap_list_insert_head h ?c a (heap_full_unlink h a P3)
      else if sp_used (hdr P3 a) = 0 \<and> spans (hp P3 h) ! ?c \<noteq> [a] then heap_chunk_release (Some h) a (heap_list_unlink h ?c a P3)
      else P3)"
    by (simp add: free_local_def P3_def P2_def upd_span_def Let_def)
  show ?thesis
  proof (cases "sp_state (hdr P3 a) = SPAN_FULL")
    case True
    then have "a \<in> set (full_list (hp P3 h))" using heap_set_is_full(1) [OF ok3 h3(2)] by simp
    then show ?thesis using full_to_class(1) [OF inv3 h3(1)] r3 released_quiet True by (simp add: e)
  next
    case False
    show ?thesis
    proof (cases "sp_used (hdr P3 a) = 0 \<and> spans (hp P3 h) ! ?c \<noteq> [a]")
      case True
      obtain c' st' where ok': "span_ok h c' st' a (hdr P3 a)" using heap_set_ok [OF ok3 h3(2)] by blast
      have "st' = SPAN_AVAILABLE"
        using heap_set_cases [OF ok3 h3(2)] False by (metis span_okD(4) ok')
      then have av: "sp_state (hdr P3 a) = SPAN_AVAILABLE" using span_okD(4) [OF ok'] by simp
      note cl = heap_set_avail [OF ok3 h3(2) av]
      have "card (span_live a (hdr P3 a)) = 0" using span_used_live [OF ok'] True by simp
      then have em: "span_live a (hdr P3 a) = {}" by (simp add: span_live_def span_blocks_def)
      show ?thesis
        using span_removed [OF inv3 h3(1) cl(2,1) em, of "Some h"] r3 released_quiet True False by (simp add: e)
    next
      case nr: False
      show ?thesis unfolding e if_not_P [OF False] if_not_P [OF nr] by (rule r3)
    qed
  qed
qed

lemma large_removed:
  assumes inv: "pool_inv P L" and a: "a \<in> L" and st: "chunk_step h P P'" and h: "h \<in> set (heaps P) \<or> hp P' = hp P"
    and ci: "caches_inv P' (caches P') (pool_spans P \<union> large_chunks (hdr P) (L - {a})) (large_regions (hdr P) (L - {a}))"
    and mem: "\<And>q. q \<in> blocks_live P L - {a + SPAN_HEADER} \<Longrightarrow> same_at (extent P q) (mem_bytes P) (mem_bytes P')"
  shows "released P L (a + SPAN_HEADER) P' (L - {a})"
proof -
  have eqs: "heaps P' = heaps P" "hdr P' = hdr P" "tables P' = tables P" and sl: "same_life P P'"
    using st by (simp_all add: chunk_step_def same_life_def)
  note l = lists_ok_same_lists [OF pool_invD(2) [OF inv], of "hp P'"]
  have lo: "lists_ok (set (heaps P)) (hp P') (hdr P)" by (rule l) (use st in \<open>simp_all add: chunk_step_def\<close>)
  have sp: "pool_spans P' = pool_spans P" unfolding pool_spans_def eqs by (rule l) (use st in \<open>simp_all add: chunk_step_def\<close>)
  have life: "life_ok P'"
  proof -
    have "local_cache (hp P' x) = []" if x: "x \<notin> set (heaps P)" for x
    proof -
      have "hp P' x = hp P x" using st x h by (cases "x = h") (auto simp: chunk_step_def)
      then show ?thesis using pool_invD(1) [OF inv] x by (simp add: life_ok_def)
    qed
    moreover have e: "heaps P' = heaps P" "tls P' = tls P" "next_id P' = next_id P" "init_state P' = init_state P" "tables P' = tables P"
      using sl by (simp_all add: same_life_def)
    ultimately show ?thesis unfolding life_ok_def e using pool_invD(1) [OF inv, unfolded life_ok_def] by blast
  qed
  have "large_ok (hdr P) (L - {a})" using pool_invD(3) [OF inv] by (simp add: large_ok_def)
  then have inv': "pool_inv P' (L - {a})" using life lo ci by (simp add: pool_inv_def eqs sp)
  have lso: "span_of (b + SPAN_HEADER) = b" if "b \<in> L" for b
    using large_block_usable(1) [OF pool_invD(3) [OF inv] that] .
  have "a + SPAN_HEADER \<notin> span_live x (hdr P x)" if x: "x \<in> pool_spans P" for x
    using live_of_span(2) [OF inv x] lso [OF a] pool_spans_not_large [OF inv x] a by metis
  then have "blocks_live P' (L - {a}) = blocks_live P L - {a + SPAN_HEADER}"
    by (auto simp: blocks_live_def sp eqs)
  moreover have "keeps (blocks_live P L - {a + SPAN_HEADER}) P P'"
    using mem by (auto simp: keeps_def eqs intro!: usable_cong)
  ultimately show ?thesis using inv' sl by (simp add: released_def)
qed

lemma free_large_ok:
  assumes inv: "pool_inv P L" and a: "a \<in> L" and gh: "gh = None \<or> gh = Some h \<and> h \<in> set (heaps P)"
  shows "released P L (a + SPAN_HEADER) (free_large gh a P) (L - {a})"
proof -
  define P1 where "P1 = stat_free gh 0 P"
  have q1: "quiet P L P1" unfolding P1_def by (rule quiet_stat_free [OF inv])
  have inv1: "pool_inv P1 L" by (rule quiet_inv [OF q1])
  have h1: "hdr P1 = hdr P" "heaps P1 = heaps P" by (simp_all add: P1_def)
  have "released P1 L (a + SPAN_HEADER) (free_large gh a P) (L - {a})"
  proof (cases "block_count (hdr P a) = 1")
    case True
    then have e: "free_large gh a P = heap_chunk_release gh a P1" by (simp add: free_large_def P1_def Let_def)
    have au: "a \<in> pool_spans P1 \<union> large_chunks (hdr P1) L" using True a by (simp add: large_chunks_def h1)
    define h' where "h' = (case gh of None \<Rightarrow> 0 | Some x \<Rightarrow> x)"
    have h': "gh = None \<or> gh = Some h'" "gh = None \<or> h' \<in> set (heaps P1)"
    proof -
      show "gh = None \<or> gh = Some h'" by (cases gh) (simp_all add: h'_def)
      show "gh = None \<or> h' \<in> set (heaps P1)"
      proof (cases gh)
        case (Some x)
        then have "x = h" "h \<in> set (heaps P)" using gh by auto
        then show ?thesis by (simp add: h1(2) h'_def Some)
      qed simp
    qed
    note r = heap_chunk_release_ok [OF pool_invD(4) [OF inv1] au h'(1)]
    have sn: "a \<notin> pool_spans P1" using pool_spans_not_large [OF inv1] a by blast
    show ?thesis
      unfolding e
    proof (rule large_removed [OF inv1 a r(1)])
      show "h' \<in> set (heaps P1) \<or> hp (heap_chunk_release gh a P1) = hp P1"
      proof (cases gh)
        case None
        have "pool_frame P1 (chunk_release_global a P1)"
          using chunk_release_global_caches(2) [OF pool_invD(4) [OF inv1] au] .
        then have "ChunkPool.more (chunk_release_global a P1) = ChunkPool.more P1" by (simp add: pool_frame_def)
        from more_fields(2) [OF this] show ?thesis by (simp add: None heap_chunk_release_def chunk_release_def)
      qed (use h' in auto)
      have "pool_spans P1 \<union> large_chunks (hdr P1) L - {a} = pool_spans P1 \<union> large_chunks (hdr P1) (L - {a})"
        using sn by (auto simp: large_chunks_def)
      moreover have "large_regions (hdr P1) L = large_regions (hdr P1) (L - {a})"
        using True by (auto simp: large_regions_def h1)
      ultimately show "caches_inv (heap_chunk_release gh a P1) (caches (heap_chunk_release gh a P1))
          (pool_spans P1 \<union> large_chunks (hdr P1) (L - {a})) (large_regions (hdr P1) (L - {a}))"
        using r(2) by simp
      fix q assume q: "q \<in> blocks_live P1 L - {a + SPAN_HEADER}"
      then have qa: "q \<in> all_blocks P1 L" using live_all_blocks by blast
      have "span_of q \<noteq> a"
        using block_cases [OF inv1 qa] q sn by blast
      then show "same_at (extent P1 q) (mem_bytes P1) (mem_bytes (heap_chunk_release gh a P1))"
        using r(3) extents_safe [OF inv1 qa _ au] by (simp add: hits_only_def)
    qed
  next
    case False
    let ?n = "block_count (hdr P a) * SPAN_SIZE"
    have e: "free_large gh a P = P1\<lparr>os_log := span_os_free a ?n (os_log P1)\<rparr>"
      using False by (simp add: free_large_def P1_def Let_def)
    have lr: "(a, ?n) \<in> large_regions (hdr P1) L" using False a by (simp add: large_regions_def h1)
    show ?thesis
      unfolding e
    proof (rule large_removed [OF inv1 a, of 0])
      show "chunk_step 0 P1 (P1\<lparr>os_log := span_os_free a ?n (os_log P1)\<rparr>)"
        by (simp add: chunk_step_def same_life_def)
      have "large_chunks (hdr P1) L = large_chunks (hdr P1) (L - {a})" "large_regions (hdr P1) L - {(a, ?n)} = large_regions (hdr P1) (L - {a})"
        using False by (auto simp: large_chunks_def large_regions_def h1)
      moreover have "caches (P1\<lparr>os_log := span_os_free a ?n (os_log P1)\<rparr>) = caches P1" by (simp add: caches_def)
      ultimately show "caches_inv (P1\<lparr>os_log := span_os_free a ?n (os_log P1)\<rparr>)
          (caches (P1\<lparr>os_log := span_os_free a ?n (os_log P1)\<rparr>))
          (pool_spans P1 \<union> large_chunks (hdr P1) (L - {a})) (large_regions (hdr P1) (L - {a}))"
        using caches_inv_remove_region [OF pool_invD(4) [OF inv1] lr] by simp
    qed simp_all
  qed
  then show ?thesis by (rule quiet_released [OF q1])
qed

definition free_spec :: "MemPool \<Rightarrow> addr set \<Rightarrow> addr \<Rightarrow> MemPool \<Rightarrow> addr set \<Rightarrow> bool" where
  "free_spec P L p P' L' \<longleftrightarrow>
     pool_inv P' L' \<and> blocks_live P' L' = blocks_live P L - {p} \<and> keeps (blocks_live P L - {p}) P P'"

lemma block_not_null: "pool_inv P L \<Longrightarrow> p \<in> blocks_live P L \<Longrightarrow> 0 < p"
  using block_home(3) live_all_blocks by (metis add_gr_0 le_zero_eq not_gr_zero subsetD zero_less_numeral)

lemma memop_free_raw_released:
  assumes inv: "pool_inv P L" and p: "p \<in> blocks_live P L"
  obtains L' where "released P L p (memop_free_raw t p P) L'"
proof -
  let ?a = "span_of p" and ?gh = "tls P t"
  have p0: "p \<noteq> 0" using block_not_null [OF inv p] by simp
  have tl: "?gh = Some h \<Longrightarrow> h \<in> set (heaps P)" for h
    using pool_invD(1) [OF inv] by (auto simp: life_ok_def)
  have pa: "p \<in> all_blocks P L" using p live_all_blocks by blast
  from block_cases [OF inv pa] show thesis
  proof
    assume l: "?a \<in> L \<and> p = ?a + SPAN_HEADER"
    then have "class_id (hdr P ?a) = CLASS_LARGE" using pool_invD(3) [OF inv] by (simp add: large_ok_def)
    then have e: "memop_free_raw t p P = free_large ?gh ?a P" using p0 by (simp add: memop_free_raw_def Let_def)
    have "released P L (?a + SPAN_HEADER) (free_large ?gh ?a P) (L - {?a})"
    proof (rule free_large_ok [OF inv])
      show "?a \<in> L" using l by blast
      show "?gh = None \<or> ?gh = Some (the ?gh) \<and> the ?gh \<in> set (heaps P)" using tl by (cases ?gh) simp_all
    qed
    then show thesis using that l e by metis
  next
    assume s: "?a \<in> pool_spans P \<and> p \<in> span_blocks ?a (hdr P ?a)"
    then have pl: "p \<in> span_live ?a (hdr P ?a)"
      using p live_of_span(1) [OF inv, of ?a] by blast
    obtain h where h: "h \<in> set (heaps P)" "?a \<in> heap_set (hp P h)" "sp_owner (hdr P ?a) = Some h"
      using spans_of_owner [OF pool_invD(2) [OF inv]] s unfolding pool_spans_def by metis
    obtain c st where ok: "span_ok h c st ?a (hdr P ?a)" using heap_set_ok [OF pool_heap_ok [OF inv h(1)] h(2)] by blast
    have nl: "class_id (hdr P ?a) \<noteq> CLASS_LARGE" by (rule span_ok_stride(5) [OF ok])
    show thesis
    proof (cases "?gh = Some h")
      case True
      then have "memop_free_raw t p P = free_local h ?a p P" using p0 nl h(3) by (simp add: memop_free_raw_def Let_def)
      with free_local_ok [OF inv h(1,2) pl] that show thesis by metis
    next
      case False
      then have "memop_free_raw t p P = free_remote ?gh ?a p P" using p0 nl h(3) by (simp add: memop_free_raw_def Let_def)
      with free_remote_ok [OF inv _ pl] s that show thesis by metis
    qed
  qed
qed

lemma memop_free_raw_ok:
  assumes "pool_inv P L" "p \<in> blocks_live P L"
  obtains L' where "free_spec P L p (memop_free_raw t p P) L'"
  using memop_free_raw_released [OF assms, of t] by (metis free_spec_def released_def)

end
