(* ===== verification/Pool_Properties.thy ===== *)
theory Pool_Properties
  imports Pool_Correct
begin

text \<open>
  The operations built on allocation and free (reallocation, zeroed allocation, buffers,
  explicit purge, thread exit) and the properties of the allocator as a whole.
\<close>

section \<open>Writes into blocks\<close>

lemma pool_inv_bytes: "pool_inv (P\<lparr>mem_bytes := m\<rparr>) L \<longleftrightarrow> pool_inv P L"
proof -
  have "caches_inv (P\<lparr>mem_bytes := m\<rparr>) lc u X = caches_inv P lc u X" for lc u X
    by (simp add: caches_inv_def chunks_inv_def)
  then show ?thesis
    by (simp add: pool_inv_def life_ok_def pool_spans_def caches_def)
qed

lemma blocks_live_bytes [simp]: "blocks_live (P\<lparr>mem_bytes := m\<rparr>) L = blocks_live P L"
  by (simp add: blocks_live_def pool_spans_def)

lemma usable_bytes [simp]: "memop_usable_size q (P\<lparr>mem_bytes := m\<rparr>) = memop_usable_size q P"
  by (simp add: memop_usable_size_def Let_def)

lemma extent_bytes [simp]: "extent (P\<lparr>mem_bytes := m\<rparr>) q = extent P q"
  by (simp add: extent_def)

text \<open>Writing inside one live block leaves the others alone.\<close>

lemma write_in_block:
  assumes inv: "pool_inv P L" and p: "p \<in> blocks_live P L"
    and m: "\<And>A. A \<inter> extent P p = {} \<Longrightarrow> same_at A (mem_bytes P) m"
  shows "keeps (blocks_live P L - {p}) P (P\<lparr>mem_bytes := m\<rparr>)"
  unfolding keeps_def
proof (intro ballI conjI)
  fix q assume q: "q \<in> blocks_live P L - {p}"
  then have "extent P q \<inter> extent P p = {}"
    using extents_disjoint [OF inv, of q p] p live_all_blocks by blast
  then show "same_at (extent P q) (mem_bytes P) (mem_bytes (P\<lparr>mem_bytes := m\<rparr>))" using m by simp
qed simp

lemma range_in_extent: "n \<le> memop_usable_size p P \<Longrightarrow> {p..<p + n} \<subseteq> extent P p"
  by (auto simp: extent_def)

section \<open>Zeroed allocation\<close>

definition calloc_spec :: "MemPool \<Rightarrow> addr set \<Rightarrow> nat \<Rightarrow> addr option \<Rightarrow> MemPool \<Rightarrow> addr set \<Rightarrow> bool" where
  "calloc_spec P L n r P' L' \<longleftrightarrow> alloc_spec P L n r P' L' \<and>
     (\<forall>b. r = Some b \<longrightarrow> (\<forall>i < n. mem_bytes P' (b + i) = 0))"

lemma memop_calloc_raw_ok:
  assumes inv: "pool_inv P L" and law: "mmap_law (env_mmap E)" and sz: "count * sz \<le> max_request"
    and e: "memop_calloc_raw E t count sz P = (r, P')"
  obtains L' where "calloc_spec P L (count * sz) r P' L'"
proof (cases "sz \<noteq> 0 \<and> count > (2 ^ 64 - 1) div sz")
  case True
  then have "r = None" "P' = P" using e by (auto simp: memop_calloc_raw_def)
  then have "calloc_spec P L (count * sz) r P' L" using inv by (simp add: calloc_spec_def alloc_spec_def)
  then show thesis by (rule that)
next
  case False
  have t: "(count * sz) mod 2 ^ 64 = count * sz"
    using sz by (intro mod_less) (simp add: max_request_def)
  obtain r1 P1 where a: "memop_alloc_raw E t (count * sz) P = (r1, P1)" by force
  obtain L' where s: "alloc_spec P L (count * sz) r1 P1 L'" by (rule memop_alloc_raw_ok [OF inv law sz a])
  show thesis
  proof (cases r1)
    case None
    then have "r = None" "P' = P1" using e False a unfolding memop_calloc_raw_def Let_def t by auto
    then show thesis using that [of L'] s None by (simp add: calloc_spec_def)
  next
    case (Some b)
    let ?m = "memset_bytes b 0 (count * sz) (mem_bytes P1)"
    have r: "r = Some b" "P' = P1\<lparr>mem_bytes := ?m\<rparr>"
      using e False a Some unfolding memop_calloc_raw_def Let_def t by auto
    have s1: "pool_inv P1 L'" "b \<notin> blocks_live P L" "blocks_live P1 L' = insert b (blocks_live P L)"
      "count * sz \<le> memop_usable_size b P1" "keeps (blocks_live P L) P P1"
      using s Some by (simp_all add: alloc_spec_def)
    have "keeps (blocks_live P1 L' - {b}) P1 P'"
      unfolding r(2)
    proof (rule write_in_block [OF s1(1)])
      show "b \<in> blocks_live P1 L'" using s1(3) by simp
      show "A \<inter> extent P1 b = {} \<Longrightarrow> same_at A (mem_bytes P1) ?m" for A
        using range_in_extent [OF s1(4)] by (intro same_at_memset) blast
    qed
    then have "keeps (blocks_live P L) P P'"
      using s1(2,3,5) by (auto intro: keeps_trans)
    then have "calloc_spec P L (count * sz) r P' L'"
      using s1 r by (simp add: calloc_spec_def alloc_spec_def pool_inv_bytes memset_bytes_def)
    then show thesis by (rule that)
  qed
qed

section \<open>Reallocation\<close>

definition realloc_spec :: "MemPool \<Rightarrow> addr set \<Rightarrow> addr \<Rightarrow> nat \<Rightarrow> addr option \<Rightarrow> MemPool \<Rightarrow> addr set \<Rightarrow> bool" where
  "realloc_spec P L p sz r P' L' \<longleftrightarrow>
     pool_inv P' L' \<and> keeps (blocks_live P L - {p}) P P' \<and>
     (case r of
        None \<Rightarrow> if sz = 0 then blocks_live P' L' = blocks_live P L - {p}
               else blocks_live P' L' = blocks_live P L \<and> keeps (blocks_live P L) P P'
      | Some np \<Rightarrow> np \<notin> blocks_live P L - {p} \<and> blocks_live P' L' = insert np (blocks_live P L - {p}) \<and>
          sz \<le> memop_usable_size np P' \<and>
          (\<forall>i < min sz (memop_usable_size p P). mem_bytes P' (np + i) = mem_bytes P (p + i)))"

lemma MemClassSizes_mono: "i \<le> j \<Longrightarrow> j < MEMOP_CLASS_COUNT \<Longrightarrow> MemClassSizes ! i \<le> MemClassSizes ! j"
  using sorted_wrt_nth_less [OF sorted_MemClassSizes, of i j] by (cases "i = j") auto

lemma live_span_kind:
  assumes inv: "pool_inv P L" and p: "p \<in> blocks_live P L"
  shows "(\<exists>h c st. span_ok h c st (span_of p) (hdr P (span_of p)) \<and> memop_usable_size p P = MemClassSizes ! c \<and>
      tables P = memop_build_size2class) \<or>
    (class_id (hdr P (span_of p)) = CLASS_LARGE)"
proof -
  have pa: "p \<in> all_blocks P L" using p live_all_blocks by blast
  from block_cases [OF inv pa] show ?thesis
  proof
    assume s: "span_of p \<in> pool_spans P \<and> p \<in> span_blocks (span_of p) (hdr P (span_of p))"
    then obtain h c st where ok: "span_ok h c st (span_of p) (hdr P (span_of p))" using pool_spans_ok [OF inv] by blast
    moreover have "memop_usable_size p P = MemClassSizes ! c"
      using span_block_usable(2) [OF inv, of "span_of p" p] s span_okD(5) [OF ok] by simp
    ultimately show ?thesis using pool_tables [OF inv] s by blast
  qed (use pool_invD(3) [OF inv] in \<open>auto simp: large_ok_def\<close>)
qed

lemma memop_realloc_raw_ok:
  assumes inv: "pool_inv P L" and law: "mmap_law (env_mmap E)" and p: "p = 0 \<or> p \<in> blocks_live P L"
    and sz: "sz \<le> max_request" and e: "memop_realloc_raw E t p sz P = (r, P')"
  obtains L' where "if p = 0 then alloc_spec P L sz r P' L' else realloc_spec P L p sz r P' L'"
proof (cases "p = 0")
  case True
  then have "memop_alloc_raw E t sz P = (r, P')" using e by (simp add: memop_realloc_raw_def)
  then obtain L' where "alloc_spec P L sz r P' L'" by (rule memop_alloc_raw_ok [OF inv law sz])
  then show thesis using that True by simp
next
  case p0: False
  then have p: "p \<in> blocks_live P L" using p by blast
  show thesis
  proof (cases "sz = 0")
    case True
    then have r: "r = None" "P' = memop_free_raw t p P" using e p0 by (simp_all add: memop_realloc_raw_def)
    obtain L' where "free_spec P L p P' L'" using memop_free_raw_ok [OF inv p, of t] r(2) by blast
    then have "realloc_spec P L p sz r P' L'" using r True by (simp add: free_spec_def realloc_spec_def)
    then show thesis using that p0 by simp
  next
    case z: False
    let ?old = "memop_usable_size p P" and ?cls = "class_id (hdr P (span_of p))"
    let ?new = "memop_class_index (tables P) sz"
    show thesis
    proof (cases "(?cls \<noteq> CLASS_LARGE \<and> ?new \<ge> 0 \<and> ?new \<le> int ?cls) \<or> (?cls = CLASS_LARGE \<and> ?new < 0 \<and> sz \<le> ?old)")
      case True
      then have r: "r = Some p" "P' = P" using e p0 z by (auto simp: memop_realloc_raw_def Let_def)
      have "sz \<le> ?old"
      proof (cases "?cls = CLASS_LARGE")
        case False
        then obtain h c st where k: "span_ok h c st (span_of p) (hdr P (span_of p))" "?old = MemClassSizes ! c"
          "tables P = memop_build_size2class" using live_span_kind [OF inv p] by blast
        have n: "0 \<le> ?new" "?new \<le> int c" using True False span_okD(2) [OF k(1)] by auto
        have sm: "sz \<le> MEMOP_MAX_SMALL" using n(1) by (auto simp: memop_class_index_def split: if_splits)
        obtain d where "memop_class_index memop_build_size2class sz = int d" "sz \<le> MemClassSizes ! d"
          using class_index_cases [of sz] z sm by (metis One_nat_def Suc_leI gr_zeroI)
        moreover have "MemClassSizes ! d \<le> MemClassSizes ! c" if "d \<le> c"
          using that span_okD(3) [OF k(1)] by (rule MemClassSizes_mono)
        ultimately show ?thesis using n(2) k(2,3) by auto
      qed (use True in auto)
      then have "realloc_spec P L p sz r P' L" using inv p r by (auto simp: realloc_spec_def)
      then show thesis using that p0 by simp
    next
      case move: False
      obtain r1 P1 where a: "memop_alloc_raw E t sz P = (r1, P1)" by force
      obtain L1 where s: "alloc_spec P L sz r1 P1 L1" by (rule memop_alloc_raw_ok [OF inv law sz a])
      let ?n = "if sz < ?old then sz else ?old"
      have step: "memop_realloc_raw E t p sz P = (case r1 of None \<Rightarrow> (None, P1)
        | Some np \<Rightarrow> (Some np, memop_free_raw t p (P1\<lparr>mem_bytes := memcpy_bytes np p ?n (mem_bytes P1)\<rparr>)))"
        using p0 z move a by (auto simp: memop_realloc_raw_def Let_def split: option.splits)
      show thesis
      proof (cases r1)
        case None
        then have "r = None" "P' = P1" using e step by auto
        then have "realloc_spec P L p sz r P' L1"
          using s None z by (auto simp: realloc_spec_def alloc_spec_def intro: keeps_mono)
        then show thesis using that p0 by simp
      next
        case (Some np)
        define P2 where "P2 = P1\<lparr>mem_bytes := memcpy_bytes np p ?n (mem_bytes P1)\<rparr>"
        have r: "r = Some np" "P' = memop_free_raw t p P2" using e step Some by (auto simp: P2_def)
        have s1: "pool_inv P1 L1" "np \<notin> blocks_live P L" "blocks_live P1 L1 = insert np (blocks_live P L)"
          "sz \<le> memop_usable_size np P1" "keeps (blocks_live P L) P P1"
          using s Some by (simp_all add: alloc_spec_def)
        have n: "?n \<le> memop_usable_size np P1" using s1(4) by auto
        have inv2: "pool_inv P2 L1" "blocks_live P2 L1 = insert np (blocks_live P L)"
          using s1(1,3) by (simp_all add: P2_def pool_inv_bytes)
        have "keeps (blocks_live P1 L1 - {np}) P1 P2"
          unfolding P2_def
        proof (rule write_in_block [OF s1(1)])
          show "np \<in> blocks_live P1 L1" using s1(3) by simp
          show "A \<inter> extent P1 np = {} \<Longrightarrow> same_at A (mem_bytes P1) (memcpy_bytes np p ?n (mem_bytes P1))" for A
            using range_in_extent [OF n] by (intro same_at_memcpy) blast
        qed
        then have k2: "keeps (blocks_live P L) P P2" using s1(2,3,5) by (auto intro: keeps_trans)
        have p2: "p \<in> blocks_live P2 L1" using p inv2(2) by simp
        obtain L2 where f: "free_spec P2 L1 p P' L2" using memop_free_raw_ok [OF inv2(1) p2, of t] r(2) by blast
        have npp: "np \<noteq> p" using s1(2) p by blast
        have lv: "blocks_live P' L2 = insert np (blocks_live P L - {p})"
          using f inv2(2) npp by (auto simp: free_spec_def)
        have k3: "keeps (insert np (blocks_live P L - {p})) P2 P'"
          using f inv2(2) npp by (auto simp: free_spec_def intro: keeps_mono)
        then have us: "sz \<le> memop_usable_size np P'" using s1(4) by (simp add: keeps_def P2_def)
        have content: "mem_bytes P' (np + i) = mem_bytes P (p + i)" if i: "i < min sz ?old" for i
        proof -
          have i': "i < ?n" using i by auto
          have "np + i \<in> extent P2 np" using i' n by (simp add: extent_def P2_def)
          then have "mem_bytes P' (np + i) = mem_bytes P2 (np + i)" using k3 by (simp add: keeps_def same_at_def)
          also have "\<dots> = mem_bytes P1 (p + i)" using i' by (simp add: P2_def memcpy_bytes_def)
          also have "\<dots> = mem_bytes P (p + i)"
            using s1(5) p i by (auto simp: keeps_def same_at_def extent_def)
          finally show ?thesis .
        qed
        have "keeps (blocks_live P L - {p}) P P'"
          using k2 k3 by (auto intro: keeps_trans keeps_mono)
        then have "realloc_spec P L p sz r P' L2"
          using f lv s1(2) us content r(1) by (auto simp: realloc_spec_def free_spec_def)
        then show thesis using that p0 by simp
      qed
    qed
  qed
qed

section \<open>Steps of the chunk layer alone\<close>

lemma chunk_layer_quiet:
  assumes inv: "pool_inv P L" and st: "chunk_step h P P'" and h: "h \<in> set (heaps P) \<or> hp P' = hp P"
    and ci: "caches_inv P' (caches P') (pool_spans P \<union> large_chunks (hdr P) L) (large_regions (hdr P) L)"
    and hits: "hits_only (free_chunks P (caches P)) P P'"
  shows "quiet P L P'" "pool_spans P' = pool_spans P"
proof -
  have eqs: "heaps P' = heaps P" "hdr P' = hdr P" "tables P' = tables P" and sl: "same_life P P'"
    using st by (simp_all add: chunk_step_def same_life_def)
  note l = lists_ok_same_lists [OF pool_invD(2) [OF inv], of "hp P'"]
  have lo: "lists_ok (set (heaps P)) (hp P') (hdr P)" by (rule l) (use st in \<open>simp_all add: chunk_step_def\<close>)
  show sp: "pool_spans P' = pool_spans P" unfolding pool_spans_def eqs by (rule l) (use st in \<open>simp_all add: chunk_step_def\<close>)
  have life: "life_ok P'"
  proof -
    have "local_cache (hp P' x) = []" if x: "x \<notin> set (heaps P)" for x
    proof -
      have "hp P' x = hp P x" using st x h by (cases "x = h") (auto simp: chunk_step_def)
      then show ?thesis using pool_invD(1) [OF inv] x by (simp add: life_ok_def)
    qed
    moreover have e: "heaps P' = heaps P" "tls P' = tls P" "next_id P' = next_id P" "init_state P' = init_state P" "tables P' = tables P"
      using sl by (simp_all add: same_life_def)
    ultimately show ?thesis unfolding life_ok_def e using pool_invD(1) [OF inv, unfolded life_ok_def] by blast
  qed
  have inv': "pool_inv P' L" using life lo ci pool_invD(3) [OF inv] by (simp add: pool_inv_def eqs sp)
  have "keeps (blocks_live P L) P P'"
    unfolding keeps_def
  proof (intro ballI conjI)
    fix q assume "q \<in> blocks_live P L"
    then have "q \<in> all_blocks P L" using live_all_blocks by blast
    then show "same_at (extent P q) (mem_bytes P) (mem_bytes P')"
      using extent_not_free_chunk [OF inv] hits by (simp add: hits_only_def)
    show "memop_usable_size q P' = memop_usable_size q P" by (rule usable_cong) (simp_all add: eqs)
  qed
  moreover have "blocks_live P' L = blocks_live P L" by (simp add: blocks_live_def sp eqs)
  ultimately show "quiet P L P'" using inv' sl by (simp add: quiet_def)
qed

lemma memop_purge_quiet:
  assumes inv: "pool_inv P L"
  shows "quiet P L (memop_purge P)"
proof (cases "init_state P = MEMOP_READY")
  case False
  then show ?thesis using quiet_refl [OF inv] by (simp add: memop_purge_def)
next
  case True
  let ?P = "purge_apply_locked (clk P) True 0 P"
  have c: "chunks_inv P (pool_spans P \<union> large_chunks (hdr P) L \<union> (\<Union>h. set (caches P h))) (large_regions (hdr P) L)"
    and lc: "lc_ok (caches P) (pool_spans P \<union> large_chunks (hdr P) L)"
    using pool_invD(4) [OF inv] by (simp_all add: caches_inv_def)
  have p: "purged P (pool_spans P \<union> large_chunks (hdr P) L \<union> (\<Union>h. set (caches P h))) (large_regions (hdr P) L) ?P"
    by (rule purge_apply_purged [OF c])
  then have m: "ChunkPool.more ?P = ChunkPool.more P" "clk ?P = clk P" by (auto simp: purged_def pool_frame_def)
  note mf = more_fields [OF m(1)]
  have "quiet P L ?P"
  proof (rule chunk_layer_quiet [OF inv, of 0])
    show "chunk_step 0 P ?P" using mf m(2) by (simp add: chunk_step_def same_life_def)
    show "0 \<in> set (heaps P) \<or> hp ?P = hp P" using mf by simp
    have ca: "caches ?P = caches P" using mf by (simp add: caches_def)
    show "caches_inv ?P (caches ?P) (pool_spans P \<union> large_chunks (hdr P) L) (large_regions (hdr P) L)"
      unfolding ca caches_inv_def using p lc by (simp add: purged_def)
    have "words_of (set (span_cache P)) \<subseteq> words_of (free_chunks P (caches P))"
      by (rule words_of_mono) (auto simp: free_chunks_def)
    then show "hits_only (free_chunks P (caches P)) P ?P"
      using p unfolding purged_def hits_only_def by blast
  qed
  then show ?thesis using True by (simp add: memop_purge_def)
qed

section \<open>A thread that ends\<close>

definition with_class :: "nat \<Rightarrow> nat \<Rightarrow> addr list \<Rightarrow> MemPool \<Rightarrow> MemPool" where
  "with_class h c l P = upd_heap h (\<lambda>H. H\<lparr>spans := (spans H)[c := l]\<rparr>) P"

definition with_full :: "nat \<Rightarrow> addr list \<Rightarrow> MemPool \<Rightarrow> MemPool" where
  "with_full h l P = upd_heap h (\<lambda>H. H\<lparr>full_list := l\<rparr>) P"

lemma release_none: "heap_chunk_release None m P = chunk_release_global m P"
  by (simp add: heap_chunk_release_def chunk_release_def)

lemma purge_apply_more:
  "purge_apply_locked now force target (P\<lparr>hp := x\<rparr>) = (purge_apply_locked now force target P)\<lparr>hp := x\<rparr>"
  by (simp add: purge_apply_locked_def split: prod.splits)

lemma memop_purge_locked_more: "memop_purge_locked now (P\<lparr>hp := x\<rparr>) = (memop_purge_locked now P)\<lparr>hp := x\<rparr>"
proof -
  have e: "purge_apply_locked now force t (P\<lparr>hp := x, last_purge_ms := a, cache_avg := b, purging := q\<rparr>) =
      (purge_apply_locked now force t (P\<lparr>last_purge_ms := a, cache_avg := b, purging := q\<rparr>))\<lparr>hp := x\<rparr>" for force t a b q
  proof -
    have "P\<lparr>hp := x, last_purge_ms := a, cache_avg := b, purging := q\<rparr> = P\<lparr>last_purge_ms := a, cache_avg := b, purging := q, hp := x\<rparr>" by simp
    then show ?thesis by (simp only: purge_apply_more)
  qed
  have e': "purge_apply_locked now force t (P\<lparr>hp := x, last_purge_ms := a, cache_avg := b\<rparr>) =
      (purge_apply_locked now force t (P\<lparr>last_purge_ms := a, cache_avg := b\<rparr>))\<lparr>hp := x\<rparr>" for force t a b
  proof -
    have "P\<lparr>hp := x, last_purge_ms := a, cache_avg := b\<rparr> = P\<lparr>last_purge_ms := a, cache_avg := b, hp := x\<rparr>" by simp
    then show ?thesis by (simp only: purge_apply_more)
  qed
  show ?thesis by (simp add: memop_purge_locked_def Let_def e e')
qed

lemma release_global_more: "chunk_release_global m (P\<lparr>hp := x\<rparr>) = (chunk_release_global m P)\<lparr>hp := x\<rparr>"
proof -
  have e: "memop_purge_locked now (P\<lparr>hp := x, mem_bytes := d, span_cache := a, cache_count := b, segments := c\<rparr>) =
      (memop_purge_locked now (P\<lparr>mem_bytes := d, span_cache := a, cache_count := b, segments := c\<rparr>))\<lparr>hp := x\<rparr>" for now a b c d
  proof -
    have "P\<lparr>hp := x, mem_bytes := d, span_cache := a, cache_count := b, segments := c\<rparr> =
        P\<lparr>mem_bytes := d, span_cache := a, cache_count := b, segments := c, hp := x\<rparr>" by simp
    then show ?thesis by (simp only: memop_purge_locked_more)
  qed
  show ?thesis by (simp add: chunk_release_global_def Let_def e)
qed

lemma release_more: "ChunkPool.more (chunk_release_global m P) = ChunkPool.more P"
  by (simp add: chunk_release_global_def Let_def memop_purge_locked_def purge_apply_locked_def split: prod.splits)

lemma release_hp: "hp (chunk_release_global m P) = hp P"
proof -
  have "P\<lparr>hp := hp P\<rparr> = P" by simp
  with release_global_more [where m = m and P = P and x = "hp P"]
  have "chunk_release_global m P = (chunk_release_global m P)\<lparr>hp := hp P\<rparr>" by simp
  then have "hp (chunk_release_global m P) = hp ((chunk_release_global m P)\<lparr>hp := hp P\<rparr>)" by (rule arg_cong)
  then show ?thesis by simp
qed

text \<open>
  Both loops of \<open>memop_on_ended_thread\<close> walk a list of spans that is detached from its
  heap.  The interface of such a walk: \<open>put l\<close> hangs a list \<open>l\<close> back in its place;
  the walk drains each span and either gives its chunk back or keeps it.
\<close>

locale exit_walk =
  fixes h :: nat and scan :: "addr list \<Rightarrow> addr list \<Rightarrow> MemPool \<Rightarrow> addr list \<times> MemPool"
    and add :: "addr \<Rightarrow> addr list \<Rightarrow> addr list" and put :: "addr list \<Rightarrow> MemPool \<Rightarrow> MemPool"
  assumes scan_Nil: "scan [] kept P = (kept, P)"
    and scan_Cons: "scan (a # as) kept P =
      (if sp_used (hdr (snd (span_drain_remote a P)) a) = 0
       then scan as kept (chunk_release_global a (snd (span_drain_remote a P)))
       else scan as (add a kept) (snd (span_drain_remote a P)))"
    and add_set: "set (add a l) = insert a (set l)" "distinct (a # l) \<Longrightarrow> distinct (add a l)"
    and put_drain: "snd (span_drain_remote a (put l P)) = put l (snd (span_drain_remote a P))"
    and put_release: "chunk_release_global a (put l P) = put l (chunk_release_global a P)"
    and put_frame: "heaps (put l P) = heaps P" "hdr (put l P) = hdr P"
    and put_distinct: "pool_inv (put l P) L \<Longrightarrow> h \<in> set (heaps P) \<Longrightarrow> distinct l"
    and put_spans: "pool_inv (put l P) L \<Longrightarrow> h \<in> set (heaps P) \<Longrightarrow> set l \<subseteq> pool_spans (put l P)"
    and put_perm: "pool_inv (put l P) L \<Longrightarrow> h \<in> set (heaps P) \<Longrightarrow> set l' = set l \<Longrightarrow> distinct l' \<Longrightarrow> quiet (put l P) L (put l' P)"
    and put_drop: "pool_inv (put l P) L \<Longrightarrow> h \<in> set (heaps P) \<Longrightarrow> a \<in> set l \<Longrightarrow> span_live a (hdr P a) = {} \<Longrightarrow>
      quiet (put l P) L (chunk_release_global a (put (remove1 a l) P))"
begin

lemma walk_step:
  assumes inv: "pool_inv (put ((a # as) @ kept) P) L" and h: "h \<in> set (heaps P)"
  defines "P1 \<equiv> snd (span_drain_remote a P)"
  shows "heaps P1 = heaps P" "hp P1 = hp P"
    "sp_used (hdr P1 a) = 0 \<Longrightarrow> quiet (put ((a # as) @ kept) P) L (put (as @ kept) (chunk_release_global a P1))"
    "quiet (put ((a # as) @ kept) P) L (put (as @ add a kept) P1)"
proof -
  let ?V = "put ((a # as) @ kept)"
  have ap: "a \<in> pool_spans (?V P)" using put_spans [OF inv h] by auto
  have d: "span_drain_remote a (?V P) = (fst (span_drain_remote a (?V P)), ?V P1)"
    by (simp only: P1_def put_drain [symmetric] prod.collapse)
  note q = drain_quiet [OF inv ap d]
  show hs: "heaps P1 = heaps P" "hp P1 = hp P"
    by (auto simp: P1_def span_drain_remote_def Let_def split: prod.splits)
  have inv1: "pool_inv (?V P1) L" and h1: "h \<in> set (heaps P1)" using quiet_inv(1) [OF q(1)] h hs by simp_all
  have dis: "distinct ((a # as) @ kept)" by (rule put_distinct [OF inv h])
  {
    assume u: "sp_used (hdr P1 a) = 0"
    obtain h' c st where "span_ok h' c st a (hdr (?V P1) a)" using pool_spans_ok [OF inv1] q(2) ap by metis
    moreover have "finite (span_live a (hdr (?V P1) a))" by (simp add: span_live_def span_blocks_def)
    ultimately have "span_live a (hdr P1 a) = {}" using q(4) u by (simp add: put_frame)
    then have "quiet (?V P1) L (chunk_release_global a (put (remove1 a ((a # as) @ kept)) P1))"
      by (intro put_drop [OF inv1 h1]) simp
    then show "quiet (?V P) L (put (as @ kept) (chunk_release_global a P1))"
      using q(1) by (auto simp: put_release intro: quiet_trans)
  }
  have "distinct (add a kept)" by (rule add_set) (use dis in auto)
  then have "quiet (?V P1) L (put (as @ add a kept) P1)"
    using dis by (intro put_perm [OF inv1 h1]) (auto simp: add_set)
  then show "quiet (?V P) L (put (as @ add a kept) P1)" using q(1) by (rule quiet_trans [rotated])
qed

lemma walk_quiet:
  assumes "pool_inv (put (as @ kept) P) L" "h \<in> set (heaps P)" "scan as kept P = (kept', P')"
  shows "quiet (put (as @ kept) P) L (put kept' P') \<and> heaps P' = heaps P \<and> hp P' = hp P"
  using assms
proof (induction as arbitrary: kept P)
  case Nil
  then show ?case by (simp add: scan_Nil quiet_refl)
next
  case (Cons a as)
  let ?P1 = "snd (span_drain_remote a P)"
  note s = walk_step [OF Cons.prems(1,2)]
  have hg: "heaps (chunk_release_global a ?P1) = heaps P" "hp (chunk_release_global a ?P1) = hp P"
  proof -
    show "hp (chunk_release_global a ?P1) = hp P" using s(2) by (simp add: release_hp)
    have "ChunkPool.more (chunk_release_global a ?P1) = ChunkPool.more ?P1" by (rule release_more)
    then show "heaps (chunk_release_global a ?P1) = heaps P" using s(1) more_fields by metis
  qed
  show ?case
  proof (cases "sp_used (hdr ?P1 a) = 0")
    case True
    have e: "scan as kept (chunk_release_global a ?P1) = (kept', P')" using Cons.prems(3) True by (simp add: scan_Cons)
    note q = s(3) [OF True]
    from Cons.IH [OF quiet_inv(1) [OF q] _ e] Cons.prems(2) hg q show ?thesis by (auto intro: quiet_trans)
  next
    case False
    have e: "scan as (add a kept) ?P1 = (kept', P')" using Cons.prems(3) False by (simp add: scan_Cons)
    from Cons.IH [OF quiet_inv(1) [OF s(4)] _ e] Cons.prems(2) s(1,2,4) show ?thesis by (auto intro: quiet_trans)
  qed
qed

end

text \<open>The two lists of a heap are such places.\<close>

lemma heap_class_sets:
  assumes "heap_ok h (H\<lparr>spans := (spans H)[c := l]\<rparr>) hm" "set l' = set l" "distinct l'" "c < MEMOP_CLASS_COUNT"
  shows "heap_ok h (H\<lparr>spans := (spans H)[c := l']\<rparr>) hm"
    "heap_set (H\<lparr>spans := (spans H)[c := l']\<rparr>) = heap_set (H\<lparr>spans := (spans H)[c := l]\<rparr>)"
proof -
  have len: "length (spans H) = MEMOP_CLASS_COUNT" using assms(1) by (simp add: heap_ok_def)
  have e: "set ((spans H)[c := l'] ! c') = set ((spans H)[c := l] ! c')"
    "distinct ((spans H)[c := l] ! c') \<Longrightarrow> distinct ((spans H)[c := l'] ! c')" if "c' < MEMOP_CLASS_COUNT" for c'
    using that assms(2,3) len by (cases "c' = c"; simp)+
  then show "heap_ok h (H\<lparr>spans := (spans H)[c := l']\<rparr>) hm" using assms(1) by (simp add: heap_ok_def)
  show "heap_set (H\<lparr>spans := (spans H)[c := l']\<rparr>) = heap_set (H\<lparr>spans := (spans H)[c := l]\<rparr>)"
    unfolding heap_set_def using e(1) by simp
qed

lemma heap_full_sets:
  assumes "heap_ok h (H\<lparr>full_list := l\<rparr>) hm" "set l' = set l" "distinct l'"
  shows "heap_ok h (H\<lparr>full_list := l'\<rparr>) hm" "heap_set (H\<lparr>full_list := l'\<rparr>) = heap_set (H\<lparr>full_list := l\<rparr>)"
  using assms by (auto simp: heap_ok_def heap_set_def)

lemma with_class_twice: "with_class h c l (with_class h c l' P) = with_class h c l P"
  by (simp add: with_class_def upd_heap_def)

lemma with_full_twice: "with_full h l (with_full h l' P) = with_full h l P"
  by (simp add: with_full_def upd_heap_def)

lemma swap_lists:
  assumes inv: "pool_inv P L" and h: "h \<in> set (heaps P)"
    and H: "heap_ok h H (hdr P)" "heap_set H = heap_set (hp P h)" "local_cache H = local_cache (hp P h)"
  shows "quiet P L (P\<lparr>hp := (hp P)(h := H)\<rparr>)"
proof (cases "heap_set (hp P h) = {}")
  case False
  then obtain a where a: "a \<in> heap_set (hp P h)" by blast
  have "heap_ok h H ((hdr P)(a := hdr P a))" using H(1) by simp
  from span_move(1) [OF inv h a this H(2,3)] show ?thesis by simp
next
  case True
  note l = lists_ok_upd [OF pool_invD(2) [OF inv] h H(1)]
  have l1: "lists_ok (set (heaps P)) ((hp P)(h := H)) (hdr P)" by (rule l) simp
  have "spans_of (set (heaps P)) ((hp P)(h := H)) = spans_of (set (heaps P)) (hp P)"
    using l(2) H(2) True by simp
  then have sp: "pool_spans (P\<lparr>hp := (hp P)(h := H)\<rparr>) = pool_spans P" by (simp add: pool_spans_def)
  have ca: "caches (P\<lparr>hp := (hp P)(h := H)\<rparr>) = caches P" using H(3) by (auto simp: caches_def)
  have sl: "same_life P (P\<lparr>hp := (hp P)(h := H)\<rparr>)" by (simp add: same_life_def)
  have "caches_inv (P\<lparr>hp := (hp P)(h := H)\<rparr>) (caches P) (pool_spans P \<union> large_chunks (hdr P) L) (large_regions (hdr P) L)"
    by (rule caches_inv_cong [OF pool_invD(4) [OF inv]]) simp_all
  then have inv': "pool_inv (P\<lparr>hp := (hp P)(h := H)\<rparr>) L"
    using pool_invD [OF inv] l1 life_ok_cong [OF _ sl ca] unfolding pool_inv_def sp ca by simp
  moreover have "memop_usable_size q (P\<lparr>hp := (hp P)(h := H)\<rparr>) = memop_usable_size q P" for q by (rule usable_cong) simp_all
  ultimately show ?thesis using sl by (simp add: quiet_def keeps_def blocks_live_def sp)
qed

lemma with_class_heap: "hp (with_class h c l P) = (hp P)(h := (hp P h)\<lparr>spans := (spans (hp P h))[c := l]\<rparr>)"
  by (simp add: with_class_def upd_heap_def)

lemma with_full_heap: "hp (with_full h l P) = (hp P)(h := (hp P h)\<lparr>full_list := l\<rparr>)"
  by (simp add: with_full_def upd_heap_def)

lemma with_frame [simp]:
  "heaps (with_class h c l P) = heaps P" "hdr (with_class h c l P) = hdr P"
  "heaps (with_full h l P) = heaps P" "hdr (with_full h l P) = hdr P"
  by (simp_all add: with_class_def with_full_def upd_heap_def)

lemma put_drain_hp: "snd (span_drain_remote a (P\<lparr>hp := x\<rparr>)) = (snd (span_drain_remote a P))\<lparr>hp := x\<rparr>"
  by (simp add: span_drain_remote_def Let_def split: prod.splits)

lemma drain_hp: "hp (snd (span_drain_remote a P)) = hp P"
  by (simp add: span_drain_remote_def Let_def split: prod.splits)

lemma with_step:
  "snd (span_drain_remote a (with_class h c l P)) = with_class h c l (snd (span_drain_remote a P))"
  "chunk_release_global a (with_class h c l P) = with_class h c l (chunk_release_global a P)"
  "snd (span_drain_remote a (with_full h l P)) = with_full h l (snd (span_drain_remote a P))"
  "chunk_release_global a (with_full h l P) = with_full h l (chunk_release_global a P)"
  by (simp_all only: with_class_def with_full_def upd_heap_def put_drain_hp release_global_more drain_hp release_hp)

lemma spans_len: "pool_inv P L \<Longrightarrow> h \<in> set (heaps P) \<Longrightarrow> length (spans (hp P h)) = MEMOP_CLASS_COUNT"
  using pool_heap_ok by (auto simp: heap_ok_def)

lemma class_list:
  assumes "pool_inv (with_class h c l P) L" "h \<in> set (heaps P)" "c < MEMOP_CLASS_COUNT"
  shows "spans (hp (with_class h c l P) h) ! c = l"
proof -
  have "length (spans (hp (with_class h c l P) h)) = MEMOP_CLASS_COUNT"
    using spans_len [OF assms(1)] assms(2) by simp
  then show ?thesis using assms(3) by (simp add: with_class_heap)
qed

lemma class_facts:
  assumes inv: "pool_inv (with_class h c l P) L" and h: "h \<in> set (heaps P)" and c: "c < MEMOP_CLASS_COUNT"
  shows "distinct l" "set l \<subseteq> pool_spans (with_class h c l P)"
    "set l' = set l \<Longrightarrow> distinct l' \<Longrightarrow> quiet (with_class h c l P) L (with_class h c l' P)"
    "a \<in> set l \<Longrightarrow> span_live a (hdr P a) = {} \<Longrightarrow>
      quiet (with_class h c l P) L (chunk_release_global a (with_class h c (remove1 a l) P))"
proof -
  let ?V = "with_class h c l P"
  have h': "h \<in> set (heaps ?V)" using h by simp
  note cl = class_list [OF inv h c]
  have ok: "heap_ok h (hp ?V h) (hdr ?V)" by (rule pool_heap_ok [OF inv h'])
  show "distinct l" using ok cl c by (metis heap_ok_def)
  show "set l \<subseteq> pool_spans ?V"
    using pool_spans_heap [OF h'] heap_set_class [OF c, of _ "hp ?V h"] by (auto simp: cl)
  show "quiet ?V L (with_class h c l' P)" if "set l' = set l" "distinct l'"
  proof -
    let ?H = "(hp P h)\<lparr>spans := (spans (hp P h))[c := l']\<rparr>"
    have ok': "heap_ok h ((hp P h)\<lparr>spans := (spans (hp P h))[c := l]\<rparr>) (hdr ?V)" using ok by (simp add: with_class_heap)
    note e = heap_class_sets [OF ok' that c]
    have "quiet ?V L (?V\<lparr>hp := (hp ?V)(h := ?H)\<rparr>)"
      by (rule swap_lists [OF inv h']) (use e in \<open>simp_all add: with_class_heap\<close>)
    moreover have "?V\<lparr>hp := (hp ?V)(h := ?H)\<rparr> = with_class h c l' P" by (simp add: with_class_def upd_heap_def)
    ultimately show ?thesis by simp
  qed
  show "quiet ?V L (chunk_release_global a (with_class h c (remove1 a l) P))"
    if a: "a \<in> set l" "span_live a (hdr P a) = {}"
  proof -
    have "quiet ?V L (heap_chunk_release None a (heap_list_unlink h c a ?V))"
      by (rule span_removed [OF inv h' c]) (use a cl in simp_all)
    moreover have "heap_list_unlink h c a ?V = with_class h c (remove1 a l) P"
      using cl by (simp add: heap_list_unlink_def with_class_def upd_heap_def)
    ultimately show ?thesis by (simp add: release_none)
  qed
qed

lemma full_facts:
  assumes inv: "pool_inv (with_full h l P) L" and h: "h \<in> set (heaps P)"
  shows "distinct l" "set l \<subseteq> pool_spans (with_full h l P)"
    "set l' = set l \<Longrightarrow> distinct l' \<Longrightarrow> quiet (with_full h l P) L (with_full h l' P)"
    "a \<in> set l \<Longrightarrow> span_live a (hdr P a) = {} \<Longrightarrow>
      quiet (with_full h l P) L (chunk_release_global a (with_full h (remove1 a l) P))"
proof -
  let ?V = "with_full h l P"
  have h': "h \<in> set (heaps ?V)" using h by simp
  have fl: "full_list (hp ?V h) = l" by (simp add: with_full_heap)
  have ok: "heap_ok h (hp ?V h) (hdr ?V)" by (rule pool_heap_ok [OF inv h'])
  show "distinct l" using ok fl by (metis heap_ok_def)
  show "set l \<subseteq> pool_spans ?V"
    using pool_spans_heap [OF h'] heap_set_full [of _ "hp ?V h"] by (auto simp: fl)
  show "quiet ?V L (with_full h l' P)" if "set l' = set l" "distinct l'"
  proof -
    let ?H = "(hp P h)\<lparr>full_list := l'\<rparr>"
    have ok': "heap_ok h ((hp P h)\<lparr>full_list := l\<rparr>) (hdr ?V)" using ok by (simp add: with_full_heap)
    note e = heap_full_sets [OF ok' that]
    have "quiet ?V L (?V\<lparr>hp := (hp ?V)(h := ?H)\<rparr>)"
      by (rule swap_lists [OF inv h']) (use e in \<open>simp_all add: with_full_heap\<close>)
    moreover have "?V\<lparr>hp := (hp ?V)(h := ?H)\<rparr> = with_full h l' P" by (simp add: with_full_def upd_heap_def)
    ultimately show ?thesis by simp
  qed
  show "quiet ?V L (chunk_release_global a (with_full h (remove1 a l) P))"
    if a: "a \<in> set l" "span_live a (hdr P a) = {}"
  proof -
    have "quiet ?V L (heap_chunk_release None a (upd_heap h (\<lambda>H. H\<lparr>full_list := remove1 a (full_list H)\<rparr>) ?V))"
      by (rule span_removed_full [OF inv h']) (use a fl in simp_all)
    moreover have "upd_heap h (\<lambda>H. H\<lparr>full_list := remove1 a (full_list H)\<rparr>) ?V = with_full h (remove1 a l) P"
      by (simp add: with_full_def upd_heap_def)
    ultimately show ?thesis by (simp add: release_none)
  qed
qed

lemma mod_class: "c mod MEMOP_CLASS_COUNT < MEMOP_CLASS_COUNT"
  by (simp add: MEMOP_CLASS_COUNT_def)

interpretation class_walk: exit_walk h ended_class Cons "with_class h (c mod MEMOP_CLASS_COUNT)" for h c
proof unfold_locales
  show "chunk_release_global a (with_class h (c mod MEMOP_CLASS_COUNT) l P) = with_class h (c mod MEMOP_CLASS_COUNT) l (chunk_release_global a P)" for a l P
    by (rule with_step)
qed (simp_all add: Let_def release_none with_step(1) class_facts mod_class)

interpretation full_walk: exit_walk h ended_full "\<lambda>a l. l @ [a]" "with_full h" for h
proof unfold_locales
  show "chunk_release_global a (with_full h l P) = with_full h l (chunk_release_global a P)" for a l P
    by (rule with_step)
qed (simp_all add: Let_def release_none with_step(3) full_facts)

lemma ended_class_quiet:
  assumes inv: "pool_inv P L" and h: "h \<in> set (heaps P)" and c: "c < MEMOP_CLASS_COUNT"
    and e: "ended_class (spans (hp P h) ! c) [] (with_class h c [] P) = (kept, P2)"
  shows "quiet P L (with_class h c kept P2)" "heaps P2 = heaps P"
proof -
  let ?V = "with_class h c [] P" and ?as = "spans (hp P h) ! c"
  have m: "c mod MEMOP_CLASS_COUNT = c" using c by simp
  have bk: "with_class h c ?as ?V = P" by (simp add: with_class_twice) (simp add: with_class_def upd_heap_def)
  have inv': "pool_inv (with_class h (c mod MEMOP_CLASS_COUNT) (?as @ []) ?V) L" using inv by (simp add: m bk)
  have h': "h \<in> set (heaps ?V)" using h by simp
  from class_walk.walk_quiet [OF inv' h' e] show "quiet P L (with_class h c kept P2)" "heaps P2 = heaps P"
    by (simp_all add: m bk)
qed

lemma ended_full_quiet:
  assumes inv: "pool_inv P L" and h: "h \<in> set (heaps P)"
    and e: "ended_full (full_list (hp P h)) [] (with_full h [] P) = (kept, P2)"
  shows "quiet P L (with_full h kept P2)" "heaps P2 = heaps P"
proof -
  let ?V = "with_full h [] P" and ?as = "full_list (hp P h)"
  have bk: "with_full h ?as ?V = P" by (simp add: with_full_twice) (simp add: with_full_def upd_heap_def)
  have inv': "pool_inv (with_full h (?as @ []) ?V) L" using inv by (simp add: bk)
  have h': "h \<in> set (heaps ?V)" using h by simp
  from full_walk.walk_quiet [OF inv' h' e] show "quiet P L (with_full h kept P2)" "heaps P2 = heaps P"
    by (simp_all add: bk)
qed

lemma ended_classes_quiet:
  assumes "pool_inv P L" "h \<in> set (heaps P)" "\<forall>c \<in> set cs. c < MEMOP_CLASS_COUNT"
  shows "quiet P L (ended_classes h cs P)"
  using assms
proof (induction cs arbitrary: P)
  case (Cons c cs)
  obtain kept P2 where e: "ended_class (spans (hp P h) ! c) [] (with_class h c [] P) = (kept, P2)" by force
  note q = ended_class_quiet [OF Cons.prems(1,2) _ e]
  have q1: "quiet P L (with_class h c kept P2)" "heaps P2 = heaps P" using q Cons.prems(3) by simp_all
  have "quiet (with_class h c kept P2) L (ended_classes h cs (with_class h c kept P2))"
    by (rule Cons.IH [OF quiet_inv(1) [OF q1(1)]]) (use Cons.prems q1(2) in simp_all)
  then show ?case using q1(1) e by (auto simp: Let_def with_class_def intro: quiet_trans)
qed (simp add: quiet_refl)

lemma local_to_global_quiet:
  assumes inv: "pool_inv P L" and h: "h \<in> set (heaps P)" and e: "chunk_local_to_global (hp P h) P = (h', P')"
  shows "quiet P L (P'\<lparr>hp := (hp P')(h := h')\<rparr>)"
proof -
  let ?P = "P'\<lparr>hp := (hp P')(h := h')\<rparr>"
  have lc: "caches P h = local_cache (hp P h)" by (simp add: caches_def)
  note g = chunk_local_to_global_ok [OF pool_invD(4) [OF inv] lc e]
  have h': "h' = (hp P h)\<lparr>local_cache := [], local_count := 0\<rparr>" using e by (simp add: chunk_local_to_global_def)
  have m: "ChunkPool.more P' = ChunkPool.more P" "clk P' = clk P" using g(3) by (auto simp: pool_frame_def)
  note mf = more_fields [OF m(1)]
  show ?thesis
  proof (rule chunk_layer_quiet(1) [OF inv])
    show "chunk_step h P ?P" using mf m(2) by (simp add: chunk_step_def same_life_def h')
    show "h \<in> set (heaps P) \<or> hp ?P = hp P" using h by simp
    have ca: "caches ?P = (caches P)(h := [])" using mf by (auto simp: caches_def h')
    show "caches_inv ?P (caches ?P) (pool_spans P \<union> large_chunks (hdr P) L) (large_regions (hdr P) L)"
      unfolding ca by (rule caches_inv_cong [OF g(4)]) simp_all
    show "hits_only (free_chunks P (caches P)) P ?P" using g(5) by (simp add: hits_only_def)
  qed
qed

lemma memop_on_ended_thread_steady:
  assumes inv: "pool_inv P L"
  shows "steady P L (memop_on_ended_thread t P)" "tls (memop_on_ended_thread t P) t = None"
proof -
  have "steady P L (memop_on_ended_thread t P) \<and> tls (memop_on_ended_thread t P) t = None"
  proof (cases "tls P t")
    case None
    then show ?thesis using inv by (simp add: memop_on_ended_thread_def steady_refl)
  next
    case (Some h)
    then have h: "h \<in> set (heaps P)" using pool_invD(1) [OF inv] by (auto simp: life_ok_def)
    define P1 where "P1 = ended_classes h [0..<MEMOP_CLASS_COUNT] P"
    have q1: "quiet P L P1" unfolding P1_def by (rule ended_classes_quiet [OF inv h]) simp
    have h1: "h \<in> set (heaps P1)" using quiet_inv(2) [OF q1] h same_life_heaps by simp
    obtain kept P3 where e3: "ended_full (full_list (hp P1 h)) [] (with_full h [] P1) = (kept, P3)" by force
    define P4 where "P4 = with_full h kept P3"
    have q4: "quiet P1 L P4" and hs4: "heaps P4 = heaps P1"
      using ended_full_quiet [OF quiet_inv(1) [OF q1] h1 e3] by (simp_all add: P4_def)
    obtain h' P5 where e5: "chunk_local_to_global (hp P4 h) P4 = (h', P5)" by force
    define P6 where "P6 = P5\<lparr>hp := (hp P5)(h := h')\<rparr>"
    have q6: "quiet P4 L P6" unfolding P6_def
      by (rule local_to_global_quiet [OF quiet_inv(1) [OF q4] _ e5]) (use h1 hs4 in simp)
    let ?R = "P6\<lparr>hp := (hp P6)(h := (hp P6 h)\<lparr>active := False\<rparr>), heaps_destroyed := heaps_destroyed P6 + 1, tls := (tls P6)(t := None)\<rparr>"
    have r: "memop_on_ended_thread t P = ?R"
      using Some e3 e5 by (simp add: memop_on_ended_thread_def P1_def [symmetric] with_full_def [symmetric] P4_def [symmetric] Let_def P6_def)
    have q: "quiet P L P6" using q1 q4 q6 by (blast intro: quiet_trans)
    have inv6: "pool_inv P6 L" by (rule quiet_inv(1) [OF q])
    have ca: "caches ?R = caches P6" by (auto simp: caches_def)
    have life: "life_ok ?R"
      using pool_invD(1) [OF inv6] unfolding life_ok_def by (auto split: if_splits)
    note l = lists_ok_same_lists [OF pool_invD(2) [OF inv6], of "hp ?R"]
    have lo: "lists_ok (set (heaps P6)) (hp ?R) (hdr P6)" by (rule l) simp_all
    have "spans_of (set (heaps P6)) (hp ?R) = spans_of (set (heaps P6)) (hp P6)" by (rule l) simp_all
    then have sp: "pool_spans ?R = pool_spans P6" by (simp add: pool_spans_def)
    have "caches_inv ?R (caches P6) (pool_spans P6 \<union> large_chunks (hdr P6) L) (large_regions (hdr P6) L)"
      by (rule caches_inv_cong [OF pool_invD(4) [OF inv6]]) simp_all
    then have "pool_inv ?R L"
      unfolding pool_inv_def ca sp using life lo pool_invD(3) [OF inv6] by simp
    moreover have "memop_usable_size q ?R = memop_usable_size q P6" for q by (rule usable_cong) simp_all
    moreover have "blocks_live ?R L = blocks_live P6 L" unfolding blocks_live_def sp by simp
    ultimately have "steady P6 L ?R" by (simp add: steady_def keeps_def)
    then show ?thesis using quiet_steady [OF q] by (simp add: r) (blast intro: steady_trans)
  qed
  then show "steady P L (memop_on_ended_thread t P)" "tls (memop_on_ended_thread t P) t = None" by auto
qed

end
