(* ===== verification/Pool_Theorems.thy ===== *)
theory Pool_Theorems
  imports Pool_Properties
begin

text \<open>
  The memory pool as its users see it: a client that allocates, reallocates, frees what it
  holds (from any thread), writes into its blocks, starts and ends threads, purges and shuts
  the pool down.  The properties of the allocator are stated on the public operations.
\<close>

section \<open>The pool at program start\<close>

definition pool_zero :: MemPool where
  "pool_zero =
    \<lparr>span_cache = [], cache_count = 0, segments = [], cache_avg = 0, purging = False,
     last_purge_ms = 0, purge_count = 0, os_log = [], clk = 0, mem_bytes = (\<lambda>_. 0),
     heaps = [], hp = (\<lambda>_. heap_zero), next_id = 0, heaps_created = 0, heaps_destroyed = 0,
     hdr = (\<lambda>_. span_zero), tls = (\<lambda>_. None), init_state = MEMOP_UNINIT,
     tables = \<lparr>g_size2class = [], g_class_stride = []\<rparr>,
     sites = \<lparr>leak_watch_enabled = False, site_table = (\<lambda>_. site_zero)\<rparr>, error_events = 0,
     g_error_handler = Some Default_handler\<rparr>"

lemma pool_zero_inv: "pool_inv pool_zero {}" "blocks_live pool_zero {} = {}"
  by (simp_all add: pool_inv_def pool_zero_def life_ok_def heap_zero_def lists_ok_def large_ok_def caches_inv_def
      lc_ok_def chunks_inv_def regions_inv_def caches_def pool_spans_def spans_of_def large_chunks_def
      large_regions_def blocks_live_def)

definition bump_env :: mem_env where
  "bump_env = \<lparr>env_mmap = bump_mmap, env_calloc = (\<lambda>_. True)\<rparr>"

lemma bump_env_law: "mmap_law (env_mmap bump_env)"
  by (simp add: bump_env_def bump_mmap_law)

section \<open>Shutdown\<close>

text \<open>The blocks of several chunks come straight from the system; shutdown does not return
  them.\<close>

definition outlives :: "MemPool \<Rightarrow> addr set \<Rightarrow> addr set" where
  "outlives P L = {a \<in> L. block_count (hdr P a) \<noteq> 1}"

lemma mapped_kept:
  "A \<subseteq> mapped log \<Longrightarrow> (\<And>s. s \<in> set ss \<Longrightarrow> A \<inter> region (seg_base s) SEG_SIZE = {}) \<Longrightarrow> A \<subseteq> mapped (free_segments ss log)"
  by (auto simp: free_segments_spec)

lemma memop_shutdown_ok:
  assumes inv: "pool_inv P L" and init: "init_state P = MEMOP_READY" and alone: "\<forall>t'. t' \<noteq> t \<longrightarrow> tls P t' = None"
  defines "P' \<equiv> memop_shutdown t P"
  shows "pool_inv P' (outlives P L)" "blocks_live P' (outlives P L) = (\<lambda>a. a + SPAN_HEADER) ` outlives P L"
    "keeps ((\<lambda>a. a + SPAN_HEADER) ` outlives P L) P P'"
    "mapped (os_log P') = mapped (os_log P) - (\<Union>s \<in> set (segments P). region (seg_base s) SEG_SIZE)"
    "heaps P' = []" "segments P' = []"
proof -
  have s: "heaps P' = []" "hp P' = (\<lambda>_. heap_zero)" "hdr P' = hdr P" "segments P' = []" "span_cache P' = []" "cache_count P' = 0"
    "tls P' = (tls P)(t := None)" "init_state P' = MEMOP_UNINIT" "mem_bytes P' = mem_bytes P" "tables P' = tables P"
    "os_log P' = free_segments (segments P) (os_log P)"
    by (simp_all add: P'_def memop_shutdown_def init Let_def segments_free_all_def)
  then show "heaps P' = []" "segments P' = []" by simp_all
  show "mapped (os_log P') = mapped (os_log P) - (\<Union>s \<in> set (segments P). region (seg_base s) SEG_SIZE)"
    by (simp add: s free_segments_spec)
  have sp: "pool_spans P' = {}" by (simp add: pool_spans_def spans_of_def s)
  have lc: "large_chunks (hdr P') (outlives P L) = {}" "large_regions (hdr P') (outlives P L) = large_regions (hdr P) L"
    by (auto simp: large_chunks_def large_regions_def outlives_def s)
  have ca: "caches P' = (\<lambda>_. [])" by (auto simp: caches_def s heap_zero_def)
  have life: "life_ok P'" using alone by (auto simp: life_ok_def s heap_zero_def)
  have r: "regions_inv (segments P) (os_log P) (large_regions (hdr P) L)"
    using pool_invD(4) [OF inv] by (simp add: caches_inv_def chunks_inv_def)
  have "regions_inv [] (os_log P') (large_regions (hdr P) L)"
    using r mapped_kept unfolding regions_inv_def s(11) by (simp add: mapped_kept)
  then have "caches_inv P' (caches P') (pool_spans P' \<union> large_chunks (hdr P') (outlives P L)) (large_regions (hdr P') (outlives P L))"
    unfolding sp ca caches_inv_def chunks_inv_def lc by (simp add: s lc_ok_def)
  moreover have "large_ok (hdr P') (outlives P L)"
    using pool_invD(3) [OF inv] by (auto simp: large_ok_def outlives_def s)
  ultimately show "pool_inv P' (outlives P L)" using life by (simp add: pool_inv_def lists_ok_def s(1))
  show "blocks_live P' (outlives P L) = (\<lambda>a. a + SPAN_HEADER) ` outlives P L"
    by (simp add: blocks_live_def sp)
  have "memop_usable_size q P' = memop_usable_size q P" for q by (rule usable_cong) (simp_all add: s)
  then show "keeps ((\<lambda>a. a + SPAN_HEADER) ` outlives P L) P P'" by (simp add: keeps_def s)
qed

section \<open>Clients\<close>

text \<open>
  \<open>client E P B\<close>: the pool state \<open>P\<close> can be reached from program start by a client that
  holds exactly the blocks \<open>B\<close> now.  A client frees or reallocates only what it holds, from
  any thread, and writes only inside its blocks; it may set an error handler and report errors;
  \<open>tick\<close> is the clock.
\<close>

inductive client :: "mem_env \<Rightarrow> MemPool \<Rightarrow> addr set \<Rightarrow> bool" for E where
  start: "client E pool_zero {}"
| alloc: "client E P B \<Longrightarrow> sz \<le> max_request \<Longrightarrow> memop_alloc_raw E t sz P = (r, P') \<Longrightarrow>
    client E P' (B \<union> set_option r)"
| calloc: "client E P B \<Longrightarrow> count * sz \<le> max_request \<Longrightarrow> memop_calloc_raw E t count sz P = (r, P') \<Longrightarrow>
    client E P' (B \<union> set_option r)"
| realloc: "client E P B \<Longrightarrow> p \<in> B \<Longrightarrow> sz \<le> max_request \<Longrightarrow> memop_realloc_raw E t p sz P = (r, P') \<Longrightarrow>
    client E P' (if r = None \<and> sz \<noteq> 0 then B else B - {p} \<union> set_option r)"
| free: "client E P B \<Longrightarrow> p \<in> B \<Longrightarrow> client E (memop_free_raw t p P) (B - {p})"
| fill: "client E P B \<Longrightarrow> p \<in> B \<Longrightarrow> same_at (- extent P p) (mem_bytes P) m \<Longrightarrow> client E (P\<lparr>mem_bytes := m\<rparr>) B"
| thread_start: "client E P B \<Longrightarrow> client E (memop_on_created_thread E t P) B"
| thread_end: "client E P B \<Longrightarrow> client E (memop_on_ended_thread t P) B"
| purge: "client E P B \<Longrightarrow> client E (memop_purge P) B"
| tick: "client E P B \<Longrightarrow> client E (P\<lparr>clk := now\<rparr>) B"
| handler: "client E P B \<Longrightarrow> client E (P\<lparr>g_error_handler := xpb_set_error_handler h\<rparr>) B"
| event: "client E P B \<Longrightarrow> trigger_event P = Some P' \<Longrightarrow> client E P' B"

lemma events_steady:
  fixes n :: nat and h :: "ErrorHandler option"
  assumes inv: "pool_inv P L"
  defines "P' \<equiv> P\<lparr>error_events := n, g_error_handler := h\<rparr>"
  shows "steady P L P'"
proof -
  have "caches_inv P' lc u X = caches_inv P lc u X" for lc u X
    by (simp add: caches_inv_def chunks_inv_def P'_def)
  moreover have sp: "pool_spans P' = pool_spans P" by (simp add: pool_spans_def P'_def)
  moreover have eq: "hdr P' = hdr P" "heaps P' = heaps P" "hp P' = hp P" by (simp_all add: P'_def)
  moreover have "life_ok P' = life_ok P" "caches P' = caches P" by (simp_all add: life_ok_def caches_def P'_def)
  ultimately have "pool_inv P' L" using inv by (simp add: pool_inv_def)
  moreover have "memop_usable_size q P' = memop_usable_size q P" for q by (rule usable_cong) (simp_all add: P'_def)
  moreover have "blocks_live P' L = blocks_live P L" unfolding blocks_live_def sp eq by simp
  ultimately show ?thesis by (simp add: steady_def keeps_def P'_def)
qed

lemma event_steady: "pool_inv P L \<Longrightarrow> trigger_event P = Some P' \<Longrightarrow> steady P L P'"
  using events_steady [where P = P and L = L and n = "error_events P + 1" and h = "g_error_handler P"] by (simp add: trigger_event_eq split: if_splits)

lemma handler_steady: "pool_inv P L \<Longrightarrow> steady P L (P\<lparr>g_error_handler := h\<rparr>)"
  using events_steady [where P = P and L = L and n = "error_events P" and h = h] by simp

lemma tick_steady: "pool_inv P L \<Longrightarrow> steady P L (P\<lparr>clk := now\<rparr>)"
proof -
  assume inv: "pool_inv P L"
  have "caches_inv (P\<lparr>clk := now\<rparr>) lc u X = caches_inv P lc u X" for lc u X
    by (simp add: caches_inv_def chunks_inv_def)
  moreover have sp: "pool_spans (P\<lparr>clk := now\<rparr>) = pool_spans P" by (simp add: pool_spans_def)
  ultimately have "pool_inv (P\<lparr>clk := now\<rparr>) L" using inv by (simp add: pool_inv_def life_ok_def caches_def)
  moreover have "memop_usable_size q (P\<lparr>clk := now\<rparr>) = memop_usable_size q P" for q by (rule usable_cong) simp_all
  moreover have "blocks_live (P\<lparr>clk := now\<rparr>) L = blocks_live P L" unfolding blocks_live_def sp by simp
  ultimately show ?thesis by (simp add: steady_def keeps_def)
qed

lemma memop_on_created_thread_steady:
  assumes inv: "pool_inv P L"
  shows "steady P L (memop_on_created_thread E t P)"
proof -
  obtain r P1 where e: "get_heap E t P = (r, P1)" by force
  have s: "steady P L P1" "tls P1 t = r" using get_heap_ok [OF inv e] by simp_all
  then have "(tls P1)(t := r) = tls P1" by auto
  then have "memop_on_created_thread E t P = P1" by (simp add: memop_on_created_thread_def e)
  then show ?thesis using s by simp
qed

lemma alloc_spec_held: "alloc_spec P L sz r P' L' \<Longrightarrow> blocks_live P' L' = blocks_live P L \<union> set_option r"
  by (auto simp: alloc_spec_def split: option.splits)

lemma realloc_spec_held:
  "realloc_spec P L p sz r P' L' \<Longrightarrow>
    blocks_live P' L' = (if r = None \<and> sz \<noteq> 0 then blocks_live P L else blocks_live P L - {p} \<union> set_option r)"
  by (auto simp: realloc_spec_def split: option.splits if_splits)

lemma client_inv:
  assumes law: "mmap_law (env_mmap E)"
  shows "client E P B \<Longrightarrow> \<exists>L. pool_inv P L \<and> blocks_live P L = B"
proof (induction rule: client.induct)
  case (alloc P B sz t r P')
  then obtain L where i: "pool_inv P L" "blocks_live P L = B" by blast
  obtain L' where "alloc_spec P L sz r P' L'" by (rule memop_alloc_raw_ok [OF i(1) law alloc.hyps(2,3)])
  then show ?case using i alloc_spec_held by (metis alloc_spec_def)
next
  case (calloc P B count sz t r P')
  then obtain L where i: "pool_inv P L" "blocks_live P L = B" by blast
  obtain L' where "calloc_spec P L (count * sz) r P' L'" by (rule memop_calloc_raw_ok [OF i(1) law calloc.hyps(2,3)])
  then show ?case using i alloc_spec_held by (metis alloc_spec_def calloc_spec_def)
next
  case (realloc P B p sz t r P')
  then obtain L where i: "pool_inv P L" "blocks_live P L = B" by blast
  then have p: "p \<in> blocks_live P L" "p = 0 \<or> p \<in> blocks_live P L" "p \<noteq> 0"
    using realloc.hyps(2) block_not_null [OF i(1), of p] by auto
  obtain L' where "if p = 0 then alloc_spec P L sz r P' L' else realloc_spec P L p sz r P' L'"
    by (rule memop_realloc_raw_ok [OF i(1) law p(2) realloc.hyps(3,4)])
  then have "realloc_spec P L p sz r P' L'" using p(3) by simp
  then have "pool_inv P' L'" "blocks_live P' L' = (if r = None \<and> sz \<noteq> 0 then B else B - {p} \<union> set_option r)"
    using realloc_spec_held [of P L p sz r P' L'] i(2) by (simp_all add: realloc_spec_def)
  then show ?case by blast
next
  case (free P B p t)
  then obtain L where i: "pool_inv P L" "blocks_live P L = B" by blast
  obtain L' where "free_spec P L p (memop_free_raw t p P) L'"
    using memop_free_raw_ok [OF i(1), of p] free.hyps(2) i(2) by metis
  then show ?case using i by (auto simp: free_spec_def)
next
  case start
  then show ?case using pool_zero_inv by blast
next
  case (thread_start P B t)
  then show ?case using memop_on_created_thread_steady unfolding steady_def by blast
next
  case (thread_end P B t)
  then show ?case using memop_on_ended_thread_steady(1) unfolding steady_def by blast
next
  case (purge P B)
  then show ?case using memop_purge_quiet unfolding quiet_def by blast
next
  case (tick P B now)
  then show ?case using tick_steady unfolding steady_def by blast
next
  case (handler P B h)
  then show ?case using handler_steady unfolding steady_def by blast
next
  case (event P B P')
  then show ?case using event_steady unfolding steady_def by blast
qed (auto simp: pool_inv_bytes)

section \<open>Properties of the allocator\<close>

lemma class_sizes_16: "c < MEMOP_CLASS_COUNT \<Longrightarrow> MemClassSizes ! c mod 16 = 0"
proof -
  have "\<forall>s \<in> set MemClassSizes. s mod 16 = 0" by (simp add: MemClassSizes_def)
  then show "c < MEMOP_CLASS_COUNT \<Longrightarrow> MemClassSizes ! c mod 16 = 0" by simp
qed

lemma block_aligned:
  assumes inv: "pool_inv P L" and p: "p \<in> all_blocks P L"
  shows "16 dvd p"
proof -
  have chunk: "16 dvd a" if "a mod SPAN_SIZE = 0" for a :: nat
  proof -
    have "65536 dvd a" using that by (simp add: mod_eq_0_iff_dvd)
    then show ?thesis by (rule dvd_trans [rotated]) simp
  qed
  from block_cases [OF inv p] show ?thesis
  proof
    assume s: "span_of p \<in> pool_spans P \<and> p \<in> span_blocks (span_of p) (hdr P (span_of p))"
    let ?a = "span_of p"
    obtain h c st where ok: "span_ok h c st ?a (hdr P ?a)" using pool_spans_ok [OF inv] s by blast
    obtain i where i: "p = ?a + 64 + i * stride (hdr P ?a)" using s by (auto simp: span_blocks_def span_block_def)
    have st: "16 dvd stride (hdr P ?a)" using span_okD(3,5) [OF ok] class_sizes_16 by (simp add: mod_eq_0_iff_dvd)
    have "16 dvd ?a + 64 + i * stride (hdr P ?a)" using chunk [OF span_okD(8) [OF ok]] st by (intro dvd_add) simp_all
    then show ?thesis using i by metis
  next
    assume l: "span_of p \<in> L \<and> p = span_of p + SPAN_HEADER"
    then have "16 dvd span_of p" using chunk pool_invD(3) [OF inv] by (auto simp: large_ok_def)
    then have "16 dvd span_of p + 64" by (intro dvd_add) simp_all
    then show ?thesis using l by metis
  qed
qed

text \<open>C1: safety of the allocator: whatever a client does (allocating, reallocating, freeing
  from any thread, starting and ending threads, purging), the blocks it holds are 16-byte
  aligned, lie in mapped memory and do not overlap each other.\<close>

theorem client_blocks_safe:
  assumes "mmap_law (env_mmap E)" "client E P B" "p \<in> B"
  shows "16 dvd p \<and> 0 < p \<and> extent P p \<subseteq> mapped (os_log P) \<and>
    (\<forall>q \<in> B. q \<noteq> p \<longrightarrow> extent P p \<inter> extent P q = {})"
proof -
  obtain L where i: "pool_inv P L" and b: "blocks_live P L = B" using client_inv assms(1,2) by blast
  have p: "p \<in> blocks_live P L" "p \<in> all_blocks P L" using assms(3) b live_all_blocks by auto
  have "extent P p \<subseteq> mapped (os_log P)"
    using block_home [OF i p(2)] home_mapped [OF i] by blast
  moreover have "extent P p \<inter> extent P q = {}" if "q \<in> B" "q \<noteq> p" for q
    using that extents_disjoint [OF i p(2)] b live_all_blocks by blast
  ultimately show ?thesis using block_aligned [OF i p(2)] block_not_null [OF i p(1)] by blast
qed

lemma client_alloc_some:
  assumes "client E P B" "sz \<le> max_request" "memop_alloc_raw E t sz P = (Some b, P')"
  shows "client E P' (insert b B)"
  using client.alloc [OF assms] by simp

text \<open>C2: allocation: \<open>memop_alloc\<close> fails and changes nothing the client can see, or returns a
  block the client did not hold, of at least the size asked and of the size it reports, and
  every block held keeps its size and its contents.\<close>

theorem client_alloc_fresh:
  assumes "mmap_law (env_mmap E)" "client E P B" "sz \<le> max_request" "memop_alloc E t sz P = (buf, P')"
  shows "if Ptr buf = 0 then client E P' B \<and> keeps B P P'
    else Ptr buf \<notin> B \<and> client E P' (insert (Ptr buf) B) \<and> keeps B P P' \<and>
      sz \<le> Size buf \<and> Size buf = memop_usable_size (Ptr buf) P'"
proof -
  obtain L where i: "pool_inv P L" and b: "blocks_live P L = B" using client_inv assms(1,2) by blast
  obtain r P1 where a: "memop_alloc_raw E t sz P = (r, P1)" by force
  obtain L' where s: "alloc_spec P L sz r P1 L'" by (rule memop_alloc_raw_ok [OF i assms(1,3) a])
  have c: "client E P1 (B \<union> set_option r)" by (rule client.alloc [OF assms(2,3) a])
  show ?thesis
  proof (cases r)
    case None
    then show ?thesis using assms(4) a c s b by (auto simp: memop_alloc_def buffer_zero_def alloc_spec_def)
  next
    case (Some x)
    have "x \<in> blocks_live P1 L'" "pool_inv P1 L'" using s Some by (simp_all add: alloc_spec_def)
    then have "0 < x" using block_not_null by blast
    moreover have "Ptr buf = x" "P' = P1" "Size buf = memop_usable_size x P1"
      using assms(4) a Some by (auto simp: memop_alloc_def)
    ultimately show ?thesis using c s b Some by (auto simp: alloc_spec_def)
  qed
qed

text \<open>C4: free: giving back a held block, from whichever thread, takes exactly that block away;
  all the others keep their size and their contents, and the buffer is reset.\<close>

theorem client_free_exact:
  assumes "mmap_law (env_mmap E)" "client E P B" "Ptr buf \<in> B" "memop_free t (Some buf) P = (buf', P')"
  shows "buf' = Some buffer_zero \<and> client E P' (B - {Ptr buf}) \<and> keeps (B - {Ptr buf}) P P'"
proof -
  obtain L where i: "pool_inv P L" and b: "blocks_live P L = B" using client_inv assms(1,2) by blast
  have "Ptr buf \<noteq> 0" using block_not_null [OF i] assms(3) b by auto
  then have f: "buf' = Some buffer_zero" "P' = memop_free_raw t (Ptr buf) P"
    using assms(4) by (auto simp: memop_free_def)
  obtain L' where "free_spec P L (Ptr buf) P' L'"
    using memop_free_raw_ok [OF i, of "Ptr buf" t] assms(3) b f(2) by metis
  then show ?thesis using f client.free [OF assms(2,3)] b by (auto simp: free_spec_def)
qed

text \<open>C6: reallocation keeps the contents: the new block is large enough, its first bytes (as many
  as fit in both) are those of the old block, no other block of the client is touched, and when
  no memory is left the old block is still there, unchanged.\<close>

theorem client_realloc_contents:
  assumes "mmap_law (env_mmap E)" "client E P B" "Ptr buf \<in> B" "0 < sz" "sz \<le> max_request"
    and "memop_realloc E t (Some buf) sz P = (out, buf', P')"
  shows "keeps (B - {Ptr buf}) P P' \<and>
    (if Ptr out = 0 then buf' = Some buf \<and> client E P' B \<and> keeps B P P'
     else buf' = Some out \<and> client E P' (insert (Ptr out) (B - {Ptr buf})) \<and> sz \<le> Size out \<and>
       Ptr out \<notin> B - {Ptr buf} \<and>
       (\<forall>i < min sz (memop_usable_size (Ptr buf) P). mem_bytes P' (Ptr out + i) = mem_bytes P (Ptr buf + i)))"
proof -
  obtain L where i: "pool_inv P L" and b: "blocks_live P L = B" using client_inv assms(1,2) by blast
  have n0: "Ptr buf \<noteq> 0" using block_not_null [OF i] assms(3) b by auto
  obtain r P1 where a: "memop_realloc_raw E t (Ptr buf) sz P = (r, P1)" by force
  have p: "Ptr buf = 0 \<or> Ptr buf \<in> blocks_live P L" using assms(3) b by simp
  obtain L' where "if Ptr buf = 0 then alloc_spec P L sz r P1 L' else realloc_spec P L (Ptr buf) sz r P1 L'"
    by (rule memop_realloc_raw_ok [OF i assms(1) p assms(5) a])
  then have s: "realloc_spec P L (Ptr buf) sz r P1 L'" using n0 by simp
  have c: "client E P1 (if r = None \<and> sz \<noteq> 0 then B else B - {Ptr buf} \<union> set_option r)"
    by (rule client.realloc [OF assms(2,3,5) a])
  show ?thesis
  proof (cases r)
    case None
    then have "out = buffer_zero" "buf' = Some buf" "P' = P1"
      using assms(4,6) a by (auto simp: memop_realloc_def Let_def)
    then show ?thesis using None c s b assms(4) by (simp add: buffer_zero_def realloc_spec_def)
  next
    case (Some x)
    have "x \<in> blocks_live P1 L'" "pool_inv P1 L'" using s Some by (simp_all add: realloc_spec_def)
    then have "0 < x" using block_not_null by blast
    moreover have "out = \<lparr>Ptr = x, Size = memop_usable_size x P1\<rparr>" "buf' = Some out" "P' = P1"
      using assms(6) a Some by (auto simp: memop_realloc_def Let_def)
    ultimately show ?thesis using c s b Some by (simp add: realloc_spec_def)
  qed
qed

section \<open>A concrete run\<close>

lemma class_index_40: "memop_class_index memop_build_size2class 40 = 2"
proof -
  have "(1::nat) \<le> 40" "(40::nat) \<le> MEMOP_MAX_SMALL" by (simp_all add: MEMOP_MAX_SMALL_def)
  then obtain c where c: "memop_class_index memop_build_size2class 40 = int c" "c < MEMOP_CLASS_COUNT"
    "40 \<le> MemClassSizes ! c" "\<And>j. j < c \<Longrightarrow> MemClassSizes ! j < 40" by (rule class_index_cases) blast
  have "\<not> 2 < c" using c(4) [of 2] by (auto simp: MemClassSizes_def)
  moreover have "c \<noteq> 0"
  proof
    assume "c = 0"
    with c(3) show False by (simp add: MemClassSizes_def)
  qed
  moreover have "c \<noteq> 1"
  proof
    assume "c = 1"
    with c(3) show False by (simp add: MemClassSizes_def)
  qed
  ultimately show ?thesis using c(1) by simp
qed

definition P_one :: MemPool where
  "P_one = snd (memop_alloc_raw bump_env 1 40 pool_zero)"

lemma full_scan_empty: "full_list (hp P h) = [] \<Longrightarrow> full_scan h c k s P = (None, P)"
  by (cases k) simp_all

lemma first_alloc: "memop_alloc_raw bump_env 1 40 pool_zero = (Some 4259904, P_one)"
proof -
  have "fst (memop_alloc_raw bump_env 1 40 pool_zero) = Some 4259904"
    by (simp add: memop_alloc_raw_def get_heap_def heap_create_locked_def memop_init_def pool_zero_def bump_env_def
        class_index_40 Let_def memop_refill_def span_create_def heap_chunk_acquire_def chunk_acquire_def
        chunk_acquire_global_def chunk_new_segment_def seg_os_alloc_def bump_mmap_def trim_map_def heap_zero_def
        upd_span_def upd_heap_def heap_list_insert_head_def MEMOP_CLASS_COUNT_def full_scan_empty round_up_def)
  then show ?thesis by (simp add: P_one_def prod_eq_iff)
qed

lemma small_request [simp]: "40 \<le> max_request" "100 \<le> max_request" "0 \<le> max_request"
  by (simp_all add: max_request_def)

lemma P_one_client: "client bump_env P_one {4259904}"
  using client_alloc_some [OF client.start small_request(1) first_alloc] by simp

theorem client_blocks_safe_witness:
  "16 dvd (4259904 :: nat) \<and> extent P_one 4259904 \<subseteq> mapped (os_log P_one)"
  using client_blocks_safe [OF bump_env_law P_one_client, of 4259904] by simp

theorem client_alloc_fresh_witness:
  "let (buf, P') = memop_alloc bump_env 2 100 P_one in Ptr buf \<noteq> 4259904 \<and> keeps {4259904} P_one P'"
proof -
  obtain buf P' where e: "memop_alloc bump_env 2 100 P_one = (buf, P')" by force
  from client_alloc_fresh [OF bump_env_law P_one_client small_request(2) e] show ?thesis
    by (auto simp: e split: if_splits)
qed

theorem client_free_exact_witness:
  "\<exists>P'. memop_free 2 (Some \<lparr>Ptr = 4259904, Size = 48\<rparr>) P_one = (Some buffer_zero, P') \<and> client bump_env P' {}"
proof -
  obtain buf' P' where e: "memop_free 2 (Some \<lparr>Ptr = 4259904, Size = 48\<rparr>) P_one = (buf', P')" by force
  from client_free_exact [OF bump_env_law P_one_client _ e] show ?thesis by (auto simp: e)
qed

theorem client_realloc_contents_witness:
  "let (out, buf', P') = memop_realloc bump_env 1 (Some \<lparr>Ptr = 4259904, Size = 48\<rparr>) 100 P_one in
    Ptr out = 0 \<or> (\<forall>i < min 100 (memop_usable_size 4259904 P_one).
      mem_bytes P' (Ptr out + i) = mem_bytes P_one (4259904 + i))"
proof -
  obtain out buf' P' where e: "memop_realloc bump_env 1 (Some \<lparr>Ptr = 4259904, Size = 48\<rparr>) 100 P_one = (out, buf', P')"
    by (metis prod_cases3)
  from client_realloc_contents [OF bump_env_law P_one_client _ _ small_request(2) e] show ?thesis
    unfolding e Let_def prod.case by (simp split: if_splits)
qed

section \<open>Zeroed memory, threads and shutdown\<close>

text \<open>Zeroed allocation: a product that does not fit in 64 bits is refused; otherwise the block
  returned is new, large enough for all the elements and all zero.\<close>

theorem client_calloc_zero:
  assumes "mmap_law (env_mmap E)" "client E P B" "memop_calloc_raw E t count sz P = (r, P')"
  shows "(2 ^ 64 \<le> count * sz \<longrightarrow> r = None \<and> P' = P) \<and>
    (count * sz \<le> max_request \<longrightarrow> (\<forall>b. r = Some b \<longrightarrow> b \<notin> B \<and> keeps B P P' \<and>
       count * sz \<le> memop_usable_size b P' \<and> (\<forall>i < count * sz. mem_bytes P' (b + i) = 0)))"
proof (intro conjI impI allI)
  assume o: "2 ^ 64 \<le> count * sz"
  have z: "sz \<noteq> 0" using o by (intro notI) simp
  have "(2 ^ 64 - 1) div sz < count"
  proof (rule ccontr)
    assume "\<not> ?thesis"
    then have "count * sz \<le> (2 ^ 64 - 1) div sz * sz" by (intro mult_le_mono1) simp
    also have "\<dots> \<le> 2 ^ 64 - 1" by simp
    finally show False using o by simp
  qed
  then show "r = None" "P' = P" using assms(3) z by (simp_all add: memop_calloc_raw_def)
next
  fix b assume sz: "count * sz \<le> max_request" and r: "r = Some b"
  obtain L where i: "pool_inv P L" and b: "blocks_live P L = B" using client_inv assms(1,2) by blast
  obtain L' where s: "calloc_spec P L (count * sz) r P' L'" by (rule memop_calloc_raw_ok [OF i assms(1) sz assms(3)])
  show "b \<notin> B" "keeps B P P'" "count * sz \<le> memop_usable_size b P'" using s r b
    by (simp_all add: calloc_spec_def alloc_spec_def)
  show "mem_bytes P' (b + j) = 0" if "j < count * sz" for j using s r that by (simp add: calloc_spec_def)
qed

theorem client_calloc_zero_witness:
  "memop_calloc_raw bump_env 1 (2 ^ 62) 4 P_one = (None, P_one)"
proof -
  obtain r P' where e: "memop_calloc_raw bump_env 1 (2 ^ 62) 4 P_one = (r, P')" by force
  show ?thesis using client_calloc_zero [OF bump_env_law P_one_client e] unfolding e by simp
qed

text \<open>C17: threads may come and go and the pool may be purged while blocks are held: none of it moves,
  frees or changes a block that is in use, and an ended thread has no heap any more.\<close>

theorem thread_and_purge_keep_blocks:
  assumes "mmap_law (env_mmap E)" "client E P B"
  shows "keeps B P (memop_on_created_thread E t P) \<and> keeps B P (memop_on_ended_thread t P) \<and>
    keeps B P (memop_purge P) \<and> tls (memop_on_ended_thread t P) t = None"
proof -
  obtain L where i: "pool_inv P L" and b: "blocks_live P L = B" using client_inv assms by blast
  show ?thesis
    using memop_on_created_thread_steady [OF i, of E t] memop_on_ended_thread_steady [OF i, of t] memop_purge_quiet [OF i]
    by (simp add: steady_def quiet_def b)
qed

theorem thread_and_purge_keep_blocks_witness:
  "keeps {4259904} P_one (memop_on_ended_thread 1 P_one) \<and> tls (memop_on_ended_thread 1 P_one) 1 = None"
  using thread_and_purge_keep_blocks [OF bump_env_law P_one_client, of 1] by simp

text \<open>C30: shutdown by the only thread with a heap returns every segment to the system, leaves a pool
  that starts again from the initial state, and touches the memory of none of the blocks that came
  straight from the system (those of several chunks), which stay valid.\<close>

theorem shutdown_returns_segments:
  assumes "pool_inv P L" "init_state P = MEMOP_READY" "\<forall>t'. t' \<noteq> t \<longrightarrow> tls P t' = None"
  defines "P' \<equiv> memop_shutdown t P"
  shows "mapped (os_log P') = mapped (os_log P) - (\<Union>s \<in> set (segments P). region (seg_base s) SEG_SIZE) \<and>
    segments P' = [] \<and> heaps P' = [] \<and> (\<forall>t'. tls P' t' = None) \<and> init_state P' = MEMOP_UNINIT \<and>
    pool_inv P' (outlives P L) \<and> keeps ((\<lambda>a. a + SPAN_HEADER) ` outlives P L) P P'"
proof -
  note s = memop_shutdown_ok [OF assms(1-3), folded P'_def]
  have "init_state P' = MEMOP_UNINIT" "tls P' = (tls P)(t := None)"
    by (simp_all add: P'_def memop_shutdown_def assms(2) Let_def segments_free_all_def)
  then show ?thesis using s assms(3) by auto
qed

lemma P_one_state: "init_state P_one = MEMOP_READY" "tls P_one = [1 \<mapsto> 1]"
  by (simp_all add: P_one_def list_link_def memop_alloc_raw_def get_heap_def heap_create_locked_def memop_init_def pool_zero_def bump_env_def
      class_index_40 Let_def memop_refill_def span_create_def heap_chunk_acquire_def chunk_acquire_def
      chunk_acquire_global_def chunk_new_segment_def seg_os_alloc_def bump_mmap_def trim_map_def heap_zero_def
      upd_span_def upd_heap_def heap_list_insert_head_def MEMOP_CLASS_COUNT_def full_scan_empty round_up_def bump_stats_def refill_got_def
      heap_list_unlink_def)

theorem shutdown_returns_segments_witness:
  "segments (memop_shutdown 1 P_one) = [] \<and> (\<exists>L. pool_inv (memop_shutdown 1 P_one) L)"
proof -
  obtain L where "pool_inv P_one L" using client_inv [OF bump_env_law P_one_client] by blast
  from shutdown_returns_segments [OF this P_one_state(1), of 1] show ?thesis by (auto simp: P_one_state(2))
qed

end
