(* ===== verification/Pool_Events.thy ===== *)
theory Pool_Events
  imports Pool_Theorems
begin

text \<open>
  Errors are reported by whoever asked for the memory: the pool's own allocation raises no
  event and leaves the handler alone.  So the count of events tells how many requests the callers
  saw fail, and what a report does to the caller is settled by the handler it started with.
\<close>

section \<open>Chunks\<close>

text \<open>The chunk layer works on the first part of the pool only.\<close>

lemma more_new_segment: "chunk_new_segment mmap G = (r, G') \<Longrightarrow> ChunkPool.more G' = ChunkPool.more G"
  by (auto simp: chunk_new_segment_def split: prod.splits option.splits)

lemma more_acquire_global: "chunk_acquire_global mmap G = (r, G') \<Longrightarrow> ChunkPool.more G' = ChunkPool.more G"
  by (auto simp: chunk_acquire_global_def split: list.splits if_splits dest: more_new_segment)

lemma more_acquire: "chunk_acquire mmap h G = (r, h', G') \<Longrightarrow> ChunkPool.more G' = ChunkPool.more G"
  by (auto simp: chunk_acquire_def split: option.splits list.splits prod.splits dest: more_acquire_global)

lemma more_release: "chunk_release h m G = (h', G') \<Longrightarrow> ChunkPool.more G' = ChunkPool.more G"
  by (auto simp: chunk_release_def release_more split: option.splits if_splits)

section \<open>Heaps\<close>

abbreviation silent :: "MemPool \<Rightarrow> MemPool \<Rightarrow> bool" where
  "silent P P' \<equiv> error_events P' = error_events P \<and> g_error_handler P' = g_error_handler P"

lemma silent_upd [simp]:
  "silent P (upd_span a f P)" "silent P (upd_heap h g P)" "silent P (heap_list_insert_head h c a P)"
  "silent P (heap_list_unlink h c a P)" "silent P (heap_full_push_tail h a P)" "silent P (heap_full_unlink h a P)"
  "silent P (bump_stats h na ns P)" "silent P (refill_got h c a P)" "silent P (memop_init P)" "silent P (snd (span_take a P))"
  by (simp_all add: upd_span_def upd_heap_def heap_list_insert_head_def heap_list_unlink_def heap_full_push_tail_def
      heap_full_unlink_def bump_stats_def refill_got_def memop_init_def span_take_def split: list.split)

lemma silent_drain [simp]: "silent P (snd (span_drain_remote a P))"
  by (simp add: span_drain_remote_def Let_def split: prod.split)

lemma silent_stat_free [simp]: "silent P (stat_free ho n P)"
  by (simp add: stat_free_def split: option.split)

lemma silent_get_heap: "get_heap E t P = (r, P') \<Longrightarrow> silent P P'"
  by (auto simp: get_heap_def heap_create_locked_def Let_def split: option.splits if_splits)

lemma silent_refill_scan [simp]: "silent P (snd (refill_scan h c as P))"
proof (induction as arbitrary: P)
  case (Cons a as)
  have "silent P P1" if "span_drain_remote a P = (n, P1)" for n P1 using silent_drain [of a P] that by simp
  then show ?case using Cons by (simp add: Let_def split: prod.split)
qed simp

lemma silent_full_scan [simp]: "silent P (snd (full_scan h c k start P))"
proof (induction h c k start P rule: full_scan.induct)
  case (2 h c k start P)
  show ?case
  proof (cases "full_list (hp P h)")
    case (Cons fs as)
    obtain n P1 where e: "span_drain_remote fs P = (n, P1)" by force
    have "silent P P1" using silent_drain [of fs P] e by simp
    then show ?thesis using 2 Cons e by (simp add: Let_def)
  qed simp
qed simp

lemma silent_heap_acquire: "heap_chunk_acquire E h P = (r, P') \<Longrightarrow> silent P P'"
  by (auto simp: heap_chunk_acquire_def split: prod.splits option.splits dest!: more_acquire dest: more_fields(9,10))

lemma silent_heap_release [simp]: "silent P (heap_chunk_release ho m P)"
proof (cases ho)
  case None
  obtain h' P' where e: "chunk_release (None :: MemHeap option) m P = (h', P')" by force
  show ?thesis using None e more_fields(9,10) [OF more_release [OF e]] by (simp add: heap_chunk_release_def)
next
  case (Some h)
  obtain h' P' where e: "chunk_release (Some (hp P h)) m P = (h', P')" by force
  show ?thesis using Some e more_fields(9,10) [OF more_release [OF e]] by (simp add: heap_chunk_release_def split: option.split)
qed

lemma silent_span_create: "span_create E h c P = (r, P') \<Longrightarrow> silent P P'"
  by (auto simp: span_create_def Let_def split: prod.splits option.splits dest: silent_heap_acquire)

lemma silent_refill:
  assumes "memop_refill E h c P = (r, P')"
  shows "silent P P'"
proof -
  obtain r1 P1 where 1: "refill_scan h c (spans (hp P h) ! c) P = (r1, P1)" by force
  obtain r2 P2 where 2: "full_scan h c FULL_SCAN_K None P1 = (r2, P2)" by force
  obtain r3 P3 where 3: "span_create E h c P2 = (r3, P3)" by force
  have "silent P P1" "silent P1 P2" "silent P2 P3"
    using silent_refill_scan [of h c "spans (hp P h) ! c" P] silent_full_scan [of h c FULL_SCAN_K None P1] silent_span_create [OF 3] 1 2 by simp_all
  then show ?thesis using assms by (cases r1; cases r2; cases r3) (auto simp: memop_refill_def 1 2 3 Let_def)
qed

lemma silent_alloc_large: "memop_alloc_large E h sz P = (r, P') \<Longrightarrow> silent P P'"
  by (auto simp: memop_alloc_large_def Let_def split: prod.splits option.splits if_splits dest: silent_heap_acquire)

section \<open>The operations\<close>

lemma silent_alloc_raw:
  assumes "memop_alloc_raw E t sz P = (r, P')"
  shows "silent P P'"
proof (cases "sz = 0")
  case False
  obtain g P1 where 1: "get_heap E t P = (g, P1)" by force
  note s1 = silent_get_heap [OF 1]
  show ?thesis
  proof (cases g)
    case (Some h)
    obtain r2 P2 where 2: "memop_refill E h (nat (memop_class_index (tables P1) sz)) P1 = (r2, P2)" by force
    show ?thesis using assms False s1 silent_refill [OF 2] silent_alloc_large [of E h sz P1]
      by (auto simp: memop_alloc_raw_def 1 Some 2 Let_def split: option.splits if_splits)
  qed (use assms False s1 1 in \<open>simp add: memop_alloc_raw_def\<close>)
qed (use assms in \<open>simp add: memop_alloc_raw_def\<close>)

lemma silent_free_raw [simp]: "silent P (memop_free_raw t p P)"
  by (simp add: memop_free_raw_def free_large_def free_local_def free_remote_def Let_def)

lemma silent_realloc_raw:
  assumes "memop_realloc_raw E t p sz P = (r, P')"
  shows "silent P P'"
proof -
  obtain r1 P1 where a: "memop_alloc_raw E t sz P = (r1, P1)" by force
  show ?thesis using assms silent_alloc_raw [OF a]
    by (auto simp: memop_realloc_raw_def a Let_def split: if_splits option.splits)
qed

section \<open>Reports\<close>

abbreviation counted :: "MemPool \<Rightarrow> MemPool" where
  "counted P \<equiv> P\<lparr>error_events := error_events P + 1\<rparr>"

text \<open>What the caller of a report finds when it returns.\<close>

abbreviation noted :: "MemPool \<Rightarrow> MemPool \<Rightarrow> bool" where
  "noted P P' \<equiv> error_events P' = error_events P + 1 \<and> g_error_handler P' = g_error_handler P"

lemma client_counted: "client E P B \<Longrightarrow> \<not> fatal_errors P \<Longrightarrow> client E (counted P) B"
  using client.event [of E P B "counted P"] trigger_event_eq [of P] by simp

lemma usable_counted [simp]: "memop_usable_size q (P\<lparr>error_events := n\<rparr>) = memop_usable_size q P"
  by (rule usable_cong) simp_all

lemma keeps_counted [simp]: "keeps B P (P1\<lparr>error_events := n\<rparr>) = keeps B P P1"
  by (simp add: keeps_def)

text \<open>Some request of thread \<open>t\<close> that is not out of range is refused in some state of a client.\<close>

definition refuses :: "mem_env \<Rightarrow> nat \<Rightarrow> bool" where
  "refuses E t \<longleftrightarrow> (\<exists>P B sz. client E P B \<and> 0 < sz \<and> sz \<le> max_request \<and> fst (memop_alloc_raw E t sz P) = None)"

lemma alloc_refuses:
  "client E P B \<Longrightarrow> 0 < sz \<Longrightarrow> sz \<le> max_request \<Longrightarrow> memop_alloc_raw E t sz P = (None, P') \<Longrightarrow> refuses E t"
  unfolding refuses_def by (metis fst_conv)

lemma realloc_refuses:
  assumes "client E P B" "0 < sz" "sz \<le> max_request" "memop_realloc_raw E t p sz P = (None, P')"
  shows "refuses E t"
proof -
  obtain r P1 where a: "memop_alloc_raw E t sz P = (r, P1)" by force
  have "r = None" using assms(2,4) a by (auto simp: memop_realloc_raw_def Let_def split: if_splits option.splits)
  with alloc_refuses [OF assms(1-3)] a show ?thesis by blast
qed

end
