(* ===== verification/Buffers.thy ===== *)
theory Buffers
  imports Pool_Events
begin

text \<open>
  Bytes and pointers read back from the memory the pool manages, the byte-wise copy loop of
  the string code, and how the blocks a client holds carry such data through the pool's
  operations.
\<close>

section \<open>Reading memory\<close>

definition bytes_from :: "bytes \<Rightarrow> addr \<Rightarrow> nat \<Rightarrow> 8 word list" where
  "bytes_from m a n = map (\<lambda>i. m (a + i)) [0..<n]"

lemma length_bytes_from [simp]: "length (bytes_from m a n) = n"
  by (simp add: bytes_from_def)

lemma nth_bytes_from [simp]: "i < n \<Longrightarrow> bytes_from m a n ! i = m (a + i)"
  by (simp add: bytes_from_def)

lemma bytes_from_cong: "(\<And>i. i < n \<Longrightarrow> m' (a' + i) = m (a + i)) \<Longrightarrow> bytes_from m' a' n = bytes_from m a n"
  by (simp add: bytes_from_def)

lemma bytes_from_0 [simp]: "bytes_from m a 0 = []"
  by (simp add: bytes_from_def)

lemma take_bytes_from [simp]: "take k (bytes_from m a n) = bytes_from m a (min k n)"
  by (rule nth_equalityI) auto

lemma drop_bytes_from [simp]: "drop k (bytes_from m a n) = bytes_from m (a + k) (n - k)"
  by (rule nth_equalityI) (auto simp: add.assoc)

lemma bytes_from_add: "bytes_from m a (k + n) = bytes_from m a k @ bytes_from m (a + k) n"
  by (rule nth_equalityI) (auto simp: nth_append add.assoc)

lemma bytes_from_Suc: "bytes_from m a (Suc n) = bytes_from m a n @ [m (a + n)]"
  using bytes_from_add [of m a n 1] by (simp add: bytes_from_def)

lemma bytes_from_same: "same_at A m m' \<Longrightarrow> {a..<a + n} \<subseteq> A \<Longrightarrow> bytes_from m' a n = bytes_from m a n"
  by (rule bytes_from_cong) (auto simp: same_at_def subset_iff)

text \<open>The loop that copies byte by byte, upwards.\<close>

fun copy_fwd :: "nat \<Rightarrow> addr \<Rightarrow> addr \<Rightarrow> bytes \<Rightarrow> bytes" where
  "copy_fwd 0 d s m = m"
| "copy_fwd (Suc n) d s m = copy_fwd n (d + 1) (s + 1) (m(d := m s))"

lemma copy_fwd_memcpy:
  "{s..<s + n} \<inter> {d..<d + n} = {} \<Longrightarrow> copy_fwd n d s m = memcpy_bytes d s n m"
proof (induction n d s m rule: copy_fwd.induct)
  case (2 n d s m)
  let ?m = "m(d := m s)"
  have "{s + 1..<s + 1 + n} \<inter> {d + 1..<d + 1 + n} = {}" using 2(2) by (auto simp: disjoint_iff)
  then have ih: "copy_fwd (Suc n) d s m = memcpy_bytes (d + 1) (s + 1) n ?m" using 2(1) by (simp only: copy_fwd.simps)
  have "memcpy_bytes (d + 1) (s + 1) n ?m x = memcpy_bytes d s (Suc n) m x" for x
  proof (cases "d + 1 \<le> x \<and> x < d + 1 + n")
    case True
    have "s + (x - d) \<notin> {d..<d + Suc n}" using 2(2) True by (auto simp: disjoint_iff)
    then have "s + (x - d) \<noteq> d" by auto
    moreover have "s + 1 + (x - (d + 1)) = s + (x - d)" using True by linarith
    ultimately show ?thesis using True by (simp add: memcpy_bytes_def)
  qed (auto simp: memcpy_bytes_def)
  then show ?case unfolding ih by blast
qed (auto simp: memcpy_bytes_def fun_eq_iff)

lemma same_at_copy_fwd: "A \<inter> {d..<d + n} = {} \<Longrightarrow> same_at A m (copy_fwd n d s m)"
proof (induction n d s m rule: copy_fwd.induct)
  case (2 n d s m)
  have a: "A \<inter> {d + 1..<d + 1 + n} = {}" "d \<notin> A" using 2(2) by (auto simp: disjoint_iff)
  have "same_at A (m(d := m s)) (copy_fwd (Suc n) d s m)" using 2(1) [OF a(1)] by (simp only: copy_fwd.simps)
  moreover have "same_at A m (m(d := m s))" using a(2) by (auto simp: same_at_def)
  ultimately show ?case by (rule same_at_trans [rotated])
qed simp

text \<open>A pointer stored in memory (8 bytes, little endian).\<close>

definition read_ptr :: "bytes \<Rightarrow> addr \<Rightarrow> addr" where
  "read_ptr m a = (\<Sum>i<8. unat (m (a + i)) * 256 ^ i)"

lemma digits_sum: "(\<Sum>i<n. v div 256 ^ i mod 256 * 256 ^ i) = v mod 256 ^ n" for v :: nat
proof (induction n)
  case (Suc n)
  have "v mod (256 ^ n * 256) = 256 ^ n * (v div 256 ^ n mod 256) + v mod 256 ^ n" by (rule mod_mult2_eq)
  then show ?case using Suc by (simp add: mult.commute)
qed simp

lemma unat_byte: "unat (of_nat v :: 8 word) = v mod 256"
  by (simp add: unat_of_nat)

lemma read_write_ptr: "v < 2 ^ 64 \<Longrightarrow> read_ptr (write_ptr a v m) a = v"
proof -
  assume v: "v < 2 ^ 64"
  have "read_ptr (write_ptr a v m) a = (\<Sum>i<8. v div 256 ^ i mod 256 * 256 ^ i)"
    unfolding read_ptr_def by (rule sum.cong) (auto simp: write_ptr_def unat_byte)
  also have "\<dots> = v mod 256 ^ 8" by (rule digits_sum)
  also have "\<dots> = v" using v by simp
  finally show ?thesis .
qed

lemma read_ptr_cong: "(\<And>i. i < 8 \<Longrightarrow> m' (a' + i) = m (a + i)) \<Longrightarrow> read_ptr m' a' = read_ptr m a"
  by (simp add: read_ptr_def)

lemma read_write_other: "a + 8 \<le> b \<or> b + 8 \<le> a \<Longrightarrow> read_ptr (write_ptr a v m) b = read_ptr m b"
  by (rule read_ptr_cong) (auto simp: write_ptr_def)

lemma full_digits: "(\<Sum>i<n. 255 * 256 ^ i) < (256 :: nat) ^ n"
  by (induction n) simp_all

lemma read_ptr_bound: "read_ptr m a < 2 ^ 64"
proof -
  have b: "unat (m (a + i)) \<le> 255" for i
  proof -
    have "unat (m (a + i)) < 2 ^ 8" using unsigned_less [of "m (a + i)"] by simp
    then show ?thesis by simp
  qed
  have "read_ptr m a \<le> (\<Sum>i<8. 255 * 256 ^ i)"
    unfolding read_ptr_def by (intro sum_mono mult_le_mono1 b)
  also have "\<dots> < 256 ^ 8" by (rule full_digits)
  finally show ?thesis by simp
qed

section \<open>A user of the pool\<close>

text \<open>
  The contract the containers rely on: what the raw operations of the pool promise to a client
  that holds the blocks \<open>B\<close>.
\<close>

lemma extent_keeps: "keeps B P P' \<Longrightarrow> p \<in> B \<Longrightarrow> extent P' p = extent P p"
  by (simp add: keeps_def extent_def)

lemma keeps_bytes: "keeps B P P' \<Longrightarrow> p \<in> B \<Longrightarrow> k + n \<le> memop_usable_size p P \<Longrightarrow>
    bytes_from (mem_bytes P') (p + k) n = bytes_from (mem_bytes P) (p + k) n"
  by (rule bytes_from_same [of "extent P p"]) (auto simp: keeps_def extent_def)

lemma keeps_byte: "keeps B P P' \<Longrightarrow> p \<in> B \<Longrightarrow> i < memop_usable_size p P \<Longrightarrow> mem_bytes P' (p + i) = mem_bytes P (p + i)"
  by (auto simp: keeps_def extent_def same_at_def)

lemma keeps_ptr: "keeps B P P' \<Longrightarrow> p \<in> B \<Longrightarrow> k + 8 \<le> memop_usable_size p P \<Longrightarrow>
    read_ptr (mem_bytes P') (p + k) = read_ptr (mem_bytes P) (p + k)"
  by (rule read_ptr_cong) (simp add: keeps_byte add.assoc)

locale pool_user =
  fixes E :: mem_env
  assumes law: "mmap_law (env_mmap E)"
begin

lemma user_pos: "client E P B \<Longrightarrow> p \<in> B \<Longrightarrow> 0 < p"
  using client_inv [OF law] block_not_null by blast

lemma user_disjoint: "client E P B \<Longrightarrow> p \<in> B \<Longrightarrow> q \<in> B \<Longrightarrow> p \<noteq> q \<Longrightarrow> extent P p \<inter> extent P q = {}"
  using client_inv [OF law] extents_disjoint live_all_blocks by blast

lemma user_alloc:
  assumes c: "client E P B" and sz: "sz \<le> max_request" and a: "memop_alloc_raw E t sz P = (r, P')"
  shows "keeps B P P'" "r = None \<Longrightarrow> client E P' B"
    "r = Some b \<Longrightarrow> 0 < b \<and> b \<notin> B \<and> client E P' (insert b B) \<and> sz \<le> memop_usable_size b P'"
proof -
  obtain L where i: "pool_inv P L" "blocks_live P L = B" using client_inv [OF law c] by blast
  obtain L' where s: "alloc_spec P L sz r P' L'" by (rule memop_alloc_raw_ok [OF i(1) law sz a])
  have c': "client E P' (B \<union> set_option r)" by (rule client.alloc [OF c sz a])
  show "keeps B P P'" using s i(2) by (simp add: alloc_spec_def)
  show "r = None \<Longrightarrow> client E P' B" using c' by simp
  show "r = Some b \<Longrightarrow> 0 < b \<and> b \<notin> B \<and> client E P' (insert b B) \<and> sz \<le> memop_usable_size b P'"
    using c' s i(2) user_pos [OF c'] by (simp add: alloc_spec_def)
qed

lemma user_free:
  assumes c: "client E P B" and p: "p \<in> B"
  shows "client E (memop_free_raw t p P) (B - {p})" "keeps (B - {p}) P (memop_free_raw t p P)"
proof -
  obtain L where i: "pool_inv P L" "blocks_live P L = B" using client_inv [OF law c] by blast
  obtain L' where "free_spec P L p (memop_free_raw t p P) L'" using memop_free_raw_ok [OF i(1), of p t] p i(2) by metis
  then show "keeps (B - {p}) P (memop_free_raw t p P)" using i(2) by (simp add: free_spec_def)
  show "client E (memop_free_raw t p P) (B - {p})" by (rule client.free [OF c p])
qed

lemma user_realloc:
  assumes c: "client E P B" and p: "p \<in> B" and sz: "0 < sz" "sz \<le> max_request" and a: "memop_realloc_raw E t p sz P = (r, P')"
  shows "keeps (B - {p}) P P'" "r = None \<Longrightarrow> client E P' B \<and> keeps B P P'"
    "r = Some q \<Longrightarrow> 0 < q \<and> q \<notin> B - {p} \<and> client E P' (insert q (B - {p})) \<and> sz \<le> memop_usable_size q P' \<and>
       (\<forall>i < min sz (memop_usable_size p P). mem_bytes P' (q + i) = mem_bytes P (p + i))"
proof -
  obtain L where i: "pool_inv P L" "blocks_live P L = B" using client_inv [OF law c] by blast
  have pl: "p = 0 \<or> p \<in> blocks_live P L" "p \<noteq> 0" using p i(2) user_pos [OF c p] by simp_all
  obtain L' where "if p = 0 then alloc_spec P L sz r P' L' else realloc_spec P L p sz r P' L'"
    by (rule memop_realloc_raw_ok [OF i(1) law pl(1) sz(2) a])
  then have s: "realloc_spec P L p sz r P' L'" using pl(2) by simp
  have c': "client E P' (if r = None \<and> sz \<noteq> 0 then B else B - {p} \<union> set_option r)" by (rule client.realloc [OF c p sz(2) a])
  show "keeps (B - {p}) P P'" using s i(2) by (simp add: realloc_spec_def)
  show "r = None \<Longrightarrow> client E P' B \<and> keeps B P P'" using s i(2) c' sz by (simp add: realloc_spec_def)
  show "r = Some q \<Longrightarrow> 0 < q \<and> q \<notin> B - {p} \<and> client E P' (insert q (B - {p})) \<and> sz \<le> memop_usable_size q P' \<and>
       (\<forall>i < min sz (memop_usable_size p P). mem_bytes P' (q + i) = mem_bytes P (p + i))"
    using s i(2) c' user_pos [OF c'] by (simp add: realloc_spec_def)
qed

lemma user_write:
  assumes c: "client E P B" and p: "p \<in> B" and m: "same_at (- extent P p) (mem_bytes P) m"
  shows "client E (P\<lparr>mem_bytes := m\<rparr>) B" "keeps (B - {p}) P (P\<lparr>mem_bytes := m\<rparr>)"
proof -
  show "client E (P\<lparr>mem_bytes := m\<rparr>) B" by (rule client.fill [OF c p m])
  have "same_at (extent P q) (mem_bytes P) m" if "q \<in> B - {p}" for q
    using m user_disjoint [OF c, of q p] that p by (auto simp: same_at_def)
  then show "keeps (B - {p}) P (P\<lparr>mem_bytes := m\<rparr>)" by (simp add: keeps_def)
qed

end

interpretation bump_user: pool_user bump_env
  by unfold_locales (rule bump_env_law)

lemma P_one_usable: "40 \<le> memop_usable_size 4259904 P_one"
  using bump_user.user_alloc(3) [OF client.start small_request(1) first_alloc refl] by simp

text \<open>Running the pool on small requests.\<close>

lemmas run_defs = P_one_def list_link_def memop_alloc_raw_def get_heap_def heap_create_locked_def memop_init_def pool_zero_def bump_env_def
      class_index_40 Let_def memop_refill_def span_create_def heap_chunk_acquire_def chunk_acquire_def
      chunk_acquire_global_def chunk_new_segment_def seg_os_alloc_def bump_mmap_def trim_map_def heap_zero_def
      upd_span_def upd_heap_def heap_list_insert_head_def MEMOP_CLASS_COUNT_def full_scan_empty round_up_def bump_stats_def refill_got_def
      heap_list_unlink_def

lemma stride_2: "g_class_stride memop_build_size2class ! 2 = 48"
  by (simp add: class_stride_eq MemClassSizes_def)

lemma stride_4: "g_class_stride memop_build_size2class ! 4 = 80"
  by (simp add: class_stride_eq MemClassSizes_def)

lemma class_index_eq:
  assumes "1 \<le> n" "c < MEMOP_CLASS_COUNT" "n \<le> MemClassSizes ! c" "\<forall>j < c. MemClassSizes ! j < n"
  shows "memop_class_index memop_build_size2class n = int c"
proof -
  have "MemClassSizes ! c \<le> MEMOP_MAX_SMALL"
    using assms(2) class_size_max sorted_wrt_nth_less [OF sorted_MemClassSizes, of c 35]
    by (cases "c = 35") (auto simp: MEMOP_CLASS_COUNT_def MemClassSizes_def)
  then have "n \<le> MEMOP_MAX_SMALL" using assms(3) by simp
  then obtain d where d: "memop_class_index memop_build_size2class n = int d" "d < MEMOP_CLASS_COUNT"
    "n \<le> MemClassSizes ! d" "\<And>j. j < d \<Longrightarrow> MemClassSizes ! j < n" using class_index_cases [OF assms(1)] by blast
  have "d = c" using d(3,4) assms(3,4) by (metis linorder_neqE_nat not_less)
  then show ?thesis using d(1) by simp
qed

lemma class_index_80: "64 < n \<Longrightarrow> n \<le> 80 \<Longrightarrow> memop_class_index memop_build_size2class n = 4"
  by (subst class_index_eq) (auto simp: MEMOP_CLASS_COUNT_def MemClassSizes_def nth_Cons split: nat.splits)

end
