(* ===== verification/Pool_Services.thy ===== *)
theory Pool_Services
  imports Buffers
begin

text \<open>
  What the pool offers beside allocation: range-checked copies between buffers, the census of
  spans used by the leak watch, and how the size of a large request is rounded.
\<close>

section \<open>Buffers\<close>

lemma range_within: "0 < n \<Longrightarrow> {p + k..<p + k + n} \<subseteq> {p..<p + m} \<longleftrightarrow> k + n \<le> m" for p k n m :: nat
  by auto

lemma ranges_disjoint: "0 < n \<Longrightarrow> {a..<a + n} \<inter> {b..<b + n} = {} \<longleftrightarrow> \<not> (a < b + n \<and> b < a + n)" for a b n :: nat
proof
  assume n: "0 < n" and d: "{a..<a + n} \<inter> {b..<b + n} = {}"
  show "\<not> (a < b + n \<and> b < a + n)"
  proof
    assume "a < b + n \<and> b < a + n"
    then have "max a b \<in> {a..<a + n} \<inter> {b..<b + n}" using n by auto
    with d show False by blast
  qed
qed auto

text \<open>C33: \<open>memop_copy\<close> is all or nothing and stays inside both buffers.  When the range read lies in the
  source and the range written in the destination, and the two do not overlap, it returns the size, the
  range written holds the bytes of the range read, and no other byte of memory changes; ranges that overlap
  are undefined.  When a range leaves its buffer no byte changes, one error is reported and 0 is
  returned, unless no handler was set: then the report crashes.\<close>

theorem buffer_copy_in_bounds:
  fixes d s :: MemBuffer and sz doff off :: nat
  assumes "Ptr d \<noteq> 0" "Ptr s \<noteq> 0" "0 < sz"
  defines "W \<equiv> {Ptr d + doff..<Ptr d + doff + sz}" and "R \<equiv> {Ptr s + off..<Ptr s + off + sz}"
  shows "case memop_copy (Some d) doff (Some s) sz off P of
      None \<Rightarrow> if R \<subseteq> {Ptr s..<Ptr s + Size s} \<and> W \<subseteq> {Ptr d..<Ptr d + Size d} then R \<inter> W \<noteq> {} else fatal_errors P
    | Some (n, P') \<Rightarrow>
        if R \<subseteq> {Ptr s..<Ptr s + Size s} \<and> W \<subseteq> {Ptr d..<Ptr d + Size d}
        then R \<inter> W = {} \<and> n = sz \<and> bytes_from (mem_bytes P') (Ptr d + doff) sz = bytes_from (mem_bytes P) (Ptr s + off) sz \<and>
          same_at (- W) (mem_bytes P) (mem_bytes P') \<and> silent P P'
        else \<not> fatal_errors P \<and> n = 0 \<and> mem_bytes P' = mem_bytes P \<and> noted P P'"
proof -
  have fit: "R \<subseteq> {Ptr s..<Ptr s + Size s} \<and> W \<subseteq> {Ptr d..<Ptr d + Size d} \<longleftrightarrow> off + sz \<le> Size s \<and> doff + sz \<le> Size d"
    unfolding R_def W_def range_within [OF assms(3)] by simp
  have dis: "R \<inter> W = {} \<longleftrightarrow> \<not> (Ptr d + doff < Ptr s + off + sz \<and> Ptr s + off < Ptr d + doff + sz)"
    unfolding R_def W_def ranges_disjoint [OF assms(3)] by auto
  show ?thesis
  proof (cases "off + sz \<le> Size s \<and> doff + sz \<le> Size d")
    case True
    then have "\<not> off > Size s" "\<not> sz > Size s - off" "\<not> doff > Size d" "\<not> sz > Size d - doff" by linarith+
    then have "memop_copy (Some d) doff (Some s) sz off P =
        map_option (\<lambda>m. (sz, P\<lparr>mem_bytes := m\<rparr>)) (c_memcpy (Ptr d + doff) (Ptr s + off) sz (mem_bytes P))"
      using assms(1-3) by (simp add: memop_copy_def)
    then show ?thesis using True unfolding fit dis
      by (auto simp: c_memcpy_def memcpy_bytes_def same_at_def W_def bytes_from_def)
  next
    case False
    then have "(off > Size s \<or> sz > Size s - off) \<or> (doff > Size d \<or> sz > Size d - doff)" by linarith
    then have "memop_copy (Some d) doff (Some s) sz off P = map_option (Pair 0) (trigger_event P)"
      using assms(1-3) by (auto simp: memop_copy_def)
    then show ?thesis using False unfolding fit by (auto simp: trigger_event_eq)
  qed
qed

text \<open>Eight bytes from the start of one buffer to the end of another, and one byte too far.\<close>

theorem buffer_copy_in_bounds_witness:
  "(\<exists>P'. memop_copy (Some \<lparr>Ptr = 4096, Size = 64\<rparr>) 56 (Some \<lparr>Ptr = 8192, Size = 64\<rparr>) 8 0 pool_zero = Some (8, P') \<and>
     same_at (- {4152..<4160}) (mem_bytes pool_zero) (mem_bytes P')) \<and>
   memop_copy (Some \<lparr>Ptr = 4096, Size = 64\<rparr>) 57 (Some \<lparr>Ptr = 8192, Size = 64\<rparr>) 8 0 pool_zero = None"
  using buffer_copy_in_bounds [where d = "\<lparr>Ptr = 4096, Size = 64\<rparr>" and s = "\<lparr>Ptr = 8192, Size = 64\<rparr>" and sz = 8
      and off = 0 and P = pool_zero and doff = 56]
    buffer_copy_in_bounds [where d = "\<lparr>Ptr = 4096, Size = 64\<rparr>" and s = "\<lparr>Ptr = 8192, Size = 64\<rparr>" and sz = 8
      and off = 0 and P = pool_zero and doff = 57]
  by (auto simp: pool_zero_def range_within [where k = 56 and p = 4096 for p, simplified] split: option.splits if_splits)

section \<open>The census of spans\<close>

lemma snapshot_list_take:
  "length out \<le> mx \<Longrightarrow> snapshot_list P as mx out = out @ take (mx - length out) (map (memop_fill_span_info P) as)"
  by (induction P as mx out rule: snapshot_list.induct) (auto simp: take_Cons' Suc_diff_Suc)

lemma snapshot_classes_take:
  "length out \<le> mx \<Longrightarrow>
    snapshot_classes P ass mx out = out @ take (mx - length out) (map (memop_fill_span_info P) (concat ass))"
proof (induction P ass mx out rule: snapshot_classes.induct)
  case (2 P as rest mx out)
  show ?case
  proof (cases "length out < mx")
    case True
    let ?o = "snapshot_list P as mx out"
    have o: "?o = out @ take (mx - length out) (map (memop_fill_span_info P) as)"
      by (rule snapshot_list_take) (rule 2(2))
    have len: "length ?o \<le> mx" using 2(2) unfolding o by simp
    have "mx - length ?o = mx - length out - length as" unfolding o by simp
    then show ?thesis using 2(1) [OF True len] True by (simp add: o)
  qed (use 2(2) in simp)
qed simp

lemma snapshot_heaps_take:
  "length out \<le> mx \<Longrightarrow> snapshot_heaps P hs mx out =
    out @ take (mx - length out) (map (memop_fill_span_info P) (concat (map (\<lambda>h. heap_spans (hp P h)) hs)))"
proof (induction P hs mx out rule: snapshot_heaps.induct)
  case (2 P h hs mx out)
  let ?f = "map (memop_fill_span_info P)"
  show ?case
  proof (cases "length out < mx")
    case True
    let ?cls = "map (\<lambda>c. spans (hp P h) ! c) [0..<MEMOP_CLASS_COUNT]"
    define o1 where "o1 = snapshot_classes P ?cls mx out"
    define o2 where "o2 = snapshot_list P (full_list (hp P h)) mx o1"
    have e1: "o1 = out @ take (mx - length out) (?f (concat ?cls))"
      unfolding o1_def by (rule snapshot_classes_take) (rule 2(2))
    have l1: "length o1 \<le> mx" using 2(2) unfolding e1 by simp
    have e2: "o2 = o1 @ take (mx - length o1) (?f (full_list (hp P h)))"
      unfolding o2_def by (rule snapshot_list_take) (rule l1)
    have l2: "length o2 \<le> mx" using l1 unfolding e2 by simp
    have cut: "mx - (a + min b (mx - a)) = mx - (a + b)" if "a \<le> mx" for a b :: nat using that by linarith
    have o2: "o2 = out @ take (mx - length out) (?f (heap_spans (hp P h)))"
      unfolding e2 e1 heap_spans_def using cut [OF 2(2)] by simp
    then have "mx - length o2 = mx - length out - length (heap_spans (hp P h))" by simp
    then show ?thesis using 2(1) [OF True] l2 True o2 by (simp add: o1_def o2_def)
  qed (use 2(2) in simp)
qed simp

text \<open>The census is exact: \<open>memop_snapshot_spans\<close> lists the spans of all the heaps, in the order of
  the heaps, cut at \<open>max\<close> entries and no further; in particular a buffer sized by
  \<open>memop_span_count\<close> receives every span, each described by its own header.\<close>

theorem snapshot_is_census:
  "map info_base (fst (memop_snapshot_spans mx P)) =
     take mx (concat (map (\<lambda>h. heap_spans (hp P h)) (heaps P))) \<and>
   length (fst (memop_snapshot_spans (fst (memop_span_count P)) P)) = fst (memop_span_count P)"
proof -
  have eq: "hp (memop_init P) = hp P" "heaps (memop_init P) = heaps P" by (simp_all add: memop_init_def)
  have b: "info_base (memop_fill_span_info Q a) = a" for Q a
    by (simp add: memop_fill_span_info_def Let_def)
  have s: "map info_base (fst (memop_snapshot_spans m P)) = take m (concat (map (\<lambda>h. heap_spans (hp P h)) (heaps P)))" for m
    by (simp add: memop_snapshot_spans_def Let_def snapshot_heaps_take eq take_map [symmetric] b comp_def)
  have "fst (memop_span_count P) = length (concat (map (\<lambda>h. heap_spans (hp P h)) (heaps P)))"
    by (simp add: memop_span_count_def Let_def eq length_concat comp_def)
  then show ?thesis using s [of mx] s [of "fst (memop_span_count P)"] by (metis length_map take_all le_refl)
qed

section \<open>Large requests near the limits\<close>

lemma large_total_exact:
  assumes "sz \<le> max_request"
  shows "sz + SPAN_HEADER \<le> large_total sz \<and> large_total sz < sz + SPAN_HEADER + SPAN_SIZE"
proof -
  have "(sz + 64) mod 2 ^ 64 = sz + 64" "(sz + 64 + 65535) mod 2 ^ 64 = sz + 64 + 65535"
    using assms by (simp_all add: max_request_def)
  then have "large_total sz = (sz + 65599) div 65536 * 65536" by (simp add: large_total_def Let_def add.assoc)
  then show ?thesis by simp linarith
qed

lemma large_total_overflow: "large_total (2 ^ 64 - 1) = SPAN_SIZE"
  by (simp add: large_total_def)

lemma large_total_4gb: "large_total (2 ^ 32) = 2 ^ 32 + SPAN_SIZE"
  by (simp add: large_total_def)

text \<open>The limits of large requests: up to 4 GB less one chunk the size is rounded up to whole chunks with
  room for the header; but a request of \<open>2^64 - 1\<close> bytes wraps around to a single chunk and succeeds, and
  one of exactly 4 GB is recorded, in the 32-bit \<open>stride\<close>, as a block of 65472 bytes.\<close>

theorem large_request_limits:
  "(sz \<le> max_request \<longrightarrow> sz + SPAN_HEADER \<le> large_total sz \<and> large_total sz < sz + SPAN_HEADER + SPAN_SIZE) \<and>
   (\<exists>p. fst (memop_alloc_raw bump_env 1 (2 ^ 64 - 1) pool_zero) = Some p \<and>
     memop_usable_size p (snd (memop_alloc_raw bump_env 1 (2 ^ 64 - 1) pool_zero)) = 65472) \<and>
   (\<exists>p. fst (memop_alloc_raw bump_env 1 (2 ^ 32) pool_zero) = Some p \<and>
     memop_usable_size p (snd (memop_alloc_raw bump_env 1 (2 ^ 32) pool_zero)) = 65472)"
proof (intro conjI impI)
  assume "sz \<le> max_request"
  then show "sz + SPAN_HEADER \<le> large_total sz" "large_total sz < sz + SPAN_HEADER + SPAN_SIZE"
    using large_total_exact by blast+
next
  have i: "memop_class_index memop_build_size2class (2 ^ 64 - 1) = - 1" "memop_class_index memop_build_size2class (2 ^ 32) = - 1"
    by (intro class_index_large; simp add: MEMOP_MAX_SMALL_def)+
  note d = memop_alloc_raw_def get_heap_def heap_create_locked_def memop_init_def pool_zero_def bump_env_def
    Let_def memop_alloc_large_def heap_chunk_acquire_def chunk_acquire_def chunk_acquire_global_def
    chunk_new_segment_def seg_os_alloc_def span_os_alloc_def bump_mmap_def trim_map_def heap_zero_def upd_span_def upd_heap_def
    round_up_def bump_stats_def memop_usable_size_def span_of_def u32_def
  show "\<exists>p. fst (memop_alloc_raw bump_env 1 (2 ^ 64 - 1) pool_zero) = Some p \<and>
     memop_usable_size p (snd (memop_alloc_raw bump_env 1 (2 ^ 64 - 1) pool_zero)) = 65472"
    using i(1) large_total_overflow by (simp add: d)
  show "\<exists>p. fst (memop_alloc_raw bump_env 1 (2 ^ 32) pool_zero) = Some p \<and>
     memop_usable_size p (snd (memop_alloc_raw bump_env 1 (2 ^ 32) pool_zero)) = 65472"
    using i(2) large_total_4gb by (simp add: d)
qed

theorem large_request_limits_witness:
  "70064 \<le> large_total 70000 \<and> large_total 70000 < 135600"
proof -
  have "(70000 :: nat) \<le> max_request" by (simp add: max_request_def)
  with large_request_limits [of 70000] show ?thesis by simp
qed

end
