(* ===== verification/List_Handler.thy ===== *)
theory List_Handler
  imports Buffers
begin

text \<open>
  \<open>list_hander.c\<close>: the growing vector of pointers.  A \<open>ListX\<close> is a record; its
  vector \<open>Items\<close> is a block of the pool, whose entries are read and written as 8-byte
  pointers in the pool's memory.  A list made by \<open>list_create\<close> has a block of its own for
  the structure as well; the record stands for the fields stored there.  An operation that would
  write through a NULL \<open>Items\<close> has the result \<open>None\<close>.
\<close>

section \<open>State and operations\<close>

record ListX =
  Active :: bool
  TypeSize :: nat
  Max :: nat
  Count :: nat
  Items :: addr

abbreviation (input) INITIAL_LIST_COUNT :: nat where "INITIAL_LIST_COUNT \<equiv> 100"
abbreviation (input) LISTX_BYTES :: nat where "LISTX_BYTES \<equiv> 40"

definition item_at :: "bytes \<Rightarrow> ListX \<Rightarrow> nat \<Rightarrow> addr" where
  "item_at m l i = read_ptr m (Items l + 8 * i)"

text \<open>\<open>list_init\<close> writes every field but \<open>Active\<close>.\<close>

definition list_init :: "mem_env \<Rightarrow> nat \<Rightarrow> ListX \<Rightarrow> int \<Rightarrow> nat \<Rightarrow> MemPool \<Rightarrow> (ListX \<times> MemPool) option" where
  "list_init E t l initial_count type_size P =
    (let mx = (if initial_count \<ge> 0 then nat initial_count else INITIAL_LIST_COUNT);
         l1 = l\<lparr>TypeSize := type_size, Max := mx, Count := 0\<rparr>
     in case memop_alloc_raw E t (mx * 8) P of
          (None, P1) \<Rightarrow> map_option (Pair (l1\<lparr>Items := 0\<rparr>)) (trigger_event P1)
        | (Some p, P1) \<Rightarrow> Some (l1\<lparr>Items := p\<rparr>, P1))"

text \<open>In \<open>list_create\<close> the field \<open>Active\<close> keeps the byte the fresh block happens to hold.\<close>

definition list_create :: "mem_env \<Rightarrow> nat \<Rightarrow> int \<Rightarrow> nat \<Rightarrow> MemPool \<Rightarrow> ((addr \<times> ListX) option \<times> MemPool) option" where
  "list_create E t initial_count type_size P =
    (case memop_alloc_raw E t LISTX_BYTES P of
       (None, P1) \<Rightarrow> map_option (Pair None) (trigger_event P1)
     | (Some a, P1) \<Rightarrow>
         let mx = (if initial_count \<ge> 0 then nat initial_count else INITIAL_LIST_COUNT);
             l = \<lparr>Active = (mem_bytes P1 a \<noteq> 0), TypeSize = type_size, Max = mx, Count = 0, Items = 0\<rparr>
         in case memop_alloc_raw E t (mx * 8) P1 of
              (None, P2) \<Rightarrow> map_option (Pair (Some (a, l))) (trigger_event P2)
            | (Some p, P2) \<Rightarrow> Some (Some (a, l\<lparr>Items := p\<rparr>), P2))"

definition list_add :: "mem_env \<Rightarrow> nat \<Rightarrow> ListX \<Rightarrow> addr \<Rightarrow> nat \<Rightarrow> MemPool \<Rightarrow> (bool \<times> ListX \<times> MemPool) option" where
  "list_add E t l instance_ptr type_size P =
    (let put = (\<lambda>l P. if Items l = 0 then None
           else Some (True, l\<lparr>Count := Count l + 1\<rparr>,
                      P\<lparr>mem_bytes := write_ptr (Items l + 8 * Count l) instance_ptr (mem_bytes P)\<rparr>));
         sz = i32 (int (Count l) + 1)
     in if type_size \<noteq> TypeSize l then map_option (\<lambda>P1. (False, l, P1)) (trigger_event P)
        else if u64 sz \<ge> int (Max l) then
          let new_max = Max l * 2 mod 2 ^ 64
          in case memop_realloc_raw E t (Items l) (new_max * 8 mod 2 ^ 64) P of
               (None, P1) \<Rightarrow> map_option (\<lambda>P2. (False, l, P2)) (trigger_event P1)
             | (Some p, P1) \<Rightarrow> put (l\<lparr>Items := p, Max := new_max\<rparr>) P1
        else put l P)"

text \<open>The shift of the tail by one entry, from index \<open>ix\<close> on.\<close>

function shift_items :: "addr \<Rightarrow> nat \<Rightarrow> nat \<Rightarrow> bytes \<Rightarrow> bytes" where
  "shift_items items ix cnt m =
    (if ix + 1 < cnt then shift_items items (ix + 1) cnt (write_ptr (items + 8 * ix) (read_ptr m (items + 8 * (ix + 1))) m)
     else m)"
  by pat_completeness auto
termination by (relation "measure (\<lambda>(items, ix, cnt, m). cnt - ix)") auto

declare shift_items.simps [simp del]

function find_item :: "bytes \<Rightarrow> ListX \<Rightarrow> addr \<Rightarrow> nat \<Rightarrow> nat option" where
  "find_item m l obj ix =
    (if ix < Count l then if item_at m l ix = obj then Some ix else find_item m l obj (ix + 1)
     else None)"
  by pat_completeness auto
termination by (relation "measure (\<lambda>(m, l, obj, ix). Count l - ix)") auto

declare find_item.simps [simp del]

definition list_remove :: "ListX option \<Rightarrow> addr \<Rightarrow> MemPool \<Rightarrow> ListX option \<times> MemPool" where
  "list_remove lo obj P =
    (case lo of
       None \<Rightarrow> (None, P)
     | Some l \<Rightarrow>
         if Active l then
           case find_item (mem_bytes P) l obj 0 of
             None \<Rightarrow> (Some l, P)
           | Some ix \<Rightarrow> (Some (l\<lparr>Count := Count l - 1\<rparr>), P\<lparr>mem_bytes := shift_items (Items l) ix (Count l) (mem_bytes P)\<rparr>)
         else (Some l, P))"

text \<open>The comparison \<open>index < Count\<close> is made in \<open>uint64\<close>: a negative index is a huge one.\<close>

definition list_remove_index :: "ListX option \<Rightarrow> int \<Rightarrow> MemPool \<Rightarrow> ListX option \<times> MemPool" where
  "list_remove_index lo index P =
    (case lo of
       None \<Rightarrow> (None, P)
     | Some l \<Rightarrow>
         if Active l \<and> u64 index < int (Count l) then
           (Some (l\<lparr>Count := Count l - 1\<rparr>),
            P\<lparr>mem_bytes := shift_items (Items l) (nat (u64 index)) (Count l) (mem_bytes P)\<rparr>)
         else (Some l, P))"

text \<open>\<open>list_release\<close> resets the caller's pointer; the second component is the structure left behind.\<close>

definition list_release :: "nat \<Rightarrow> ListX option \<Rightarrow> MemPool \<Rightarrow> ListX option \<times> MemPool" where
  "list_release t lo P =
    (case lo of
       None \<Rightarrow> (None, P)
     | Some l \<Rightarrow>
         if Items l \<noteq> 0 then (Some (l\<lparr>Items := 0, Active := False\<rparr>), memop_free_raw t (Items l) P)
         else (Some (l\<lparr>Active := False\<rparr>), P))"

section \<open>The vector as a list\<close>

definition list_items :: "MemPool \<Rightarrow> ListX \<Rightarrow> addr list" where
  "list_items P l = map (item_at (mem_bytes P) l) [0..<Count l]"

text \<open>A usable list: its vector is a held block with room for \<open>Max\<close> pointers, and one entry is
  always free.  The bound keeps the byte size of the next growth in the allocator's range.\<close>

definition list_ok :: "MemPool \<Rightarrow> addr set \<Rightarrow> ListX \<Rightarrow> bool" where
  "list_ok P B l \<longleftrightarrow> Items l \<in> B \<and> Max l * 8 \<le> memop_usable_size (Items l) P \<and> Count l < Max l \<and> Max l \<le> 2 ^ 27"

lemma length_list_items [simp]: "length (list_items P l) = Count l"
  by (simp add: list_items_def)

lemma nth_list_items [simp]: "i < Count l \<Longrightarrow> list_items P l ! i = item_at (mem_bytes P) l i"
  by (simp add: list_items_def)

lemma item_keeps:
  assumes "keeps B P P'" "list_ok P B l" "i < Max l"
  shows "item_at (mem_bytes P') l i = item_at (mem_bytes P) l i"
  unfolding item_at_def using assms by (intro keeps_ptr [OF assms(1)]) (auto simp: list_ok_def)

lemma list_items_keeps: "keeps B P P' \<Longrightarrow> list_ok P B l \<Longrightarrow> list_items P' l = list_items P l"
  by (rule nth_equalityI) (auto simp: item_keeps list_ok_def)

lemma list_ok_keeps: "keeps B P P' \<Longrightarrow> list_ok P B l \<Longrightarrow> B \<subseteq> B' \<Longrightarrow> list_ok P' B' l"
  by (auto simp: list_ok_def keeps_def)

lemma item_put:
  assumes "i < Count l" "v < 2 ^ 64"
  shows "item_at (write_ptr (Items l + 8 * j) v m) l i = (if i = j then v else item_at m l i)"
proof (cases "i = j")
  case False
  then have "Items l + 8 * j + 8 \<le> Items l + 8 * i \<or> Items l + 8 * i + 8 \<le> Items l + 8 * j" by linarith
  then show ?thesis using False by (simp add: item_at_def read_write_other)
qed (use assms(2) in \<open>simp add: item_at_def read_write_ptr\<close>)

lemma shift_items_at:
  "ix \<le> cnt \<Longrightarrow> read_ptr (shift_items a ix cnt m) (a + 8 * i) =
    (if ix \<le> i \<and> i + 1 < cnt then read_ptr m (a + 8 * (i + 1)) else read_ptr m (a + 8 * i))"
proof (induction a ix cnt m rule: shift_items.induct)
  case (1 a ix cnt m)
  show ?case
  proof (cases "ix + 1 < cnt")
    case True
    define m1 where "m1 = write_ptr (a + 8 * ix) (read_ptr m (a + 8 * (ix + 1))) m"
    have w: "read_ptr m1 (a + 8 * j) = (if j = ix then read_ptr m (a + 8 * (ix + 1)) else read_ptr m (a + 8 * j))" for j
    proof (cases "j = ix")
      case False
      then have "a + 8 * ix + 8 \<le> a + 8 * j \<or> a + 8 * j + 8 \<le> a + 8 * ix" by linarith
      then show ?thesis using False by (simp add: m1_def read_write_other)
    qed (simp only: m1_def read_write_ptr [OF read_ptr_bound] simp_thms if_True)
    have e: "shift_items a ix cnt m = shift_items a (ix + 1) cnt m1" using True by (subst shift_items.simps) (simp add: m1_def)
    have "ix + 1 \<le> cnt" using True by simp
    from 1(1) [OF True, folded m1_def, OF this] show ?thesis unfolding e w using True by auto
  qed (auto simp: shift_items.simps)
qed

lemma shift_items_same: "ix \<le> cnt \<Longrightarrow> same_at (- {a + 8 * ix..<a + 8 * cnt}) m (shift_items a ix cnt m)"
proof (induction a ix cnt m rule: shift_items.induct)
  case (1 a ix cnt m)
  show ?case
  proof (cases "ix + 1 < cnt")
    case True
    let ?m = "write_ptr (a + 8 * ix) (read_ptr m (a + 8 * (ix + 1))) m"
    have "same_at (- {a + 8 * ix..<a + 8 * cnt}) m ?m" using True by (intro same_at_write_ptr) auto
    moreover have "same_at (- {a + 8 * ix..<a + 8 * cnt}) ?m (shift_items a (ix + 1) cnt ?m)"
      using True by (intro same_at_mono [OF 1(1) [OF True]]) auto
    ultimately show ?thesis
      using True by (subst shift_items.simps) (auto intro: same_at_trans)
  qed (simp add: shift_items.simps)
qed

lemma find_item_find: "find_item m l obj ix = List.find (\<lambda>i. item_at m l i = obj) [ix..<Count l]"
proof (induction m l obj ix rule: find_item.induct)
  case (1 m l obj ix)
  show ?case
  proof (cases "ix < Count l")
    case True
    then have "[ix..<Count l] = ix # [ix + 1..<Count l]" by (simp add: upt_rec)
    then show ?thesis using True 1 by (subst find_item.simps) simp
  qed (simp add: find_item.simps)
qed

lemma find_item_none: "find_item m l obj 0 = None \<Longrightarrow> i < Count l \<Longrightarrow> item_at m l i \<noteq> obj"
  by (auto simp: find_item_find find_None_iff)

lemma find_item_some:
  assumes "find_item m l obj 0 = Some k"
  shows "k < Count l" "item_at m l k = obj" "\<And>i. i < k \<Longrightarrow> item_at m l i \<noteq> obj"
  using assms by (auto simp: find_item_find find_Some_iff)

text \<open>A list is full when the next entry would take the last place; it is refused when its vector cannot grow.\<close>

definition list_full :: "ListX \<Rightarrow> bool" where
  "list_full l \<longleftrightarrow> Max l \<le> Count l + 1"

definition list_refused :: "mem_env \<Rightarrow> nat \<Rightarrow> ListX \<Rightarrow> MemPool \<Rightarrow> bool" where
  "list_refused E t l P \<longleftrightarrow> list_full l \<and> fst (memop_realloc_raw E t (Items l) (Max l * 2 * 8) P) = None"

definition added_spec :: "mem_env \<Rightarrow> nat \<Rightarrow> MemPool \<Rightarrow> addr set \<Rightarrow> ListX \<Rightarrow> addr \<Rightarrow> bool \<Rightarrow> ListX \<Rightarrow> MemPool \<Rightarrow> bool" where
  "added_spec E t P B l v added l' P' \<longleftrightarrow> keeps (B - {Items l}) P P' \<and>
     list_items P' l' = (if added then list_items P l @ [v] else list_items P l) \<and>
     client E P' (insert (Items l') (B - {Items l})) \<and> list_ok P' (insert (Items l') (B - {Items l})) l' \<and>
     Items l' \<notin> B - {Items l} \<and> TypeSize l' = TypeSize l \<and> Active l' = Active l \<and>
     (if list_refused E t l P
      then \<not> added \<and> l' = l \<and> keeps B P P' \<and> \<not> fatal_errors P \<and> noted P P'
      else added \<and> Max l' = (if list_full l then 2 * Max l else Max l) \<and> Count l' = Count l + 1 \<and> silent P P')"

context pool_user
begin

lemma list_put:
  assumes c: "client E P B" and ok: "list_ok P B l" and v: "v < 2 ^ 64" and room: "Count l + 1 < Max l"
  defines "l' \<equiv> l\<lparr>Count := Count l + 1\<rparr>" and "P' \<equiv> P\<lparr>mem_bytes := write_ptr (Items l + 8 * Count l) v (mem_bytes P)\<rparr>"
  shows "list_items P' l' = list_items P l @ [v]" "client E P' B" "keeps (B - {Items l}) P P'" "list_ok P' B l'"
proof -
  have b: "Items l \<in> B" "Max l * 8 \<le> memop_usable_size (Items l) P" using ok by (simp_all add: list_ok_def)
  have sa: "same_at (- extent P (Items l)) (mem_bytes P) (write_ptr (Items l + 8 * Count l) v (mem_bytes P))"
    using b(2) room by (intro same_at_write_ptr) (auto simp: extent_def)
  show "client E P' B" "keeps (B - {Items l}) P P'"
    unfolding P'_def by (rule user_write [OF c b(1) sa])+
  have u: "memop_usable_size q P' = memop_usable_size q P" for q by (simp add: P'_def)
  show "list_ok P' B l'" using ok room u by (simp add: list_ok_def l'_def)
  have i: "item_at (mem_bytes P') l' i = (if i = Count l then v else item_at (mem_bytes P) l i)" if "i \<le> Count l" for i
    using item_put [of i l' v "Count l" "mem_bytes P"] that v by (simp add: l'_def P'_def item_at_def)
  have "list_items P' l' = map (item_at (mem_bytes P') l') [0..<Count l] @ [item_at (mem_bytes P') l' (Count l)]"
    by (simp add: list_items_def l'_def)
  also have "\<dots> = list_items P l @ [v]" using i by (simp add: list_items_def)
  finally show "list_items P' l' = list_items P l @ [v]" .
qed

lemma list_grow:
  assumes c: "client E P B" and ok: "list_ok P B l" and small: "Max l \<le> 2 ^ 26"
    and r: "memop_realloc_raw E t (Items l) (Max l * 2 * 8) P = (r, P1)"
  shows "keeps (B - {Items l}) P P1"
    "r = None \<Longrightarrow> client E P1 B \<and> keeps B P P1"
    "r = Some p \<Longrightarrow> 0 < p \<and> p \<notin> B - {Items l} \<and> client E P1 (insert p (B - {Items l})) \<and>
       list_ok P1 (insert p (B - {Items l})) (l\<lparr>Items := p, Max := Max l * 2\<rparr>) \<and>
       list_items P1 (l\<lparr>Items := p, Max := Max l * 2\<rparr>) = list_items P l"
proof -
  have b: "Items l \<in> B" "Max l * 8 \<le> memop_usable_size (Items l) P" "Count l < Max l" using ok by (simp_all add: list_ok_def)
  have sz: "0 < Max l * 2 * 8" "Max l * 2 * 8 \<le> max_request" using b(3) small by (simp_all add: max_request_def)
  note u = user_realloc [OF c b(1) sz r]
  show "keeps (B - {Items l}) P P1" "r = None \<Longrightarrow> client E P1 B \<and> keeps B P P1" using u by blast+
  assume "r = Some p"
  note s = u(3) [OF this]
  have "item_at (mem_bytes P1) (l\<lparr>Items := p, Max := Max l * 2\<rparr>) i = item_at (mem_bytes P) l i" if "i < Count l" for i
  proof -
    have "mem_bytes P1 (p + (8 * i + k)) = mem_bytes P (Items l + (8 * i + k))" if "k < 8" for k
      using s b(2,3) that \<open>i < Count l\<close> by (simp add: min_def)
    then show ?thesis unfolding item_at_def by (intro read_ptr_cong) (simp add: add.assoc)
  qed
  then have "list_items P1 (l\<lparr>Items := p, Max := Max l * 2\<rparr>) = list_items P l" by (simp add: list_items_def)
  then show "0 < p \<and> p \<notin> B - {Items l} \<and> client E P1 (insert p (B - {Items l})) \<and>
       list_ok P1 (insert p (B - {Items l})) (l\<lparr>Items := p, Max := Max l * 2\<rparr>) \<and>
       list_items P1 (l\<lparr>Items := p, Max := Max l * 2\<rparr>) = list_items P l"
    using s b(3) small by (simp add: list_ok_def)
qed

lemma list_add_user:
  assumes c: "client E P B" and ok: "list_ok P B l" and small: "Max l \<le> 2 ^ 26" and v: "v < 2 ^ 64" and ts: "ts = TypeSize l"
  shows "case list_add E t l v ts P of None \<Rightarrow> list_refused E t l P \<and> fatal_errors P | Some (added, l', P') \<Rightarrow> added_spec E t P B l v added l' P'"
proof -
  have b: "Items l \<in> B" "Count l < Max l" using ok by (simp_all add: list_ok_def)
  have n0: "Items l \<noteq> 0" using user_pos [OF c b(1)] by simp
  have sz: "u64 (i32 (int (Count l) + 1)) = int (Count l) + 1" using b(2) small by simp
  have bb: "insert (Items l) B = B" using b(1) by blast
  show ?thesis
  proof (cases "list_full l")
    case False
    then have room: "Count l + 1 < Max l" by (simp add: list_full_def)
    let ?l = "l\<lparr>Count := Count l + 1\<rparr>" and ?P = "P\<lparr>mem_bytes := write_ptr (Items l + 8 * Count l) v (mem_bytes P)\<rparr>"
    have e: "list_add E t l v ts P = Some (True, ?l, ?P)"
      using ts n0 room by (simp add: list_add_def Let_def sz)
    have "added_spec E t P B l v True ?l ?P"
      using list_put [OF c ok v room] False by (simp add: added_spec_def bb list_refused_def)
    with e show ?thesis by simp
  next
    case True
    then have full: "Max l \<le> Count l + 1" by (simp add: list_full_def)
    obtain r P1 where r: "memop_realloc_raw E t (Items l) (Max l * 2 * 8) P = (r, P1)" by force
    have m: "Max l * 2 mod 2 ^ 64 = Max l * 2" "Max l * 2 * 8 mod 2 ^ 64 = Max l * 2 * 8" using small by simp_all
    note g = list_grow [OF c ok small r] and sl = silent_realloc_raw [OF r]
    show ?thesis
    proof (cases r)
      case None
      then have e: "list_add E t l v ts P = map_option (\<lambda>P2. (False, l, P2)) (trigger_event P1)"
        using ts full r None unfolding list_add_def Let_def sz m by simp
      have k: "client E P1 B" "keeps B P P1" using g(2) [OF None] by blast+
      have rf: "list_refused E t l P" using True r None by (simp add: list_refused_def)
      show ?thesis
      proof (cases "fatal_errors P")
        case False
        have ke: "keeps B P (counted P1)" using k(2) by simp
        have "added_spec E t P B l v False l (counted P1)"
          using client_counted [OF k(1)] False sl rf list_ok_keeps [OF ke ok subset_refl] list_items_keeps [OF ke ok] keeps_mono [OF ke]
          by (auto simp: bb added_spec_def)
        with e False sl show ?thesis by (simp add: trigger_event_eq)
      qed (use e sl rf in \<open>simp add: trigger_event_eq\<close>)
    next
      case (Some p)
      let ?l = "l\<lparr>Items := p, Max := Max l * 2\<rparr>" and ?B = "insert p (B - {Items l})"
      have s: "0 < p" "p \<notin> B - {Items l}" "client E P1 ?B" "list_ok P1 ?B ?l" "list_items P1 ?l = list_items P l"
        using g(3) [OF Some] by blast+
      have e: "list_add E t l v ts P = Some (True, ?l\<lparr>Count := Count ?l + 1\<rparr>,
          P1\<lparr>mem_bytes := write_ptr (Items ?l + 8 * Count ?l) v (mem_bytes P1)\<rparr>)"
        using ts full r Some s(1) unfolding list_add_def Let_def sz m by simp
      have room: "Count ?l + 1 < Max ?l" using b(2) by simp
      note pt = list_put [OF s(3,4) v room]
      have "?B - {Items ?l} = B - {Items l}" using s(2) by simp
      then have "keeps (B - {Items l}) P (P1\<lparr>mem_bytes := write_ptr (Items ?l + 8 * Count ?l) v (mem_bytes P1)\<rparr>)"
        using g(1) pt(3) by (auto intro: keeps_trans)
      then have "added_spec E t P B l v True (?l\<lparr>Count := Count ?l + 1\<rparr>)
          (P1\<lparr>mem_bytes := write_ptr (Items ?l + 8 * Count ?l) v (mem_bytes P1)\<rparr>)"
        using pt s(2,5) True r Some sl by (simp add: added_spec_def list_refused_def)
      with e show ?thesis by simp
    qed
  qed
qed

end

lemma list_refused_refuses:
  assumes "client E P B" "list_ok P B l" "Max l \<le> 2 ^ 26" "list_refused E t l P"
  shows "refuses E t"
proof -
  obtain r P1 where r: "memop_realloc_raw E t (Items l) (Max l * 2 * 8) P = (r, P1)" by force
  then have "r = None" using assms(4) by (simp add: list_refused_def)
  moreover have "0 < Max l * 2 * 8" "Max l * 2 * 8 \<le> max_request" using assms(2,3) by (auto simp: list_ok_def max_request_def)
  ultimately show ?thesis using realloc_refuses [OF assms(1)] r by blast
qed

section \<open>Removal\<close>

lemma shifted_items:
  assumes "k < Count l"
  shows "list_items (P\<lparr>mem_bytes := shift_items (Items l) k (Count l) (mem_bytes P)\<rparr>) (l\<lparr>Count := Count l - 1\<rparr>) =
    take k (list_items P l) @ drop (k + 1) (list_items P l)"
proof (rule nth_equalityI)
  fix i assume "i < length (list_items (P\<lparr>mem_bytes := shift_items (Items l) k (Count l) (mem_bytes P)\<rparr>) (l\<lparr>Count := Count l - 1\<rparr>))"
  then have i: "i < Count l - 1" by simp
  have k: "k \<le> Count l" "i + 1 < Count l" using assms i by simp_all
  have "list_items (P\<lparr>mem_bytes := shift_items (Items l) k (Count l) (mem_bytes P)\<rparr>) (l\<lparr>Count := Count l - 1\<rparr>) ! i =
      (if k \<le> i then item_at (mem_bytes P) l (i + 1) else item_at (mem_bytes P) l i)"
    using i k(2) shift_items_at [OF k(1), of "Items l" "mem_bytes P" i] by (simp add: item_at_def)
  also have "\<dots> = (take k (list_items P l) @ drop (k + 1) (list_items P l)) ! i"
  proof (cases "k \<le> i")
    case True
    then have "(take k (list_items P l) @ drop (k + 1) (list_items P l)) ! i = drop (k + 1) (list_items P l) ! (i - k)"
      using assms by (simp add: nth_append)
    also have "\<dots> = list_items P l ! (k + 1 + (i - k))" using i assms by (intro nth_drop) simp
    also have "k + 1 + (i - k) = i + 1" using True by simp
    finally show ?thesis using True i by simp
  qed (use i assms in \<open>simp add: nth_append\<close>)
  finally show "list_items (P\<lparr>mem_bytes := shift_items (Items l) k (Count l) (mem_bytes P)\<rparr>) (l\<lparr>Count := Count l - 1\<rparr>) ! i =
      (take k (list_items P l) @ drop (k + 1) (list_items P l)) ! i" .
qed (use assms in simp)

lemma remove1_at: "xs ! k = x \<Longrightarrow> k < length xs \<Longrightarrow> (\<And>i. i < k \<Longrightarrow> xs ! i \<noteq> x) \<Longrightarrow> remove1 x xs = take k xs @ drop (k + 1) xs"
proof (induction xs arbitrary: k)
  case (Cons y ys)
  show ?case
  proof (cases k)
    case (Suc j)
    have "y \<noteq> x" using Cons.prems(3) [of 0] Suc by simp
    moreover have "remove1 x ys = take j ys @ drop (j + 1) ys"
    proof (rule Cons.IH)
      show "ys ! i \<noteq> x" if "i < j" for i using Cons.prems(3) [of "Suc i"] Suc that by simp
    qed (use Cons.prems(1,2) Suc in simp_all)
    ultimately show ?thesis using Suc by simp
  qed (use Cons.prems in simp)
qed simp

lemma find_item_remove1:
  "find_item (mem_bytes P) l obj 0 = None \<Longrightarrow> obj \<notin> set (list_items P l)"
  "find_item (mem_bytes P) l obj 0 = Some k \<Longrightarrow> remove1 obj (list_items P l) = take k (list_items P l) @ drop (k + 1) (list_items P l)"
proof -
  show "find_item (mem_bytes P) l obj 0 = None \<Longrightarrow> obj \<notin> set (list_items P l)"
    by (auto simp: list_items_def dest: find_item_none)
  assume f: "find_item (mem_bytes P) l obj 0 = Some k"
  note s = find_item_some [OF f]
  show "remove1 obj (list_items P l) = take k (list_items P l) @ drop (k + 1) (list_items P l)"
    by (rule remove1_at) (use s in auto)
qed

section \<open>Properties\<close>

text \<open>C25: adding to a usable list: when there is room besides one spare place \<open>list_add\<close> appends the pointer and
  moves nothing; when there is not, it doubles the capacity and appends; only when the memory for the doubled
  vector is refused does it not append: then it reports one error, returns false and leaves the list and every
  block as they were, or crashes in the report when no handler was set.  The list stays usable, and all other
  blocks of the program keep their contents.\<close>

theorem list_add_appends:
  fixes t :: nat
  assumes "mmap_law (env_mmap E)" "client E P B" "list_ok P B l" "Max l \<le> 2 ^ 26" "v < 2 ^ 64"
  defines "full \<equiv> Max l \<le> Count l + 1"
  defines "refused \<equiv> full \<and> fst (memop_realloc_raw E t (Items l) (Max l * 2 * 8) P) = None"
  shows "case list_add E t l v (TypeSize l) P of
      None \<Rightarrow> refused \<and> fatal_errors P
    | Some (added, l', P') \<Rightarrow>
        list_ok P' (insert (Items l') (B - {Items l})) l' \<and> client E P' (insert (Items l') (B - {Items l})) \<and>
        keeps (B - {Items l}) P P' \<and>
        (if refused then \<not> added \<and> l' = l \<and> list_items P' l' = list_items P l \<and> keeps B P P' \<and> noted P P' \<and> \<not> fatal_errors P
         else added \<and> list_items P' l' = list_items P l @ [v] \<and> Max l' = (if full then 2 * Max l else Max l) \<and>
           TypeSize l' = TypeSize l \<and> Active l' = Active l \<and> silent P P')"
proof -
  have "refused = list_refused E t l P" by (simp add: refused_def full_def list_refused_def list_full_def)
  then show ?thesis
    using pool_user.list_add_user [OF pool_user.intro [OF assms(1)] assms(2-5) refl, of t]
    unfolding full_def list_full_def [symmetric] by (auto simp: added_spec_def split: option.splits)
qed

text \<open>Removing: on an active list \<open>list_remove\<close> drops the first occurrence of the pointer and
  \<open>list_remove_index\<close> the entry at an index in range, the others keeping their order; an index out
  of range, negative ones included, changes nothing.\<close>

theorem list_removals:
  assumes "Active l" "Count l < 2 ^ 63" "- (2 ^ 31) \<le> index" "index < 2 ^ 31"
  shows "(case list_remove (Some l) obj P of (Some l', P') \<Rightarrow> list_items P' l' = remove1 obj (list_items P l) | _ \<Rightarrow> False) \<and>
    (case list_remove_index (Some l) index P of
       (Some l', P') \<Rightarrow> list_items P' l' = (if 0 \<le> index \<and> index < int (Count l)
         then take (nat index) (list_items P l) @ drop (nat index + 1) (list_items P l) else list_items P l) | _ \<Rightarrow> False)"
proof
  show "case list_remove (Some l) obj P of (Some l', P') \<Rightarrow> list_items P' l' = remove1 obj (list_items P l) | _ \<Rightarrow> False"
  proof (cases "find_item (mem_bytes P) l obj 0")
    case None
    then show ?thesis using assms(1) find_item_remove1(1) [OF None] by (simp add: list_remove_def remove1_idem)
  next
    case (Some k)
    then have "k < Count l" by (rule find_item_some)
    then show ?thesis
      using assms(1) Some shifted_items [of k l P] find_item_remove1(2) [OF Some] by (simp add: list_remove_def)
  qed
  show "case list_remove_index (Some l) index P of
       (Some l', P') \<Rightarrow> list_items P' l' = (if 0 \<le> index \<and> index < int (Count l)
         then take (nat index) (list_items P l) @ drop (nat index + 1) (list_items P l) else list_items P l) | _ \<Rightarrow> False"
  proof (cases "0 \<le> index")
    case True
    then have u: "u64 index = index" using assms(4) by simp
    show ?thesis
    proof (cases "index < int (Count l)")
      case True
      then have "nat index < Count l" using \<open>0 \<le> index\<close> by linarith
      from shifted_items [OF this, of P] show ?thesis using True \<open>0 \<le> index\<close> assms(1) by (simp add: list_remove_index_def u)
    qed (use True assms(1) in \<open>simp add: list_remove_index_def u\<close>)
  next
    case False
    then have "u64 index = index + 2 ^ 64" using assms(3) by (simp add: u64_neg)
    then have "\<not> u64 index < int (Count l)" using assms(2,3) by simp
    then show ?thesis using False assms(1) by (simp add: list_remove_index_def)
  qed
qed

definition one_list :: ListX where
  "one_list = \<lparr>Active = True, TypeSize = 8, Max = 5, Count = 4, Items = 4259904\<rparr>"

lemma one_list_ok: "list_ok P_one {4259904} one_list"
  using P_one_usable by (simp add: list_ok_def one_list_def)

lemma one_realloc: "\<exists>P'. memop_realloc_raw bump_env 1 4259904 80 P_one = (Some 4325440, P')"
proof -
  have "fst (memop_realloc_raw bump_env 1 4259904 80 P_one) = Some 4325440"
    by (simp add: memop_realloc_raw_def run_defs stride_4 class_index_80 memop_usable_size_def span_of_def)
  then show ?thesis by (metis prod.collapse)
qed

text \<open>Four of five places are taken: the next entry needs a larger vector, which is granted.\<close>

theorem list_add_appends_witness:
  "\<exists>l' P'. list_add bump_env 1 one_list 77 8 P_one = Some (True, l', P') \<and> Max l' = 10 \<and>
    list_items P' l' = list_items P_one one_list @ [77]"
  using list_add_appends [OF bump_env_law P_one_client one_list_ok, of 77 1] one_realloc
  by (auto simp: one_list_def split: option.splits)

theorem list_removals_witness:
  "case list_remove_index (Some one_list) 1 P_one of
     (Some l', P') \<Rightarrow> list_items P' l' = take (nat 1) (list_items P_one one_list) @ drop (nat 1 + 1) (list_items P_one one_list)
   | _ \<Rightarrow> False"
proof -
  have o: "Active one_list" "Count one_list = 4" by (simp_all add: one_list_def)
  then show ?thesis
    using conjunct2 [OF list_removals [where l = one_list and index = 1 and P = P_one and obj = 0]]
    by (simp split: option.splits prod.splits)
qed

lemma alloc_zero: "memop_alloc_raw E t 0 P = (None, P)"
  by (simp add: memop_alloc_raw_def)

text \<open>Lists made by the library are never active: \<open>list_create\<close> leaves the field \<open>Active\<close> to the
  contents of the fresh block, so on zeroed memory \<open>list_remove\<close> and \<open>list_remove_index\<close> do nothing on
  the new list, whatever was added; and a list created with capacity 0 rejects every \<open>list_add\<close>.\<close>

theorem list_created_inactive:
  assumes "list_create E t n ts P = Some (Some (a, l), P')" "mem_bytes (snd (memop_alloc_raw E t LISTX_BYTES P)) a = 0"
  shows "\<not> Active l \<and> list_remove (Some (l\<lparr>Count := c\<rparr>)) obj Q = (Some (l\<lparr>Count := c\<rparr>), Q) \<and>
    list_remove_index (Some (l\<lparr>Count := c\<rparr>)) i Q = (Some (l\<lparr>Count := c\<rparr>), Q) \<and>
    (n = 0 \<longrightarrow> list_add E t l v ts Q = map_option (\<lambda>Q'. (False, l, Q')) (trigger_event Q))"
proof -
  obtain P1 where a: "memop_alloc_raw E t LISTX_BYTES P = (Some a, P1)"
    and l: "Active l = (mem_bytes P1 a \<noteq> 0)" "TypeSize l = ts" "Max l = (if n \<ge> 0 then nat n else INITIAL_LIST_COUNT)" "Count l = 0"
      "n = 0 \<longrightarrow> Items l = 0"
    using assms(1) by (cases "n = 0") (auto simp: list_create_def Let_def alloc_zero trigger_event_eq split: prod.splits option.splits if_splits)
  have act: "\<not> Active l" using assms(2) l(1) a by simp
  have add: "list_add E t l v ts Q = map_option (\<lambda>Q'. (False, l, Q')) (trigger_event Q)" if "n = 0"
    using that l by (simp add: list_add_def Let_def memop_realloc_raw_def alloc_zero)
  show ?thesis using act add by (simp add: list_remove_def list_remove_index_def)
qed

lemma P_one_zero: "mem_bytes P_one 4259904 = 0"
  by (simp add: run_defs)

theorem list_created_inactive_witness:
  "\<exists>a l P'. list_create bump_env 1 10 8 pool_zero = Some (Some (a, l), P') \<and>
     list_remove (Some (l\<lparr>Count := 3\<rparr>)) 5 P' = (Some (l\<lparr>Count := 3\<rparr>), P')"
proof -
  have "fst (memop_alloc_raw bump_env 1 80 P_one) = Some 4325440" by (simp add: run_defs stride_4 class_index_80)
  then obtain P2 where r: "memop_alloc_raw bump_env 1 80 P_one = (Some 4325440, P2)" by (metis prod.collapse)
  obtain l P' where e: "list_create bump_env 1 10 8 pool_zero = Some (Some (4259904, l), P')"
    using r by (simp add: list_create_def first_alloc del: One_nat_def)
  have "mem_bytes (snd (memop_alloc_raw bump_env 1 LISTX_BYTES pool_zero)) 4259904 = 0" by (simp add: first_alloc P_one_zero del: One_nat_def)
  from list_created_inactive [OF e this] e show ?thesis by blast
qed

end
