(* ===== verification/String_Handler.thy ===== *)
theory String_Handler
  imports List_Handler
begin

text \<open>
  \<open>string_handler.c\<close>: growing strings whose buffer is a block of the pool, terminated by a
  zero byte.  A \<open>StringX\<close> is a record, its characters are bytes of the pool's memory, so a
  pointer into a buffer that has been moved reads what the allocator left there.  A pointer to a
  structure that may be NULL is an option.  A result \<open>None\<close> of the whole operation means that
  it does not return: a loop that does not end, an access through NULL, undefined behaviour, or an
  error reported to the default handler.  Characters are bytes (\<open>8 word\<close>); the length arguments are C
  \<open>int\<close>s.
\<close>

section \<open>State\<close>

record StringX =
  sx_active :: bool
  sx_max :: nat
  sx_len :: nat
  sx_content :: addr

abbreviation (input) INITIAL_STRING_LENGTH :: nat where "INITIAL_STRING_LENGTH \<equiv> 50"
abbreviation (input) STRINGX_BYTES :: nat where "STRINGX_BYTES \<equiv> 32"

definition sh_is_ws :: "8 word \<Rightarrow> bool" where
  "sh_is_ws c \<longleftrightarrow> c = 32 \<or> c = 9 \<or> c = 10 \<or> c = 13 \<or> c = 12 \<or> c = 11"

definition set_byte :: "addr \<Rightarrow> 8 word \<Rightarrow> MemPool \<Rightarrow> MemPool" where
  "set_byte a v P = P\<lparr>mem_bytes := (mem_bytes P)(a := v)\<rparr>"

section \<open>Growth\<close>

partial_function (option) sh_grow :: "nat \<Rightarrow> nat \<Rightarrow> nat option" where
  "sh_grow mx required = (if mx < required then sh_grow (mx * 2 mod 2 ^ 64) required else Some mx)"

definition sh_ensure_capacity :: "mem_env \<Rightarrow> nat \<Rightarrow> StringX \<Rightarrow> nat \<Rightarrow> MemPool \<Rightarrow> (bool \<times> StringX \<times> MemPool) option" where
  "sh_ensure_capacity E t s required P =
    (if required \<le> sx_max s then Some (True, s, P)
     else case sh_grow (if sx_max s \<noteq> 0 then sx_max s else INITIAL_STRING_LENGTH) required of
       None \<Rightarrow> None
     | Some new_max \<Rightarrow>
         (case memop_realloc_raw E t (sx_content s) ((new_max + 1) mod 2 ^ 64) P of
            (None, P1) \<Rightarrow> map_option (\<lambda>P2. (False, s, P2)) (trigger_event P1)
          | (Some nc, P1) \<Rightarrow> Some (True, s\<lparr>sx_content := nc, sx_max := new_max\<rparr>, P1)))"

section \<open>Life cycle\<close>

definition string_init :: "mem_env \<Rightarrow> nat \<Rightarrow> StringX option \<Rightarrow> MemPool \<Rightarrow> (StringX option \<times> MemPool) option" where
  "string_init E t so P =
    (case so of
       None \<Rightarrow> Some (None, P)
     | Some s \<Rightarrow>
         (case memop_alloc_raw E t (INITIAL_STRING_LENGTH + 1) P of
            (None, P1) \<Rightarrow>
              map_option (Pair (Some \<lparr>sx_active = False, sx_max = 0, sx_len = 0, sx_content = 0\<rparr>)) (trigger_event P1)
          | (Some p, P1) \<Rightarrow>
              Some (Some \<lparr>sx_active = True, sx_max = INITIAL_STRING_LENGTH, sx_len = 0, sx_content = p\<rparr>, set_byte p 0 P1)))"

definition string_create :: "mem_env \<Rightarrow> nat \<Rightarrow> StringX \<Rightarrow> MemPool \<Rightarrow> (StringX \<times> MemPool) option" where
  "string_create E t junk P = map_option (\<lambda>(r, P1). (the r, P1)) (string_init E t (Some junk) P)"

definition string_release :: "nat \<Rightarrow> StringX option \<Rightarrow> MemPool \<Rightarrow> StringX option \<times> MemPool" where
  "string_release t so P =
    (case so of
       None \<Rightarrow> (None, P)
     | Some s \<Rightarrow>
         (Some \<lparr>sx_active = False, sx_max = 0, sx_len = 0, sx_content = 0\<rparr>,
          if sx_content s \<noteq> 0 then memop_free_raw t (sx_content s) P else P))"

section \<open>Copy and append\<close>

definition string_copy ::
    "mem_env \<Rightarrow> nat \<Rightarrow> StringX option \<Rightarrow> addr \<Rightarrow> int \<Rightarrow> int \<Rightarrow> int \<Rightarrow> int \<Rightarrow> MemPool \<Rightarrow> (StringX option \<times> MemPool) option" where
  "string_copy E t src content cont_length src_start len dst_start P =
    (case src of
       None \<Rightarrow> Some (None, P)
     | Some s \<Rightarrow>
         if sx_content s = 0 \<or> content = 0 then Some (src, P)
         else if len \<le> 0 \<or> src_start < 0 \<or> dst_start < 0 then Some (src, P)
         else if i32 (src_start + len) > cont_length then Some (src, P)
         else
           let end_pos = nat (dst_start + len) in
           case sh_ensure_capacity E t s end_pos P of
             None \<Rightarrow> None
           | Some (ok, s1, P1) \<Rightarrow>
               if \<not> ok then Some (Some s1, P1)
               else
                 let m = copy_fwd (nat len) (sx_content s1 + nat dst_start) (content + nat src_start) (mem_bytes P1);
                     s2 = (if end_pos > sx_len s1 then s1\<lparr>sx_len := end_pos\<rparr> else s1)
                 in Some (Some s2, P1\<lparr>mem_bytes := m(sx_content s2 + sx_len s2 := 0)\<rparr>))"

definition string_copys ::
    "mem_env \<Rightarrow> nat \<Rightarrow> StringX option \<Rightarrow> StringX option \<Rightarrow> int \<Rightarrow> int \<Rightarrow> int \<Rightarrow> MemPool \<Rightarrow> (StringX option \<times> MemPool) option" where
  "string_copys E t src dst src_start len dst_start P =
    (case src of
       None \<Rightarrow> Some (dst, P)
     | Some s \<Rightarrow>
         if sx_content s = 0 then Some (dst, P)
         else string_copy E t dst (sx_content s) (i32 (int (sx_len s))) src_start len dst_start P)"

definition string_append ::
    "mem_env \<Rightarrow> nat \<Rightarrow> StringX option \<Rightarrow> StringX option \<Rightarrow> int \<Rightarrow> int \<Rightarrow> MemPool \<Rightarrow> (StringX option \<times> MemPool) option" where
  "string_append E t src dst src_start len P =
    (case (src, dst) of
       (Some s, Some d) \<Rightarrow>
         if sx_content s = 0 then Some (dst, P)
         else if len \<le> 0 \<or> src_start < 0 then Some (dst, P)
         else if u64 (i32 (src_start + len)) > int (sx_len s) then Some (dst, P)
         else string_copy E t dst (sx_content s) (i32 (int (sx_len s))) src_start len (i32 (int (sx_len d))) P
     | _ \<Rightarrow> Some (dst, P))"

definition string_appends ::
    "mem_env \<Rightarrow> nat \<Rightarrow> StringX option \<Rightarrow> addr \<Rightarrow> int \<Rightarrow> int \<Rightarrow> int \<Rightarrow> MemPool \<Rightarrow> (StringX option \<times> MemPool) option" where
  "string_appends E t src content con_length src_start src_length P =
    (case src of
       None \<Rightarrow> Some (None, P)
     | Some s \<Rightarrow> string_copy E t src content con_length src_start src_length (i32 (int (sx_len s))) P)"

text \<open>
  \<open>vsnprintf\<close> of the C library for a format and its arguments: \<open>None\<close> is an encoding error,
  \<open>Some out\<close> the formatted text.  With a capacity it stores at most \<open>cap - 1\<close> characters
  and the terminating zero and returns the full length.
\<close>

definition store_text :: "addr \<Rightarrow> nat \<Rightarrow> 8 word list \<Rightarrow> bytes \<Rightarrow> bytes" where
  "store_text a cap out m =
    (\<lambda>x. if cap = 0 then m x
         else if a \<le> x \<and> x < a + min (length out) (cap - 1) then out ! (x - a)
         else if x = a + min (length out) (cap - 1) then 0 else m x)"

definition string_append_formatv ::
    "mem_env \<Rightarrow> nat \<Rightarrow> StringX option \<Rightarrow> 8 word list option option \<Rightarrow> MemPool \<Rightarrow> (int \<times> StringX option \<times> MemPool) option" where
  "string_append_formatv E t dst format P =
    (case (dst, format) of
       (Some d, Some text) \<Rightarrow>
         if sx_content d = 0 then Some (- 1, dst, P)
         else (case text of
           None \<Rightarrow> Some (- 1, dst, P)
         | Some out \<Rightarrow>
             let required = (sx_len d + length out) mod 2 ^ 64 in
             if required < sx_len d then Some (- 1, dst, P)
             else case sh_ensure_capacity E t d required P of
               None \<Rightarrow> None
             | Some (ok, d1, P1) \<Rightarrow>
                 if \<not> ok then Some (- 1, Some d1, P1)
                 else Some (int (length out), Some (d1\<lparr>sx_len := required\<rparr>),
                   P1\<lparr>mem_bytes := store_text (sx_content d1 + sx_len d) (sx_max d1 - sx_len d + 1) out (mem_bytes P1)\<rparr>))
     | _ \<Rightarrow> Some (- 1, dst, P))"

definition string_append_format ::
    "mem_env \<Rightarrow> nat \<Rightarrow> StringX option \<Rightarrow> 8 word list option option \<Rightarrow> MemPool \<Rightarrow> (int \<times> StringX option \<times> MemPool) option" where
  "string_append_format E t dst format P = string_append_formatv E t dst format P"

section \<open>Raw strings\<close>

text \<open>The scans of the C library over a zero-terminated string; they need not end.\<close>

partial_function (option) c_strlen :: "bytes \<Rightarrow> addr \<Rightarrow> nat option" where
  "c_strlen m a = (if m a = 0 then Some 0 else Option.bind (c_strlen m (a + 1)) (\<lambda>n. Some (n + 1)))"

partial_function (option) c_strcmp :: "bytes \<Rightarrow> addr \<Rightarrow> addr \<Rightarrow> int option" where
  "c_strcmp m a b =
    (if m a \<noteq> m b then Some (uint (m a) - uint (m b))
     else if m a = 0 then Some 0
     else c_strcmp m (a + 1) (b + 1))"

definition string_length_raw :: "addr \<Rightarrow> MemPool \<Rightarrow> nat option" where
  "string_length_raw v P = (if v \<noteq> 0 then c_strlen (mem_bytes P) v else Some 0)"

definition string_compare_raw :: "addr \<Rightarrow> addr \<Rightarrow> MemPool \<Rightarrow> int option" where
  "string_compare_raw lhs rhs P =
    (if lhs = rhs then Some 0
     else if lhs = 0 then Some (- 1)
     else if rhs = 0 then Some 1
     else c_strcmp (mem_bytes P) lhs rhs)"

definition string_copy_raw :: "addr \<Rightarrow> nat \<Rightarrow> addr \<Rightarrow> MemPool \<Rightarrow> (int \<times> MemPool) option" where
  "string_copy_raw dst capacity src P =
    (if dst = 0 \<or> src = 0 \<or> capacity = 0 then Some (- 1, P)
     else case c_strlen (mem_bytes P) src of
       None \<Rightarrow> None
     | Some n \<Rightarrow>
         if n \<ge> capacity then Some (- 1, P)
         else map_option (\<lambda>m. (i32 (int n), P\<lparr>mem_bytes := m\<rparr>)) (c_memcpy dst src (n + 1) (mem_bytes P)))"

definition string_append_raw :: "addr \<Rightarrow> nat \<Rightarrow> addr \<Rightarrow> MemPool \<Rightarrow> (int \<times> MemPool) option" where
  "string_append_raw dst capacity src P =
    (if dst = 0 \<or> src = 0 \<or> capacity = 0 then Some (- 1, P)
     else case (c_strlen (mem_bytes P) dst, c_strlen (mem_bytes P) src) of
       (Some dn, Some sn) \<Rightarrow>
         if dn \<ge> capacity \<or> sn \<ge> capacity - dn then Some (- 1, P)
         else map_option (\<lambda>m. (i32 (int (dn + sn)), P\<lparr>mem_bytes := m\<rparr>)) (c_memcpy (dst + dn) src (sn + 1) (mem_bytes P))
     | _ \<Rightarrow> None)"

definition string_format_raw :: "addr \<Rightarrow> nat \<Rightarrow> 8 word list option option \<Rightarrow> MemPool \<Rightarrow> int \<times> MemPool" where
  "string_format_raw dst capacity format P =
    (case format of
       None \<Rightarrow> (- 1, P)
     | Some text \<Rightarrow>
         if dst = 0 \<or> capacity = 0 \<or> capacity > 2 ^ 64 - 1 then (- 1, P)
         else (case text of
           None \<Rightarrow> (- 1, set_byte dst 0 P)
         | Some out \<Rightarrow>
             let P1 = P\<lparr>mem_bytes := store_text dst capacity out (mem_bytes P)\<rparr>
             in if length out \<ge> capacity then (- 1, set_byte dst 0 P1) else (int (length out), P1)))"

section \<open>Comparison\<close>

text \<open>\<open>cmp_loop\<close>: the loop that compares \<open>n\<close> bytes and stops at the first difference; it is
  also what \<open>memcmp\<close> is asked for.\<close>

fun cmp_loop :: "bytes \<Rightarrow> addr \<Rightarrow> addr \<Rightarrow> nat \<Rightarrow> bool" where
  "cmp_loop m a b 0 = True"
| "cmp_loop m a b (Suc n) = (if m a \<noteq> m b then False else cmp_loop m (a + 1) (b + 1) n)"

definition string_equal :: "StringX option \<Rightarrow> addr \<Rightarrow> int \<Rightarrow> MemPool \<Rightarrow> bool" where
  "string_equal s1 s2 s2_length P =
    (case s1 of
       None \<Rightarrow> False
     | Some s \<Rightarrow>
         if sx_content s = 0 \<or> s2 = 0 \<or> s2_length < 0 then False
         else if int (sx_len s) \<noteq> s2_length then False
         else cmp_loop (mem_bytes P) (sx_content s) s2 (sx_len s))"

definition string_equals :: "StringX option \<Rightarrow> StringX option \<Rightarrow> MemPool \<Rightarrow> bool" where
  "string_equals s1 s2 P =
    (case s2 of None \<Rightarrow> False | Some s \<Rightarrow> string_equal s1 (sx_content s) (i32 (int (sx_len s))) P)"

definition string_equal_part :: "StringX option \<Rightarrow> int \<Rightarrow> addr \<Rightarrow> int \<Rightarrow> MemPool \<Rightarrow> bool" where
  "string_equal_part s1 s1_start s2 s2_length P =
    (case s1 of
       None \<Rightarrow> False
     | Some s \<Rightarrow>
         if sx_content s = 0 \<or> s2 = 0 \<or> s1_start < 0 \<or> s2_length < 0 then False
         else if u64 (i32 (s1_start + s2_length)) > int (sx_len s) then False
         else cmp_loop (mem_bytes P) (sx_content s + nat s1_start) s2 (nat s2_length))"

definition string_equals_part :: "StringX option \<Rightarrow> int \<Rightarrow> StringX option \<Rightarrow> MemPool \<Rightarrow> bool" where
  "string_equals_part s1 s1_start s2 P =
    (case s2 of None \<Rightarrow> False | Some s \<Rightarrow> string_equal_part s1 s1_start (sx_content s) (i32 (int (sx_len s))) P)"

section \<open>Search\<close>

text \<open>The upward and downward loops over positions; \<open>hit\<close> is the test at a position.\<close>

function scan_up :: "(nat \<Rightarrow> bool) \<Rightarrow> nat \<Rightarrow> nat \<Rightarrow> int" where
  "scan_up hit i stop = (if i < stop then if hit i then int i else scan_up hit (i + 1) stop else - 1)"
  by pat_completeness auto
termination by (relation "measure (\<lambda>(hit, i, stop). stop - i)") auto

declare scan_up.simps [simp del]

text \<open>The loop whose test adds the token's length to the position, as an \<open>int\<close>.\<close>

function scan_tok :: "(nat \<Rightarrow> bool) \<Rightarrow> nat \<Rightarrow> int \<Rightarrow> int \<Rightarrow> int" where
  "scan_tok hit i len stop =
    (if i < 2 ^ 31 \<and> i32 (int i + len) \<le> stop then if hit i then int i else scan_tok hit (i + 1) len stop else - 1)"
  by pat_completeness auto
termination by (relation "measure (\<lambda>(hit, i, len, stop). 2 ^ 31 - i)") auto

declare scan_tok.simps [simp del]

fun scan_down :: "(nat \<Rightarrow> bool) \<Rightarrow> nat \<Rightarrow> int" where
  "scan_down hit 0 = - 1"
| "scan_down hit (Suc i) = (if hit i then int i else scan_down hit i)"

definition clip_end :: "StringX \<Rightarrow> int \<Rightarrow> int \<Rightarrow> int" where
  "clip_end s pos_start pos_length =
    (let e = i32 (pos_start + pos_length) in if u64 e > int (sx_len s) then i32 (int (sx_len s)) else e)"

definition string_indexof :: "StringX option \<Rightarrow> 8 word \<Rightarrow> int \<Rightarrow> int \<Rightarrow> MemPool \<Rightarrow> int" where
  "string_indexof str token pos_start pos_length P =
    (case str of
       None \<Rightarrow> - 1
     | Some s \<Rightarrow>
         if sx_content s = 0 \<or> pos_start < 0 \<or> pos_length < 0 then - 1
         else scan_up (\<lambda>i. mem_bytes P (sx_content s + i) = token) (nat pos_start) (nat (clip_end s pos_start pos_length)))"

definition string_indexofs :: "StringX option \<Rightarrow> addr \<Rightarrow> int \<Rightarrow> int \<Rightarrow> int \<Rightarrow> MemPool \<Rightarrow> int" where
  "string_indexofs str tokens len pos_start pos_length P =
    (case str of
       None \<Rightarrow> - 1
     | Some s \<Rightarrow>
         if sx_content s = 0 \<or> tokens = 0 \<or> len \<le> 0 \<or> pos_start < 0 \<or> pos_length < 0 then - 1
         else scan_tok (\<lambda>i. cmp_loop (mem_bytes P) (sx_content s + i) tokens (nat len)) (nat pos_start)
                len (clip_end s pos_start pos_length))"

definition string_index_end :: "StringX option \<Rightarrow> 8 word \<Rightarrow> MemPool \<Rightarrow> int" where
  "string_index_end str token P =
    (case str of
       None \<Rightarrow> - 1
     | Some s \<Rightarrow>
         if sx_content s = 0 then - 1
         else scan_down (\<lambda>i. mem_bytes P (sx_content s + i) = token) (nat (i32 (int (sx_len s)))))"

definition string_index_ends :: "StringX option \<Rightarrow> addr \<Rightarrow> int \<Rightarrow> MemPool \<Rightarrow> int" where
  "string_index_ends str tokens len P =
    (case str of
       None \<Rightarrow> - 1
     | Some s \<Rightarrow>
         if sx_content s = 0 \<or> tokens = 0 \<or> len \<le> 0 then - 1
         else scan_down (\<lambda>i. cmp_loop (mem_bytes P) (sx_content s + i) tokens (nat len))
                (nat (i32 (int (sx_len s)) - len + 1)))"

section \<open>Substring and trimming\<close>

text \<open>A structure made by the library: the address of its block and its fields.\<close>

definition string_substring ::
    "mem_env \<Rightarrow> nat \<Rightarrow> StringX option \<Rightarrow> int \<Rightarrow> int \<Rightarrow> MemPool \<Rightarrow> ((addr \<times> StringX) option \<times> MemPool) option" where
  "string_substring E t str index len P =
    (case str of
       None \<Rightarrow> Some (None, P)
     | Some s \<Rightarrow>
         if sx_content s = 0 \<or> index < 0 \<or> len < 0 then Some (None, P)
         else if u64 (i32 (index + len)) > int (sx_len s) then Some (None, P)
         else (case memop_alloc_raw E t STRINGX_BYTES P of
           (None, P1) \<Rightarrow> map_option (Pair None) (trigger_event P1)
         | (Some out, P1) \<Rightarrow>
             (case memop_alloc_raw E t (nat len + 1) P1 of
                (None, P2) \<Rightarrow> map_option (\<lambda>P3. (None, memop_free_raw t out P3)) (trigger_event P2)
              | (Some c, P2) \<Rightarrow>
                  Some (Some (out, \<lparr>sx_active = True, sx_max = nat len, sx_len = nat len, sx_content = c\<rparr>),
                   P2\<lparr>mem_bytes := (copy_fwd (nat len) c (sx_content s + nat index) (mem_bytes P2))(c + nat len := 0)\<rparr>))))"

fun trim_right_len :: "bytes \<Rightarrow> addr \<Rightarrow> nat \<Rightarrow> nat" where
  "trim_right_len m a 0 = 0"
| "trim_right_len m a (Suc n) = (if sh_is_ws (m (a + n)) then trim_right_len m a n else Suc n)"

definition string_trim_right :: "StringX option \<Rightarrow> MemPool \<Rightarrow> StringX option \<times> MemPool" where
  "string_trim_right str P =
    (case str of
       None \<Rightarrow> (None, P)
     | Some s \<Rightarrow>
         if sx_content s = 0 then (str, P)
         else let n = trim_right_len (mem_bytes P) (sx_content s) (sx_len s)
              in (Some (s\<lparr>sx_len := n\<rparr>), set_byte (sx_content s + n) 0 P))"

function trim_left_start :: "bytes \<Rightarrow> addr \<Rightarrow> nat \<Rightarrow> nat \<Rightarrow> nat" where
  "trim_left_start m a start n = (if start < n \<and> sh_is_ws (m (a + start)) then trim_left_start m a (start + 1) n else start)"
  by pat_completeness auto
termination by (relation "measure (\<lambda>(m, a, start, n). n - start)") auto

declare trim_left_start.simps [simp del]

definition string_trim_left :: "StringX option \<Rightarrow> MemPool \<Rightarrow> StringX option \<times> MemPool" where
  "string_trim_left str P =
    (case str of
       None \<Rightarrow> (None, P)
     | Some s \<Rightarrow>
         if sx_content s = 0 then (str, P)
         else let start = trim_left_start (mem_bytes P) (sx_content s) 0 (sx_len s); n = sx_len s - start
              in if start > 0 then
                   (Some (s\<lparr>sx_len := n\<rparr>),
                    P\<lparr>mem_bytes := (memcpy_bytes (sx_content s) (sx_content s + start) n (mem_bytes P))(sx_content s + n := 0)\<rparr>)
                 else (str, P))"

definition string_trim :: "StringX option \<Rightarrow> MemPool \<Rightarrow> StringX option \<times> MemPool" where
  "string_trim str P = (case string_trim_right str P of (str1, P1) \<Rightarrow> string_trim_left str1 P1)"

section \<open>Stop tokens\<close>

definition string_stop_rigth_token :: "StringX option \<Rightarrow> addr \<Rightarrow> MemPool \<Rightarrow> int option" where
  "string_stop_rigth_token str token P =
    (case str of
       None \<Rightarrow> Some (- 1)
     | Some s \<Rightarrow>
         if token = 0 then Some (- 1)
         else case c_strlen (mem_bytes P) token of
           None \<Rightarrow> None
         | Some n \<Rightarrow>
             if i32 (int n) \<le> 0 then Some (- 1)
             else Some (string_indexofs str token (i32 (int n)) 0 (i32 (int (sx_len s))) P))"

definition string_stop_left_token :: "StringX option \<Rightarrow> addr \<Rightarrow> MemPool \<Rightarrow> int option" where
  "string_stop_left_token str token P =
    (case str of
       None \<Rightarrow> Some (- 1)
     | Some s \<Rightarrow>
         if token = 0 then Some (- 1)
         else case c_strlen (mem_bytes P) token of
           None \<Rightarrow> None
         | Some n \<Rightarrow>
             if i32 (int n) \<le> 0 then Some (- 1)
             else Some (string_index_ends str token (i32 (int n)) P))"

text \<open>The loops over a NULL-terminated array of tokens (here the list of its entries).\<close>

fun stop_rigth_loop :: "StringX option \<Rightarrow> addr list \<Rightarrow> int \<Rightarrow> MemPool \<Rightarrow> int option" where
  "stop_rigth_loop str [] best P = Some best"
| "stop_rigth_loop str (tok # toks) best P =
    (if tok = 0 then Some best
     else case string_stop_rigth_token str tok P of
       None \<Rightarrow> None
     | Some idx \<Rightarrow> stop_rigth_loop str toks (if idx \<ge> 0 \<and> (best < 0 \<or> idx < best) then idx else best) P)"

definition string_stop_rigth_tokens :: "StringX option \<Rightarrow> addr list option \<Rightarrow> MemPool \<Rightarrow> int option" where
  "string_stop_rigth_tokens str tokens P =
    (case (str, tokens) of (Some s, Some toks) \<Rightarrow> stop_rigth_loop str toks (- 1) P | _ \<Rightarrow> Some (- 1))"

fun stop_left_loop :: "StringX option \<Rightarrow> addr list \<Rightarrow> int \<Rightarrow> MemPool \<Rightarrow> int option" where
  "stop_left_loop str [] best P = Some best"
| "stop_left_loop str (tok # toks) best P =
    (if tok = 0 then Some best
     else case string_stop_left_token str tok P of
       None \<Rightarrow> None
     | Some idx \<Rightarrow> stop_left_loop str toks (if idx > best then idx else best) P)"

definition string_stop_left_tokens :: "StringX option \<Rightarrow> addr list option \<Rightarrow> MemPool \<Rightarrow> int option" where
  "string_stop_left_tokens str tokens P =
    (case (str, tokens) of (Some s, Some toks) \<Rightarrow> stop_left_loop str toks (- 1) P | _ \<Rightarrow> Some (- 1))"

section \<open>Split\<close>

text \<open>
  The segments are structures of the pool; \<open>sx_store\<close> holds their fields, by address.  A
  segment whose allocation fails is skipped, if the report of the failure returns.
\<close>

type_synonym sx_store = "addr \<Rightarrow> StringX option"

definition split_emit ::
    "mem_env \<Rightarrow> nat \<Rightarrow> StringX \<Rightarrow> int \<Rightarrow> int \<Rightarrow> ListX \<times> sx_store \<times> MemPool \<Rightarrow> (ListX \<times> sx_store \<times> MemPool) option" where
  "split_emit E t s start len st =
    (case st of (l, S, P) \<Rightarrow>
       (case string_substring E t (Some s) start len P of
          None \<Rightarrow> None
        | Some (None, P1) \<Rightarrow> Some (l, S, P1)
        | Some (Some (a, sub), P1) \<Rightarrow>
            (case list_add E t l a STRINGX_BYTES P1 of
               None \<Rightarrow> None
             | Some (_, l1, P2) \<Rightarrow> Some (l1, S(a \<mapsto> sub), P2))))"

function split_loop ::
    "mem_env \<Rightarrow> nat \<Rightarrow> StringX \<Rightarrow> 8 word \<Rightarrow> nat \<Rightarrow> nat \<Rightarrow> int \<Rightarrow> ListX \<times> sx_store \<times> MemPool \<Rightarrow> (ListX \<times> sx_store \<times> MemPool) option" where
  "split_loop E t s token i start n st =
    (if int i \<le> n then
       if int i = n \<or> mem_bytes (snd (snd st)) (sx_content s + i) = token then
         (case split_emit E t s (int start) (int i - int start) st of
            None \<Rightarrow> None
          | Some st1 \<Rightarrow> split_loop E t s token (i + 1) (i + 1) n st1)
       else split_loop E t s token (i + 1) start n st
     else Some st)"
  by pat_completeness auto
termination by (relation "measure (\<lambda>(E, t, s, token, i, start, n, st). nat (n + 1) - i)") auto

declare split_loop.simps [simp del]

definition string_split ::
    "mem_env \<Rightarrow> nat \<Rightarrow> StringX option \<Rightarrow> 8 word \<Rightarrow> sx_store \<Rightarrow> MemPool \<Rightarrow> ((addr \<times> ListX) option \<times> sx_store \<times> MemPool) option" where
  "string_split E t src token S P =
    (case src of
       None \<Rightarrow> Some (None, S, P)
     | Some s \<Rightarrow>
         if sx_content s = 0 then Some (None, S, P)
         else (case list_create E t (- 1) STRINGX_BYTES P of
           None \<Rightarrow> None
         | Some (None, P1) \<Rightarrow> Some (None, S, P1)
         | Some (Some (a, l), P1) \<Rightarrow>
             (case split_loop E t s token 0 0 (i32 (int (sx_len s))) (l, S, P1) of
                None \<Rightarrow> None
              | Some (l1, S1, P2) \<Rightarrow> Some (Some (a, l1), S1, P2))))"

function splits_loop ::
    "mem_env \<Rightarrow> nat \<Rightarrow> StringX \<Rightarrow> addr \<Rightarrow> nat \<Rightarrow> nat \<Rightarrow> nat \<Rightarrow> int \<Rightarrow> ListX \<times> sx_store \<times> MemPool \<Rightarrow>
      (nat \<times> ListX \<times> sx_store \<times> MemPool) option" where
  "splits_loop E t s tokens len i start n st =
    (if len = 0 then None
     else if int i + int len \<le> n then
       if cmp_loop (mem_bytes (snd (snd st))) (sx_content s + i) tokens len then
         (case split_emit E t s (int start) (int i - int start) st of
            None \<Rightarrow> None
          | Some st1 \<Rightarrow> splits_loop E t s tokens len (i + len) (i + len) n st1)
       else splits_loop E t s tokens len (i + 1) start n st
     else Some (start, st))"
  by pat_completeness auto
termination by (relation "measure (\<lambda>(E, t, s, tokens, len, i, start, n, st). nat (n + 1) - i)") auto

declare splits_loop.simps [simp del]

definition string_splits ::
    "mem_env \<Rightarrow> nat \<Rightarrow> StringX option \<Rightarrow> addr \<Rightarrow> int \<Rightarrow> sx_store \<Rightarrow> MemPool \<Rightarrow> ((addr \<times> ListX) option \<times> sx_store \<times> MemPool) option" where
  "string_splits E t src tokens len S P =
    (case src of
       None \<Rightarrow> Some (None, S, P)
     | Some s \<Rightarrow>
         if sx_content s = 0 \<or> tokens = 0 \<or> len \<le> 0 then Some (None, S, P)
         else (case list_create E t (- 1) STRINGX_BYTES P of
           None \<Rightarrow> None
         | Some (None, P1) \<Rightarrow> Some (None, S, P1)
         | Some (Some (a, l), P1) \<Rightarrow>
             (case splits_loop E t s tokens (nat len) 0 0 (i32 (int (sx_len s))) (l, S, P1) of
                None \<Rightarrow> None
              | Some (start, st) \<Rightarrow>
                  (case split_emit E t s (int start) (i32 (int (sx_len s)) - int start) st of
                     None \<Rightarrow> None
                   | Some (l1, S1, P2) \<Rightarrow> Some (Some (a, l1), S1, P2)))))"

end
