(* ===== verification/String_Buffer.thy ===== *)
theory String_Buffer
  imports String_Handler
begin

text \<open>
  The operations that write strings.  A usable string is a held block with room for its
  capacity and the terminating zero; its text is the list of its bytes.  Every operation keeps
  strings usable, acts on the text as the list operation it names, and leaves all other blocks
  of the program alone.
\<close>

section \<open>Usable strings\<close>

definition text_of :: "MemPool \<Rightarrow> StringX \<Rightarrow> 8 word list" where
  "text_of P s = bytes_from (mem_bytes P) (sx_content s) (sx_len s)"

definition sx_ok :: "MemPool \<Rightarrow> addr set \<Rightarrow> StringX \<Rightarrow> bool" where
  "sx_ok P B s \<longleftrightarrow> sx_content s \<in> B \<and> sx_len s \<le> sx_max s \<and> sx_max s + 1 \<le> memop_usable_size (sx_content s) P \<and>
     mem_bytes P (sx_content s + sx_len s) = 0 \<and> sx_max s < 2 ^ 30"

lemma sx_okD:
  assumes "sx_ok P B s"
  shows "sx_content s \<in> B" "sx_len s \<le> sx_max s" "sx_max s + 1 \<le> memop_usable_size (sx_content s) P"
    "mem_bytes P (sx_content s + sx_len s) = 0" "sx_max s < 2 ^ 30"
  using assms by (simp_all add: sx_ok_def)

lemma length_text_of [simp]: "length (text_of P s) = sx_len s"
  by (simp add: text_of_def)

lemma text_keeps:
  assumes "keeps B P P'" "sx_ok P B s"
  shows "text_of P' s = text_of P s" "sx_ok P' B s"
proof -
  note d = sx_okD [OF assms(2)]
  have b: "mem_bytes P' (sx_content s + i) = mem_bytes P (sx_content s + i)" if "i \<le> sx_max s" for i
    using keeps_byte [OF assms(1) d(1)] d(3) that by simp
  then show "text_of P' s = text_of P s" unfolding text_of_def using d(2) by (intro bytes_from_cong) simp
  show "sx_ok P' B s" using b [OF d(2)] assms d by (simp add: sx_ok_def keeps_def)
qed

section \<open>Growth\<close>

lemma sh_grow_doubles:
  "0 < mx \<Longrightarrow> required \<le> 2 ^ 62 \<Longrightarrow>
    \<exists>k. sh_grow mx required = Some (mx * 2 ^ k) \<and> required \<le> mx * 2 ^ k \<and> (\<forall>j < k. mx * 2 ^ j < required)"
proof (induction "required - mx" arbitrary: mx rule: less_induct)
  case less
  show ?case
  proof (cases "mx < required")
    case True
    then have m: "mx * 2 mod 2 ^ 64 = mx * 2" using less.prems by simp
    have "required - mx * 2 < required - mx" using True less.prems(1) by linarith
    then obtain k where k: "sh_grow (mx * 2) required = Some (mx * 2 * 2 ^ k)" "required \<le> mx * 2 * 2 ^ k"
      "\<forall>j < k. mx * 2 * 2 ^ j < required" using less.hyps [of "mx * 2"] less.prems by auto
    have "sh_grow mx required = Some (mx * 2 ^ Suc k)"
      using k(1) True unfolding sh_grow.simps [of mx] m by (simp add: mult.assoc)
    moreover have "mx * 2 ^ j < required" if "j < Suc k" for j
      using that True k(3) by (cases j) (simp_all add: mult.assoc)
    ultimately show ?thesis using k(2) by (intro exI [of _ "Suc k"]) (simp add: mult.assoc)
  next
    case False
    then show ?thesis by (intro exI [of _ 0]) (simp add: sh_grow.simps)
  qed
qed

lemma sh_grow_bound:
  assumes "0 < mx" "required \<le> 2 ^ 62"
  obtains n where "sh_grow mx required = Some n" "required \<le> n" "mx \<le> n" "n = mx \<or> n < 2 * required"
proof -
  obtain k where k: "sh_grow mx required = Some (mx * 2 ^ k)" "required \<le> mx * 2 ^ k" "\<forall>j < k. mx * 2 ^ j < required"
    using sh_grow_doubles [OF assms] by blast
  have "mx * 2 ^ k = mx \<or> mx * 2 ^ k < 2 * required"
    using k(3) by (cases k) (auto simp: mult.commute mult.left_commute)
  then show thesis using that [OF k(1,2)] by simp
qed

text \<open>The capacity does not suffice and the block for the first large enough doubling is refused.\<close>

definition grow_refused :: "mem_env \<Rightarrow> nat \<Rightarrow> StringX \<Rightarrow> nat \<Rightarrow> MemPool \<Rightarrow> bool" where
  "grow_refused E t s required P \<longleftrightarrow> sx_max s < required \<and>
     fst (memop_realloc_raw E t (sx_content s)
       (the (sh_grow (if sx_max s \<noteq> 0 then sx_max s else INITIAL_STRING_LENGTH) required) + 1) P) = None"

definition moved :: "mem_env \<Rightarrow> MemPool \<Rightarrow> addr set \<Rightarrow> StringX \<Rightarrow> StringX \<Rightarrow> MemPool \<Rightarrow> bool" where
  "moved E P B s s1 P1 \<longleftrightarrow> keeps (B - {sx_content s}) P P1 \<and> sx_content s1 \<notin> B - {sx_content s} \<and>
     client E P1 (insert (sx_content s1) (B - {sx_content s})) \<and> sx_ok P1 (insert (sx_content s1) (B - {sx_content s})) s1"

context pool_user
begin

lemma moved_refl: "client E P B \<Longrightarrow> sx_ok P B s \<Longrightarrow> moved E P B s s P"
  using sx_okD(1) [of P B s] by (simp add: moved_def insert_absorb)

lemma ensure_capacity_user:
  assumes c: "client E P B" and ok: "sx_ok P B s" and req: "required \<le> 2 ^ 29"
  obtains (grown) s1 P1 where "sh_ensure_capacity E t s required P = Some (True, s1, P1)" "required \<le> sx_max s1"
      "moved E P B s s1 P1" "text_of P1 s1 = text_of P s" "sx_len s1 = sx_len s" "\<not> grow_refused E t s required P" "silent P P1"
  | (failed) P1 where "sh_ensure_capacity E t s required P = Some (False, s, P1)" "client E P1 B" "keeps B P P1"
      "grow_refused E t s required P" "\<not> fatal_errors P" "noted P P1"
  | (crashed) "sh_ensure_capacity E t s required P = None" "grow_refused E t s required P" "fatal_errors P" "refuses E t"
proof (cases "required \<le> sx_max s")
  case True
  then have "sh_ensure_capacity E t s required P = Some (True, s, P)" by (simp add: sh_ensure_capacity_def)
  moreover have "\<not> grow_refused E t s required P" using True by (simp add: grow_refused_def)
  ultimately show thesis using grown True moved_refl [OF c ok] by blast
next
  case False
  note d = sx_okD [OF ok]
  let ?m0 = "if sx_max s \<noteq> 0 then sx_max s else INITIAL_STRING_LENGTH"
  obtain n where n: "sh_grow ?m0 required = Some n" "required \<le> n" "?m0 \<le> n" "n = ?m0 \<or> n < 2 * required"
    by (rule sh_grow_bound [of ?m0 required]) (use req in auto)
  have small: "n < 2 ^ 30" using n(4) req d(5) by (auto split: if_splits)
  have nm: "sx_max s \<le> n" using n(3) by (auto split: if_splits)
  obtain r P1 where r: "memop_realloc_raw E t (sx_content s) (n + 1) P = (r, P1)" by force
  have md: "(n + 1) mod 2 ^ 64 = n + 1" using small by simp
  have sz: "0 < n + 1" "n + 1 \<le> max_request" using small by (simp_all add: max_request_def)
  note u = user_realloc [OF c d(1) sz r] and sl = silent_realloc_raw [OF r]
  have rf: "grow_refused E t s required P \<longleftrightarrow> r = None" using False n(1) r by (simp add: grow_refused_def)
  show thesis
  proof (cases r)
    case None
    have e: "sh_ensure_capacity E t s required P = map_option (\<lambda>P2. (False, s, P2)) (trigger_event P1)"
      using False n(1) r None unfolding sh_ensure_capacity_def md by (simp add: md [simplified])
    show thesis
    proof (cases "fatal_errors P")
      case True
      have "refuses E t" using realloc_refuses [OF c sz] r None by blast
      then show thesis using crashed e rf None True sl by (simp add: trigger_event_eq)
    next
      case False
      have "client E (counted P1) B" by (rule client_counted) (use u(2) [OF None] False sl in simp_all)
      then show thesis using failed [of "counted P1"] e rf None False sl u(2) [OF None] by (simp add: trigger_event_eq)
    qed
  next
    case (Some p)
    let ?s = "s\<lparr>sx_content := p, sx_max := n\<rparr>"
    have e: "sh_ensure_capacity E t s required P = Some (True, ?s, P1)"
      using False n(1) r Some unfolding sh_ensure_capacity_def by (simp add: md [simplified])
    have q: "p \<notin> B - {sx_content s}" "client E P1 (insert p (B - {sx_content s}))" "n + 1 \<le> memop_usable_size p P1"
      "\<And>i. i < min (n + 1) (memop_usable_size (sx_content s) P) \<Longrightarrow> mem_bytes P1 (p + i) = mem_bytes P (sx_content s + i)"
      using u(3) [OF Some] by blast+
    have b: "mem_bytes P1 (p + i) = mem_bytes P (sx_content s + i)" if "i \<le> sx_max s" for i
      using q(4) [of i] that d(3) nm by simp
    have "text_of P1 ?s = text_of P s" using d(2) b by (auto simp: text_of_def bytes_from_def)
    moreover have "sx_ok P1 (insert p (B - {sx_content s})) ?s"
      using q(3) nm d b [OF d(2)] small by (simp add: sx_ok_def)
    ultimately show thesis using grown [OF e] n(2) q(1,2) u(1) rf Some sl by (simp add: moved_def)
  qed
qed

text \<open>Writing a range of the buffer that starts inside the text or right after it.\<close>

lemma write_text:
  assumes c: "client E P B" and ok: "sx_ok P B s" and d: "d \<le> sx_len s" "d + n \<le> sx_max s"
    and w: "length w = n" "\<And>i. i < n \<Longrightarrow> m (sx_content s + d + i) = w ! i"
    and same: "same_at (- {sx_content s + d..<sx_content s + d + n}) (mem_bytes P) m"
  defines "s' \<equiv> s\<lparr>sx_len := max (sx_len s) (d + n)\<rparr>"
  defines "P' \<equiv> P\<lparr>mem_bytes := m(sx_content s' + sx_len s' := 0)\<rparr>"
  shows "moved E P B s s' P'" "text_of P' s' = take d (text_of P s) @ w @ drop (d + n) (text_of P s)"
proof -
  note o = sx_okD [OF ok]
  have len: "sx_len s' \<le> sx_max s" "sx_content s' = sx_content s" using o(2) d by (simp_all add: s'_def)
  have sa: "same_at (- extent P (sx_content s)) (mem_bytes P) (m(sx_content s' + sx_len s' := 0))"
    using same len o(3) d(2) by (auto simp: same_at_def extent_def)
  note u = user_write [OF c o(1) sa]
  have us: "memop_usable_size q P' = memop_usable_size q P" for q by (simp add: P'_def)
  have ok': "sx_ok P' B s'" unfolding sx_ok_def us using o len d(2) by (auto simp: P'_def s'_def)
  then show "moved E P B s s' P'" using u o(1) len(2) by (simp add: moved_def P'_def insert_absorb)
  have b: "mem_bytes P' (sx_content s + i) = (if d \<le> i \<and> i < d + n then w ! (i - d) else mem_bytes P (sx_content s + i))"
    if "i < sx_len s'" for i
    using that same w(2) [of "i - d"] len(2) by (auto simp: P'_def same_at_def)
  show "text_of P' s' = take d (text_of P s) @ w @ drop (d + n) (text_of P s)"
  proof (rule nth_equalityI)
    show "length (text_of P' s') = length (take d (text_of P s) @ w @ drop (d + n) (text_of P s))"
      using d(1) w(1) by (auto simp: s'_def)
    fix i assume "i < length (text_of P' s')"
    then have i: "i < sx_len s'" by simp
    then have "text_of P' s' ! i = (if d \<le> i \<and> i < d + n then w ! (i - d) else mem_bytes P (sx_content s + i))"
      using b len(2) by (simp add: text_of_def)
    also have "\<dots> = (take d (text_of P s) @ w @ drop (d + n) (text_of P s)) ! i"
      using i d(1) w(1) by (auto simp: nth_append s'_def text_of_def)
    finally show "text_of P' s' ! i = (take d (text_of P s) @ w @ drop (d + n) (text_of P s)) ! i" .
  qed
qed

lemma moved_trans:
  assumes "moved E P B s s1 P1" "moved E P1 (insert (sx_content s1) (B - {sx_content s})) s1 s2 P2"
  shows "moved E P B s s2 P2"
proof -
  have "insert (sx_content s1) (B - {sx_content s}) - {sx_content s1} = B - {sx_content s}"
    using assms(1) by (auto simp: moved_def)
  then show ?thesis using assms by (auto simp: moved_def intro: keeps_trans)
qed

end

text \<open>The outcome of a write of \<open>w\<close> at position \<open>d\<close>: done; or no memory, and then a report and nothing
  changed, or a crash in the report.\<close>

definition written :: "mem_env \<Rightarrow> nat \<Rightarrow> MemPool \<Rightarrow> addr set \<Rightarrow> StringX \<Rightarrow> nat \<Rightarrow> 8 word list \<Rightarrow> StringX \<Rightarrow> MemPool \<Rightarrow> bool" where
  "written E t P B s d w s' P' \<longleftrightarrow>
     (if grow_refused E t s (d + length w) P
      then s' = s \<and> client E P' B \<and> keeps B P P' \<and> \<not> fatal_errors P \<and> noted P P'
      else moved E P B s s' P' \<and> text_of P' s' = take d (text_of P s) @ w @ drop (d + length w) (text_of P s) \<and> silent P P')"

definition writes :: "mem_env \<Rightarrow> nat \<Rightarrow> MemPool \<Rightarrow> addr set \<Rightarrow> StringX \<Rightarrow> nat \<Rightarrow> 8 word list \<Rightarrow> (StringX \<times> MemPool) option \<Rightarrow> bool" where
  "writes E t P B s d w r \<longleftrightarrow>
     (case r of
        None \<Rightarrow> grow_refused E t s (d + length w) P \<and> fatal_errors P \<and> refuses E t
      | Some (s', P') \<Rightarrow> written E t P B s d w s' P')"

context pool_user
begin

lemma string_copy_written:
  assumes c: "client E P B" and ok: "sx_ok P B s" and q: "q \<in> B - {sx_content s}"
    and src: "{content + nat ss..<content + nat ss + nat len} \<subseteq> extent P q" "content \<noteq> 0"
    and args: "0 < len" "0 \<le> ss" "0 \<le> ds" "ds \<le> int (sx_len s)" "ss + len \<le> cl" "cl \<le> int_max" "ds + len \<le> 2 ^ 29"
  obtains r where "string_copy E t (Some s) content cl ss len ds P = map_option (\<lambda>(s', P'). (Some s', P')) r"
    "writes E t P B s (nat ds) (bytes_from (mem_bytes P) (content + nat ss) (nat len)) r"
proof -
  note o = sx_okD [OF ok]
  have c0: "sx_content s \<noteq> 0" using user_pos [OF c o(1)] by simp
  have guard: "\<not> (sx_content s = 0 \<or> content = 0)" "\<not> (len \<le> 0 \<or> ss < 0 \<or> ds < 0)" "\<not> i32 (ss + len) > cl"
    using c0 src(2) args by (simp_all add: int_max_def)
  have req: "nat (ds + len) \<le> 2 ^ 29" using args by simp
  have dn: "nat (ds + len) = nat ds + nat len" using args by simp
  note run = string_copy_def option.case if_not_P [OF guard(1)] if_not_P [OF guard(2)] if_not_P [OF guard(3)] Let_def
  show thesis
  proof (cases rule: ensure_capacity_user [OF c ok req, of t, case_names grown failed crashed])
    case crashed
    have "string_copy E t (Some s) content cl ss len ds P = None" unfolding run crashed(1) by simp
    then show thesis using that [of None] crashed(2-4) dn by (simp add: writes_def)
  next
    case (failed P1)
    have "string_copy E t (Some s) content cl ss len ds P = Some (Some s, P1)" unfolding run failed(1) by simp
    then show thesis using that [of "Some (s, P1)"] failed(2-6) dn by (simp add: writes_def written_def)
  next
    case (grown s1 P1)
    let ?d = "nat ds" and ?n = "nat len" and ?B = "insert (sx_content s1) (B - {sx_content s})"
    have g: "keeps (B - {sx_content s}) P P1" "sx_content s1 \<notin> B - {sx_content s}" "client E P1 ?B" "sx_ok P1 ?B s1"
      using grown(3) by (simp_all add: moved_def)
    have room: "?d \<le> sx_len s1" "?d + ?n \<le> sx_max s1" using args grown(2,5) dn by simp_all
    have qB: "q \<in> ?B" "q \<noteq> sx_content s1" using q g(2) by auto
    have eq: "extent P1 q = extent P q" by (rule extent_keeps [OF g(1) q])
    have "{sx_content s1 + ?d..<sx_content s1 + ?d + ?n} \<subseteq> extent P1 (sx_content s1)"
      using room(2) sx_okD(3) [OF g(4)] by (auto simp: extent_def)
    then have dis: "{content + nat ss..<content + nat ss + ?n} \<inter> {sx_content s1 + ?d..<sx_content s1 + ?d + ?n} = {}"
      using user_disjoint [OF g(3) qB(1) _ qB(2)] src(1) eq by blast
    define m where "m = copy_fwd ?n (sx_content s1 + ?d) (content + nat ss) (mem_bytes P1)"
    define w where "w = bytes_from (mem_bytes P) (content + nat ss) ?n"
    have w1: "w = bytes_from (mem_bytes P1) (content + nat ss) ?n"
      unfolding w_def using g(1) q src(1) by (intro bytes_from_same [symmetric]) (auto simp: keeps_def)
    have mw: "m (sx_content s1 + ?d + i) = w ! i" if "i < ?n" for i
      using that unfolding m_def w1 copy_fwd_memcpy [OF dis] by (simp add: memcpy_bytes_def)
    have sa: "same_at (- {sx_content s1 + ?d..<sx_content s1 + ?d + ?n}) (mem_bytes P1) m"
      unfolding m_def by (rule same_at_copy_fwd) blast
    define s2 where "s2 = s1\<lparr>sx_len := max (sx_len s1) (?d + ?n)\<rparr>"
    have "length w = ?n" by (simp add: w_def)
    note wt = write_text [OF g(3,4) room this mw sa, folded s2_def]
    have s2: "(if ?d + ?n > sx_len s1 then s1\<lparr>sx_len := ?d + ?n\<rparr> else s1) = s2" by (simp add: s2_def max_def)
    have e: "string_copy E t (Some s) content cl ss len ds P =
        Some (Some s2, P1\<lparr>mem_bytes := m(sx_content s2 + sx_len s2 := 0)\<rparr>)"
      unfolding run grown(1) [unfolded dn] prod.case dn m_def [symmetric] s2 by simp
    have "moved E P B s s2 (P1\<lparr>mem_bytes := m(sx_content s2 + sx_len s2 := 0)\<rparr>)"
      by (rule moved_trans [OF grown(3) wt(1)])
    moreover have "text_of (P1\<lparr>mem_bytes := m(sx_content s2 + sx_len s2 := 0)\<rparr>) s2 = take ?d (text_of P s) @ w @ drop (?d + length w) (text_of P s)"
      using wt(2) by (simp only: grown(4) \<open>length w = ?n\<close>)
    moreover have "\<not> grow_refused E t s (?d + length w) P" using grown(6) \<open>length w = ?n\<close> dn by simp
    ultimately show thesis using that [of "Some (s2, P1\<lparr>mem_bytes := m(sx_content s2 + sx_len s2 := 0)\<rparr>)"] e grown(7)
      unfolding w_def [symmetric] by (simp add: writes_def written_def)
  qed
qed

end

lemma text_region: "sx_ok P B s \<Longrightarrow> k + n \<le> sx_len s \<Longrightarrow>
    {sx_content s + k..<sx_content s + k + n} \<subseteq> extent P (sx_content s)"
  using sx_okD(2,3) [of P B s] by (auto simp: extent_def)

lemma text_slice:
  assumes "k + n \<le> sx_len s"
  shows "bytes_from (mem_bytes P) (sx_content s + k) n = take n (drop k (text_of P s))"
proof -
  have "min n (sx_len s - k) = n" using assms by simp
  then show ?thesis by (simp add: text_of_def)
qed

lemma writtenD:
  assumes "written E t P B s d w s' P'" "sx_ok P B s"
  shows "client E P' (insert (sx_content s') (B - {sx_content s}))" "sx_ok P' (insert (sx_content s') (B - {sx_content s})) s'"
    "keeps (B - {sx_content s}) P P'"
    "s' = s \<and> text_of P' s' = text_of P s \<or> text_of P' s' = take d (text_of P s) @ w @ drop (d + length w) (text_of P s)"
proof -
  have "insert (sx_content s) (B - {sx_content s}) = B" using sx_okD(1) [OF assms(2)] by blast
  then show "client E P' (insert (sx_content s') (B - {sx_content s}))" "sx_ok P' (insert (sx_content s') (B - {sx_content s})) s'"
    "keeps (B - {sx_content s}) P P'"
    "s' = s \<and> text_of P' s' = text_of P s \<or> text_of P' s' = take d (text_of P s) @ w @ drop (d + length w) (text_of P s)"
    using assms text_keeps [OF _ assms(2), of P'] unfolding written_def moved_def by (auto intro: keeps_mono split: if_splits)
qed

lemma writes_other:
  assumes "written E t P B s d w s' P'" "sx_ok P B s" "sx_ok P B r" "sx_content r \<noteq> sx_content s"
  shows "sx_ok P' (insert (sx_content s') (B - {sx_content s})) r" "text_of P' r = text_of P r"
proof -
  have "sx_ok P (B - {sx_content s}) r" using assms(3,4) by (simp add: sx_ok_def)
  note k = text_keeps [OF writtenD(3) [OF assms(1,2)] this]
  then show "sx_ok P' (insert (sx_content s') (B - {sx_content s})) r" "text_of P' r = text_of P r"
    by (simp_all add: sx_ok_def)
qed

context pool_user
begin

lemma string_append_written:
  assumes c: "client E P B" and s: "sx_ok P B s" and d: "sx_ok P B d" and ne: "sx_content s \<noteq> sx_content d"
    and n: "0 < n" "0 \<le> ss" "ss + n \<le> int (sx_len s)" "int (sx_len d) + n \<le> 2 ^ 29"
  obtains r where "string_append E t (Some s) (Some d) ss n P = map_option (\<lambda>(d', P'). (Some d', P')) r"
    "writes E t P B d (sx_len d) (take (nat n) (drop (nat ss) (text_of P s))) r"
proof -
  note os = sx_okD [OF s] and od = sx_okD [OF d]
  let ?s = "sx_content s" and ?d = "sx_content d"
  have q: "?s \<in> B - {?d}" using os(1) ne by simp
  have s0: "?s \<noteq> 0" using user_pos [OF c os(1)] by simp
  have lens: "int (sx_len s) < 2 ^ 30" "int (sx_len d) < 2 ^ 30" using os(2,5) od(2,5) by simp_all
  have step: "string_append E t (Some s) (Some d) ss n P =
      string_copy E t (Some d) ?s (int (sx_len s)) ss n (int (sx_len d)) P"
    using s0 n(1-3) lens by (simp add: string_append_def)
  have reg: "{?s + nat ss..<?s + nat ss + nat n} \<subseteq> extent P ?s"
    by (rule text_region [OF s]) (use n in linarith)
  have sl: "bytes_from (mem_bytes P) (?s + nat ss) (nat n) = take (nat n) (drop (nat ss) (text_of P s))"
    by (rule text_slice) (use n in linarith)
  have args: "0 \<le> int (sx_len d)" "int (sx_len d) \<le> int (sx_len d)" "int (sx_len s) \<le> int_max"
    using lens by (simp_all add: int_max_def)
  obtain r where "string_copy E t (Some d) ?s (int (sx_len s)) ss n (int (sx_len d)) P = map_option (\<lambda>(d', P'). (Some d', P')) r"
    and "writes E t P B d (nat (int (sx_len d))) (bytes_from (mem_bytes P) (?s + nat ss) (nat n)) r"
    using string_copy_written [OF c d q reg s0 n(1,2) args(1,2) n(3) args(3) n(4), of t] by blast
  then show thesis using that unfolding step sl by simp
qed

text \<open>With any other range the call does nothing; the sum of the two \<open>int\<close> may overflow.\<close>

lemma string_append_out_of_range:
  assumes "sx_ok P B s" "n \<le> 0 \<or> ss < 0 \<or> int (sx_len s) < ss + n" "n \<le> int_max" "ss \<le> int_max"
  shows "string_append E t (Some s) (Some d) ss n P = Some (Some d, P)"
proof (cases "n \<le> 0 \<or> ss < 0")
  case False
  then have g: "int (sx_len s) < ss + n" "0 < n" "0 \<le> ss" using assms(2) by auto
  have len: "int (sx_len s) < 2 ^ 30" using sx_okD(2,5) [OF assms(1)] by simp
  have "int (sx_len s) < u64 (i32 (ss + n))"
  proof (cases "ss + n \<le> 2147483647")
    case False
    then have "(ss + n + 2147483648) mod 4294967296 = ss + n + 2147483648 - 4294967296"
      using False g assms(3,4) by (subst minus_mod_self2 [symmetric], subst mod_pos_pos_trivial) (simp_all add: int_max_def)
    then have "i32 (ss + n) = ss + n - 4294967296" by (simp add: i32_def)
    then show ?thesis using False len g assms(3,4) u64_neg [of "ss + n - 4294967296"] by (simp add: int_max_def)
  qed (use g in simp)
  then show ?thesis using g by (simp add: string_append_def)
qed (simp add: string_append_def)

end

section \<open>Properties\<close>

text \<open>C39: the buffer growth ends: for every size the interface can ask for, the doubling loop returns, with the
  first capacity in the sequence of doublings that is large enough.\<close>

theorem string_growth_ends:
  assumes "0 < mx" "required \<le> 2 ^ 62"
  shows "\<exists>k. sh_grow mx required = Some (mx * 2 ^ k) \<and> required \<le> mx * 2 ^ k \<and> (\<forall>j < k. mx * 2 ^ j < required)"
  using assms by (rule sh_grow_doubles)

theorem string_growth_ends_witness: "\<exists>k. sh_grow 50 1000 = Some (50 * 2 ^ k) \<and> 1000 \<le> 50 * (2 :: nat) ^ k"
  using string_growth_ends [of 50 1000] by auto

text \<open>\<open>string_copy\<close> within range: on a usable string and a source in another block of the program the call
  overwrites the text from \<open>dst_start\<close> on with the source bytes, extending it when they reach past its end;
  only if the memory for it is refused nothing changes and the failure is reported.  The string stays usable
  and no other block is touched.\<close>

theorem string_copy_overwrites:
  assumes "mmap_law (env_mmap E)" "client E P B" "sx_ok P B s" "q \<in> B - {sx_content s}"
    and "{content + nat ss..<content + nat ss + nat n} \<subseteq> extent P q" "content \<noteq> 0"
    and "0 < n" "0 \<le> ss" "0 \<le> ds" "ds \<le> int (sx_len s)" "ss + n \<le> cl" "cl \<le> int_max" "ds + n \<le> 2 ^ 29"
  shows "case string_copy E t (Some s) content cl ss n ds P of
      None \<Rightarrow> grow_refused E t s (nat (ds + n)) P \<and> fatal_errors P
    | Some (r, P') \<Rightarrow> \<exists>s'. r = Some s' \<and>
        (let B' = insert (sx_content s') (B - {sx_content s}) in
          client E P' B' \<and> sx_ok P' B' s' \<and> keeps (B - {sx_content s}) P P' \<and>
          (if grow_refused E t s (nat (ds + n)) P then s' = s \<and> text_of P' s = text_of P s \<and> noted P P' \<and> \<not> fatal_errors P
           else text_of P' s' = take (nat ds) (text_of P s) @ bytes_from (mem_bytes P) (content + nat ss) (nat n) @ drop (nat (ds + n)) (text_of P s) \<and>
             silent P P'))"
proof -
  obtain r where e: "string_copy E t (Some s) content cl ss n ds P = map_option (\<lambda>(s', P'). (Some s', P')) r"
    and w: "writes E t P B s (nat ds) (bytes_from (mem_bytes P) (content + nat ss) (nat n)) r"
    using pool_user.string_copy_written [OF pool_user.intro [OF assms(1)] assms(2-13), of t] by blast
  have d: "nat (ds + n) = nat ds + nat n" using assms(7,9) by simp
  show ?thesis
  proof (cases r)
    case None
    then show ?thesis using e w d by (simp add: writes_def)
  next
    case (Some p)
    obtain s' P' where p: "p = (s', P')" by force
    have w': "written E t P B s (nat ds) (bytes_from (mem_bytes P) (content + nat ss) (nat n)) s' P'" using w Some p by (simp add: writes_def)
    note f = writtenD [OF w' assms(3)]
    from w' f show ?thesis unfolding e Some p using text_keeps(1) [OF _ assms(3), of P'] d by (simp add: Let_def written_def)
  qed
qed

text \<open>C24: append is concatenation: appending a range of one usable string to another gives the old text followed
  by that range of the source, whatever growth it takes.  The only exception is a growth that is needed and
  refused: then the text stays as it was and one error is reported, or, when no handler was set, the report
  crashes.  The source string keeps its text, both stay usable, and no other block is touched.\<close>

theorem string_append_concat:
  assumes "mmap_law (env_mmap E)" "client E P B" "sx_ok P B s" "sx_ok P B d" "sx_content s \<noteq> sx_content d"
    and "0 < n" "0 \<le> ss" "ss + n \<le> int (sx_len s)" "int (sx_len d) + n \<le> 2 ^ 29"
  shows "case string_append E t (Some s) (Some d) ss n P of
      None \<Rightarrow> grow_refused E t d (sx_len d + nat n) P \<and> fatal_errors P
    | Some (r, P') \<Rightarrow> \<exists>d'. r = Some d' \<and>
        (let B' = insert (sx_content d') (B - {sx_content d}) in
          client E P' B' \<and> sx_ok P' B' d' \<and> sx_ok P' B' s \<and> text_of P' s = text_of P s \<and> keeps (B - {sx_content d}) P P' \<and>
          (if grow_refused E t d (sx_len d + nat n) P then d' = d \<and> text_of P' d = text_of P d \<and> noted P P' \<and> \<not> fatal_errors P
           else text_of P' d' = text_of P d @ take (nat n) (drop (nat ss) (text_of P s)) \<and> silent P P'))"
proof -
  let ?w = "take (nat n) (drop (nat ss) (text_of P s))"
  obtain r where e: "string_append E t (Some s) (Some d) ss n P = map_option (\<lambda>(d', P'). (Some d', P')) r"
    and w: "writes E t P B d (sx_len d) ?w r"
    by (rule pool_user.string_append_written [OF pool_user.intro [OF assms(1)] assms(2-9)])
  have len: "length ?w = nat n" using assms(6-8) by simp
  show ?thesis
  proof (cases r)
    case None
    then show ?thesis using e w len by (simp add: writes_def)
  next
    case (Some p)
    obtain d' P' where p: "p = (d', P')" by force
    have w': "written E t P B d (sx_len d) ?w d' P'" using w Some p by (simp add: writes_def)
    note f = writtenD [OF w' assms(4)] writes_other [OF w' assms(4,3,5)]
    from w' f show ?thesis unfolding e Some p using text_keeps(1) [OF _ assms(4), of P'] len by (simp add: Let_def written_def)
  qed
qed

section \<open>A concrete state\<close>

definition P_two :: MemPool where
  "P_two = snd (memop_alloc_raw bump_env 1 40 P_one)"

lemma second_alloc: "memop_alloc_raw bump_env 1 40 P_one = (Some 4259952, P_two)" "mem_bytes P_two = (\<lambda>_. 0)"
proof -
  have "fst (memop_alloc_raw bump_env 1 40 P_one) = Some 4259952" by (simp add: run_defs stride_2)
  then show "memop_alloc_raw bump_env 1 40 P_one = (Some 4259952, P_two)" by (simp add: P_two_def prod_eq_iff)
  show "mem_bytes P_two = (\<lambda>_. 0)" by (simp add: P_two_def run_defs stride_2)
qed

lemma P_two_client: "client bump_env P_two {4259904, 4259952}"
  using client_alloc_some [OF P_one_client small_request(1) second_alloc(1)] by (simp add: insert_commute)

lemma P_two_usable: "40 \<le> memop_usable_size 4259904 P_two" "40 \<le> memop_usable_size 4259952 P_two"
proof -
  note a = bump_user.user_alloc [OF P_one_client small_request(1) second_alloc(1)]
  show "40 \<le> memop_usable_size 4259952 P_two" using a(3) [OF refl] by simp
  show "40 \<le> memop_usable_size 4259904 P_two" using a(1) P_one_usable by (simp add: keeps_def)
qed

text \<open>Two strings: ten times \<open>A\<close>, and five zero bytes.\<close>

definition P_txt :: MemPool where
  "P_txt = P_two\<lparr>mem_bytes := memset_bytes 4259904 65 10 (mem_bytes P_two)\<rparr>"

definition str_A :: StringX where
  "str_A = \<lparr>sx_active = True, sx_max = 39, sx_len = 10, sx_content = 4259904\<rparr>"

definition str_B :: StringX where
  "str_B = \<lparr>sx_active = True, sx_max = 39, sx_len = 5, sx_content = 4259952\<rparr>"

lemma P_txt_client: "client bump_env P_txt {4259904, 4259952}"
  unfolding P_txt_def
proof (rule client.fill [OF P_two_client])
  show "(4259904 :: nat) \<in> {4259904, 4259952}" by simp
  show "same_at (- extent P_two 4259904) (mem_bytes P_two) (memset_bytes 4259904 65 10 (mem_bytes P_two))"
    using P_two_usable(1) by (intro same_at_memset) (auto simp: extent_def)
qed

lemma str_fields: "sx_content str_A = 4259904" "sx_len str_A = 10" "sx_content str_B = 4259952" "sx_len str_B = 5"
  by (simp_all add: str_A_def str_B_def)

lemma strs_ok: "sx_ok P_txt {4259904, 4259952} str_A" "sx_ok P_txt {4259904, 4259952} str_B"
  using P_two_usable by (simp_all add: sx_ok_def str_A_def str_B_def P_txt_def second_alloc(2) memset_bytes_def)

lemma strs_text: "text_of P_txt str_A = replicate 10 65" "text_of P_txt str_B = replicate 5 0"
  by (simp_all add: text_of_def bytes_from_def str_A_def str_B_def P_txt_def second_alloc(2) memset_bytes_def map_replicate_const
      list_eq_iff_nth_eq)

lemma str_B_room: "n \<le> 39 \<Longrightarrow> \<not> grow_refused E t str_B n P"
  by (simp add: grow_refused_def str_B_def)

theorem string_append_concat_witness:
  "\<exists>d' P'. string_append bump_env 1 (Some str_A) (Some str_B) 2 3 P_txt = Some (Some d', P') \<and>
    text_of P' d' = replicate 5 0 @ replicate 3 65"
proof -
  have "take (nat 3) (drop (nat 2) (replicate 10 (65 :: 8 word))) = replicate 3 65" by simp
  then show ?thesis
    using string_append_concat [OF bump_env_law P_txt_client strs_ok, of 3 2 1]
    by (auto simp: strs_text Let_def str_fields str_B_room simp del: One_nat_def split: option.splits)
qed

theorem string_copy_overwrites_witness:
  "\<exists>s' P'. string_copy bump_env 1 (Some str_B) 4259904 10 0 10 2 P_txt = Some (Some s', P') \<and>
    text_of P' s' = replicate 2 0 @ replicate 10 65"
proof -
  have "{4259904 + nat 0..<4259904 + nat 0 + nat 10} \<subseteq> extent P_txt 4259904"
    using P_two_usable(1) by (auto simp: extent_def P_txt_def)
  moreover have "bytes_from (mem_bytes P_txt) (4259904 + nat 0) (nat 10) = replicate 10 65"
    using strs_text(1) by (simp add: text_of_def str_A_def)
  ultimately show ?thesis
    using string_copy_overwrites [OF bump_env_law P_txt_client strs_ok(2), of 4259904 4259904 0 10 2 10 1]
    by (auto simp: strs_text str_fields str_B_room Let_def int_max_def simp del: One_nat_def split: option.splits)
qed

section \<open>Appending a string to itself\<close>

definition P_self :: MemPool where
  "P_self = P_two\<lparr>mem_bytes := memset_bytes 4259904 65 20 (mem_bytes P_two)\<rparr>"

definition str_S :: StringX where
  "str_S = \<lparr>sx_active = True, sx_max = 39, sx_len = 20, sx_content = 4259904\<rparr>"

lemma grow_39: "sh_grow 39 40 = Some 78"
  by (simp add: sh_grow.simps)

definition P_grown :: MemPool where
  "P_grown = snd (memop_realloc_raw bump_env 1 4259904 79 P_self)"

lemma self_realloc:
  "fst (memop_realloc_raw bump_env 1 4259904 79 P_self) = Some 4325440"
  by (simp add: memop_realloc_raw_def P_self_def P_two_def run_defs stride_2 stride_4 class_index_80 memop_usable_size_def span_of_def)

lemma grown_bytes: "mem_bytes P_grown = write_ptr 4259904 0
    (memcpy_bytes 4325440 4259904 48 (memset_bytes 4259904 65 20 (\<lambda>_. 0)))"
  by (simp add: P_grown_def memop_realloc_raw_def P_self_def P_two_def run_defs stride_2 stride_4 class_index_80 memop_usable_size_def
      span_of_def memop_free_raw_def free_local_def stat_free_def)

text \<open>Appending a string to itself is not concatenation once the buffer has to grow: the source pointer was taken
  before the growth and is read after the old buffer went back to the pool, whose free-list link has replaced its
  first 8 bytes.  Here twenty letters appended to themselves give twenty letters, 8 zero bytes and 12 letters.\<close>

theorem string_self_append_broken:
  "text_of P_self str_S = replicate 20 65 \<and>
   (\<exists>s' P'. string_append bump_env 1 (Some str_S) (Some str_S) 0 20 P_self = Some (Some s', P') \<and>
      text_of P' s' = replicate 20 65 @ replicate 8 0 @ replicate 12 65)"
proof
  show "text_of P_self str_S = replicate 20 65"
    by (simp add: text_of_def bytes_from_def str_S_def P_self_def second_alloc(2) memset_bytes_def list_eq_iff_nth_eq)
  have g: "memop_realloc_raw bump_env 1 4259904 79 P_self = (Some 4325440, P_grown)"
    using self_realloc by (simp add: P_grown_def prod_eq_iff)
  let ?s1 = "\<lparr>sx_active = True, sx_max = 78, sx_len = 20, sx_content = 4325440\<rparr>"
  have ec: "sh_ensure_capacity bump_env 1 str_S 40 P_self = Some (True, ?s1, P_grown)"
    using g by (simp add: sh_ensure_capacity_def str_S_def grow_39 del: One_nat_def)
  let ?P = "P_grown\<lparr>mem_bytes := (copy_fwd 20 4325460 4259904 (mem_bytes P_grown))(4325480 := 0)\<rparr>"
  have e: "string_append bump_env 1 (Some str_S) (Some str_S) 0 20 P_self = Some (Some (?s1\<lparr>sx_len := 40\<rparr>), ?P)"
    using ec by (simp add: string_append_def string_copy_def str_S_def Let_def del: One_nat_def)
  have dis: "{4259904..<4259904 + 20} \<inter> {4325460..<4325460 + (20 :: nat)} = {}" by auto
  have "text_of ?P (?s1\<lparr>sx_len := 40\<rparr>) = replicate 20 65 @ replicate 8 0 @ replicate 12 65"
  proof (rule nth_equalityI)
    fix i assume "i < length (text_of ?P (?s1\<lparr>sx_len := 40\<rparr>))"
    then have i: "i < 40" by simp
    then have "text_of ?P (?s1\<lparr>sx_len := 40\<rparr>) ! i = (if i < 20 then 65 else if i < 28 then 0 else 65)"
      by (simp add: text_of_def copy_fwd_memcpy [OF dis] grown_bytes memcpy_bytes_def write_ptr_def memset_bytes_def)
    then show "text_of ?P (?s1\<lparr>sx_len := 40\<rparr>) ! i = (replicate 20 65 @ replicate 8 0 @ replicate 12 65) ! i"
      using i by (auto simp: nth_append)
  qed simp
  then show "\<exists>s' P'. string_append bump_env 1 (Some str_S) (Some str_S) 0 20 P_self = Some (Some s', P') \<and>
      text_of P' s' = replicate 20 65 @ replicate 8 0 @ replicate 12 65"
    using e by blast
qed

section \<open>Life cycle and formatting\<close>

lemma store_text_at: "length out < cap \<Longrightarrow> i < length out \<Longrightarrow> store_text a cap out m (a + i) = out ! i"
  by (simp add: store_text_def)

lemma store_text_write:
  "length out < cap \<Longrightarrow> store_text a cap out m = (store_text a cap out m)(a + length out := 0)"
  by (auto simp: store_text_def fun_eq_iff)

lemma store_text_same: "length out < cap \<Longrightarrow> a + length out \<notin> A \<Longrightarrow> {a..<a + length out} \<inter> A = {} \<Longrightarrow> same_at A m (store_text a cap out m)"
  by (auto simp: store_text_def same_at_def)

context pool_user
begin

lemma string_format_user:
  assumes c: "client E P B" and d: "sx_ok P B d" and len: "sx_len d + length out \<le> 2 ^ 29"
  obtains r where "string_append_formatv E t (Some d) (Some (Some out)) P =
      map_option (\<lambda>(d', P'). (if grow_refused E t d (sx_len d + length out) P then - 1 else int (length out), Some d', P')) r"
    "writes E t P B d (sx_len d) out r"
proof -
  note o = sx_okD [OF d]
  have c0: "sx_content d \<noteq> 0" using user_pos [OF c o(1)] by simp
  have md: "(sx_len d + length out) mod 18446744073709551616 = sx_len d + length out" using len by simp
  show thesis
  proof (cases rule: ensure_capacity_user [OF c d len, of t, case_names grown failed crashed])
    case crashed
    have "string_append_formatv E t (Some d) (Some (Some out)) P = None"
      using c0 crashed(1) by (simp add: string_append_formatv_def Let_def md)
    then show thesis using that [of None] crashed(2-4) by (simp add: writes_def)
  next
    case (failed P1)
    have "string_append_formatv E t (Some d) (Some (Some out)) P = Some (- 1, Some d, P1)"
      using c0 failed(1) by (simp add: string_append_formatv_def Let_def md)
    then show thesis using that [of "Some (d, P1)"] failed(2-6) by (simp add: writes_def written_def)
  next
    case (grown s1 P1)
    let ?B = "insert (sx_content s1) (B - {sx_content d})"
    let ?a = "sx_content s1 + sx_len d" and ?cap = "sx_max s1 - sx_len d + 1"
    let ?m = "store_text ?a ?cap out (mem_bytes P1)"
    have g: "client E P1 ?B" "sx_ok P1 ?B s1" using grown(3) by (simp_all add: moved_def)
    have cap: "length out < ?cap" using grown(2) by simp
    have room: "sx_len d \<le> sx_len s1" "sx_len d + length out \<le> sx_max s1" using grown(2,5) by simp_all
    let ?m1 = "?m(?a + length out := mem_bytes P1 (?a + length out))"
    have at: "?m1 (sx_content s1 + sx_len d + i) = out ! i" if "i < length out" for i using that cap by (simp add: store_text_at)
    have sa: "same_at (- {?a..<?a + length out}) (mem_bytes P1) ?m1"
    proof -
      have "same_at (- {?a..<?a + length out} - {?a + length out}) (mem_bytes P1) ?m"
        by (rule store_text_same [OF cap]) auto
      then show ?thesis by (auto simp: same_at_def)
    qed
    let ?s2 = "s1\<lparr>sx_len := max (sx_len s1) (sx_len d + length out)\<rparr>"
    note w = write_text [OF g room refl at sa]
    have s2: "s1\<lparr>sx_len := sx_len d + length out\<rparr> = ?s2" using grown(5) by (simp add: max_def)
    have "?m1(sx_content ?s2 + sx_len ?s2 := 0) = ?m(?a + length out := 0)" using grown(5) by (simp add: add.assoc max_def)
    also have "\<dots> = ?m" using store_text_write [OF cap, of ?a "mem_bytes P1"] by simp
    finally have m: "?m1(sx_content ?s2 + sx_len ?s2 := 0) = ?m" .
    have e: "string_append_formatv E t (Some d) (Some (Some out)) P = Some (int (length out), Some ?s2, P1\<lparr>mem_bytes := ?m\<rparr>)"
      using c0 grown(1) s2 by (simp add: string_append_formatv_def Let_def md)
    have mv: "moved E P B d ?s2 (P1\<lparr>mem_bytes := ?m\<rparr>)"
      using moved_trans [OF grown(3)] w(1) unfolding m by blast
    have tx: "text_of (P1\<lparr>mem_bytes := ?m\<rparr>) ?s2 = text_of P d @ out"
      using w(2) unfolding m grown(4) by simp
    show thesis using that [of "Some (?s2, P1\<lparr>mem_bytes := ?m\<rparr>)"] e mv tx grown(6,7) by (simp add: writes_def written_def)
  qed
qed

end

text \<open>Formatted append: \<open>string_append_formatv\<close> appends the whole formatted text and returns its length; only
  when a needed growth is refused it returns -1 and leaves the text as it was, if the report of that returns.\<close>

theorem string_format_appends:
  assumes "mmap_law (env_mmap E)" "client E P B" "sx_ok P B d" "sx_len d + length out \<le> 2 ^ 29"
  shows "case string_append_formatv E t (Some d) (Some (Some out)) P of
      None \<Rightarrow> grow_refused E t d (sx_len d + length out) P \<and> fatal_errors P
    | Some (n, r, P') \<Rightarrow> \<exists>d'. r = Some d' \<and>
        (let B' = insert (sx_content d') (B - {sx_content d}) in
          client E P' B' \<and> sx_ok P' B' d' \<and> keeps (B - {sx_content d}) P P' \<and>
          (if grow_refused E t d (sx_len d + length out) P then n = - 1 \<and> d' = d \<and> text_of P' d = text_of P d \<and> noted P P'
           else n = int (length out) \<and> text_of P' d' = text_of P d @ out \<and> silent P P'))"
proof -
  obtain r where e: "string_append_formatv E t (Some d) (Some (Some out)) P =
      map_option (\<lambda>(d', P'). (if grow_refused E t d (sx_len d + length out) P then - 1 else int (length out), Some d', P')) r"
    and w: "writes E t P B d (sx_len d) out r"
    by (rule pool_user.string_format_user [OF pool_user.intro [OF assms(1)] assms(2-4)])
  show ?thesis
  proof (cases r)
    case None
    then show ?thesis using e w by (simp add: writes_def)
  next
    case (Some p)
    obtain d' P' where p: "p = (d', P')" by force
    have w': "written E t P B d (sx_len d) out d' P'" using w Some p by (simp add: writes_def)
    note f = writtenD [OF w' assms(3)]
    from w' f show ?thesis unfolding e Some p using text_keeps(1) [OF _ assms(3), of P'] by (simp add: Let_def written_def)
  qed
qed

theorem string_format_appends_witness:
  "\<exists>d' P'. string_append_formatv bump_env 1 (Some str_A) (Some (Some [66, 67])) P_txt = Some (2, Some d', P') \<and>
    text_of P' d' = replicate 10 65 @ [66, 67]"
proof -
  have "\<not> grow_refused bump_env 1 str_A 12 P_txt" by (simp add: grow_refused_def str_A_def)
  then show ?thesis
    using string_format_appends [OF bump_env_law P_txt_client strs_ok(1), of "[66, 67]" 1]
    by (auto simp: strs_text str_fields Let_def simp del: One_nat_def split: option.splits)
qed

text \<open>The life of a string: \<open>string_create\<close> gives an empty usable string in a fresh block, or, when memory is
  refused and the report returns, an inactive one without buffer; \<open>string_release\<close> gives back exactly that block
  and clears every field, so that releasing twice is harmless.\<close>

theorem string_life:
  assumes "mmap_law (env_mmap E)" "client E P B"
  shows "case string_create E t junk P of
      None \<Rightarrow> fatal_errors P \<and> refuses E t
    | Some (s, P') \<Rightarrow> keeps B P P' \<and>
       (if sx_active s
        then sx_content s \<notin> B \<and> client E P' (insert (sx_content s) B) \<and> sx_ok P' (insert (sx_content s) B) s \<and> text_of P' s = [] \<and>
          silent P P' \<and>
          (case string_release t (Some s) P' of (r, P'') \<Rightarrow>
             client E P'' B \<and> keeps B P P'' \<and> string_release t r P'' = (r, P''))
        else sx_content s = 0 \<and> client E P' B \<and> noted P P' \<and> \<not> fatal_errors P)"
proof -
  note pu = pool_user.intro [OF assms(1)]
  obtain r P1 where a: "memop_alloc_raw E t 51 P = (r, P1)" by force
  have sz: "(51 :: nat) \<le> max_request" by (simp add: max_request_def)
  note u = pool_user.user_alloc [OF pu assms(2) sz a] and sl = silent_alloc_raw [OF a]
  note defs = string_create_def string_init_def
  show ?thesis
  proof (cases r)
    case None
    have rf: "refuses E t" using alloc_refuses [OF assms(2) _ sz] a None by simp
    have c: "client E (counted P1) B" if "\<not> fatal_errors P" by (rule client_counted) (use u(2) [OF None] that sl in simp_all)
    show ?thesis using a None u(1) rf c sl by (simp add: defs trigger_event_eq)
  next
    case (Some p)
    have f: "0 < p" "p \<notin> B" "client E P1 (insert p B)" "51 \<le> memop_usable_size p P1" using u(3) [OF Some] by auto
    define s where "s = \<lparr>sx_active = True, sx_max = 50, sx_len = 0, sx_content = p\<rparr>"
    define P' where "P' = P1\<lparr>mem_bytes := (mem_bytes P1)(p := 0)\<rparr>"
    have e: "string_create E t junk P = Some (s, P')" using a Some by (simp add: defs set_byte_def s_def P'_def)
    have sa: "same_at (- extent P1 p) (mem_bytes P1) ((mem_bytes P1)(p := 0))" using f(4) by (auto simp: same_at_def extent_def)
    note w = pool_user.user_write [OF pu f(3) _ sa]
    have w': "client E P' (insert p B)" "keeps B P1 P'" using w f(2) by (simp_all add: P'_def)
    have k: "keeps B P P'" using u(1) w'(2) by (rule keeps_trans)
    have us: "memop_usable_size p P' = memop_usable_size p P1" by (simp add: P'_def)
    have ok: "sx_ok P' (insert p B) s" using f(4) us by (simp add: sx_ok_def s_def P'_def)
    note fr = pool_user.user_free [OF pu w'(1), of p t]
    have "client E (memop_free_raw t p P') B" "keeps B P (memop_free_raw t p P')" using fr f(2) k by (auto intro: keeps_trans)
    then show ?thesis using k w'(1) ok f(1,2) sl by (simp add: e s_def string_release_def text_of_def P'_def)
  qed
qed

theorem string_life_witness:
  "case string_create bump_env 1 str_A P_one of None \<Rightarrow> refuses bump_env 1 | Some (s, P') \<Rightarrow> keeps {4259904} P_one P'"
  using string_life [OF bump_env_law P_one_client, of 1 str_A] by (auto split: option.splits)

end
