(* ===== verification/String_Search.thy ===== *)
theory String_Search
  imports String_Buffer "HOL-Library.Sublist"
begin

text \<open>
  The operations that read strings: comparison and search in both directions, each against the
  list operation on the text it stands for.
\<close>

section \<open>Comparison\<close>

lemma cmp_loop_bytes: "cmp_loop m a b n \<longleftrightarrow> bytes_from m a n = bytes_from m b n"
proof -
  have "cmp_loop m a b n \<longleftrightarrow> (\<forall>i < n. m (a + i) = m (b + i))"
  proof (induction m a b n rule: cmp_loop.induct)
    case (2 m a b n)
    have "(\<forall>i < Suc n. m (a + i) = m (b + i)) \<longleftrightarrow> m a = m b \<and> (\<forall>i < n. m (a + 1 + i) = m (b + 1 + i))"
      using All_less_Suc2 [of n "\<lambda>i. m (a + i) = m (b + i)"] by simp
    then show ?case using 2 by simp
  qed simp
  then show ?thesis by (auto simp: list_eq_iff_nth_eq)
qed

text \<open>Equality of strings is equality of texts: for usable strings \<open>string_equals\<close> compares the texts, and
  \<open>string_equal_part\<close> with a start and a length in range tells whether the range lies in the text and equals the
  given bytes.\<close>

theorem string_equality:
  assumes "mmap_law (env_mmap E)" "client E P B" "sx_ok P B s" "sx_ok P B r" "b \<noteq> 0" "0 \<le> st" "0 \<le> n" "st + n \<le> int_max"
  shows "string_equals (Some s) (Some r) P = (text_of P s = text_of P r) \<and>
    string_equal_part (Some s) st b n P =
      (nat st + nat n \<le> sx_len s \<and> take (nat n) (drop (nat st) (text_of P s)) = bytes_from (mem_bytes P) b (nat n))"
proof
  note pu = pool_user.intro [OF assms(1)]
  have c0: "sx_content s \<noteq> 0" "sx_content r \<noteq> 0"
    using pool_user.user_pos [OF pu assms(2)] sx_okD(1) [OF assms(3)] sx_okD(1) [OF assms(4)] by blast+
  have len: "i32 (int (sx_len r)) = int (sx_len r)" using sx_okD(2,5) [OF assms(4)] by simp
  show "string_equals (Some s) (Some r) P = (text_of P s = text_of P r)"
  proof (cases "sx_len s = sx_len r")
    case True
    then show ?thesis using c0 len by (simp add: string_equals_def string_equal_def cmp_loop_bytes text_of_def)
  next
    case False
    then have "text_of P s \<noteq> text_of P r" by (metis length_text_of)
    then show ?thesis using c0 len False by (simp add: string_equals_def string_equal_def)
  qed
  have u: "u64 (i32 (st + n)) = st + n" using assms(6-8) by (simp add: int_max_def)
  show "string_equal_part (Some s) st b n P =
      (nat st + nat n \<le> sx_len s \<and> take (nat n) (drop (nat st) (text_of P s)) = bytes_from (mem_bytes P) b (nat n))"
  proof (cases "nat st + nat n \<le> sx_len s")
    case True
    then have "\<not> st + n > int (sx_len s)" using assms(6,7) by linarith
    then show ?thesis
      using c0 assms(5-7) True u text_slice [OF True, of P] by (simp add: string_equal_part_def cmp_loop_bytes)
  next
    case False
    then have "st + n > int (sx_len s)" using assms(6,7) by linarith
    then show ?thesis using c0 assms(5-7) False u by (simp add: string_equal_part_def)
  qed
qed

theorem string_equality_witness:
  "\<not> string_equals (Some str_A) (Some str_B) P_txt \<and> string_equal_part (Some str_A) 2 4259904 3 P_txt"
proof -
  have b: "bytes_from (mem_bytes P_txt) 4259904 3 = replicate 3 65"
    by (simp add: bytes_from_def P_txt_def second_alloc(2) memset_bytes_def list_eq_iff_nth_eq)
  show ?thesis
    using string_equality [OF bump_env_law P_txt_client strs_ok, of 4259904 2 3] b
    by (simp add: strs_text str_fields int_max_def)
qed

section \<open>Search\<close>

lemma scan_up_find: "scan_up hit i stop = (case List.find hit [i..<stop] of None \<Rightarrow> - 1 | Some k \<Rightarrow> int k)"
proof (induction hit i stop rule: scan_up.induct)
  case (1 hit i stop)
  show ?case
  proof (cases "i < stop")
    case True
    then have "[i..<stop] = i # [i + 1..<stop]" by (simp add: upt_rec)
    then show ?thesis using True 1 by (subst scan_up.simps) simp
  qed (simp add: scan_up.simps)
qed

lemma scan_down_find: "scan_down hit n = (case List.find hit (rev [0..<n]) of None \<Rightarrow> - 1 | Some k \<Rightarrow> int k)"
  by (induction hit n rule: scan_down.induct) simp_all

lemma scan_tok_up:
  assumes "0 < len" "int i + len \<le> int_max" "stop < int_max" "0 \<le> stop"
  shows "scan_tok hit i len stop = scan_up hit i (nat (stop - len + 1))"
  using assms
proof (induction hit i len stop rule: scan_tok.induct)
  case (1 hit i len stop)
  have i: "i < 2 ^ 31" "i32 (int i + len) = int i + len" using 1(2,3) by (simp_all add: int_max_def)
  show ?case
  proof (cases "int i + len \<le> stop")
    case True
    have lt: "i < nat (stop - len + 1)" using True 1(2) by linarith
    show ?thesis
    proof (cases "hit i")
      case False
      have "int (i + 1) + len \<le> int_max" using True 1(4) by simp
      then show ?thesis
        using 1(1) [OF _ False] 1(2-5) i True lt False
        by (subst scan_tok.simps, subst scan_up.simps) simp
    qed (use True lt i in \<open>simp add: scan_tok.simps scan_up.simps\<close>)
  next
    case False
    then have "\<not> i < nat (stop - len + 1)" using 1(2) by linarith
    with False i show ?thesis by (simp add: scan_tok.simps scan_up.simps)
  qed
qed

definition position :: "nat option \<Rightarrow> int" where
  "position r = (case r of None \<Rightarrow> - 1 | Some k \<Rightarrow> int k)"

lemma clip_end_min:
  assumes "sx_len s < 2 ^ 30" "0 \<le> a" "0 \<le> n" "a + n \<le> int_max"
  shows "clip_end s a n = int (min (nat (a + n)) (sx_len s))"
  using assms by (auto simp: clip_end_def Let_def int_max_def min_def)

lemma hit_text: "i < sx_len s \<Longrightarrow> mem_bytes P (sx_content s + i) = text_of P s ! i"
  by (simp add: text_of_def)

lemma hit_token:
  "i + n \<le> sx_len s \<Longrightarrow> cmp_loop (mem_bytes P) (sx_content s + i) b n = (take n (drop i (text_of P s)) = bytes_from (mem_bytes P) b n)"
  by (simp add: cmp_loop_bytes text_slice)

text \<open>C26: search: on a usable string the four searches give exactly the first (or last) position in the range where the
  byte, or the token, occurs in the text, and -1 when there is none; positions past the end are clipped.\<close>

theorem string_search_positions:
  assumes "mmap_law (env_mmap E)" "client E P B" "sx_ok P B s" "b \<noteq> 0" "0 < n" "n < int_max"
    and "0 \<le> ps" "0 \<le> pl" "ps + pl \<le> int_max" "ps + n \<le> int_max"
  defines "w \<equiv> bytes_from (mem_bytes P) b (nat n)" and "stop \<equiv> min (nat (ps + pl)) (sx_len s)"
  shows "string_indexof (Some s) c ps pl P = position (List.find (\<lambda>i. text_of P s ! i = c) [nat ps..<stop]) \<and>
    string_indexofs (Some s) b n ps pl P =
      position (List.find (\<lambda>i. take (nat n) (drop i (text_of P s)) = w) [nat ps..<stop + 1 - nat n]) \<and>
    string_index_end (Some s) c P = position (List.find (\<lambda>i. text_of P s ! i = c) (rev [0..<sx_len s])) \<and>
    string_index_ends (Some s) b n P =
      position (List.find (\<lambda>i. take (nat n) (drop i (text_of P s)) = w) (rev [0..<sx_len s + 1 - nat n]))"
proof (intro conjI)
  note pu = pool_user.intro [OF assms(1)]
  have c0: "sx_content s \<noteq> 0" using pool_user.user_pos [OF pu assms(2)] sx_okD(1) [OF assms(3)] by blast
  have len: "sx_len s < 2 ^ 30" using sx_okD(2,5) [OF assms(3)] by simp
  have li: "i32 (int (sx_len s)) = int (sx_len s)" using len by simp
  have cl: "clip_end s ps pl = int stop" unfolding stop_def by (rule clip_end_min [OF len assms(7-9)])
  have stop: "stop \<le> sx_len s" "int stop < int_max" using len by (simp_all add: stop_def int_max_def)
  have "List.find (\<lambda>i. mem_bytes P (sx_content s + i) = c) [nat ps..<stop] = List.find (\<lambda>i. text_of P s ! i = c) [nat ps..<stop]"
    by (rule find_cong [OF refl]) (use stop(1) in \<open>simp add: hit_text\<close>)
  then show "string_indexof (Some s) c ps pl P = position (List.find (\<lambda>i. text_of P s ! i = c) [nat ps..<stop])"
    using c0 assms(7,8) by (simp add: string_indexof_def cl scan_up_find position_def)
  have n: "nat (int stop - n + 1) = stop + 1 - nat n" using assms(5) by linarith
  have "List.find (\<lambda>i. cmp_loop (mem_bytes P) (sx_content s + i) b (nat n)) [nat ps..<stop + 1 - nat n] =
      List.find (\<lambda>i. take (nat n) (drop i (text_of P s)) = w) [nat ps..<stop + 1 - nat n]"
    unfolding w_def by (rule find_cong [OF refl], rule hit_token) (use stop(1) assms(5) in auto)
  moreover have "scan_tok (\<lambda>i. cmp_loop (mem_bytes P) (sx_content s + i) b (nat n)) (nat ps) n (int stop) =
      scan_up (\<lambda>i. cmp_loop (mem_bytes P) (sx_content s + i) b (nat n)) (nat ps) (stop + 1 - nat n)"
    using scan_tok_up [of n "nat ps" "int stop"] assms(5,7,10) stop(2) n by simp
  ultimately show "string_indexofs (Some s) b n ps pl P =
      position (List.find (\<lambda>i. take (nat n) (drop i (text_of P s)) = w) [nat ps..<stop + 1 - nat n])"
    using c0 assms(4,5,7,8) by (simp add: string_indexofs_def cl scan_up_find position_def)
  have "List.find (\<lambda>i. mem_bytes P (sx_content s + i) = c) (rev [0..<sx_len s]) = List.find (\<lambda>i. text_of P s ! i = c) (rev [0..<sx_len s])"
    by (rule find_cong [OF refl]) (simp add: hit_text)
  then show "string_index_end (Some s) c P = position (List.find (\<lambda>i. text_of P s ! i = c) (rev [0..<sx_len s]))"
    using c0 by (simp add: string_index_end_def li scan_down_find position_def)
  have n': "nat (int (sx_len s) - n + 1) = sx_len s + 1 - nat n" using assms(5) by linarith
  have "List.find (\<lambda>i. cmp_loop (mem_bytes P) (sx_content s + i) b (nat n)) (rev [0..<sx_len s + 1 - nat n]) =
      List.find (\<lambda>i. take (nat n) (drop i (text_of P s)) = w) (rev [0..<sx_len s + 1 - nat n])"
    unfolding w_def by (rule find_cong [OF refl], rule hit_token) (use assms(5) in auto)
  then show "string_index_ends (Some s) b n P =
      position (List.find (\<lambda>i. take (nat n) (drop i (text_of P s)) = w) (rev [0..<sx_len s + 1 - nat n]))"
    using c0 assms(4,5) by (simp add: string_index_ends_def li n' scan_down_find position_def)
qed

theorem string_search_positions_witness:
  "string_indexof (Some str_A) 65 3 100 P_txt = 3 \<and> string_index_end (Some str_A) 66 P_txt = - 1"
proof -
  note t = string_search_positions [OF bump_env_law P_txt_client strs_ok(1), of 4259904 1 3 100]
  have "[3..<10] = [3, 4, 5, 6, 7, 8, 9 :: nat]" by (simp add: upt_rec)
  then have "List.find (\<lambda>i. replicate 10 (65 :: 8 word) ! i = 65) [3..<10] = Some 3" by simp
  moreover have "List.find (\<lambda>i. replicate 10 (65 :: 8 word) ! i = 66) (rev [0..<10]) = None" by (auto simp: find_None_iff)
  ultimately show ?thesis using t [of 65] t [of 66] by (simp add: strs_text str_fields int_max_def position_def)
qed

end
