(* ===== verification/Pool_Addresses.thy ===== *)
theory Pool_Addresses
  imports Buffers
begin

text \<open>
  The addresses of blocks fit in a pointer: what the system maps lies below \<open>2 ^ 47\<close>, and the
  pool never hands out anything else.  So a block can be stored as a pointer and read back.
\<close>

section \<open>The history of the system calls\<close>

definition low_log :: "os_event list \<Rightarrow> bool" where
  "low_log log \<longleftrightarrow> mapped log \<subseteq> {..<2 ^ 47}"

lemma low_unmap [simp, intro]: "low_log log \<Longrightarrow> low_log (Munmap a n # log)"
  by (auto simp: low_log_def)

lemma low_map: "low_log log \<Longrightarrow> a + n \<le> 2 ^ 47 \<Longrightarrow> low_log (Mmap a n # log)"
  by (auto simp: low_log_def)

lemma low_span_free [simp, intro]: "low_log log \<Longrightarrow> low_log (span_os_free p sz log)"
  by (simp add: span_os_free_def)

lemma low_trim: "low_log L \<Longrightarrow> trim_map raw over sz al L = (b, log') \<Longrightarrow> low_log log'"
  by (auto simp: trim_map_def Let_def split: if_splits)

lemma low_span_alloc:
  assumes "mmap_law mmap" "low_log log" "span_os_alloc mmap sz log = (r, log')"
  shows "low_log log'"
proof (cases "mmap log ((sz + SPAN_SIZE) mod 2 ^ 64)")
  case (Some raw)
  define over where "over = (sz + SPAN_SIZE) mod 2 ^ 64"
  have "raw + over \<le> 2 ^ 47" using assms(1) Some unfolding mmap_law_def over_def [symmetric] by blast
  then have "low_log (Mmap raw over # log)" by (rule low_map [OF assms(2)])
  moreover obtain base where "trim_map raw over sz SPAN_SIZE (Mmap raw over # log) = (base, log')"
    using assms(3) Some by (simp only: span_os_alloc_def Let_def over_def [symmetric] option.case prod.case split: prod.splits)
      (simp add: over_def)
  ultimately show ?thesis by (rule low_trim)
qed (use assms(2,3) in \<open>simp add: span_os_alloc_def\<close>)

lemma low_seg_alloc:
  assumes "mmap_law mmap" "low_log log" "seg_os_alloc mmap log = (r, log')"
  shows "low_log log'"
proof (cases "mmap log (SEG_SIZE * 2)")
  case (Some raw)
  have "raw + SEG_SIZE * 2 \<le> 2 ^ 47" using assms(1) Some unfolding mmap_law_def by blast
  then have "low_log (Mmap raw (SEG_SIZE * 2) # log)" by (rule low_map [OF assms(2)])
  moreover obtain base where "trim_map raw (SEG_SIZE * 2) SEG_SIZE SEG_SIZE (Mmap raw (SEG_SIZE * 2) # log) = (base, log')"
    using assms(3) Some by (auto simp: seg_os_alloc_def Let_def split: prod.splits)
  ultimately show ?thesis by (rule low_trim)
qed (use assms(2,3) in \<open>simp add: seg_os_alloc_def\<close>)

lemma low_purge_unmap: "low_log log \<Longrightarrow> low_log (fst (purge_unmap ss log n))"
  by (induction ss arbitrary: log n) auto

lemma low_free_segments: "low_log log \<Longrightarrow> low_log (free_segments ss log)"
  by (induction ss arbitrary: log) auto

section \<open>Chunks\<close>

abbreviation low :: "'p ChunkPool_scheme \<Rightarrow> bool" where
  "low G \<equiv> low_log (os_log G)"

lemma low_new_segment: "mmap_law mmap \<Longrightarrow> low G \<Longrightarrow> chunk_new_segment mmap G = (r, G') \<Longrightarrow> low G'"
  by (auto simp: chunk_new_segment_def split: prod.splits option.splits dest: low_seg_alloc)

lemma low_acquire_global: "mmap_law mmap \<Longrightarrow> low G \<Longrightarrow> chunk_acquire_global mmap G = (r, G') \<Longrightarrow> low G'"
  by (auto simp: chunk_acquire_global_def split: list.splits if_splits dest: low_new_segment)

lemma low_acquire: "mmap_law mmap \<Longrightarrow> low G \<Longrightarrow> chunk_acquire mmap h G = (r, h', G') \<Longrightarrow> low G'"
  by (auto simp: chunk_acquire_def split: option.splits list.splits prod.splits dest: low_acquire_global)

lemma low_purge_apply: "low G \<Longrightarrow> low (purge_apply_locked now force target G)"
  using low_purge_unmap by (auto simp: purge_apply_locked_def split: prod.splits) (metis fst_conv)

lemma low_purge_locked: "low G \<Longrightarrow> low (memop_purge_locked now G)"
  by (auto simp: memop_purge_locked_def Let_def intro!: low_purge_apply)

lemma low_release_global: "low G \<Longrightarrow> low (chunk_release_global m G)"
  by (auto simp: chunk_release_global_def Let_def intro!: low_purge_locked)

lemma low_release: "low G \<Longrightarrow> low (snd (chunk_release h m G))"
  by (auto simp: chunk_release_def low_release_global split: option.splits)

lemma low_release_all: "low G \<Longrightarrow> low (release_all ms G)"
  by (induction ms arbitrary: G) (auto intro: low_release_global)

section \<open>Heaps\<close>

lemma log_upd_span [simp]: "os_log (upd_span a f P) = os_log P"
  by (simp add: upd_span_def)

lemma log_upd_heap [simp]: "os_log (upd_heap h f P) = os_log P"
  by (simp add: upd_heap_def)

lemma log_lists [simp]:
  "os_log (heap_list_insert_head h c a P) = os_log P" "os_log (heap_list_unlink h c a P) = os_log P"
  "os_log (heap_full_push_tail h a P) = os_log P" "os_log (heap_full_unlink h a P) = os_log P"
  "os_log (bump_stats h na ns P) = os_log P" "os_log (refill_got h c a P) = os_log P"
  "os_log (memop_init P) = os_log P" "os_log (snd (span_take a P)) = os_log P"
  by (simp_all add: heap_list_insert_head_def heap_list_unlink_def heap_full_push_tail_def heap_full_unlink_def bump_stats_def
      refill_got_def memop_init_def span_take_def split: list.split)

lemma log_drain [simp]: "os_log (snd (span_drain_remote a P)) = os_log P"
  by (simp add: span_drain_remote_def Let_def split: prod.split)

lemma log_stat_free [simp]: "os_log (stat_free ho n P) = os_log P"
  by (simp add: stat_free_def split: option.split)

lemma log_get_heap: "get_heap E t P = (r, P') \<Longrightarrow> os_log P' = os_log P"
  by (auto simp: get_heap_def heap_create_locked_def Let_def split: option.splits if_splits)

lemma log_refill_scan [simp]: "os_log (snd (refill_scan h c as P)) = os_log P"
proof (induction as arbitrary: P)
  case (Cons a as)
  have "os_log P1 = os_log P" if "span_drain_remote a P = (n, P1)" for n P1 using log_drain [of a P] that by simp
  then show ?case using Cons by (simp add: Let_def split: prod.split)
qed simp

lemma log_full_scan [simp]: "os_log (snd (full_scan h c k start P)) = os_log P"
proof (induction h c k start P rule: full_scan.induct)
  case (2 h c k start P)
  have d: "os_log P1 = os_log P" if "span_drain_remote a P = (n, P1)" for a n P1 using log_drain [of a P] that by simp
  show ?case
  proof (cases "full_list (hp P h)")
    case (Cons fs as)
    obtain n P1 where e: "span_drain_remote fs P = (n, P1)" by force
    show ?thesis using 2 Cons e d [OF e] by (simp add: Let_def)
  qed simp
qed simp

lemma low_heap_acquire: "mmap_law (env_mmap E) \<Longrightarrow> low P \<Longrightarrow> low (snd (heap_chunk_acquire E h P))"
  by (auto simp: heap_chunk_acquire_def split: prod.splits option.splits dest: low_acquire)

lemma low_heap_release: "low P \<Longrightarrow> low (heap_chunk_release ho m P)"
  using low_release [of P] by (auto simp: heap_chunk_release_def split: prod.splits option.splits) (metis snd_conv)+

lemma low_span_create: "mmap_law (env_mmap E) \<Longrightarrow> low P \<Longrightarrow> low (snd (span_create E h c P))"
  using low_heap_acquire [of E P h] by (auto simp: span_create_def Let_def split: prod.splits option.splits)

lemma low_refill:
  assumes "mmap_law (env_mmap E)" "low P" "memop_refill E h c P = (r, P')"
  shows "low P'"
proof -
  obtain r1 P1 where 1: "refill_scan h c (spans (hp P h) ! c) P = (r1, P1)" by force
  then have l1: "os_log P1 = os_log P" using log_refill_scan [of h c _ P] by (metis snd_conv)
  obtain r2 P2 where 2: "full_scan h c FULL_SCAN_K None P1 = (r2, P2)" by force
  then have l2: "os_log P2 = os_log P1" using log_full_scan [of h c FULL_SCAN_K None P1] by simp
  obtain r3 P3 where 3: "span_create E h c P2 = (r3, P3)" by force
  then have "low P3" using low_span_create [OF assms(1), of P2 h c] assms(2) l1 l2 by simp
  then show ?thesis using assms(2,3) l1 l2
    by (cases r1; cases r2; cases r3) (auto simp: memop_refill_def 1 2 3 Let_def)
qed

lemma low_alloc_large: "mmap_law (env_mmap E) \<Longrightarrow> low P \<Longrightarrow> memop_alloc_large E h sz P = (r, P') \<Longrightarrow> low P'"
  using low_heap_acquire [of E P h] low_span_alloc [of "env_mmap E" "os_log P" "large_total sz"]
  by (auto simp: memop_alloc_large_def Let_def split: prod.splits option.splits if_splits)

lemma low_alloc_raw:
  assumes "mmap_law (env_mmap E)" "low P" "memop_alloc_raw E t sz P = (r, P')"
  shows "low P'"
proof (cases "sz = 0")
  case False
  obtain g P1 where 1: "get_heap E t P = (g, P1)" by force
  then have l1: "low P1" using log_get_heap assms(2) by simp
  show ?thesis
  proof (cases g)
    case (Some h)
    obtain r2 P2 where 2: "memop_refill E h (nat (memop_class_index (tables P1) sz)) P1 = (r2, P2)" by force
    then have "low P2" using low_refill [OF assms(1) l1] by blast
    then show ?thesis using assms(3) False l1 low_alloc_large [OF assms(1) l1, of h sz]
      by (auto simp: memop_alloc_raw_def 1 Some 2 Let_def split: option.splits if_splits)
  qed (use assms(3) False l1 1 in \<open>simp add: memop_alloc_raw_def\<close>)
qed (use assms in \<open>simp add: memop_alloc_raw_def\<close>)

lemma low_free_raw: "low P \<Longrightarrow> low (memop_free_raw t p P)"
  by (auto simp: memop_free_raw_def free_large_def free_local_def free_remote_def Let_def intro!: low_heap_release)

lemma low_calloc_raw: "mmap_law (env_mmap E) \<Longrightarrow> low P \<Longrightarrow> memop_calloc_raw E t n sz P = (r, P') \<Longrightarrow> low P'"
  by (auto simp: memop_calloc_raw_def Let_def split: if_splits prod.splits option.splits dest: low_alloc_raw)

lemma low_realloc_raw:
  assumes "mmap_law (env_mmap E)" "low P" "memop_realloc_raw E t p sz P = (r, P')"
  shows "low P'"
proof -
  obtain r1 P1 where a: "memop_alloc_raw E t sz P = (r1, P1)" by force
  have "low P1" by (rule low_alloc_raw [OF assms(1,2) a])
  then show ?thesis using assms(2,3) low_free_raw
    by (auto simp: memop_realloc_raw_def a Let_def split: if_splits option.splits)
qed

lemma low_ended_class: "low P \<Longrightarrow> low (snd (ended_class as kept P))"
  by (induction as arbitrary: kept P) (simp_all add: Let_def low_heap_release)

lemma low_ended_full: "low P \<Longrightarrow> low (snd (ended_full as kept P))"
  by (induction as arbitrary: kept P) (simp_all add: Let_def low_heap_release)

lemma low_ended_classes: "low P \<Longrightarrow> low (ended_classes h cs P)"
proof (induction cs arbitrary: P)
  case (Cons c cs)
  let ?P = "upd_heap h (\<lambda>H. H\<lparr>spans := (spans H)[c := []]\<rparr>) P"
  obtain kept P2 where e: "ended_class (spans (hp P h) ! c) [] ?P = (kept, P2)" by force
  have "low P2" using low_ended_class [of ?P "spans (hp P h) ! c" "[]"] Cons.prems e by simp
  then show ?case using Cons.IH e by (simp add: Let_def)
qed simp

lemma low_ended_thread:
  assumes "low P"
  shows "low (memop_on_ended_thread t P)"
proof (cases "tls P t")
  case (Some h)
  define P1 where "P1 = ended_classes h [0..<MEMOP_CLASS_COUNT] P"
  have 1: "low P1" unfolding P1_def by (rule low_ended_classes [OF assms])
  obtain kept P3 where e: "ended_full (full_list (hp P1 h)) [] (upd_heap h (\<lambda>H. H\<lparr>full_list := []\<rparr>) P1) = (kept, P3)" by force
  have 3: "low P3" using low_ended_full [of "upd_heap h (\<lambda>H. H\<lparr>full_list := []\<rparr>) P1" "full_list (hp P1 h)" "[]"] 1 e by simp
  have "low (release_all cs (upd_heap h (\<lambda>H. H\<lparr>full_list := kept\<rparr>) P3))" for cs
    using 3 by (intro low_release_all) simp
  then show ?thesis using Some
    by (simp add: memop_on_ended_thread_def P1_def [symmetric] e chunk_local_to_global_def Let_def)
qed (use assms in \<open>simp add: memop_on_ended_thread_def\<close>)

lemma low_created_thread: "low P \<Longrightarrow> low (memop_on_created_thread E t P)"
  by (auto simp: memop_on_created_thread_def log_get_heap split: prod.split)

section \<open>Clients\<close>

lemma client_low:
  assumes law: "mmap_law (env_mmap E)" and c: "client E P B"
  shows "low P"
  using c
proof (induction rule: client.induct)
  case start
  show ?case by (simp add: pool_zero_def low_log_def)
qed (auto intro: low_alloc_raw [OF law] low_calloc_raw [OF law] low_realloc_raw [OF law] low_free_raw low_created_thread low_ended_thread low_purge_apply
  simp: memop_purge_def trigger_event_eq split: if_splits)

lemma client_address:
  assumes "mmap_law (env_mmap E)" "client E P B" "p \<in> B" "0 < memop_usable_size p P"
  shows "p < 2 ^ 47"
proof -
  obtain L where i: "pool_inv P L" "blocks_live P L = B" using client_inv [OF assms(1,2)] by blast
  have "p \<in> all_blocks P L" using assms(3) i(2) live_all_blocks by blast
  then have "extent P p \<subseteq> mapped (os_log P)" using block_home [OF i(1)] home_mapped [OF i(1)] by blast
  moreover have "p \<in> extent P p" using assms(4) by (simp add: extent_def)
  ultimately show ?thesis using client_low [OF assms(1,2)] by (auto simp: low_log_def)
qed

end
