(* ===== verification/String_Pieces.thy ===== *)
theory String_Pieces
  imports String_Search Pool_Addresses Pool_Events
begin

text \<open>
  Parts of strings: substrings, trimming and splitting.  Each is compared with the operation on
  lists it stands for; splitting allocates, so its result also says what is left when memory
  runs out: the pieces that were made, in order, and an error event for each that was not.
\<close>

section \<open>Substrings\<close>

text \<open>The outcome of \<open>string_substring\<close>: two new blocks, the second holding \<open>w\<close>; or no memory, and
  then nothing but a report, or a crash in the report.\<close>

definition sub_spec ::
    "mem_env \<Rightarrow> nat \<Rightarrow> MemPool \<Rightarrow> addr set \<Rightarrow> 8 word list \<Rightarrow> ((addr \<times> StringX) option \<times> MemPool) option \<Rightarrow> bool" where
  "sub_spec E t P B w r \<longleftrightarrow>
     (case r of
        None \<Rightarrow> fatal_errors P \<and> refuses E t
      | Some (None, P') \<Rightarrow> keeps B P P' \<and> client E P' B \<and> noted P P' \<and> \<not> fatal_errors P
      | Some (Some (a, s), P') \<Rightarrow> keeps B P P' \<and> silent P P' \<and>
          a \<notin> B \<and> sx_content s \<notin> insert a B \<and> client E P' (insert (sx_content s) (insert a B)) \<and>
          sx_ok P' (insert (sx_content s) (insert a B)) s \<and> text_of P' s = w \<and> a < 2 ^ 64)"

context pool_user
begin

lemma substring_user:
  assumes c: "client E P B" and ok: "sx_ok P B s" and i: "0 \<le> index" "0 \<le> len" "index + len \<le> int (sx_len s)"
  shows "sub_spec E t P B (take (nat len) (drop (nat index) (text_of P s))) (string_substring E t (Some s) index len P)"
proof -
  note o = sx_okD [OF ok]
  have c0: "sx_content s \<noteq> 0" using user_pos [OF c o(1)] by simp
  have u: "u64 (i32 (index + len)) = index + len" using i o(2,5) by simp
  obtain r1 P1 where a1: "memop_alloc_raw E t STRINGX_BYTES P = (r1, P1)" by force
  note u1 = user_alloc [OF c _ a1] and sl1 = silent_alloc_raw [OF a1]
  have sz: "STRINGX_BYTES \<le> max_request" "nat len + 1 \<le> max_request" using i o(2,5) by (simp_all add: max_request_def)
  show ?thesis
  proof (cases r1)
    case None
    have e: "string_substring E t (Some s) index len P = map_option (Pair None) (trigger_event P1)"
      using c0 i u a1 None by (simp add: string_substring_def)
    have "refuses E t" using alloc_refuses [OF c _ sz(1)] a1 None by simp
    moreover have "client E (counted P1) B" if "\<not> fatal_errors P"
      by (rule client_counted) (use u1(2) [OF sz(1) None] that sl1 in simp_all)
    ultimately show ?thesis using u1(1) [OF sz(1)] sl1 by (simp add: e sub_spec_def trigger_event_eq)
  next
    case (Some a)
    note n1 = u1(3) [OF sz(1) Some]
    have k1: "keeps B P P1" by (rule u1(1) [OF sz(1)])
    obtain r2 P2 where a2: "memop_alloc_raw E t (nat len + 1) P1 = (r2, P2)" by force
    have c1: "client E P1 (insert a B)" using n1 by blast
    note u2 = user_alloc [OF c1 sz(2) a2] and sl2 = silent_alloc_raw [OF a2]
    have k2: "keeps B P1 P2" using u2(1) by (rule keeps_mono) blast
    show ?thesis
    proof (cases r2)
      case None
      have e: "string_substring E t (Some s) index len P = map_option (\<lambda>P3. (None, memop_free_raw t a P3)) (trigger_event P2)"
        using c0 i u a1 Some a2 None by (simp add: string_substring_def)
      have rf: "refuses E t" using alloc_refuses [OF c1 _ sz(2)] a2 None by simp
      show ?thesis
      proof (cases "fatal_errors P")
        case False
        have ev: "client E (counted P2) (insert a B)" by (rule client_counted) (use u2(2) [OF None] False sl1 sl2 in simp_all)
        have "insert a B - {a} = B" using n1 by simp
        then have f: "client E (memop_free_raw t a (counted P2)) B" "keeps B (counted P2) (memop_free_raw t a (counted P2))"
          using user_free [OF ev, of a t] by simp_all
        have "keeps B P (counted P2)" using keeps_trans [OF k1 k2] by simp
        then have "keeps B P (memop_free_raw t a (counted P2))" by (rule keeps_trans [OF _ f(2)])
        then show ?thesis using f(1) False sl1 sl2 by (simp add: e sub_spec_def trigger_event_eq)
      qed (use rf sl1 sl2 in \<open>simp add: e sub_spec_def trigger_event_eq\<close>)
    next
      case (Some b)
      note n2 = u2(3) [OF Some]
      let ?s = "\<lparr>sx_active = True, sx_max = nat len, sx_len = nat len, sx_content = b\<rparr>"
      let ?src = "sx_content s + nat index"
      define m where "m = (copy_fwd (nat len) b ?src (mem_bytes P2))(b + nat len := 0)"
      define P' where "P' = P2\<lparr>mem_bytes := m\<rparr>"
      have e: "string_substring E t (Some s) index len P = Some (Some (a, ?s), P')"
        unfolding P'_def using c0 i u a1 \<open>r1 = Some a\<close> a2 Some by (simp_all add: string_substring_def m_def)
      have c2: "client E P2 (insert b (insert a B))" and bB: "b \<notin> insert a B" and us: "nat len + 1 \<le> memop_usable_size b P2"
        using n2 by auto
      have sa: "same_at (- extent P2 b) (mem_bytes P2) m"
      proof -
        have "same_at (- extent P2 b) (mem_bytes P2) (copy_fwd (nat len) b ?src (mem_bytes P2))"
          by (rule same_at_copy_fwd) (use us in \<open>auto simp: extent_def\<close>)
        then show ?thesis using us by (auto simp: m_def same_at_def extent_def)
      qed
      note w = user_write [OF c2 insertI1 sa, folded P'_def]
      have kw: "keeps B P2 P'" using w(2) by (rule keeps_mono) (use bB in blast)
      have k: "keeps B P P'" by (rule keeps_trans [OF keeps_trans [OF k1 k2] kw])
      have usP: "memop_usable_size b P' = memop_usable_size b P2" by (simp add: P'_def)
      have rg: "nat index + nat len \<le> sx_len s" using i by linarith
      have eq: "extent P2 (sx_content s) = extent P (sx_content s)" by (rule extent_keeps [OF keeps_trans [OF k1 k2] o(1)])
      have cb: "sx_content s \<noteq> b" "sx_content s \<in> insert b (insert a B)" using o(1) bB by auto
      have "{b..<b + nat len} \<subseteq> extent P2 b" using us by (auto simp: extent_def)
      then have dis: "{?src..<?src + nat len} \<inter> {b..<b + nat len} = {}"
        using user_disjoint [OF c2 cb(2) insertI1 cb(1)] text_region [OF ok rg] eq by blast
      have tx: "text_of P' ?s = take (nat len) (drop (nat index) (text_of P s))"
      proof -
        have "mem_bytes P' (b + j) = mem_bytes P (?src + j)" if "j < nat len" for j
        proof -
          have "mem_bytes P' (b + j) = mem_bytes P2 (?src + j)"
            using that unfolding P'_def m_def copy_fwd_memcpy [OF dis] by (simp add: memcpy_bytes_def)
          also have "\<dots> = mem_bytes P (?src + j)"
            using keeps_byte [OF keeps_trans [OF k1 k2] o(1), of "nat index + j"] that rg o(2,3) by (simp add: add.assoc)
          finally show ?thesis .
        qed
        then show ?thesis unfolding text_slice [OF rg, symmetric] by (simp add: text_of_def bytes_from_def)
      qed
      have "sx_ok P' (insert b (insert a B)) ?s"
        using us usP i o(2,5) by (simp add: sx_ok_def P'_def m_def)
      moreover have "a < 2 ^ 47" by (rule client_address [OF law c1 insertI1]) (use n1 in simp)
      then have "a < 2 ^ 64" by simp
      ultimately show ?thesis using k w(1) tx bB n1 sl1 sl2 by (simp add: e sub_spec_def P'_def)
    qed
  qed
qed

end

section \<open>Trimming\<close>

definition trim_end :: "8 word list \<Rightarrow> 8 word list" where
  "trim_end xs = rev (dropWhile sh_is_ws (rev xs))"

lemma trim_right_len_text:
  "trim_right_len m a n \<le> n" "bytes_from m a (trim_right_len m a n) = trim_end (bytes_from m a n)"
proof (induction n)
  case (Suc n)
  have e: "bytes_from m a (Suc n) = bytes_from m a n @ [m (a + n)]" by (simp add: bytes_from_def)
  show "trim_right_len m a (Suc n) \<le> Suc n" using Suc(1) by (simp add: le_SucI)
  show "bytes_from m a (trim_right_len m a (Suc n)) = trim_end (bytes_from m a (Suc n))"
    using Suc(2) unfolding e trim_end_def by (simp add: e)
qed (simp_all add: trim_end_def)

lemma trim_left_start_text:
  "start \<le> n \<Longrightarrow> trim_left_start m a start n = start + length (takeWhile sh_is_ws (bytes_from m (a + start) (n - start)))"
proof (induction m a start n rule: trim_left_start.induct)
  case (1 m a start n)
  show ?case
  proof (cases "start < n")
    case True
    then have "bytes_from m (a + start) (n - start) = m (a + start) # bytes_from m (a + (start + 1)) (n - (start + 1))"
      by (auto simp: list_eq_iff_nth_eq nth_Cons split: nat.split)
    then show ?thesis using 1 True by (subst trim_left_start.simps) simp
  next
    case False
    then show ?thesis using 1(2) by (subst trim_left_start.simps) simp
  qed
qed

text \<open>A string that stays in its block, with other bytes and another length.\<close>

context pool_user
begin

lemma retext:
  assumes c: "client E P B" and ok: "sx_ok P B s" and n: "n \<le> sx_max s" "m (sx_content s + n) = 0"
    and m: "same_at (- extent P (sx_content s)) (mem_bytes P) m"
  defines "s' \<equiv> s\<lparr>sx_len := n\<rparr>" and "P' \<equiv> P\<lparr>mem_bytes := m\<rparr>"
  shows "client E P' B" "keeps (B - {sx_content s}) P P'" "sx_ok P' B s'" "text_of P' s' = bytes_from m (sx_content s) n"
proof -
  note o = sx_okD [OF ok]
  show "client E P' B" "keeps (B - {sx_content s}) P P'" unfolding P'_def by (rule user_write [OF c o(1) m])+
  have "memop_usable_size q P' = memop_usable_size q P" for q by (simp add: P'_def)
  then show "sx_ok P' B s'" using o n by (simp add: sx_ok_def s'_def P'_def)
  show "text_of P' s' = bytes_from m (sx_content s) n" by (simp add: text_of_def s'_def P'_def)
qed

lemma trim_right_user:
  assumes c: "client E P B" and ok: "sx_ok P B s"
  shows "\<exists>n P'. string_trim_right (Some s) P = (Some (s\<lparr>sx_len := n\<rparr>), P') \<and> client E P' B \<and> keeps (B - {sx_content s}) P P' \<and> silent P P' \<and>
    sx_ok P' B (s\<lparr>sx_len := n\<rparr>) \<and> text_of P' (s\<lparr>sx_len := n\<rparr>) = trim_end (text_of P s)"
proof -
  note o = sx_okD [OF ok]
  have c0: "sx_content s \<noteq> 0" using user_pos [OF c o(1)] by simp
  let ?n = "trim_right_len (mem_bytes P) (sx_content s) (sx_len s)"
  let ?m = "(mem_bytes P)(sx_content s + ?n := 0)"
  have n: "?n \<le> sx_max s" "?n \<le> sx_len s" using trim_right_len_text(1) o(2) le_trans by blast+
  have sa: "same_at (- extent P (sx_content s)) (mem_bytes P) ?m"
    using n(1) o(3) by (auto simp: same_at_def extent_def)
  note r = retext [OF c ok n(1) _ sa, simplified]
  have "bytes_from ?m (sx_content s) ?n = bytes_from (mem_bytes P) (sx_content s) ?n" by (rule bytes_from_cong) simp
  then have "text_of (P\<lparr>mem_bytes := ?m\<rparr>) (s\<lparr>sx_len := ?n\<rparr>) = trim_end (text_of P s)"
    using r(4) trim_right_len_text(2) by (simp add: text_of_def)
  then show ?thesis using r(1-3) c0 by (intro exI [of _ ?n] exI [of _ "P\<lparr>mem_bytes := ?m\<rparr>"]) (simp add: string_trim_right_def set_byte_def Let_def)
qed

lemma trim_left_user:
  assumes c: "client E P B" and ok: "sx_ok P B s"
  shows "\<exists>n P'. string_trim_left (Some s) P = (Some (s\<lparr>sx_len := n\<rparr>), P') \<and> client E P' B \<and> keeps (B - {sx_content s}) P P' \<and> silent P P' \<and>
    sx_ok P' B (s\<lparr>sx_len := n\<rparr>) \<and> text_of P' (s\<lparr>sx_len := n\<rparr>) = dropWhile sh_is_ws (text_of P s)"
proof -
  note o = sx_okD [OF ok]
  have c0: "sx_content s \<noteq> 0" using user_pos [OF c o(1)] by simp
  define k where "k = length (takeWhile sh_is_ws (text_of P s))"
  have k: "trim_left_start (mem_bytes P) (sx_content s) 0 (sx_len s) = k" "k \<le> sx_len s"
    using trim_left_start_text [of 0 "sx_len s" "mem_bytes P" "sx_content s"] length_takeWhile_le [of sh_is_ws "text_of P s"]
    by (simp_all add: k_def text_of_def)
  have d: "dropWhile sh_is_ws (text_of P s) = drop k (text_of P s)" by (simp add: k_def dropWhile_eq_drop)
  show ?thesis
  proof (cases "k = 0")
    case True
    then have "string_trim_left (Some s) P = (Some (s\<lparr>sx_len := sx_len s\<rparr>), P)" using c0 k(1) by (simp add: string_trim_left_def)
    then show ?thesis using c ok d True by (intro exI [of _ "sx_len s"] exI [of _ P]) (simp add: keeps_def same_at_def)
  next
    case False
    let ?n = "sx_len s - k"
    let ?m = "(memcpy_bytes (sx_content s) (sx_content s + k) ?n (mem_bytes P))(sx_content s + ?n := 0)"
    have n: "?n \<le> sx_max s" using o(2) by simp
    have sa: "same_at (- extent P (sx_content s)) (mem_bytes P) ?m"
      using o(2,3) by (auto simp: same_at_def extent_def memcpy_bytes_def)
    note r = retext [OF c ok n _ sa, simplified]
    have "bytes_from ?m (sx_content s) ?n = bytes_from (mem_bytes P) (sx_content s + k) ?n"
      by (rule bytes_from_cong) (use k(2) in \<open>auto simp: memcpy_bytes_def add.assoc\<close>)
    also have "\<dots> = drop k (text_of P s)" using text_slice [of k ?n s P] k(2) by simp
    finally have "text_of (P\<lparr>mem_bytes := ?m\<rparr>) (s\<lparr>sx_len := ?n\<rparr>) = drop k (text_of P s)" using r(4) by simp
    then show ?thesis using r(1-3) c0 k(1) False d 
      by (intro exI [of _ ?n] exI [of _ "P\<lparr>mem_bytes := ?m\<rparr>"]) (simp add: string_trim_left_def Let_def)
  qed
qed

end

section \<open>Splitting\<close>

text \<open>The reference: the pieces of a list between the occurrences of an element, and their inverse.\<close>

fun pieces :: "'a \<Rightarrow> 'a list \<Rightarrow> 'a list list" where
  "pieces c [] = [[]]"
| "pieces c (x # xs) = (if x = c then [] # pieces c xs else (case pieces c xs of [] \<Rightarrow> [[x]] | p # ps \<Rightarrow> (x # p) # ps))"


lemma pieces_free: "c \<notin> set xs \<Longrightarrow> pieces c xs = [xs]"
  by (induction xs) auto

lemma pieces_cut: "c \<notin> set ys \<Longrightarrow> pieces c (ys @ c # zs) = ys # pieces c zs"
  by (induction ys) auto




lemma length_pieces: "length (pieces c xs) \<le> length xs + 1"
  by (induction xs) (auto split: list.splits)

text \<open>Every piece is accounted for: it is in the list, or its failure was reported and the report returned.\<close>

definition tally :: "ListX \<times> sx_store \<times> MemPool \<Rightarrow> nat" where
  "tally st = (case st of (l, S, P) \<Rightarrow> Count l + error_events P)"

text \<open>The state of the loop: the list so far, its segments, and what is left alone.\<close>

definition split_inv ::
    "mem_env \<Rightarrow> addr set \<Rightarrow> addr set \<Rightarrow> MemPool \<Rightarrow> nat \<Rightarrow> ListX \<times> sx_store \<times> MemPool \<Rightarrow> 8 word list list \<Rightarrow> bool" where
  "split_inv E A B P0 start st ws \<longleftrightarrow>
    (case st of (l, S, P) \<Rightarrow>
      A \<subseteq> B \<and> client E P B \<and> keeps A P0 P \<and> Items l \<notin> A \<and> list_ok P B l \<and> TypeSize l = STRINGX_BYTES \<and>
      g_error_handler P = g_error_handler P0 \<and> (fatal_errors P0 \<longrightarrow> error_events P = error_events P0) \<and>
      Count l \<le> start \<and> Max l \<le> max 100 (2 * (start + 1)) \<and> ws = map (\<lambda>x. text_of P (the (S x))) (list_items P l) \<and>
      (\<forall>x \<in> set (list_items P l). x \<in> B - {Items l} \<and> (\<exists>sub. S x = Some sub \<and> sx_ok P (B - {Items l}) sub)))"

definition split_ok :: "mem_env \<Rightarrow> addr set \<Rightarrow> MemPool \<Rightarrow> nat \<Rightarrow> ListX \<times> sx_store \<times> MemPool \<Rightarrow> 8 word list list \<Rightarrow> bool" where
  "split_ok E A P0 start st ws \<longleftrightarrow> (\<exists>B. split_inv E A B P0 start st ws)"

lemma split_invD:
  assumes "split_inv E A B P0 start (l, S, P) ws"
  shows "A \<subseteq> B" "client E P B" "keeps A P0 P" "Items l \<notin> A" "list_ok P B l" "TypeSize l = STRINGX_BYTES"
    "g_error_handler P = g_error_handler P0" "fatal_errors P0 \<longrightarrow> error_events P = error_events P0"
    "Count l \<le> start" "Max l \<le> max 100 (2 * (start + 1))" "ws = map (\<lambda>x. text_of P (the (S x))) (list_items P l)"
    "\<And>x. x \<in> set (list_items P l) \<Longrightarrow> x \<in> B - {Items l} \<and> (\<exists>sub. S x = Some sub \<and> sx_ok P (B - {Items l}) sub)"
    "Items l \<in> B"
  using assms by (auto simp: split_inv_def list_ok_def)

lemma split_okI:
  "A \<subseteq> B \<Longrightarrow> client E P B \<Longrightarrow> keeps A P0 P \<Longrightarrow> Items l \<notin> A \<Longrightarrow> list_ok P B l \<Longrightarrow> TypeSize l = STRINGX_BYTES \<Longrightarrow>
    g_error_handler P = g_error_handler P0 \<Longrightarrow> (fatal_errors P0 \<Longrightarrow> error_events P = error_events P0) \<Longrightarrow>
    Count l \<le> start \<Longrightarrow> Max l \<le> max 100 (2 * (start + 1)) \<Longrightarrow> ws = map (\<lambda>x. text_of P (the (S x))) (list_items P l) \<Longrightarrow>
    (\<And>x. x \<in> set (list_items P l) \<Longrightarrow> x \<in> B - {Items l} \<and> (\<exists>sub. S x = Some sub \<and> sx_ok P (B - {Items l}) sub)) \<Longrightarrow>
    split_ok E A P0 start (l, S, P) ws"
  unfolding split_ok_def by (intro exI [of _ B]) (simp add: split_inv_def)

text \<open>Steps that leave the list and its segments alone.\<close>

lemma split_segments:
  assumes inv: "split_inv E A B P0 start (l, S, P) ws" and k: "keeps B P P1"
  shows "list_items P1 l = list_items P l" "list_ok P1 B l" "keeps A P0 P1"
    "ws = map (\<lambda>x. text_of P1 (the (S x))) (list_items P1 l)"
    "x \<in> set (list_items P1 l) \<Longrightarrow> x \<in> B - {Items l} \<and> (\<exists>sub. S x = Some sub \<and> sx_ok P1 (B - {Items l}) sub)"
proof -
  note b = split_invD [OF inv]
  show li: "list_items P1 l = list_items P l" by (rule list_items_keeps [OF k b(5)])
  show "list_ok P1 B l" by (rule list_ok_keeps [OF k b(5) subset_refl])
  show "keeps A P0 P1" by (rule keeps_trans [OF b(3) keeps_mono [OF k b(1)]])
  have seg: "sx_ok P1 (B - {Items l}) sub \<and> text_of P1 sub = text_of P sub" if "sx_ok P (B - {Items l}) sub" for sub
    using text_keeps [OF keeps_mono [OF k] that] by blast
  show "ws = map (\<lambda>x. text_of P1 (the (S x))) (list_items P1 l)"
    unfolding b(11) li by (rule map_cong [OF refl]) (use b(12) seg in force)
  show "x \<in> set (list_items P1 l) \<Longrightarrow> x \<in> B - {Items l} \<and> (\<exists>sub. S x = Some sub \<and> sx_ok P1 (B - {Items l}) sub)"
    unfolding li using b(12) seg by blast
qed

lemma split_skipped:
  assumes inv: "split_inv E A B P0 start (l, S, P) ws" and k: "keeps B P P1" and c: "client E P1 B"
    and h: "g_error_handler P1 = g_error_handler P" "\<not> fatal_errors P" and i: "start \<le> i"
  shows "split_ok E A P0 (i + 1) (l, S, P1) ws"
proof -
  note b = split_invD [OF inv] and s = split_segments [OF inv k]
  show ?thesis by (rule split_okI [OF b(1) c s(3) b(4) s(2) b(6)]) (use b(7,9,10) h i s(4,5) in auto)
qed

lemma sx_ok_mono: "sx_ok P B s \<Longrightarrow> B \<subseteq> B' \<Longrightarrow> sx_ok P B' s"
  by (auto simp: sx_ok_def)

context pool_user
begin

text \<open>What the caller gets: the list in a block next to its own, and the segments that could be made.\<close>

lemma split_returned:
  assumes k: "keeps B P P1" and st: "split_ok E (insert a B) P1 n (l, S, P') ws" and sl: "silent P P1"
    and ps: "subseq ws ps" "Count l + error_events P' = length ps + error_events P"
  defines "WS \<equiv> map (\<lambda>x. text_of P' (the (S x))) (list_items P' l)"
  shows "Items l \<noteq> 0 \<and> (\<exists>B'. insert a B \<subseteq> B' \<and> client E P' B' \<and> keeps B P P' \<and> list_ok P' B' l \<and>
    list_all (\<lambda>x. \<exists>sub. S x = Some sub \<and> sx_ok P' (B' - {Items l}) sub) (list_items P' l) \<and>
    subseq WS ps \<and> Count l + error_events P' = length ps + error_events P \<and>
    (fatal_errors P \<longrightarrow> error_events P' = error_events P) \<and>
    (error_events P' = error_events P \<longrightarrow> WS = ps \<and> J WS = J ps))"
proof -
  obtain B' where b: "insert a B \<subseteq> B'" "client E P' B'" "keeps (insert a B) P1 P'" "list_ok P' B' l" "ws = WS"
    "list_all (\<lambda>x. \<exists>sub. S x = Some sub \<and> sx_ok P' (B' - {Items l}) sub) (list_items P' l)"
    "fatal_errors P1 \<longrightarrow> error_events P' = error_events P1"
    using st unfolding WS_def by (auto simp: split_ok_def split_inv_def list_all_iff)
  have "Items l \<noteq> 0" using user_pos [OF b(2), of "Items l"] b(4) by (simp add: list_ok_def)
  moreover have "keeps B P P'" by (rule keeps_trans [OF k keeps_mono [OF b(3)]]) blast
  moreover have "WS = ps" if "error_events P' = error_events P"
    by (rule subseq_same_length) (use ps that b(5) in \<open>simp_all add: WS_def\<close>)
  ultimately show ?thesis using b ps sl by (intro conjI exI [of _ B']) auto
qed

lemma split_added:
  assumes inv: "split_inv E A B P0 start (l, S, P) ws" and k: "keeps B P P1" and i: "start \<le> i"
    and sub: "a \<notin> B" "sx_content sub \<notin> insert a B" "sx_ok P1 (insert (sx_content sub) (insert a B)) sub" "text_of P1 sub = w" "silent P P1"
    and ad: "added_spec E t P1 (insert (sx_content sub) (insert a B)) l a added l' P2"
  shows "split_ok E A P0 (i + 1) (l', S(a \<mapsto> sub), P2) (if added then ws @ [w] else ws)"
proof -
  note b = split_invD [OF inv] and s = split_segments [OF inv k]
  let ?B1 = "insert (sx_content sub) (insert a B)" and ?S = "S(a \<mapsto> sub)"
  let ?R = "?B1 - {Items l}" and ?B2 = "insert (Items l') (?B1 - {Items l})"
  have g: "keeps ?R P1 P2" "list_items P2 l' = (if added then list_items P1 l @ [a] else list_items P1 l)"
    "client E P2 ?B2" "list_ok P2 ?B2 l'" "Items l' \<notin> ?R" "TypeSize l' = TypeSize l"
    using ad by (simp_all add: added_spec_def)
  have m: "Max l' \<le> max (Max l) (2 * (Count l + 1))" "Count l' \<le> Count l + 1" "g_error_handler P2 = g_error_handler P0"
      "fatal_errors P0 \<Longrightarrow> error_events P2 = error_events P0"
    using ad sub(5) b(7,8) by (auto simp: added_spec_def list_full_def split: if_splits)
  have R: "?B2 - {Items l'} = ?R" using g(5) by blast
  have AB: "A \<subseteq> ?R" using b(1,4) by blast
  have kA: "keeps A P0 P2" by (rule keeps_trans [OF s(3) keeps_mono [OF g(1) AB]])
  have seg: "sx_ok P2 ?R u \<and> text_of P2 u = text_of P1 u" if "sx_ok P1 ?R u" for u
    using text_keeps [OF g(1) that] by blast
  have old: "x \<in> ?R \<and> (\<exists>u. ?S x = Some u \<and> sx_ok P2 ?R u \<and> text_of P2 u = text_of P1 u) \<and> ?S x = S x"
    if x: "x \<in> set (list_items P1 l)" for x
  proof -
    obtain u where u: "x \<in> B - {Items l}" "S x = Some u" "sx_ok P1 (B - {Items l}) u" using s(5) [OF x] by blast
    have "x \<noteq> a" using u(1) sub(1) by blast
    moreover have "sx_ok P1 ?R u" by (rule sx_ok_mono [OF u(3)]) blast
    ultimately show ?thesis using u(1,2) seg by auto
  qed
  have "sx_ok P1 ?R sub" using sub(1-3) b(13) by (auto simp: sx_ok_def)
  then have new: "a \<in> ?R" "sx_ok P2 ?R sub" "text_of P2 sub = w" using sub(1,4) b(13) seg by auto
  have "map (\<lambda>x. text_of P2 (the (?S x))) (list_items P1 l) = ws"
    unfolding s(4)
  proof (rule map_cong [OF refl])
    fix x assume "x \<in> set (list_items P1 l)"
    from old [OF this] show "text_of P2 (the (?S x)) = text_of P1 (the (S x))" by force
  qed
  then have ws: "(if added then ws @ [w] else ws) = map (\<lambda>x. text_of P2 (the (?S x))) (list_items P2 l')"
    using new(3) by (simp add: g(2))
  have items: "x \<in> ?B2 - {Items l'} \<and> (\<exists>u. ?S x = Some u \<and> sx_ok P2 (?B2 - {Items l'}) u)" if x: "x \<in> set (list_items P2 l')" for x
  proof (cases "x \<in> set (list_items P1 l)")
    case False
    then have "x = a" using x by (simp add: g(2) split: if_splits)
    then show ?thesis unfolding R using new(1,2) by simp
  next
    case True
    from old [OF this] show ?thesis unfolding R by blast
  qed
  show ?thesis
    by (rule split_okI [OF _ g(3) kA _ g(4) _ m(3,4) _ _ ws items]) (use AB b(6,9,10) g(5,6) m(1,2) i in auto)
qed

lemma split_emit_user:
  assumes st: "split_ok E A P0 start (l, S, P) ws" and s: "sx_ok P0 A s" and i: "start \<le> i" "i \<le> sx_len s" "start \<le> 2 ^ 24"
  shows "case split_emit E t s (int start) (int i - int start) (l, S, P) of
      None \<Rightarrow> fatal_errors P0 \<and> refuses E t
    | Some st' \<Rightarrow> tally st' = tally (l, S, P) + 1 \<and>
       (split_ok E A P0 (i + 1) st' ws \<or> split_ok E A P0 (i + 1) st' (ws @ [take (i - start) (drop start (text_of P0 s))]))"
proof -
  obtain B where inv: "split_inv E A B P0 start (l, S, P) ws" using st by (auto simp: split_ok_def)
  note b = split_invD [OF inv]
  note tk = text_keeps [OF b(3) s]
  define r where "r = string_substring E t (Some s) (int start) (int i - int start) P"
  define w where "w = take (i - start) (drop start (text_of P0 s))"
  have "sub_spec E t P B (take (nat (int i - int start)) (drop (nat (int start)) (text_of P s))) r"
    unfolding r_def by (rule substring_user [OF b(2) sx_ok_mono [OF tk(2) b(1)]]) (use i in simp_all)
  moreover have "nat (int i - int start) = i - start" by simp
  ultimately have sp: "sub_spec E t P B w r" using tk(1) by (simp add: w_def)
  consider (crash) "r = None" | (none) P1 where "r = Some (None, P1)" | (made) a sub P1 where "r = Some (Some (a, sub), P1)"
    by (cases r) force+
  then show ?thesis
  proof cases
    case crash
    then show ?thesis using sp b(7) by (simp add: r_def [symmetric] split_emit_def sub_spec_def)
  next
    case none
    then have n: "keeps B P P1" "client E P1 B" "noted P P1" "\<not> fatal_errors P" using sp by (simp_all add: sub_spec_def)
    then have "split_ok E A P0 (i + 1) (l, S, P1) ws" using split_skipped [OF inv n(1,2) _ n(4) i(1)] by simp
    then show ?thesis using none n(3) by (simp add: r_def [symmetric] split_emit_def tally_def)
  next
    case made
    let ?B1 = "insert (sx_content sub) (insert a B)"
    have q: "keeps B P P1" "a \<notin> B" "sx_content sub \<notin> insert a B" "client E P1 ?B1" "sx_ok P1 ?B1 sub" "text_of P1 sub = w"
      "a < 2 ^ 64" "silent P P1" using sp made by (simp_all add: sub_spec_def)
    have l1: "list_ok P1 ?B1 l" by (rule list_ok_keeps [OF q(1) b(5)]) blast
    have mx: "Max l \<le> 2 ^ 26" using b(10) i(3) by simp
    have emit: "split_emit E t s (int start) (int i - int start) (l, S, P) =
        (case list_add E t l a STRINGX_BYTES P1 of None \<Rightarrow> None | Some (_, l1, P2) \<Rightarrow> Some (l1, S(a \<mapsto> sub), P2))"
      using made by (simp add: r_def [symmetric] split_emit_def)
    note lu = list_add_user [OF q(4) l1 mx q(7) b(6) [symmetric], of t]
    show ?thesis
    proof (cases "list_add E t l a STRINGX_BYTES P1")
      case None
      then show ?thesis using lu list_refused_refuses [OF q(4) l1 mx] q(8) b(7) by (simp add: emit)
    next
      case (Some p)
      then obtain added l' P2 where ad: "list_add E t l a STRINGX_BYTES P1 = Some (added, l', P2)" by (cases p) auto
      then have sp2: "added_spec E t P1 ?B1 l a added l' P2" using lu by simp
      have "Count l' + error_events P2 = Count l + error_events P + 1" using sp2 q(8) by (auto simp: added_spec_def split: if_splits)
      then show ?thesis using split_added [OF inv q(1) i(1) q(2,3,5,6,8) sp2] ad
        by (cases added) (simp_all add: emit tally_def w_def)
    qed
  qed
qed

end

lemma drop_cut:
  assumes "start \<le> i" "i < length xs" "xs ! i = c" "\<And>k. start \<le> k \<Longrightarrow> k < i \<Longrightarrow> xs ! k \<noteq> c"
  shows "pieces c (drop start xs) = take (i - start) (drop start xs) # pieces c (drop (i + 1) xs)"
proof -
  have "drop start xs = take (i - start) (drop start xs) @ drop i xs"
    using assms(1) by (metis append_take_drop_id drop_drop le_add_diff_inverse2)
  also have "drop i xs = c # drop (i + 1) xs" using Cons_nth_drop_Suc [OF assms(2)] assms(3) by simp
  finally have e: "drop start xs = take (i - start) (drop start xs) @ c # drop (i + 1) xs" .
  have "c \<notin> set (take (i - start) (drop start xs))"
    using assms(2,4) by (auto simp: in_set_conv_nth)
  from pieces_cut [OF this] show ?thesis by (subst e) simp
qed

context pool_user
begin

lemma split_loop_user:
  assumes s: "sx_ok P0 A s" and len: "sx_len s \<le> 2 ^ 24"
  shows "split_ok E A P0 start st ws \<Longrightarrow> start \<le> i \<Longrightarrow> i \<le> sx_len s \<Longrightarrow>
    (\<And>k. start \<le> k \<Longrightarrow> k < i \<Longrightarrow> text_of P0 s ! k \<noteq> token) \<Longrightarrow>
    case split_loop E t s token i start (int (sx_len s)) st of
      None \<Rightarrow> fatal_errors P0 \<and> refuses E t
    | Some st' \<Rightarrow> \<exists>qs. split_ok E A P0 (sx_len s + 1) st' (ws @ qs) \<and>
        subseq qs (pieces token (drop start (text_of P0 s))) \<and> tally st' = tally st + length (pieces token (drop start (text_of P0 s)))"
proof (induction "sx_len s - i" arbitrary: i start st ws rule: less_induct)
  case less
  obtain l S P where st: "st = (l, S, P)" by (cases st)
  let ?T = "text_of P0 s"
  have k: "keeps A P0 P" using less(2) by (auto simp: split_ok_def split_inv_def st)
  have rd: "mem_bytes P (sx_content s + i) = ?T ! i" if "i < sx_len s"
    using hit_text [OF that, of P] text_keeps(1) [OF k s] by simp
  have i2: "start \<le> 2 ^ 24" using less(3,4) len by simp
  let ?w = "take (i - start) (drop start ?T)"
  note em = split_emit_user [OF less(2) [unfolded st] s less(3,4) i2, of t, folded st]
  consider (last) "i = sx_len s" | (cut) "i < sx_len s" "?T ! i = token" | (go) "i < sx_len s" "?T ! i \<noteq> token"
    using less(4) by linarith
  then show ?case
  proof cases
    case last
    have "split_loop E t s token (i + 1) (i + 1) (int (sx_len s)) st1 = Some st1" for st1
      using last by (subst split_loop.simps) simp
    then have r: "split_loop E t s token i start (int (sx_len s)) st = split_emit E t s (int start) (int i - int start) st"
      using last by (subst split_loop.simps) (simp split: option.split)
    have "token \<notin> set (drop start ?T)" using less(5) last by (auto simp: in_set_conv_nth)
    moreover have "?w = drop start ?T" using last by simp
    ultimately have p: "pieces token (drop start ?T) = [?w]" by (simp add: pieces_free)
    show ?thesis
    proof (cases "split_emit E t s (int start) (int i - int start) st")
      case None
      then show ?thesis using em r by simp
    next
      case (Some st1)
      then have o1: "split_ok E A P0 (i + 1) st1 (ws @ []) \<or> split_ok E A P0 (i + 1) st1 (ws @ [?w])" "tally st1 = tally st + 1"
        using em by auto
      moreover have "subseq [] [?w]" "subseq [?w] [?w]" by simp_all
      ultimately show ?thesis unfolding r Some p option.case using last by (metis One_nat_def length_Cons list.size(3))
    qed
  next
    case cut
    have r: "split_loop E t s token i start (int (sx_len s)) st =
        (case split_emit E t s (int start) (int i - int start) st of None \<Rightarrow> None
         | Some st1 \<Rightarrow> split_loop E t s token (i + 1) (i + 1) (int (sx_len s)) st1)"
      using cut rd by (subst split_loop.simps) (simp add: st)
    have p: "pieces token (drop start ?T) = ?w # pieces token (drop (i + 1) ?T)"
      by (rule drop_cut) (use cut less(3,5) in simp_all)
    have m: "sx_len s - (i + 1) < sx_len s - i" "i + 1 \<le> sx_len s" using cut by simp_all
    note ih = less(1) [OF m(1) _ le_refl m(2)]
    show ?thesis
    proof (cases "split_emit E t s (int start) (int i - int start) st")
      case None
      then show ?thesis using em r by simp
    next
      case (Some st1)
      then have "split_ok E A P0 (i + 1) st1 (ws @ []) \<or> split_ok E A P0 (i + 1) st1 (ws @ [?w])" and ty: "tally st1 = tally st + 1"
        using em by simp_all
      then obtain w1 where o1: "split_ok E A P0 (i + 1) st1 (ws @ w1)" "w1 = [] \<or> w1 = [?w]" by blast
      have "subseq (w1 @ qs) (?w # ps)" if "subseq qs ps" for qs ps using that o1(2) by auto
      then show ?thesis using ih [OF o1(1)] ty unfolding r Some p option.case
        by (auto split: option.splits)
    qed
  next
    case go
    have r: "split_loop E t s token i start (int (sx_len s)) st = split_loop E t s token (i + 1) start (int (sx_len s)) st"
      using go rd by (subst split_loop.simps) (simp add: st)
    have "text_of P0 s ! k \<noteq> token" if "start \<le> k" "k < i + 1" for k
      using that go(2) less(5) by (cases "k = i") auto
    then show ?thesis unfolding r using go less(2,3) by (intro less(1)) simp_all
  qed
qed

end


text \<open>A new list: without memory for it nothing is left, without memory for its vector the list has none.\<close>

definition created_spec ::
    "mem_env \<Rightarrow> nat \<Rightarrow> nat \<Rightarrow> MemPool \<Rightarrow> addr set \<Rightarrow> ((addr \<times> ListX) option \<times> MemPool) option \<Rightarrow> bool" where
  "created_spec E t ts P B r \<longleftrightarrow>
     (case r of
        None \<Rightarrow> fatal_errors P \<and> refuses E t
      | Some (None, P1) \<Rightarrow> keeps B P P1 \<and> client E P1 B \<and> noted P P1 \<and> \<not> fatal_errors P
      | Some (Some (a, l), P1) \<Rightarrow> keeps B P P1 \<and> Max l = INITIAL_LIST_COUNT \<and> Count l = 0 \<and> TypeSize l = ts \<and> a \<notin> B \<and>
          (if Items l = 0 then client E P1 (insert a B) \<and> noted P P1 \<and> \<not> fatal_errors P
           else client E P1 (insert (Items l) (insert a B)) \<and> Items l \<notin> insert a B \<and>
             list_ok P1 (insert (Items l) (insert a B)) l \<and> silent P P1))"

context pool_user
begin

lemma list_create_user:
  assumes c: "client E P B"
  shows "created_spec E t ts P B (list_create E t (- 1) ts P)"
proof -
  obtain r1 Q1 where a1: "memop_alloc_raw E t LISTX_BYTES P = (r1, Q1)" by force
  note u1 = user_alloc [OF c _ a1] and sl1 = silent_alloc_raw [OF a1]
  have sz: "LISTX_BYTES \<le> max_request" "INITIAL_LIST_COUNT * 8 \<le> max_request" by (simp_all add: max_request_def)
  have k1: "keeps B P Q1" by (rule u1(1) [OF sz(1)])
  show ?thesis
  proof (cases r1)
    case None
    have "refuses E t" using alloc_refuses [OF c _ sz(1)] a1 None by simp
    moreover have "client E (counted Q1) B" if "\<not> fatal_errors P"
      by (rule client_counted) (use u1(2) [OF sz(1) None] that sl1 in simp_all)
    ultimately show ?thesis using a1 None k1 sl1 by (simp add: list_create_def trigger_event_eq created_spec_def)
  next
    case (Some b)
    note n1 = u1(3) [OF sz(1) Some]
    obtain r2 Q2 where a2: "memop_alloc_raw E t (INITIAL_LIST_COUNT * 8) Q1 = (r2, Q2)" by force
    have c1: "client E Q1 (insert b B)" using n1 by blast
    note u2 = user_alloc [OF c1 sz(2) a2] and sl2 = silent_alloc_raw [OF a2]
    have k: "keeps B P Q2" by (rule keeps_trans [OF k1 keeps_mono [OF u2(1)]]) blast
    show ?thesis
    proof (cases r2)
      case None
      have "refuses E t" using alloc_refuses [OF c1 _ sz(2)] a2 None by simp
      moreover have "client E (counted Q2) (insert b B)" if "\<not> fatal_errors P"
        by (rule client_counted) (use u2(2) [OF None] that sl1 sl2 in simp_all)
      ultimately show ?thesis
        using a1 Some a2 None k n1 sl1 sl2 by (simp add: list_create_def Let_def trigger_event_eq created_spec_def)
    next
      case (Some p)
      note n2 = u2(3) [OF Some]
      then have "list_ok Q2 (insert p (insert b B)) l" if "Items l = p" "Count l = 0" "Max l = INITIAL_LIST_COUNT" for l
        using that by (simp add: list_ok_def)
      then show ?thesis
        using a1 \<open>r1 = Some b\<close> a2 Some k n1 n2 sl1 sl2 by (simp add: list_create_def Let_def created_spec_def)
    qed
  qed
qed

end

section \<open>The operations\<close>

context pool_user
begin

lemma string_trim_user:
  assumes c: "client E P B" and ok: "sx_ok P B s"
  shows "\<exists>n P'. string_trim (Some s) P = (Some (s\<lparr>sx_len := n\<rparr>), P') \<and> client E P' B \<and> keeps (B - {sx_content s}) P P' \<and> silent P P' \<and>
    sx_ok P' B (s\<lparr>sx_len := n\<rparr>) \<and> text_of P' (s\<lparr>sx_len := n\<rparr>) = dropWhile sh_is_ws (trim_end (text_of P s))"
proof -
  obtain n P1 where r: "string_trim_right (Some s) P = (Some (s\<lparr>sx_len := n\<rparr>), P1)" "client E P1 B"
    "keeps (B - {sx_content s}) P P1" "silent P P1" "sx_ok P1 B (s\<lparr>sx_len := n\<rparr>)" "text_of P1 (s\<lparr>sx_len := n\<rparr>) = trim_end (text_of P s)"
    using trim_right_user [OF c ok] by blast
  obtain k P2 where l: "string_trim_left (Some (s\<lparr>sx_len := n\<rparr>)) P1 = (Some (s\<lparr>sx_len := k\<rparr>), P2)" "client E P2 B"
    "keeps (B - {sx_content s}) P1 P2" "silent P1 P2" "sx_ok P2 B (s\<lparr>sx_len := k\<rparr>)"
    "text_of P2 (s\<lparr>sx_len := k\<rparr>) = dropWhile sh_is_ws (trim_end (text_of P s))"
    using trim_left_user [OF r(2,5)] r(6) by auto
  have "string_trim (Some s) P = (Some (s\<lparr>sx_len := k\<rparr>), P2)" using r(1) l(1) by (simp add: string_trim_def)
  moreover have "keeps (B - {sx_content s}) P P2" by (rule keeps_trans [OF r(3) l(3)])
  ultimately show ?thesis using l r(4) by (intro exI [of _ k] exI [of _ P2]) simp
qed

end

text \<open>Trimming a usable string succeeds, takes the white space off both of its ends and
  nothing else, leaves the string in its own block and usable, and touches no other block.\<close>

lemma string_trim_exact:
  assumes "mmap_law (env_mmap E)" "client E P B" "sx_ok P B s"
  shows "\<exists>s' P'. string_trim (Some s) P = (Some s', P') \<and> sx_content s' = sx_content s \<and> client E P' B \<and> sx_ok P' B s' \<and>
    keeps (B - {sx_content s}) P P' \<and> text_of P' s' = dropWhile sh_is_ws (trim_end (text_of P s))"
  using pool_user.string_trim_user [OF pool_user.intro [OF assms(1)] assms(2,3)] by fastforce

text \<open>A buffer of ten letters has nothing to trim.\<close>

lemma string_trim_exact_witness:
  "\<exists>s' P'. string_trim (Some str_A) P_txt = (Some s', P') \<and> text_of P' s' = replicate 10 65"
  using string_trim_exact [OF bump_env_law P_txt_client strs_ok(1)]
  by (auto simp: strs_text trim_end_def sh_is_ws_def dropWhile_replicate)


section \<open>A concrete split\<close>














end
