(* ===== verification/String_Programs.thy ===== *)
theory String_Programs
  imports String_Pieces
begin

text \<open>
  Programs of string operations: the operations of \<open>string_handler.c\<close> called one after the other on
  the variables of a program, a static check of such programs, and that checked programs do not
  go wrong: no endless loop, no access through NULL or outside a buffer, no buffer lost, and no
  crash but the one in the report of a refused request when no handler was set.
\<close>

section \<open>Programs\<close>

datatype scmd = New nat | Append nat nat int int | Print nat "8 word list" | Trim nat | Release nat

type_synonym svars = "nat \<Rightarrow> StringX option"

text \<open>\<open>junk\<close> is what an uninitialised variable holds.\<close>

fun scmd_run :: "mem_env \<Rightarrow> nat \<Rightarrow> StringX \<Rightarrow> scmd \<Rightarrow> svars \<times> MemPool \<Rightarrow> (svars \<times> MemPool) option" where
  "scmd_run E t junk (New v) (S, P) = (case string_create E t junk P of None \<Rightarrow> None | Some (s, P') \<Rightarrow> Some (S(v \<mapsto> s), P'))"
| "scmd_run E t junk (Append v w start n) (S, P) =
     (case string_append E t (S v) (S w) start n P of None \<Rightarrow> None | Some (r, P') \<Rightarrow> Some (S(w := r), P'))"
| "scmd_run E t junk (Print v out) (S, P) =
     (case string_append_formatv E t (S v) (Some (Some out)) P of None \<Rightarrow> None | Some (n, r, P') \<Rightarrow> Some (S(v := r), P'))"
| "scmd_run E t junk (Trim v) (S, P) = (case string_trim (S v) P of (r, P') \<Rightarrow> Some (S(v := r), P'))"
| "scmd_run E t junk (Release v) (S, P) = (case string_release t (S v) P of (r, P') \<Rightarrow> Some (S(v := None), P'))"

fun sprog_run :: "mem_env \<Rightarrow> nat \<Rightarrow> StringX \<Rightarrow> scmd list \<Rightarrow> svars \<times> MemPool \<Rightarrow> (svars \<times> MemPool) option" where
  "sprog_run E t junk [] st = Some st"
| "sprog_run E t junk (c # cs) st = (case scmd_run E t junk c st of None \<Rightarrow> None | Some st' \<Rightarrow> sprog_run E t junk cs st')"

section \<open>The check\<close>

text \<open>A variable that exists has a bound on the length of its string.  A variable is made before it is
  used and not made twice, no string is appended to itself, the arguments are \<open>int\<close>s, and the bounds
  stay within \<open>2^29\<close>.\<close>

fun scmd_check :: "scmd \<Rightarrow> (nat \<Rightarrow> nat option) \<Rightarrow> (nat \<Rightarrow> nat option) option" where
  "scmd_check (New v) G = (if G v = None then Some (G(v \<mapsto> 0)) else None)"
| "scmd_check (Append v w start n) G =
     (case (G v, G w) of
        (Some a, Some b) \<Rightarrow>
          if v \<noteq> w \<and> start \<le> int_max \<and> n \<le> int_max \<and> b + nat n \<le> 2 ^ 29 then Some (G(w \<mapsto> b + nat n)) else None
      | _ \<Rightarrow> None)"
| "scmd_check (Print v out) G =
     (case G v of
        None \<Rightarrow> None
      | Some b \<Rightarrow> if b + length out \<le> 2 ^ 29 then Some (G(v \<mapsto> b + length out)) else None)"
| "scmd_check (Trim v) G = (if G v = None then None else Some G)"
| "scmd_check (Release v) G = (if G v = None then None else Some (G(v := None)))"

fun sprog_check :: "scmd list \<Rightarrow> (nat \<Rightarrow> nat option) \<Rightarrow> (nat \<Rightarrow> nat option) option" where
  "sprog_check [] G = Some G"
| "sprog_check (c # cs) G = (case scmd_check c G of None \<Rightarrow> None | Some G' \<Rightarrow> sprog_check cs G')"

section \<open>Well-formed states\<close>

text \<open>A string without a buffer, the result of a creation without memory, is harmless.\<close>

definition buffers :: "svars \<Rightarrow> addr set" where
  "buffers S = {p. p \<noteq> 0 \<and> (\<exists>v s. S v = Some s \<and> sx_content s = p)}"

definition vars_ok :: "addr set \<Rightarrow> (nat \<Rightarrow> nat option) \<Rightarrow> svars \<Rightarrow> MemPool \<Rightarrow> bool" where
  "vars_ok B G S P \<longleftrightarrow> dom S = dom G \<and>
    (\<forall>v s. S v = Some s \<longrightarrow> sx_content s \<noteq> 0 \<longrightarrow>
       sx_content s \<notin> B \<and> sx_ok P (B \<union> buffers S) s \<and> sx_len s \<le> the (G v)) \<and>
    (\<forall>v w s r. S v = Some s \<longrightarrow> S w = Some r \<longrightarrow> sx_content s \<noteq> 0 \<longrightarrow> sx_content s = sx_content r \<longrightarrow> v = w)"

lemma vars_okD:
  assumes "vars_ok B G S P"
  shows "dom S = dom G"
    "\<And>v s. S v = Some s \<Longrightarrow> sx_content s \<noteq> 0 \<Longrightarrow> sx_content s \<notin> B \<and> sx_ok P (B \<union> buffers S) s \<and> sx_len s \<le> the (G v)"
    "\<And>v w s r. S v = Some s \<Longrightarrow> S w = Some r \<Longrightarrow> sx_content s \<noteq> 0 \<Longrightarrow> sx_content s = sx_content r \<Longrightarrow> v = w"
  using assms unfolding vars_ok_def by blast+

lemma buffers_mem: "S v = Some s \<Longrightarrow> sx_content s \<noteq> 0 \<Longrightarrow> sx_content s \<in> buffers S"
  by (auto simp: buffers_def)

text \<open>Raising bounds.\<close>

lemma vars_ok_raise:
  assumes "vars_ok B G S P" "G v = Some a" "a \<le> b"
  shows "vars_ok B (G(v \<mapsto> b)) S P"
proof -
  have d: "dom (G(v \<mapsto> b)) = dom G" using assms(2) by (auto simp: insert_absorb)
  have "the (G w) \<le> the ((G(v \<mapsto> b)) w)" for w using assms(2,3) by simp
  then show ?thesis using assms(1) unfolding vars_ok_def d by (meson le_trans)
qed

lemma buffers_drop:
  assumes "vars_ok B G S P" "S v = Some s"
  shows "buffers (S(v := None)) = buffers S - {sx_content s}"
proof (intro set_eqI iffI)
  fix p assume "p \<in> buffers (S(v := None))"
  then obtain w r where w: "w \<noteq> v" "S w = Some r" "sx_content r = p" "p \<noteq> 0" by (auto simp: buffers_def split: if_splits)
  then have "p \<noteq> sx_content s" using vars_okD(3) [OF assms(1) w(2) assms(2)] by auto
  then show "p \<in> buffers S - {sx_content s}" using w buffers_mem by blast
next
  fix p assume "p \<in> buffers S - {sx_content s}"
  then obtain w r where "S w = Some r" "sx_content r = p" "p \<noteq> 0" "p \<noteq> sx_content s" by (auto simp: buffers_def)
  then have "(S(v := None)) w = Some r" "sx_content r = p" "p \<noteq> 0" using assms(2) by auto
  then show "p \<in> buffers (S(v := None))" using buffers_mem [of "S(v := None)" w r] by simp
qed

lemma buffers_put:
  assumes "v \<notin> dom S"
  shows "buffers (S(v \<mapsto> s)) = (if sx_content s = 0 then buffers S else insert (sx_content s) (buffers S))"
  using assms unfolding buffers_def by (auto split: if_splits)

text \<open>Taking a variable away, with its buffer or not, and putting a new one.\<close>

lemma vars_ok_drop:
  assumes ok: "vars_ok B G S P" and v: "S v = Some s" and k: "keeps (B \<union> (buffers S - {sx_content s})) P P'"
  shows "vars_ok B (G(v := None)) (S(v := None)) P'"
proof -
  note d = vars_okD [OF ok]
  let ?S = "S(v := None)"
  note b = buffers_drop [OF ok v]
  have *: "sx_content r \<notin> B \<and> sx_ok P' (B \<union> buffers ?S) r \<and> sx_len r \<le> the ((G(v := None)) w)"
    if "?S w = Some r" "sx_content r \<noteq> 0" for w r
  proof -
    have w: "w \<noteq> v" "S w = Some r" using that(1) by (auto split: if_splits)
    have "sx_content r \<noteq> sx_content s" using d(3) [OF w(2) v that(2)] w(1) by blast
    then have "sx_content r \<in> B \<union> (buffers S - {sx_content s})" using buffers_mem [of S w r, OF w(2) that(2)] by blast
    then have ok': "sx_ok P (B \<union> (buffers S - {sx_content s})) r" using d(2) [OF w(2) that(2)] by (simp add: sx_ok_def)
    then have "sx_ok P' (B \<union> buffers ?S) r" unfolding b by (rule text_keeps(2) [OF k])
    then show ?thesis using d(2) [OF w(2) that(2)] w(1) by simp
  qed
  show ?thesis unfolding vars_ok_def
  proof (intro conjI)
    show "dom ?S = dom (G(v := None))" using d(1) by simp
    show "\<forall>u w r q. ?S u = Some r \<longrightarrow> ?S w = Some q \<longrightarrow> sx_content r \<noteq> 0 \<longrightarrow> sx_content r = sx_content q \<longrightarrow> u = w"
      using d(3) by (metis fun_upd_apply option.distinct(1))
  qed (use * in blast)
qed

lemma vars_ok_put:
  assumes ok: "vars_ok B G S P" and v: "v \<notin> dom S"
    and s: "sx_content s \<noteq> 0 \<Longrightarrow> sx_content s \<notin> B \<union> buffers S \<and> sx_ok P (insert (sx_content s) (B \<union> buffers S)) s \<and> sx_len s \<le> b"
  shows "vars_ok B (G(v \<mapsto> b)) (S(v \<mapsto> s)) P"
proof -
  note d = vars_okD [OF ok]
  let ?S = "S(v \<mapsto> s)"
  note bf = buffers_put [OF v, of s]
  have sub: "B \<union> buffers S \<subseteq> B \<union> buffers ?S" unfolding bf by auto
  have *: "sx_content r \<notin> B \<and> sx_ok P (B \<union> buffers ?S) r \<and> sx_len r \<le> the ((G(v \<mapsto> b)) w)"
    if r: "?S w = Some r" "sx_content r \<noteq> 0" for w r
  proof (cases "w = v")
    case True
    then have "s = r" using r(1) by simp
    moreover from this have "B \<union> buffers ?S = insert (sx_content r) (B \<union> buffers S)" using r(2) unfolding bf by simp
    ultimately show ?thesis using s r(2) True by (simp only: fun_upd_same option.sel) blast
  next
    case False
    then have w: "S w = Some r" using r(1) by simp
    have "sx_ok P (B \<union> buffers ?S) r" using d(2) [OF w r(2)] sx_ok_mono [OF _ sub] by blast
    then show ?thesis using d(2) [OF w r(2)] False by simp
  qed
  have new: "sx_content r \<noteq> sx_content s" if "S w = Some r" "sx_content r \<noteq> 0" for w r
    using s buffers_mem [of S w r, OF that] that(2) by (cases "sx_content s = 0") auto
  show ?thesis unfolding vars_ok_def
  proof (intro conjI)
    show "dom ?S = dom (G(v \<mapsto> b))" using d(1) by simp
    show "\<forall>u w r q. ?S u = Some r \<longrightarrow> ?S w = Some q \<longrightarrow> sx_content r \<noteq> 0 \<longrightarrow> sx_content r = sx_content q \<longrightarrow> u = w"
      using d(3) new by (metis fun_upd_apply option.inject)
  qed (use * in blast)
qed

text \<open>What a step of a program keeps: the program's blocks, and its variables' buffers next to them.\<close>

definition state_ok :: "mem_env \<Rightarrow> addr set \<Rightarrow> MemPool \<Rightarrow> (nat \<Rightarrow> nat option) \<Rightarrow> svars \<times> MemPool \<Rightarrow> bool" where
  "state_ok E B P0 G st \<longleftrightarrow> (case st of (S, P) \<Rightarrow> vars_ok B G S P \<and> client E P (B \<union> buffers S) \<and> keeps B P0 P \<and>
     g_error_handler P = g_error_handler P0)"

text \<open>The outcome of a step or a run: a state, or a crash in the report of a refused request.\<close>

definition outcome_ok ::
    "mem_env \<Rightarrow> nat \<Rightarrow> addr set \<Rightarrow> MemPool \<Rightarrow> (nat \<Rightarrow> nat option) \<Rightarrow> (svars \<times> MemPool) option \<Rightarrow> bool" where
  "outcome_ok E t B P0 G r \<longleftrightarrow> (case r of None \<Rightarrow> fatal_errors P0 \<and> refuses E t | Some st \<Rightarrow> state_ok E B P0 G st)"

text \<open>A step on one variable: its string may move to another block.\<close>

lemma state_ok_move:
  assumes st: "state_ok E B P0 G (S, P)" and v: "S v = Some s" "sx_content s \<noteq> 0" and s0: "sx_content s' \<noteq> 0" "sx_len s' \<le> b"
    and w: "keeps (B \<union> buffers S - {sx_content s}) P P'" "sx_content s' \<notin> B \<union> buffers S - {sx_content s}"
      "client E P' (insert (sx_content s') (B \<union> buffers S - {sx_content s}))"
      "sx_ok P' (insert (sx_content s') (B \<union> buffers S - {sx_content s})) s'" "g_error_handler P' = g_error_handler P"
  shows "state_ok E B P0 (G(v \<mapsto> b)) (S(v \<mapsto> s'), P')"
proof -
  have ok: "vars_ok B G S P" and kp: "keeps B P0 P" and h: "g_error_handler P = g_error_handler P0" using st by (simp_all add: state_ok_def)
  have nb: "sx_content s \<notin> B" using vars_okD(2) [OF ok v] by blast
  then have e: "B \<union> buffers S - {sx_content s} = B \<union> (buffers S - {sx_content s})" by blast
  let ?S = "S(v := None)"
  have d: "vars_ok B (G(v := None)) ?S P'" by (rule vars_ok_drop [OF ok v(1)]) (use w(1) e in simp)
  have bd: "buffers ?S = buffers S - {sx_content s}" by (rule buffers_drop [OF ok v(1)])
  have "vars_ok B ((G(v := None))(v \<mapsto> b)) (?S(v \<mapsto> s')) P'"
    by (rule vars_ok_put [OF d]) (use w s0 e bd in simp_all)
  moreover have "buffers (?S(v \<mapsto> s')) = insert (sx_content s') (buffers S - {sx_content s})"
    using buffers_put [of v ?S s'] s0(1) bd by simp
  then have "client E P' (B \<union> buffers (S(v \<mapsto> s')))" using w(3) e by simp
  moreover have "keeps B P0 P'" by (rule keeps_trans [OF kp keeps_mono [OF w(1)]]) (use nb in blast)
  ultimately show ?thesis using h w(5) by (simp add: state_ok_def)
qed

lemma state_ok_written:
  assumes st: "state_ok E B P0 G (S, P)" and v: "S v = Some s" "sx_content s \<noteq> 0" and G: "G v = Some a" "a \<le> b" "a + length w \<le> b"
    and w: "written E t P (B \<union> buffers S) s (sx_len s) w s' P'" and law: "mmap_law (env_mmap E)"
  shows "state_ok E B P0 (G(v \<mapsto> b)) (S(v \<mapsto> s'), P')"
proof -
  have ok: "vars_ok B G S P" and c: "client E P (B \<union> buffers S)" using st by (simp_all add: state_ok_def)
  have s: "sx_ok P (B \<union> buffers S) s" "sx_len s \<le> a" using vars_okD(2) [OF ok v] G(1) by simp_all
  note f = writtenD [OF w s(1)]
  have len: "sx_len s' \<le> b"
    using f(4)
  proof
    assume "s' = s \<and> text_of P' s' = text_of P s"
    then show ?thesis using s(2) G(2) by simp
  next
    assume "text_of P' s' = take (sx_len s) (text_of P s) @ w @ drop (sx_len s + length w) (text_of P s)"
    from arg_cong [OF this, of length] show ?thesis using s(2) G(3) by simp
  qed
  have "sx_content s' \<in> insert (sx_content s') (B \<union> buffers S - {sx_content s})" by simp
  then have pos: "sx_content s' \<noteq> 0" using pool_user.user_pos [OF pool_user.intro [OF law] f(1)] by blast
  have "sx_content s' \<notin> B \<union> buffers S - {sx_content s}" using w v by (auto simp: written_def moved_def split: if_splits)
  moreover have "g_error_handler P' = g_error_handler P" using w by (simp add: written_def split: if_splits)
  ultimately show ?thesis by (rule state_ok_move [OF st v pos len f(3) _ f(1,2)])
qed

lemma outcome_ok_writes:
  assumes st: "state_ok E B P0 G (S, P)" and v: "S v = Some s" "sx_content s \<noteq> 0" and G: "G v = Some a" "a \<le> b" "a + length w \<le> b"
    and w: "writes E t P (B \<union> buffers S) s (sx_len s) w r" and law: "mmap_law (env_mmap E)"
    and o: "out = (case r of None \<Rightarrow> None | Some (s', P') \<Rightarrow> Some (S(v \<mapsto> s'), P'))"
  shows "outcome_ok E t B P0 (G(v \<mapsto> b)) out"
proof (cases r)
  case None
  then show ?thesis using w o st by (simp add: outcome_ok_def writes_def state_ok_def)
next
  case (Some p)
  obtain s' P' where p: "p = (s', P')" by force
  then have "written E t P (B \<union> buffers S) s (sx_len s) w s' P'" using w Some by (simp add: writes_def)
  from state_ok_written [OF st v G this law] show ?thesis using o Some p by (simp add: outcome_ok_def)
qed

lemma state_ok_same:
  "state_ok E B P0 G (S, P) \<Longrightarrow> S v = Some s \<Longrightarrow> G v = Some a \<Longrightarrow> a \<le> b \<Longrightarrow> state_ok E B P0 (G(v \<mapsto> b)) (S(v \<mapsto> s), P)"
  by (simp add: state_ok_def vars_ok_raise fun_upd_idem)

section \<open>Commands\<close>

lemma string_null_ops:
  assumes "sx_content d = 0"
  shows "string_append E t (Some s) (Some d) ss n P = Some (Some d, P)" "string_append_formatv E t (Some d) o1 P = Some (- 1, Some d, P)"
    "string_trim (Some d) P = (Some d, P)" "string_append E t (Some d) (Some s) ss n P = Some (Some s, P)"
  using assms by (simp_all add: string_append_def string_copy_def string_append_formatv_def string_trim_def string_trim_right_def
      string_trim_left_def split: option.split)

lemma state_var:
  assumes "state_ok E B P0 G (S, P)" "G v = Some a"
  obtains s where "S v = Some s"
    "sx_content s = 0 \<or> sx_content s \<noteq> 0 \<and> sx_ok P (B \<union> buffers S) s \<and> sx_len s \<le> a"
proof -
  have ok: "vars_ok B G S P" using assms(1) by (simp add: state_ok_def)
  then obtain s where "S v = Some s" using vars_okD(1) assms(2) by blast
  moreover have "sx_content s = 0 \<or> sx_content s \<noteq> 0 \<and> sx_ok P (B \<union> buffers S) s \<and> sx_len s \<le> a"
    using vars_okD(2) [OF ok calculation] assms(2) by auto
  ultimately show thesis by (rule that)
qed

context pool_user
begin

lemma run_new:
  assumes st: "state_ok E B P0 G (S, P)" and g: "G v = None"
  shows "outcome_ok E t B P0 (G(v \<mapsto> 0)) (scmd_run E t junk (New v) (S, P))"
proof -
  have ok: "vars_ok B G S P" and c: "client E P (B \<union> buffers S)" and k: "keeps B P0 P" and h: "g_error_handler P = g_error_handler P0"
    using st by (simp_all add: state_ok_def)
  have v: "v \<notin> dom S" using vars_okD(1) [OF ok] g by blast
  note life = string_life [OF law c, of t junk]
  show ?thesis
  proof (cases "string_create E t junk P")
    case None
    then show ?thesis using life h by (simp add: outcome_ok_def)
  next
    case (Some p)
    obtain s P' where e: "string_create E t junk P = Some (s, P')" using Some by (cases p) simp
    note l = life [unfolded e option.case prod.case]
    have d: "vars_ok B G S P'"
    proof -
      have "sx_ok P' (B \<union> buffers S) r" if "sx_ok P (B \<union> buffers S) r" for r using text_keeps(2) [OF conjunct1 [OF l] that] .
      then show ?thesis using ok unfolding vars_ok_def by blast
    qed
    have b: "buffers (S(v \<mapsto> s)) = (if sx_content s = 0 then buffers S else insert (sx_content s) (buffers S))" by (rule buffers_put [OF v])
    have new: "if sx_active s then sx_content s \<notin> B \<union> buffers S \<and> client E P' (insert (sx_content s) (B \<union> buffers S)) \<and>
          sx_ok P' (insert (sx_content s) (B \<union> buffers S)) s \<and> sx_len s = 0
        else sx_content s = 0 \<and> client E P' (B \<union> buffers S)"
      using l by (auto simp: text_of_def bytes_from_def split: if_splits)
    have pos: "sx_content s \<noteq> 0" if "sx_active s" using new that user_pos [of P' "insert (sx_content s) (B \<union> buffers S)"] by auto
    have "vars_ok B (G(v \<mapsto> 0)) (S(v \<mapsto> s)) P'" by (rule vars_ok_put [OF d v]) (use new in \<open>auto split: if_splits\<close>)
    moreover have "client E P' (B \<union> buffers (S(v \<mapsto> s)))" unfolding b using new pos by (auto split: if_splits)
    moreover have "keeps B P0 P'" by (rule keeps_trans [OF k keeps_mono [OF conjunct1 [OF l]]]) blast
    moreover have "g_error_handler P' = g_error_handler P0" using l h by (simp split: if_splits)
    ultimately show ?thesis using e by (simp add: state_ok_def outcome_ok_def)
  qed
qed

lemma run_append:
  assumes st: "state_ok E B P0 G (S, P)" and g: "G v = Some a" "G w = Some b"
    and r: "v \<noteq> w" "start \<le> int_max" "n \<le> int_max" "b + nat n \<le> 2 ^ 29"
  shows "outcome_ok E t B P0 (G(w \<mapsto> b + nat n)) (scmd_run E t junk (Append v w start n) (S, P))"
proof -
  obtain s where s: "S v = Some s" "sx_content s = 0 \<or> sx_content s \<noteq> 0 \<and> sx_ok P (B \<union> buffers S) s \<and> sx_len s \<le> a"
    by (rule state_var [OF st g(1)])
  obtain d where d: "S w = Some d" "sx_content d = 0 \<or> sx_content d \<noteq> 0 \<and> sx_ok P (B \<union> buffers S) d \<and> sx_len d \<le> b"
    by (rule state_var [OF st g(2)])
  have same: "state_ok E B P0 (G(w \<mapsto> b + nat n)) (S(w \<mapsto> d), P)" by (rule state_ok_same [OF st d(1) g(2)]) simp
  consider "sx_content s = 0 \<or> sx_content d = 0" | "sx_content s \<noteq> 0" "sx_content d \<noteq> 0" "n \<le> 0 \<or> start < 0 \<or> int (sx_len s) < start + n"
    | "sx_content s \<noteq> 0" "sx_content d \<noteq> 0" "0 < n" "0 \<le> start" "start + n \<le> int (sx_len s)" by linarith
  then show ?thesis
  proof cases
    case 1
    then have "string_append E t (Some s) (Some d) start n P = Some (Some d, P)" using string_null_ops(1,4) by blast
    then show ?thesis using s(1) d(1) same by (simp add: outcome_ok_def)
  next
    case 2
    have "sx_ok P (B \<union> buffers S) s" using 2(1) s(2) by simp
    from string_append_out_of_range [OF this 2(3) r(3,2)]
    have "string_append E t (Some s) (Some d) start n P = Some (Some d, P)" .
    then show ?thesis using s(1) d(1) same by (simp add: outcome_ok_def)
  next
    case 3
    have os: "sx_ok P (B \<union> buffers S) s" and od: "sx_ok P (B \<union> buffers S) d" "sx_len d \<le> b" using s(2) d(2) 3 by auto
    have ok: "vars_ok B G S P" and c: "client E P (B \<union> buffers S)" using st by (simp_all add: state_ok_def)
    have ne: "sx_content s \<noteq> sx_content d" using vars_okD(3) [OF ok s(1) d(1) 3(1)] r(1) by blast
    have "int (b + nat n) \<le> int (2 ^ 29)" by (rule of_nat_mono [OF r(4)])
    then have len: "int (sx_len d) + n \<le> 2 ^ 29" using od(2) 3(3) by simp
    obtain r where e: "string_append E t (Some s) (Some d) start n P = map_option (\<lambda>(d', P'). (Some d', P')) r"
      and wr: "writes E t P (B \<union> buffers S) d (sx_len d) (take (nat n) (drop (nat start) (text_of P s))) r"
      by (rule string_append_written [OF c os od(1) ne 3(3-5) len])
    show ?thesis
      by (rule outcome_ok_writes [OF st d(1) 3(2) g(2) _ _ wr law]) (use e s(1) d(1) in \<open>auto split: option.split\<close>)
  qed
qed

lemma run_print:
  assumes st: "state_ok E B P0 G (S, P)" and g: "G v = Some b" and r: "b + length out \<le> 2 ^ 29"
  shows "outcome_ok E t B P0 (G(v \<mapsto> b + length out)) (scmd_run E t junk (Print v out) (S, P))"
proof -
  obtain d where d: "S v = Some d" "sx_content d = 0 \<or> sx_content d \<noteq> 0 \<and> sx_ok P (B \<union> buffers S) d \<and> sx_len d \<le> b"
    by (rule state_var [OF st g])
  have c: "client E P (B \<union> buffers S)" using st by (simp add: state_ok_def)
  show ?thesis
  proof (cases "sx_content d = 0")
    case True
    have "state_ok E B P0 (G(v \<mapsto> b + length out)) (S(v \<mapsto> d), P)" by (rule state_ok_same [OF st d(1) g]) simp
    then show ?thesis using string_null_ops(2) [OF True] d(1) by (simp add: outcome_ok_def)
  next
    case False
    then have od: "sx_ok P (B \<union> buffers S) d" "sx_len d \<le> b" using d(2) by auto
    have "sx_len d + length out \<le> 2 ^ 29" using od(2) r by simp
    then obtain r where e: "string_append_formatv E t (Some d) (Some (Some out)) P =
        map_option (\<lambda>(d', P'). (if grow_refused E t d (sx_len d + length out) P then - 1 else int (length out), Some d', P')) r"
      and wr: "writes E t P (B \<union> buffers S) d (sx_len d) out r" by (rule string_format_user [OF c od(1)])
    show ?thesis
      by (rule outcome_ok_writes [OF st d(1) False g _ _ wr law]) (use e d(1) in \<open>auto split: option.split\<close>)
  qed
qed

lemma run_trim:
  assumes st: "state_ok E B P0 G (S, P)" and g: "G v = Some b"
  shows "outcome_ok E t B P0 G (scmd_run E t junk (Trim v) (S, P))"
proof -
  obtain d where d: "S v = Some d" "sx_content d = 0 \<or> sx_content d \<noteq> 0 \<and> sx_ok P (B \<union> buffers S) d \<and> sx_len d \<le> b"
    by (rule state_var [OF st g])
  have c: "client E P (B \<union> buffers S)" using st by (simp add: state_ok_def)
  have gv: "G(v \<mapsto> b) = G" using g by (simp add: fun_upd_idem)
  show ?thesis
  proof (cases "sx_content d = 0")
    case True
    then show ?thesis using string_null_ops(3) [OF True] d(1) st by (simp add: fun_upd_idem outcome_ok_def)
  next
    case False
    then have od: "sx_ok P (B \<union> buffers S) d" "sx_len d \<le> b" using d(2) by auto
    obtain n P' where e: "string_trim (Some d) P = (Some (d\<lparr>sx_len := n\<rparr>), P')" "client E P' (B \<union> buffers S)"
      "keeps (B \<union> buffers S - {sx_content d}) P P'" "silent P P'" "sx_ok P' (B \<union> buffers S) (d\<lparr>sx_len := n\<rparr>)"
      "text_of P' (d\<lparr>sx_len := n\<rparr>) = dropWhile sh_is_ws (trim_end (text_of P d))"
      using string_trim_user [OF c od(1)] by blast
    have "n \<le> sx_len d"
      using arg_cong [OF e(6), of length] length_dropWhile_le [of sh_is_ws "trim_end (text_of P d)"]
        length_dropWhile_le [of sh_is_ws "rev (text_of P d)"] by (simp add: trim_end_def)
    then have n: "sx_len (d\<lparr>sx_len := n\<rparr>) \<le> b" using od(2) by simp
    have i: "insert (sx_content (d\<lparr>sx_len := n\<rparr>)) (B \<union> buffers S - {sx_content d}) = B \<union> buffers S"
      using sx_okD(1) [OF od(1)] by auto
    have "state_ok E B P0 (G(v \<mapsto> b)) (S(v \<mapsto> d\<lparr>sx_len := n\<rparr>), P')"
      by (rule state_ok_move [OF st d(1) False _ n e(3)]) (use False e(2,4,5) i in simp_all)
    then show ?thesis using e(1) d(1) gv by (simp add: outcome_ok_def)
  qed
qed

lemma run_release:
  assumes st: "state_ok E B P0 G (S, P)" and g: "G v = Some b"
  shows "outcome_ok E t B P0 (G(v := None)) (scmd_run E t junk (Release v) (S, P))"
proof -
  obtain d where d: "S v = Some d" "sx_content d = 0 \<or> sx_content d \<noteq> 0 \<and> sx_ok P (B \<union> buffers S) d \<and> sx_len d \<le> b"
    by (rule state_var [OF st g])
  have ok: "vars_ok B G S P" and c: "client E P (B \<union> buffers S)" and k: "keeps B P0 P" and h: "g_error_handler P = g_error_handler P0"
    using st by (simp_all add: state_ok_def)
  define P' where "P' = snd (string_release t (Some d) P)"
  have bd: "buffers (S(v := None)) = buffers S - {sx_content d}" by (rule buffers_drop [OF ok d(1)])
  have f: "keeps (B \<union> (buffers S - {sx_content d})) P P' \<and> client E P' (B \<union> (buffers S - {sx_content d}))"
  proof (cases "sx_content d = 0")
    case True
    then have "P' = P" "buffers S - {sx_content d} = buffers S" by (auto simp: P'_def string_release_def buffers_def)
    then show ?thesis using c by (simp add: keeps_def same_at_def)
  next
    case False
    then have m: "sx_content d \<in> B \<union> buffers S" "sx_content d \<notin> B" using d(2) sx_okD(1) vars_okD(2) [OF ok d(1)] by blast+
    then have "B \<union> buffers S - {sx_content d} = B \<union> (buffers S - {sx_content d})" by blast
    then show ?thesis using user_free [OF c m(1), of t] False by (simp add: P'_def string_release_def)
  qed
  have "vars_ok B (G(v := None)) (S(v := None)) P'" by (rule vars_ok_drop [OF ok d(1) conjunct1 [OF f]])
  moreover have "keeps B P0 P'" by (rule keeps_trans [OF k keeps_mono [OF conjunct1 [OF f]]]) blast
  moreover have "g_error_handler P' = g_error_handler P" by (simp add: P'_def string_release_def)
  ultimately have "state_ok E B P0 (G(v := None)) (S(v := None), P')" using f bd h by (simp add: state_ok_def)
  moreover have "scmd_run E t junk (Release v) (S, P) = Some (S(v := None), P')" using d(1) by (simp add: P'_def split: prod.split)
  ultimately show ?thesis by (simp add: outcome_ok_def)
qed

lemma scmd_run_ok:
  assumes st: "state_ok E B P0 G st" and ck: "scmd_check c G = Some G'"
  shows "outcome_ok E t B P0 G' (scmd_run E t junk c st)"
proof -
  obtain S P where e: "st = (S, P)" by (cases st)
  show ?thesis
  proof (cases c)
    case (New v)
    with ck have g: "G v = None" "G' = G(v \<mapsto> 0)" by (simp_all split: if_splits)
    show ?thesis unfolding New e g(2) by (rule run_new [OF st [unfolded e] g(1)])
  next
    case (Append v w start n)
    then obtain a b where g: "G v = Some a" "G w = Some b" "v \<noteq> w" "start \<le> int_max" "n \<le> int_max" "b + nat n \<le> 2 ^ 29"
      "G' = G(w \<mapsto> b + nat n)" using ck by (auto split: option.splits if_splits)
    show ?thesis unfolding Append e g(7) by (rule run_append [OF st [unfolded e] g(1-6)])
  next
    case (Print v out)
    then obtain b where g: "G v = Some b" "b + length out \<le> 2 ^ 29" "G' = G(v \<mapsto> b + length out)" using ck by (auto split: option.splits if_splits)
    show ?thesis unfolding Print e g(3) by (rule run_print [OF st [unfolded e] g(1,2)])
  next
    case (Trim v)
    with ck have n: "G v \<noteq> None" and g: "G' = G" by (simp_all split: if_splits)
    from n obtain b where b: "G v = Some b" by (rule not_None_eq [THEN iffD1, THEN exE])
    show ?thesis unfolding Trim e g by (rule run_trim [OF st [unfolded e] b])
  next
    case (Release v)
    with ck have n: "G v \<noteq> None" and g: "G' = G(v := None)" by (simp_all split: if_splits)
    from n obtain b where b: "G v = Some b" by (rule not_None_eq [THEN iffD1, THEN exE])
    show ?thesis unfolding Release e g by (rule run_release [OF st [unfolded e] b])
  qed
qed

lemma sprog_run_ok:
  "state_ok E B P0 G st \<Longrightarrow> sprog_check cs G = Some G' \<Longrightarrow> outcome_ok E t B P0 G' (sprog_run E t junk cs st)"
proof (induction cs arbitrary: G st)
  case Nil
  then show ?case by (simp add: outcome_ok_def)
next
  case (Cons c cs)
  obtain G1 where g: "scmd_check c G = Some G1" "sprog_check cs G1 = Some G'" using Cons.prems(2) by (auto split: option.splits)
  note o = scmd_run_ok [OF Cons.prems(1) g(1), of t junk]
  show ?case
  proof (cases "scmd_run E t junk c st")
    case None
    then show ?thesis using o by (simp add: outcome_ok_def)
  next
    case (Some st1)
    then have "state_ok E B P0 G1 st1" using o by (simp add: outcome_ok_def)
    from Cons.IH [OF this g(2)] show ?thesis using Some by simp
  qed
qed

end







end
