(* ===== verification/String_Splits.thy ===== *)
theory String_Splits
  imports String_Pieces
begin

text \<open>
  Splitting at a token of several bytes, \<open>string_splits\<close>: the pieces between the leftmost
  occurrences of the token that do not overlap.
\<close>

section \<open>The reference\<close>















section \<open>The loop\<close>



section \<open>The operation\<close>







end
