(* ===== verification/Thread_Wait.thy ===== *)
theory Thread_Wait
  imports Prelude
begin

text \<open>
  \<open>thread_wait.h\<close> and \<open>thread_wait.c\<close>: one thread that sleeps on a word and others that wake it,
  with the kernel's futex (Linux) or address wait (Windows) between them, every load, store and
  call a step; the times handed to the system; and the counted request for the fast system timer.
\<close>

section \<open>Times\<close>

record timespec =
  tv_sec :: int
  tv_nsec :: int

definition sleep_timespec :: "int \<Rightarrow> timespec" where
  "sleep_timespec timeout_us =
    \<lparr>tv_sec = c_div timeout_us 1000000, tv_nsec = (timeout_us - c_div timeout_us 1000000 * 1000000) * 1000\<rparr>"

text \<open>The Windows branch counts milliseconds, at least one, in a \<open>DWORD\<close>; all ones means no limit.\<close>

definition sleep_ms :: "int \<Rightarrow> int" where
  "sleep_ms timeout_us = (let ms = u32 (c_div timeout_us 1000) in if ms = 0 then 1 else ms)"

definition INFINITE :: int where
  "INFINITE = 4294967295"

section \<open>The word, the sleeper and the wakers\<close>

text \<open>
  \<open>S_out r\<close>: outside a sleep, the last one having returned \<open>r\<close>; \<open>S_test\<close>: about to load the word;
  \<open>S_call\<close>: about to enter the kernel, which compares the word again and queues the thread in one
  step; \<open>S_blocked\<close>: queued; \<open>S_clear b\<close>: about to clear the word and return \<open>b\<close>.
  \<open>waking\<close> counts the wakers between their store and their system call.  The ghost \<open>owed\<close> says
  that a waker has stored since the last \<open>prepare\<close> and since the last sleep that reported a wake.
\<close>

datatype sleeper = S_out "bool option" | S_test | S_call | S_blocked | S_clear bool

record xwait =
  futex_val :: int
  slp :: sleeper
  timed :: bool
  waking :: nat
  owed :: bool

definition xwait_start :: xwait where
  "xwait_start = \<lparr>futex_val = 0, slp = S_out None, timed = False, waking = 0, owed = False\<rparr>"

definition thread_wait_prepare_inline :: "xwait \<Rightarrow> xwait" where
  "thread_wait_prepare_inline w = w\<lparr>futex_val := 0, owed := False\<rparr>"

text \<open>The two halves of \<open>thread_wait_wake_inline\<close>; the call wakes one thread, if one is queued.\<close>

definition wake_store :: "xwait \<Rightarrow> xwait" where
  "wake_store w = w\<lparr>futex_val := 1, owed := True, waking := waking w + 1\<rparr>"

definition wake_call :: "xwait \<Rightarrow> xwait option" where
  "wake_call w = (if waking w = 0 then None
     else Some (w\<lparr>waking := waking w - 1, slp := (if slp w = S_blocked then S_test else slp w)\<rparr>))"

text \<open>What the kernel does with a queued thread: the call returns early, or its time is over.\<close>

datatype kernel = Runs | Interrupted | TimedOut

text \<open>A step of \<open>thread_wait_sleep_inline\<close> and \<open>thread_wait_sleep_for_inline\<close> on Linux.\<close>

definition linux_sleep_step :: "kernel \<Rightarrow> xwait \<Rightarrow> xwait option" where
  "linux_sleep_step k w =
    (case slp w of
       S_out r \<Rightarrow> None
     | S_test \<Rightarrow> Some (w\<lparr>slp := (if futex_val w = 0 then S_call else S_clear True)\<rparr>)
     | S_call \<Rightarrow> Some (w\<lparr>slp := (if futex_val w = 0 then S_blocked else S_test)\<rparr>)
     | S_blocked \<Rightarrow>
         (case k of
            Runs \<Rightarrow> None
          | Interrupted \<Rightarrow> Some (w\<lparr>slp := S_test\<rparr>)
          | TimedOut \<Rightarrow> if timed w then Some (w\<lparr>slp := S_out (Some False)\<rparr>) else None)
     | S_clear b \<Rightarrow> Some (w\<lparr>futex_val := 0, owed := False, slp := S_out (Some b)\<rparr>))"

text \<open>The timed sleep of the Windows branch: one wait, then the word is cleared whatever happened.\<close>

definition win_sleep_for_step :: "kernel \<Rightarrow> xwait \<Rightarrow> xwait option" where
  "win_sleep_for_step k w =
    (case slp w of
       S_out r \<Rightarrow> None
     | S_test \<Rightarrow> Some (w\<lparr>slp := S_call\<rparr>)
     | S_call \<Rightarrow> Some (w\<lparr>slp := (if futex_val w = 0 then S_blocked else S_clear True)\<rparr>)
     | S_blocked \<Rightarrow>
         (case k of
            Runs \<Rightarrow> None
          | Interrupted \<Rightarrow> Some (w\<lparr>slp := S_clear True\<rparr>)
          | TimedOut \<Rightarrow> Some (w\<lparr>slp := S_clear False\<rparr>))
     | S_clear b \<Rightarrow> Some (w\<lparr>futex_val := 0, owed := owed w \<and> \<not> b, slp := S_out (Some b)\<rparr>))"

definition win_wake_call :: "xwait \<Rightarrow> xwait option" where
  "win_wake_call w = (if waking w = 0 then None
     else Some (w\<lparr>waking := waking w - 1, slp := (if slp w = S_blocked then S_clear True else slp w)\<rparr>))"

text \<open>Everything that can happen to a word: its owner prepares it or starts a sleep, a waker
  stores or calls, the sleep goes on.\<close>

inductive wait_step :: "(kernel \<Rightarrow> xwait \<Rightarrow> xwait option) \<Rightarrow> (xwait \<Rightarrow> xwait option) \<Rightarrow> xwait \<Rightarrow> xwait \<Rightarrow> bool" for sleep wake where
  prepare: "slp w = S_out r \<Longrightarrow> wait_step sleep wake w (thread_wait_prepare_inline w)"
| enter: "slp w = S_out r \<Longrightarrow> wait_step sleep wake w (w\<lparr>slp := S_test, timed := b\<rparr>)"
| store: "wait_step sleep wake w (wake_store w)"
| call: "wake w = Some w' \<Longrightarrow> wait_step sleep wake w w'"
| go: "sleep k w = Some w' \<Longrightarrow> wait_step sleep wake w w'"

inductive_cases wait_stepE: "wait_step sleep wake w w'"

abbreviation linux_step :: "xwait \<Rightarrow> xwait \<Rightarrow> bool" where
  "linux_step \<equiv> wait_step linux_sleep_step wake_call"

abbreviation win_step :: "xwait \<Rightarrow> xwait \<Rightarrow> bool" where
  "win_step \<equiv> wait_step win_sleep_for_step win_wake_call"

text \<open>The part of a run in which nobody starts anything new: the sleep and the wakes under way go on.\<close>

inductive settle :: "xwait \<Rightarrow> nat \<Rightarrow> xwait \<Rightarrow> bool" for w where
  here: "settle w 0 w"
| woken: "settle w n v \<Longrightarrow> wake_call v = Some v' \<Longrightarrow> settle w (n + 1) v'"
| going: "settle w n v \<Longrightarrow> linux_sleep_step k v = Some v' \<Longrightarrow> settle w (n + 1) v'"

section \<open>No wake is lost\<close>

definition wait_inv :: "xwait \<Rightarrow> bool" where
  "wait_inv w \<longleftrightarrow> (owed w \<longrightarrow> futex_val w = 1) \<and> (futex_val w = 1 \<and> slp w = S_blocked \<longrightarrow> 0 < waking w) \<and>
    futex_val w \<in> {0, 1} \<and> (slp w \<noteq> S_clear False)"

lemma wait_inv_start: "wait_inv xwait_start"
  by (simp add: wait_inv_def xwait_start_def)

lemma wait_inv_wake_call: "wait_inv w \<Longrightarrow> wake_call w = Some w' \<Longrightarrow> wait_inv w'"
  by (auto simp: wait_inv_def wake_call_def split: if_splits)

lemma wait_inv_sleep: "wait_inv w \<Longrightarrow> linux_sleep_step k w = Some w' \<Longrightarrow> wait_inv w'"
  by (auto simp: wait_inv_def linux_sleep_step_def split: sleeper.splits kernel.splits if_splits)

lemma wait_inv_step: "linux_step w w' \<Longrightarrow> wait_inv w \<Longrightarrow> wait_inv w'"
proof (erule wait_stepE)
  fix r assume "w' = thread_wait_prepare_inline w" "slp w = S_out r" "wait_inv w"
  then show "wait_inv w'" by (simp add: wait_inv_def thread_wait_prepare_inline_def)
next
  fix r b assume "w' = w\<lparr>slp := S_test, timed := b\<rparr>" "wait_inv w"
  then show "wait_inv w'" by (simp add: wait_inv_def)
next
  assume "w' = wake_store w" "wait_inv w"
  then show "wait_inv w'" by (simp add: wait_inv_def wake_store_def)
qed (auto intro: wait_inv_wake_call wait_inv_sleep)

lemma wait_inv_reach: "linux_step\<^sup>*\<^sup>* xwait_start w \<Longrightarrow> wait_inv w"
  by (induction rule: rtranclp_induct) (auto intro: wait_inv_start wait_inv_step)

text \<open>How far a sleep to which a wake is owed is from its return.\<close>

definition sleep_left :: "sleeper \<Rightarrow> nat" where
  "sleep_left p = (case p of S_out r \<Rightarrow> 0 | S_clear b \<Rightarrow> 1 | S_test \<Rightarrow> 2 | S_call \<Rightarrow> 3 | S_blocked \<Rightarrow> 3)"

definition inside :: "xwait \<Rightarrow> bool" where
  "inside w = (case slp w of S_out r \<Rightarrow> False | _ \<Rightarrow> True)"

text \<open>While a sleep to which a wake is owed settles, its word stays set until it returns, and each
  step brings it closer.\<close>

definition settling :: "bool \<Rightarrow> nat \<Rightarrow> xwait \<Rightarrow> bool" where
  "settling lim k w \<longleftrightarrow> wait_inv w \<and> sleep_left (slp w) + waking w \<le> k \<and> timed w = lim \<and>
    (case slp w of S_out (Some True) \<Rightarrow> True | S_out (Some False) \<Rightarrow> owed w \<and> lim | S_out None \<Rightarrow> False | _ \<Rightarrow> owed w)"

lemma settling_woken: "settling lim k w \<Longrightarrow> wake_call w = Some w' \<Longrightarrow> 0 < k \<and> settling lim (k - 1) w'"
  by (cases "slp w") (auto simp: settling_def wake_call_def wait_inv_def sleep_left_def split: if_splits option.splits bool.splits)

lemma settling_going: "settling lim k w \<Longrightarrow> linux_sleep_step c w = Some w' \<Longrightarrow> 0 < k \<and> settling lim (k - 1) w'"
  by (cases "slp w"; cases c) (auto simp: settling_def linux_sleep_step_def wait_inv_def sleep_left_def split: if_splits)

lemma settle_settling:
  assumes "settle w n v" "settling lim k w"
  shows "n \<le> k \<and> settling lim (k - n) v"
  using assms(1)
proof (induction rule: settle.induct)
  case here
  then show ?case using assms(2) by simp
next
  case (woken n v v')
  then show ?case using settling_woken [of lim "k - n" v v'] by auto
next
  case (going n v c v')
  then show ?case using settling_going [of lim "k - n" v c v'] by auto
qed

lemma settling_stuck:
  assumes "settling lim k w" "wake_call w = None" "linux_sleep_step Runs w = None"
  shows "\<exists>b. slp w = S_out (Some b) \<and> (b \<or> lim \<and> owed w)"
  using assms
  by (cases "slp w") (auto simp: settling_def wake_call_def linux_sleep_step_def wait_inv_def split: if_splits option.splits bool.splits)

text \<open>C13: no wake is lost on Linux: once a waker has stored after the last \<open>prepare\<close>, a sleep that
  is under way comes to rest after at most three steps and the wake calls still to be made, whatever the
  order of the kernel, the wakers and the sleeper; when nothing can move any more it has returned, with
  \<open>true\<close> unless it had a time limit, and after a reported time-out the word is still set.\<close>

theorem thread_wait_no_lost_wake:
  assumes "linux_step\<^sup>*\<^sup>* xwait_start w" "owed w" "inside w" "settle w n v"
  shows "n \<le> 3 + waking w \<and> (owed v \<longrightarrow> futex_val v = 1) \<and>
    (wake_call v = None \<and> linux_sleep_step Runs v = None \<longrightarrow> (\<exists>b. slp v = S_out (Some b) \<and> (b \<or> timed w \<and> owed v)))"
proof -
  have "settling (timed w) (3 + waking w) w"
    using wait_inv_reach [OF assms(1)] assms(2,3) by (auto simp: settling_def inside_def sleep_left_def split: sleeper.splits)
  note r = settle_settling [OF assms(4) this]
  then have "wait_inv v" by (simp add: settling_def)
  then show ?thesis using r settling_stuck [OF conjunct2 [OF r]] by (simp add: wait_inv_def)
qed

text \<open>A sleeper that is queued when the waker stores.\<close>

definition xwait_blocked :: xwait where
  "xwait_blocked = \<lparr>futex_val = 1, slp = S_blocked, timed = False, waking = 1, owed = True\<rparr>"

lemma xwait_blocked_reached: "linux_step\<^sup>*\<^sup>* xwait_start xwait_blocked"
proof -
  define w1 where "w1 = xwait_start\<lparr>slp := S_test, timed := False\<rparr>"
  have "linux_step xwait_start w1" unfolding w1_def by (rule wait_step.enter) (simp add: xwait_start_def)
  moreover have "linux_step w1 (w1\<lparr>slp := S_call\<rparr>)"
    by (rule wait_step.go [of _ Runs]) (simp add: w1_def xwait_start_def linux_sleep_step_def)
  moreover have "linux_step (w1\<lparr>slp := S_call\<rparr>) (w1\<lparr>slp := S_blocked\<rparr>)"
    by (rule wait_step.go [of _ Runs]) (simp add: w1_def xwait_start_def linux_sleep_step_def)
  moreover have "linux_step (w1\<lparr>slp := S_blocked\<rparr>) (wake_store (w1\<lparr>slp := S_blocked\<rparr>))" by (rule wait_step.store)
  moreover have "wake_store (w1\<lparr>slp := S_blocked\<rparr>) = xwait_blocked"
    by (simp add: wake_store_def w1_def xwait_start_def xwait_blocked_def)
  ultimately show ?thesis by (metis converse_rtranclp_into_rtranclp rtranclp.rtrancl_refl)
qed

definition xwait_done :: xwait where
  "xwait_done = \<lparr>futex_val = 0, slp = S_out (Some True), timed = False, waking = 0, owed = False\<rparr>"

lemma xwait_blocked_settles: "settle xwait_blocked 3 xwait_done"
proof -
  define w1 where "w1 = xwait_blocked\<lparr>waking := 0, slp := S_test\<rparr>"
  have "settle xwait_blocked (0 + 1) w1"
    by (rule settle.woken [OF settle.here]) (simp add: wake_call_def w1_def xwait_blocked_def)
  then have "settle xwait_blocked (0 + 1 + 1) (w1\<lparr>slp := S_clear True\<rparr>)"
    by (rule settle.going [of _ _ _ Runs]) (simp add: linux_sleep_step_def w1_def xwait_blocked_def)
  then have "settle xwait_blocked (0 + 1 + 1 + 1) xwait_done"
    by (rule settle.going [of _ _ _ Runs]) (simp add: linux_sleep_step_def w1_def xwait_blocked_def xwait_done_def)
  then show ?thesis by (simp add: numeral_3_eq_3)
qed

lemma thread_wait_no_lost_wake_witness:
  "settle xwait_blocked 3 xwait_done \<and> (3::nat) \<le> 3 + waking xwait_blocked \<and> (\<exists>b. slp xwait_done = S_out (Some b))"
  using thread_wait_no_lost_wake [OF xwait_blocked_reached _ _ xwait_blocked_settles] xwait_blocked_settles
  by (auto simp: inside_def xwait_blocked_def xwait_done_def wake_call_def linux_sleep_step_def)

text \<open>On Windows a time-out that meets a wake loses it: the sleep reports a time-out, the wake is
  complete, and the word is clear again.\<close>

definition win_lost :: xwait where
  "win_lost = \<lparr>futex_val = 0, slp = S_out (Some False), timed = True, waking = 0, owed = True\<rparr>"

theorem win_sleep_loses_wake: "win_step\<^sup>*\<^sup>* xwait_start win_lost"
proof -
  define w1 where "w1 = xwait_start\<lparr>slp := S_test, timed := True\<rparr>"
  define w2 where "w2 = wake_store (w1\<lparr>slp := S_clear False\<rparr>)"
  note d = w1_def xwait_start_def win_sleep_for_step_def
  have "win_step\<^sup>*\<^sup>* xwait_start w1"
    unfolding w1_def by (rule r_into_rtranclp, rule wait_step.enter) (simp add: xwait_start_def)
  then have "win_step\<^sup>*\<^sup>* xwait_start (w1\<lparr>slp := S_call\<rparr>)"
    by (rule rtranclp.rtrancl_into_rtrancl, intro wait_step.go [of _ Runs]) (simp add: d)
  then have "win_step\<^sup>*\<^sup>* xwait_start (w1\<lparr>slp := S_blocked\<rparr>)"
    by (rule rtranclp.rtrancl_into_rtrancl, intro wait_step.go [of _ Runs]) (simp add: d)
  then have "win_step\<^sup>*\<^sup>* xwait_start (w1\<lparr>slp := S_clear False\<rparr>)"
    by (rule rtranclp.rtrancl_into_rtrancl, intro wait_step.go [of _ TimedOut]) (simp add: d)
  then have "win_step\<^sup>*\<^sup>* xwait_start w2"
    unfolding w2_def by (rule rtranclp.rtrancl_into_rtrancl) (rule wait_step.store)
  then have "win_step\<^sup>*\<^sup>* xwait_start (w2\<lparr>waking := 0\<rparr>)"
    by (rule rtranclp.rtrancl_into_rtrancl, intro wait_step.call) (simp add: d w2_def win_wake_call_def wake_store_def)
  then show ?thesis
    by (rule rtranclp.rtrancl_into_rtrancl, intro wait_step.go [of _ Runs]) (simp add: d w2_def wake_store_def win_lost_def)
qed

section \<open>The times handed to the system\<close>

lemma sleep_timespec_exact:
  assumes "0 \<le> us"
  shows "0 \<le> tv_nsec (sleep_timespec us) \<and> tv_nsec (sleep_timespec us) < 1000000000 \<and>
    tv_sec (sleep_timespec us) * 1000000000 + tv_nsec (sleep_timespec us) = us * 1000"
proof -
  have "us - us div 1000000 * 1000000 = us mod 1000000" by (rule minus_div_mult_eq_mod)
  moreover have "0 \<le> us mod 1000000" "us mod 1000000 < 1000000" by simp_all
  moreover have "us div 1000000 * 1000000 + us mod 1000000 = us" by (rule div_mult_mod_eq)
  ultimately show ?thesis using assms by (simp add: sleep_timespec_def algebra_simps) linarith
qed

lemma sleep_ms_exact: "1000 \<le> us \<Longrightarrow> us < 4294967296000 \<Longrightarrow> sleep_ms us = us div 1000"
  by (simp add: sleep_ms_def Let_def div_int_pos_iff)

lemma sleep_ms_infinite: "sleep_ms 4294967295000 = INFINITE"
  by (simp add: sleep_ms_def INFINITE_def Let_def)

section \<open>The fast timer of Windows\<close>

text \<open>\<open>g_timer_users\<close>, and how many requests for the 1 ms period the system holds from this process.\<close>

record timer =
  g_timer_users :: w32
  periods :: nat

definition thread_wait_init :: "bool \<Rightarrow> timer \<Rightarrow> bool \<times> timer" where
  "thread_wait_init granted T =
    (if g_timer_users T = 0 \<and> \<not> granted then (False, T)
     else (True, T\<lparr>g_timer_users := g_timer_users T + 1,
                   periods := (if g_timer_users T = 0 then periods T + 1 else periods T)\<rparr>))"

definition thread_wait_shutdown :: "timer \<Rightarrow> timer" where
  "thread_wait_shutdown T =
    (if 0 < g_timer_users T then
       let T1 = T\<lparr>g_timer_users := g_timer_users T - 1\<rparr>
       in if g_timer_users T1 = 0 then T1\<lparr>periods := periods T1 - 1\<rparr> else T1
     else T)"

text \<open>Calls in the order in which they get the lock; \<open>held\<close> counts the successful requests not given back.\<close>

datatype timer_call = Init bool | Shutdown

fun timer_run :: "timer_call list \<Rightarrow> timer \<Rightarrow> timer" where
  "timer_run [] T = T"
| "timer_run (Init granted # cs) T = timer_run cs (snd (thread_wait_init granted T))"
| "timer_run (Shutdown # cs) T = timer_run cs (thread_wait_shutdown T)"

fun timer_held :: "timer_call list \<Rightarrow> nat \<Rightarrow> nat" where
  "timer_held [] n = n"
| "timer_held (Init granted # cs) n = timer_held cs (if n = 0 \<and> \<not> granted then 0 else n + 1)"
| "timer_held (Shutdown # cs) n = timer_held cs (n - 1)"

definition timer_ok :: "nat \<Rightarrow> timer \<Rightarrow> bool" where
  "timer_ok n T \<longleftrightarrow> unat (g_timer_users T) = n \<and> periods T = (if n = 0 then 0 else 1)"

lemma timer_ok_init:
  assumes "timer_ok n T" "n + 1 < 2 ^ 32"
  shows "timer_ok (if n = 0 \<and> \<not> granted then 0 else n + 1) (snd (thread_wait_init granted T))"
proof -
  have u: "unat (g_timer_users T) = n" "g_timer_users T = 0 \<longleftrightarrow> n = 0" using assms(1) by (auto simp: timer_ok_def unat_eq_0)
  then have "unat (g_timer_users T + 1) = n + 1" using assms(2) by (simp add: unat_word_ariths)
  then show ?thesis using assms(1) u by (auto simp: timer_ok_def thread_wait_init_def)
qed

lemma timer_ok_shutdown:
  assumes "timer_ok n T"
  shows "timer_ok (n - 1) (thread_wait_shutdown T)"
proof (cases "n = 0")
  case True
  then have "g_timer_users T = 0" using assms by (simp add: timer_ok_def unat_eq_0)
  then show ?thesis using assms True by (simp add: thread_wait_shutdown_def)
next
  case False
  have u: "unat (g_timer_users T) = n" using assms by (simp add: timer_ok_def)
  then have p: "g_timer_users T \<noteq> 0" using False by auto
  then have "unat (g_timer_users T - 1) = n - 1" using u by (simp add: unat_minus_one)
  moreover from this have "g_timer_users T - 1 = 0 \<longleftrightarrow> n - 1 = 0" by (metis unat_eq_0)
  ultimately show ?thesis using assms False p
    by (auto simp: timer_ok_def thread_wait_shutdown_def Let_def word_gt_0)
qed

text \<open>C35: the request for the fast timer is counted exactly: after any sequence of requests and
  releases, released too often or not, the system holds one request of the process if a successful
  request was not yet given back and none otherwise.\<close>

theorem timer_request_counted:
  assumes "length cs < 2 ^ 32"
  shows "timer_ok (timer_held cs 0) (timer_run cs \<lparr>g_timer_users = 0, periods = 0\<rparr>)"
proof -
  have "timer_ok n T \<Longrightarrow> n + length cs < 2 ^ 32 \<Longrightarrow> timer_ok (timer_held cs n) (timer_run cs T)" for n T
  proof (induction cs n arbitrary: T rule: timer_held.induct)
    case (2 granted cs n)
    then show ?case using timer_ok_init [of n T granted] by (simp split: if_splits)
  next
    case (3 cs n)
    then show ?case using timer_ok_shutdown [of n T] by simp
  qed simp
  from this [of 0] show ?thesis using assms by (simp add: timer_ok_def)
qed

lemma timer_request_counted_witness:
  "timer_ok 1 (timer_run [Init False, Shutdown, Init True, Init False, Shutdown] \<lparr>g_timer_users = 0, periods = 0\<rparr>)"
  using timer_request_counted [of "[Init False, Shutdown, Init True, Init False, Shutdown]"] by simp

end
