(* ===== verification/Thread_Activity.thy ===== *)
theory Thread_Activity
  imports Prelude Complex_Main
begin

text \<open>
  \<open>thread_activity.h\<close>, \<open>thread_activity_linux.c\<close> and \<open>thread_activity_win.c\<close>: samples of a
  thread's wall time and processor time, and the judgement whether a task that runs long computes
  or is blocked.  The readings of the system are arguments.  A double is a real number that went
  through \<open>rnd\<close>, the rounding of the machine, which is an argument too; the values that occur are
  finite.
\<close>

section \<open>Doubles\<close>

text \<open>What IEEE 754 promises of its rounding: it keeps the order, and values with at most 53
  significant bits and an exponent in its range are kept.\<close>

definition rounding_law :: "(real \<Rightarrow> real) \<Rightarrow> bool" where
  "rounding_law rnd \<longleftrightarrow> mono rnd \<and>
    (\<forall>n k. n \<le> 2 ^ 53 \<and> k \<le> 900 \<longrightarrow> rnd (real n * 2 ^ k) = real n * 2 ^ k \<and> rnd (real n / 2 ^ k) = real n / 2 ^ k)"

lemma rnd_mono: "rounding_law rnd \<Longrightarrow> x \<le> y \<Longrightarrow> rnd x \<le> rnd y"
  by (auto simp: rounding_law_def mono_def)

lemma rnd_exact: "rounding_law rnd \<Longrightarrow> n \<le> 2 ^ 53 \<Longrightarrow> rnd (real n) = real n"
  unfolding rounding_law_def by (metis div_by_1 power_0 zero_le)

lemma rnd_0: "rounding_law rnd \<Longrightarrow> rnd 0 = 0"
  using rnd_exact [of rnd 0] by simp

lemma rnd_1: "rounding_law rnd \<Longrightarrow> rnd 1 = 1"
  using rnd_exact [of rnd 1] by simp

lemma rnd_nonneg: "rounding_law rnd \<Longrightarrow> 0 \<le> x \<Longrightarrow> 0 \<le> rnd x"
  using rnd_mono [of rnd 0 x] by (simp add: rnd_0)

lemma rnd_le_power:
  assumes "rounding_law rnd" "x \<le> 2 ^ k" "k \<le> 900"
  shows "rnd x \<le> 2 ^ k"
proof -
  have "rnd (real 1 * 2 ^ k) = real 1 * 2 ^ k"
    using assms(1,3) unfolding rounding_law_def by (meson one_le_numeral one_le_power)
  then show ?thesis using rnd_mono [OF assms(1,2)] by simp
qed

lemma rnd_ge_inverse:
  assumes "rounding_law rnd" "1 / 2 ^ k \<le> x" "k \<le> 900"
  shows "1 / 2 ^ k \<le> rnd x"
proof -
  have "rnd (real 1 / 2 ^ k) = real 1 / 2 ^ k"
    using assms(1,3) unfolding rounding_law_def by (meson one_le_numeral one_le_power)
  then show ?thesis using rnd_mono [OF assms(1,2)] by simp
qed

definition double_of :: "(real \<Rightarrow> real) \<Rightarrow> 64 word \<Rightarrow> real" where
  "double_of rnd n = rnd (real (unat n))"

definition double_div :: "(real \<Rightarrow> real) \<Rightarrow> real \<Rightarrow> real \<Rightarrow> real" where
  "double_div rnd x y = rnd (x / y)"

definition double_mult :: "(real \<Rightarrow> real) \<Rightarrow> real \<Rightarrow> real \<Rightarrow> real" where
  "double_mult rnd x y = rnd (x * y)"

section \<open>Data\<close>

record xthread_sample =
  wall_ns :: "64 word"
  activity :: "64 word"

datatype xtask_state = XTASK_STATE_NORMAL | XTASK_STATE_LONG_CPU | XTASK_STATE_LONG_BLOCKED | XTASK_STATE_LONG_UNCLEAR

record xtask_eval =
  eval_state :: xtask_state
  wall_elapsed_ns :: "64 word"
  activity_delta :: "64 word"
  cpu_ratio :: real

record xtask_thresholds =
  long_threshold_ns :: "64 word"
  blocked_ratio_max :: real
  cpu_ratio_min :: real

definition sample_zero :: xthread_sample where
  "sample_zero = \<lparr>wall_ns = 0, activity = 0\<rparr>"

section \<open>Samples on Linux\<close>

record ts =
  ts_sec :: int
  ts_nsec :: int

definition ts_to_ns :: "ts \<Rightarrow> 64 word" where
  "ts_to_ns t = word_of_int (ts_sec t) * 1000000000 + word_of_int (ts_nsec t)"

definition linux_sample_self :: "ts \<Rightarrow> ts \<Rightarrow> xthread_sample" where
  "linux_sample_self wall cpu = \<lparr>wall_ns = ts_to_ns wall, activity = ts_to_ns cpu\<rparr>"

text \<open>\<open>cid_rc\<close> and \<open>cpu_rc\<close> are the results of \<open>pthread_getcpuclockid\<close> and \<open>clock_gettime\<close>.\<close>

definition linux_sample_of :: "ts \<Rightarrow> int \<Rightarrow> int \<Rightarrow> ts \<Rightarrow> xthread_sample" where
  "linux_sample_of wall cid_rc cpu_rc cpu =
    (if cid_rc \<noteq> 0 then sample_zero
     else if cpu_rc \<noteq> 0 then sample_zero
     else \<lparr>wall_ns = ts_to_ns wall, activity = ts_to_ns cpu\<rparr>)"

definition linux_cycles_per_ns :: real where
  "linux_cycles_per_ns = 1"

section \<open>Samples on Windows\<close>

record activity_win =
  g_qpc_freq :: int
  g_cycles_per_ns :: real
  g_initialized :: int

definition activity_win_zero :: activity_win where
  "activity_win_zero = \<lparr>g_qpc_freq = 0, g_cycles_per_ns = 0, g_initialized = 0\<rparr>"

definition c_mod :: "int \<Rightarrow> int \<Rightarrow> int" where
  "c_mod a b = a - c_div a b * b"

text \<open>A division by zero, when the frequency was never asked for, is \<open>None\<close>.  The inner product is
  unsigned, and so is the division by the converted frequency.\<close>

definition qpc_to_ns :: "activity_win \<Rightarrow> int \<Rightarrow> 64 word option" where
  "qpc_to_ns W c =
    (if g_qpc_freq W = 0 then None
     else let secs = word_of_int (c_div c (g_qpc_freq W)); rem = word_of_int (c_mod c (g_qpc_freq W)) :: 64 word
          in Some (secs * 1000000000 + (rem * 1000000000) div word_of_int (g_qpc_freq W)))"

definition win_sample_self :: "activity_win \<Rightarrow> int \<Rightarrow> 64 word \<Rightarrow> xthread_sample option" where
  "win_sample_self W qpc cycles = map_option (\<lambda>ns. \<lparr>wall_ns = ns, activity = cycles\<rparr>) (qpc_to_ns W qpc)"

definition win_sample_of :: "activity_win \<Rightarrow> int \<Rightarrow> 64 word option \<Rightarrow> xthread_sample option" where
  "win_sample_of W qpc cycles =
    (case cycles of
       None \<Rightarrow> Some sample_zero
     | Some n \<Rightarrow> map_option (\<lambda>ns. \<lparr>wall_ns = ns, activity = n\<rparr>) (qpc_to_ns W qpc))"

text \<open>The busy loop reads the counter until it has passed \<open>target\<close>: \<open>qpc k\<close> is the \<open>k\<close>-th reading,
  and the result the number of the next one.\<close>

partial_function (option) busy_wait :: "(nat \<Rightarrow> int) \<Rightarrow> int \<Rightarrow> nat \<Rightarrow> nat option" where
  "busy_wait qpc target k = (if qpc k < target then busy_wait qpc target (k + 1) else Some (k + 1))"

definition calibrate_cycles_per_ns :: "(real \<Rightarrow> real) \<Rightarrow> (nat \<Rightarrow> int) \<Rightarrow> 64 word \<Rightarrow> 64 word \<Rightarrow> activity_win \<Rightarrow> activity_win option" where
  "calibrate_cycles_per_ns rnd qpc cycles_start cycles_end W =
    (case busy_wait qpc (qpc 0 + c_div (g_qpc_freq W) 100) 1 of
       None \<Rightarrow> None
     | Some k \<Rightarrow>
         let cycles_delta = cycles_end - cycles_start;
             qpc_delta = word_of_int (qpc k - qpc 0) :: 64 word;
             ns_delta = double_div rnd (double_mult rnd (double_of rnd qpc_delta) 1000000000) (rnd (real_of_int (g_qpc_freq W)))
         in Some (W\<lparr>g_cycles_per_ns := (if 0 < ns_delta \<and> 0 < cycles_delta
              then double_div rnd (double_of rnd cycles_delta) ns_delta else rnd (24 / 10))\<rparr>))"

text \<open>\<open>freq\<close> is what \<open>QueryPerformanceFrequency\<close> stores.\<close>

definition win_activity_init :: "(real \<Rightarrow> real) \<Rightarrow> int \<Rightarrow> (nat \<Rightarrow> int) \<Rightarrow> 64 word \<Rightarrow> 64 word \<Rightarrow> activity_win \<Rightarrow> activity_win option" where
  "win_activity_init rnd freq qpc cycles_start cycles_end W =
    (if g_initialized W \<noteq> 0 then Some W
     else calibrate_cycles_per_ns rnd qpc cycles_start cycles_end (W\<lparr>g_initialized := 1, g_qpc_freq := freq\<rparr>))"

section \<open>The judgement\<close>

definition classify :: "xtask_thresholds \<Rightarrow> xtask_eval \<Rightarrow> xtask_eval" where
  "classify t e =
    (if wall_elapsed_ns e < long_threshold_ns t then e
     else if cpu_ratio e < blocked_ratio_max t then e\<lparr>eval_state := XTASK_STATE_LONG_BLOCKED\<rparr>
     else if cpu_ratio_min t \<le> cpu_ratio e then e\<lparr>eval_state := XTASK_STATE_LONG_CPU\<rparr>
     else e\<lparr>eval_state := XTASK_STATE_LONG_UNCLEAR\<rparr>)"

definition eval_zero :: xtask_eval where
  "eval_zero = \<lparr>eval_state = XTASK_STATE_NORMAL, wall_elapsed_ns = 0, activity_delta = 0, cpu_ratio = 0\<rparr>"

definition linux_evaluate_task :: "(real \<Rightarrow> real) \<Rightarrow> xthread_sample \<Rightarrow> xthread_sample \<Rightarrow> xtask_thresholds \<Rightarrow> xtask_eval" where
  "linux_evaluate_task rnd start now t =
    (if wall_ns start = 0 \<or> wall_ns now \<le> wall_ns start then eval_zero
     else let elapsed = wall_ns now - wall_ns start;
              delta = activity now - activity start;
              ratio = double_div rnd (double_of rnd delta) (double_of rnd elapsed);
              ratio = (if ratio > 1 then 1 else ratio)
          in classify t (eval_zero\<lparr>wall_elapsed_ns := elapsed, activity_delta := delta, cpu_ratio := ratio\<rparr>))"

definition win_evaluate_task :: "(real \<Rightarrow> real) \<Rightarrow> activity_win \<Rightarrow> xthread_sample \<Rightarrow> xthread_sample \<Rightarrow> xtask_thresholds \<Rightarrow> xtask_eval" where
  "win_evaluate_task rnd W start now t =
    (if wall_ns start = 0 \<or> wall_ns now \<le> wall_ns start then eval_zero
     else let elapsed = wall_ns now - wall_ns start;
              delta = activity now - activity start;
              cpu = (if 0 < g_cycles_per_ns W then double_div rnd (double_of rnd delta) (g_cycles_per_ns W) else 0);
              ratio = double_div rnd cpu (double_of rnd elapsed);
              ratio = (if ratio > 1 then 1 else ratio)
          in classify t (eval_zero\<lparr>wall_elapsed_ns := elapsed, activity_delta := delta, cpu_ratio := ratio\<rparr>))"

definition xthread_should_handoff :: "xtask_eval \<Rightarrow> bool" where
  "xthread_should_handoff e \<longleftrightarrow> eval_state e = XTASK_STATE_LONG_BLOCKED"

definition default_thresholds :: "(real \<Rightarrow> real) \<Rightarrow> xtask_thresholds" where
  "default_thresholds rnd = \<lparr>long_threshold_ns = 30 * 1000 * 1000, blocked_ratio_max = rnd (30 / 100), cpu_ratio_min = rnd (70 / 100)\<rparr>"

section \<open>What the judgement says\<close>

lemma classify_state [simp]:
  "eval_state e = XTASK_STATE_NORMAL \<Longrightarrow> eval_state (classify t e) =
    (if wall_elapsed_ns e < long_threshold_ns t then XTASK_STATE_NORMAL
     else if cpu_ratio e < blocked_ratio_max t then XTASK_STATE_LONG_BLOCKED
     else if cpu_ratio_min t \<le> cpu_ratio e then XTASK_STATE_LONG_CPU else XTASK_STATE_LONG_UNCLEAR)"
  by (simp add: classify_def)

lemma classify_ratio [simp]: "cpu_ratio (classify t e) = cpu_ratio e"
  by (simp add: classify_def)

lemma eval_zero_state [simp]: "eval_state eval_zero = XTASK_STATE_NORMAL"
  by (simp add: eval_zero_def)

lemma ratio_below:
  assumes "rounding_law rnd" "rnd b = b" "n \<le> 2 ^ 53" "0 < m" "m \<le> 2 ^ 53" "rnd (rnd (real n) / rnd (real m)) < b"
  shows "real n < b * real m"
proof (rule ccontr)
  assume "\<not> real n < b * real m"
  then have "b \<le> real n / real m" using assms(4) by (simp add: field_simps)
  then have "b \<le> rnd (real n / real m)" using rnd_mono [OF assms(1)] assms(2) by metis
  then show False using assms(6) rnd_exact [OF assms(1)] assms(3,5) by simp
qed

lemma ratio_above:
  assumes "rounding_law rnd" "rnd b = b" "n \<le> 2 ^ 53" "0 < m" "m \<le> 2 ^ 53" "b * real m \<le> real n"
  shows "b \<le> rnd (rnd (real n) / rnd (real m))"
proof -
  have "b \<le> real n / real m" using assms(4,6) by (simp add: field_simps)
  then show ?thesis using rnd_mono [OF assms(1)] assms(2) rnd_exact [OF assms(1)] assms(3,5) by metis
qed

text \<open>C32: the judgement on Linux, for samples that are at most 104 days (\<open>2^53\<close> ns) apart: the ratio
  lies between 0 and 1; a task is called normal exactly if a sample failed, the clock did not go on, or the
  task is not long; a task handed off has really used less processor time than the given fraction of
  its time, and a long task that used at least the other fraction is called busy.\<close>

theorem activity_judgement_sound:
  assumes "rounding_law rnd" "rnd (blocked_ratio_max t) = blocked_ratio_max t" "rnd (cpu_ratio_min t) = cpu_ratio_min t"
    "blocked_ratio_max t \<le> cpu_ratio_min t" "cpu_ratio_min t \<le> 1"
    "unat (wall_ns now - wall_ns start) \<le> 2 ^ 53" "unat (activity now - activity start) \<le> 2 ^ 53"
  defines "e \<equiv> linux_evaluate_task rnd start now t" and "wall \<equiv> wall_ns now - wall_ns start"
    and "cpu \<equiv> real (unat (activity now - activity start))"
  shows "0 \<le> cpu_ratio e \<and> cpu_ratio e \<le> 1 \<and>
    (eval_state e = XTASK_STATE_NORMAL \<longleftrightarrow>
      wall_ns start = 0 \<or> wall_ns now = 0 \<or> wall_ns now \<le> wall_ns start \<or> wall < long_threshold_ns t) \<and>
    (xthread_should_handoff e \<longrightarrow> long_threshold_ns t \<le> wall \<and> cpu < blocked_ratio_max t * real (unat wall)) \<and>
    (eval_state e \<noteq> XTASK_STATE_NORMAL \<and> cpu_ratio_min t * real (unat wall) \<le> cpu \<longrightarrow> eval_state e = XTASK_STATE_LONG_CPU)"
proof (cases "wall_ns start = 0 \<or> wall_ns now \<le> wall_ns start")
  case True
  then show ?thesis by (auto simp: e_def linux_evaluate_task_def xthread_should_handoff_def) (simp_all add: eval_zero_def)
next
  case False
  define r where "r = rnd (rnd cpu / rnd (real (unat wall)))"
  have w: "0 < unat wall" "unat wall \<le> 2 ^ 53" "wall_ns now \<noteq> 0"
    using False assms(6) by (auto simp: wall_def unat_gt_0)
  have r0: "0 \<le> r" unfolding r_def cpu_def by (intro rnd_nonneg [OF assms(1)] divide_nonneg_nonneg of_nat_0_le_iff)
  let ?r = "if r > 1 then 1 else r"
  have e: "e = classify t (eval_zero\<lparr>wall_elapsed_ns := wall, activity_delta := activity now - activity start, cpu_ratio := ?r\<rparr>)"
    using False by (simp add: e_def linux_evaluate_task_def Let_def double_div_def double_of_def r_def cpu_def wall_def)
  have st: "eval_state e = (if wall < long_threshold_ns t then XTASK_STATE_NORMAL
     else if ?r < blocked_ratio_max t then XTASK_STATE_LONG_BLOCKED
     else if cpu_ratio_min t \<le> ?r then XTASK_STATE_LONG_CPU else XTASK_STATE_LONG_UNCLEAR)"
    unfolding e by (subst classify_state) (simp_all add: eval_zero_def)
  have low: "cpu < blocked_ratio_max t * real (unat wall)" if "?r < blocked_ratio_max t"
  proof -
    have "r < blocked_ratio_max t" using that assms(4,5) by (auto split: if_splits)
    then show ?thesis unfolding cpu_def r_def by (rule ratio_below [OF assms(1,2,7) w(1,2)])
  qed
  have high: "cpu_ratio_min t \<le> ?r" if "cpu_ratio_min t * real (unat wall) \<le> cpu"
    using ratio_above [OF assms(1,3,7) w(1,2)] that assms(5) by (simp add: cpu_def r_def)
  have "cpu_ratio e = ?r" by (simp add: e)
  moreover have "eval_state e = XTASK_STATE_NORMAL \<longleftrightarrow> wall < long_threshold_ns t" unfolding st by simp
  moreover have "xthread_should_handoff e \<longrightarrow> \<not> wall < long_threshold_ns t \<and> ?r < blocked_ratio_max t"
    unfolding xthread_should_handoff_def st by simp
  moreover have "eval_state e \<noteq> XTASK_STATE_NORMAL \<and> cpu_ratio_min t \<le> ?r \<longrightarrow> eval_state e = XTASK_STATE_LONG_CPU"
    unfolding st using assms(4) by simp
  ultimately show ?thesis using r0 low high False w(3) by (auto simp: not_less)
qed

text \<open>Forty milliseconds with ten of processor time, against half and three quarters.\<close>

lemma rounding_id: "rounding_law (\<lambda>x. x)"
  by (simp add: rounding_law_def mono_def)

lemma activity_judgement_sound_witness:
  "let t = \<lparr>long_threshold_ns = 30000000, blocked_ratio_max = 1 / 2, cpu_ratio_min = 3 / 4\<rparr>;
       e = linux_evaluate_task (\<lambda>x. x) \<lparr>wall_ns = 1000, activity = 0\<rparr> \<lparr>wall_ns = 40001000, activity = 10000000\<rparr> t
   in xthread_should_handoff e \<and> (10000000 :: real) < 1 / 2 * 40000000"
proof -
  let ?t = "\<lparr>long_threshold_ns = 30000000, blocked_ratio_max = 1 / 2, cpu_ratio_min = 3 / 4\<rparr>"
  let ?e = "linux_evaluate_task (\<lambda>x. x) \<lparr>wall_ns = 1000, activity = 0\<rparr> \<lparr>wall_ns = 40001000, activity = 10000000\<rparr> ?t"
  have "xthread_should_handoff ?e"
    by (simp add: linux_evaluate_task_def Let_def double_div_def double_of_def xthread_should_handoff_def classify_def eval_zero_def)
  then show ?thesis
    using activity_judgement_sound [OF rounding_id, of ?t "\<lparr>wall_ns = 40001000, activity = 10000000\<rparr>" "\<lparr>wall_ns = 1000, activity = 0\<rparr>"]
    by (simp add: Let_def)
qed

text \<open>Before the calibration the ratio is 0 on Windows: every long task is handed off.\<close>

lemma win_uncalibrated_handoff:
  assumes "rounding_law rnd" "g_cycles_per_ns W = 0" "0 < blocked_ratio_max t" "0 < wall_ns start" "wall_ns start < wall_ns now"
    "long_threshold_ns t \<le> wall_ns now - wall_ns start"
  shows "xthread_should_handoff (win_evaluate_task rnd W start now t)"
  using assms by (auto simp: win_evaluate_task_def Let_def double_div_def rnd_0 xthread_should_handoff_def eval_zero_def)

section \<open>The counter of Windows\<close>

text \<open>The conversion of the performance counter is exact: for a frequency up to 18 GHz and every time
  of less than 584 years, the split multiplication does not overflow and gives the nanoseconds,
  rounded down once.\<close>

theorem qpc_to_ns_exact:
  assumes "0 < g_qpc_freq W" "g_qpc_freq W \<le> 18000000000" "0 \<le> c" "c * 1000000000 < 2 ^ 64 * g_qpc_freq W"
  shows "\<exists>ns. qpc_to_ns W c = Some ns \<and> uint ns = c * 1000000000 div g_qpc_freq W"
proof -
  let ?f = "g_qpc_freq W"
  let ?q = "c div ?f" and ?r = "c mod ?f"
  have r: "0 \<le> ?r" "?r < ?f" using assms(1) by simp_all
  have e: "c * 1000000000 = ?q * 1000000000 * ?f + ?r * 1000000000"
  proof -
    have "c * 1000000000 = (?q * ?f + ?r) * 1000000000" by (simp only: div_mult_mod_eq)
    also have "\<dots> = ?q * 1000000000 * ?f + ?r * 1000000000" by (simp only: distrib_right mult.assoc mult.left_commute mult.commute [of ?f])
    finally show ?thesis .
  qed
  have d: "c * 1000000000 div ?f = ?q * 1000000000 + ?r * 1000000000 div ?f" unfolding e using assms(1) by simp
  have lt: "c * 1000000000 div ?f < 2 ^ 64"
  proof (rule ccontr)
    assume "\<not> c * 1000000000 div ?f < 2 ^ 64"
    then have "2 ^ 64 * ?f \<le> c * 1000000000 div ?f * ?f" using assms(1) by (intro mult_right_mono) simp_all
    also have "\<dots> \<le> c * 1000000000 div ?f * ?f + c * 1000000000 mod ?f" using pos_mod_sign [OF assms(1)] by (simp only: le_add_same_cancel1)
    also have "\<dots> = c * 1000000000" by (rule div_mult_mod_eq)
    finally show False using assms(4) by simp
  qed
  have q0: "0 \<le> ?q" using assms(1,3) by (simp add: pos_imp_zdiv_nonneg_iff)
  have s0: "0 \<le> ?r * 1000000000 div ?f" using assms(1) r(1) by (simp add: pos_imp_zdiv_nonneg_iff)
  have qs: "?q * 1000000000 < 2 ^ 64" "?q < 2 ^ 64" using lt d s0 q0 by simp_all
  have rs: "?r * 1000000000 < 2 ^ 64" "?r < 2 ^ 64" using r assms(2) by simp_all
  have f: "?f < 2 ^ 64" using assms(2) by simp
  have cm: "c_div c ?f = ?q" "c_mod c ?f = ?r"
    using assms(1,3) by (simp_all add: c_mod_def minus_div_mult_eq_mod)
  have u: "uint (word_of_int ?q * 1000000000 :: 64 word) = ?q * 1000000000"
    "uint (word_of_int ?r * 1000000000 :: 64 word) = ?r * 1000000000" "uint (word_of_int ?f :: 64 word) = ?f"
    using qs rs q0 r f assms(1) by (simp_all add: uint_word_ariths uint_word_of_int)
  let ?ns = "word_of_int ?q * 1000000000 + (word_of_int ?r * 1000000000) div word_of_int ?f :: 64 word"
  have "uint ?ns = (?q * 1000000000 + ?r * 1000000000 div ?f) mod 2 ^ 64"
    by (subst uint_word_ariths(1)) (simp only: uint_div u len_num1 len_bit0 mult_1_right flip: power_mult, simp)
  then have "uint ?ns = c * 1000000000 div ?f" using d lt q0 s0 by (simp del: power_numeral)
  moreover have "qpc_to_ns W c = Some ?ns" using assms(1) by (simp add: qpc_to_ns_def cm Let_def)
  ultimately show ?thesis by blast
qed

lemma qpc_to_ns_exact_witness:
  "\<exists>ns. qpc_to_ns (activity_win_zero\<lparr>g_qpc_freq := 10000000\<rparr>) 12345678901 = Some ns \<and> uint ns = 1234567890100"
  using qpc_to_ns_exact [of "activity_win_zero\<lparr>g_qpc_freq := 10000000\<rparr>" 12345678901] by simp

text \<open>A caller that finds the initialisation begun by another thread goes on without a frequency, and its
  first sample divides by zero.\<close>

lemma win_sample_too_early:
  "win_activity_init rnd f qpc c0 c1 (activity_win_zero\<lparr>g_initialized := 1\<rparr>) = Some (activity_win_zero\<lparr>g_initialized := 1\<rparr>) \<and>
   win_sample_self (activity_win_zero\<lparr>g_initialized := 1\<rparr>) qpc0 cycles = None"
  by (simp add: win_activity_init_def win_sample_self_def qpc_to_ns_def activity_win_zero_def)

section \<open>Calibration\<close>

lemma busy_wait_ends:
  assumes "target \<le> qpc (k + n)"
  shows "\<exists>m \<ge> k. m \<le> k + n \<and> target \<le> qpc m \<and> busy_wait qpc target k = Some (m + 1)"
  using assms
proof (induction n arbitrary: k)
  case 0
  then show ?case by (intro exI [of _ k]) (simp add: busy_wait.simps)
next
  case (Suc n)
  show ?case
  proof (cases "qpc k < target")
    case True
    then obtain m where "m \<ge> k + 1" "m \<le> k + 1 + n" "target \<le> qpc m" "busy_wait qpc target (k + 1) = Some (m + 1)"
      using Suc.IH [of "k + 1"] Suc.prems by auto
    then show ?thesis using True by (intro exI [of _ m]) (simp add: busy_wait.simps [of _ _ k])
  next
    case False
    then show ?thesis by (intro exI [of _ k]) (simp add: busy_wait.simps)
  qed
qed

text \<open>Initialisation on Windows returns as soon as the counter reaches its target, and leaves a
  positive rate, so the judgement never divides by zero; a second one changes nothing.\<close>

lemma activity_init_calibrates:
  assumes "rounding_law rnd" "0 < freq" "freq < 2 ^ 63" "qpc 0 + freq div 100 \<le> qpc (1 + n)"
  shows "\<exists>W. win_activity_init rnd freq qpc c0 c1 activity_win_zero = Some W \<and> 0 < g_cycles_per_ns W \<and> g_qpc_freq W = freq \<and>
    win_activity_init rnd freq qpc' c0' c1' W = Some W"
proof -
  obtain m where b: "busy_wait qpc (qpc 0 + freq div 100) 1 = Some (m + 1)" using busy_wait_ends [of _ qpc 1 n] assms(4) by blast
  define ns where "ns = double_div rnd (double_mult rnd (double_of rnd (word_of_int (qpc (m + 1) - qpc 0))) 1000000000) (rnd (real_of_int freq))"
  have d: "double_of rnd w \<le> 2 ^ 64" for w
    unfolding double_of_def
  proof (rule rnd_le_power [OF assms(1)])
    have "unat w \<le> 2 ^ 64" using unsigned_less [where 'a = nat, of w] by simp
    then have "real (unat w) \<le> real (2 ^ 64)" by (rule of_nat_mono)
    then show "real (unat w) \<le> 2 ^ 64" by simp
  qed simp
  have one: "1 \<le> rnd (real_of_int freq)" using rnd_mono [OF assms(1), of 1 "real_of_int freq"] assms(2) rnd_1 [OF assms(1)] by simp
  have m1: "double_mult rnd (double_of rnd w) 1000000000 \<le> 2 ^ 94" for w
    unfolding double_mult_def using d [of w] by (intro rnd_le_power [OF assms(1)]) simp_all
  have m0: "0 \<le> double_mult rnd (double_of rnd w) 1000000000" for w
    unfolding double_mult_def double_of_def by (intro rnd_nonneg [OF assms(1)] mult_nonneg_nonneg of_nat_0_le_iff) simp_all
  have "ns \<le> 2 ^ 94"
    unfolding ns_def double_div_def
  proof (rule rnd_le_power [OF assms(1)])
    let ?x = "double_mult rnd (double_of rnd (word_of_int (qpc (m + 1) - qpc 0))) 1000000000"
    have "?x / rnd (real_of_int freq) \<le> ?x / 1" using one m0 by (intro divide_left_mono) simp_all
    then show "?x / rnd (real_of_int freq) \<le> 2 ^ 94" using m1 order_trans by fastforce
  qed simp
  then have rate: "0 < double_div rnd (double_of rnd w) ns" if "0 < ns" "0 < w" for w
  proof -
    have "1 \<le> unat w" using that(2) by (simp add: Suc_le_eq unat_gt_0)
    then have "real 1 \<le> real (unat w)" by (rule of_nat_mono)
    then have "1 \<le> double_of rnd w" unfolding double_of_def using rnd_mono [OF assms(1)] rnd_1 [OF assms(1)] by (metis of_nat_1)
    then have "1 / 2 ^ 94 \<le> double_of rnd w / ns" using that(1) \<open>ns \<le> 2 ^ 94\<close> by (intro frac_le) simp_all
    then have "1 / 2 ^ 94 \<le> double_div rnd (double_of rnd w) ns" unfolding double_div_def by (rule rnd_ge_inverse [OF assms(1)]) simp
    then show ?thesis by (rule less_le_trans [rotated]) simp
  qed
  have "0 < rnd (24 / 10)" using rnd_mono [OF assms(1), of 1 "24 / 10"] rnd_1 [OF assms(1)] by simp
  then show ?thesis
    using b assms(2) rate ns_def [symmetric]
    by (auto simp: win_activity_init_def calibrate_cycles_per_ns_def activity_win_zero_def Let_def)
qed

end
