(* ===== verification/Thread_Registry.thy ===== *)
theory Thread_Registry
  imports Prelude
begin

text \<open>
  \<open>thread_handler.c\<close>: creating and joining threads, and the list of the threads alive.  The list is
  the C array with its count and capacity; the \<open>Thread\<close> objects are a heap from addresses to
  records, each with the points its creator and its own function \<open>tfun\<close> have reached.  Every step is
  one section under the lock or one action outside it; steps of all threads interleave.
\<close>

section \<open>The list\<close>

record ThreadList =
  tl_max :: int
  tl_count :: int
  tl_items :: "addr list"

abbreviation (input) THR_LIST_INIT_COUNT :: int where "THR_LIST_INIT_COUNT \<equiv> 16"

definition create_list :: ThreadList where
  "create_list = \<lparr>tl_max = THR_LIST_INIT_COUNT, tl_count = 0, tl_items = replicate (nat THR_LIST_INIT_COUNT) 0\<rparr>"

text \<open>\<open>room\<close> says whether \<open>realloc\<close> has memory; its result is not checked, so without memory the
  store that follows goes through NULL (None).\<close>

definition add_list :: "bool \<Rightarrow> addr \<Rightarrow> ThreadList \<Rightarrow> ThreadList option" where
  "add_list room thr L =
    (let sz = i32 (tl_count L + 1);
         L1 = (if sz \<ge> tl_max L
               then (let new_max = u64 (tl_max L * 2)
                     in L\<lparr>tl_items := (if room then take (nat new_max) (tl_items L) @ replicate (nat new_max - length (tl_items L)) 0 else []),
                          tl_max := i32 new_max\<rparr>)
               else L)
     in if nat (tl_count L1) < length (tl_items L1)
        then Some (L1\<lparr>tl_items := (tl_items L1)[nat (tl_count L1) := thr], tl_count := i32 (tl_count L1 + 1)\<rparr>)
        else None)"

function shift_down :: "int \<Rightarrow> int \<Rightarrow> addr list \<Rightarrow> addr list" where
  "shift_down ix count xs =
    (if 0 \<le> ix \<and> ix < count - 1 then shift_down (ix + 1) count (xs[nat ix := xs ! nat (ix + 1)]) else xs)"
  by pat_completeness auto
termination by (relation "measure (\<lambda>(ix, count, xs). nat (count - 1 - ix))") auto

function remove_loop :: "int \<Rightarrow> addr \<Rightarrow> ThreadList \<Rightarrow> ThreadList" where
  "remove_loop ix thr L =
    (if 0 \<le> ix \<and> ix < tl_count L then
       if tl_items L ! nat ix = thr
       then L\<lparr>tl_items := shift_down ix (tl_count L) (tl_items L), tl_count := tl_count L - 1\<rparr>
       else remove_loop (ix + 1) thr L
     else L)"
  by pat_completeness auto
termination by (relation "measure (\<lambda>(ix, thr, L). nat (tl_count L - ix))") auto

declare shift_down.simps [simp del] remove_loop.simps [simp del]

definition remove_list :: "addr \<Rightarrow> ThreadList \<Rightarrow> ThreadList" where
  "remove_list thr L = remove_loop 0 thr L"

section \<open>Threads\<close>

datatype create_pc = C_new | C_inited | C_listed | C_starting | C_done | C_failed | C_unlisted

datatype tfun_pc = T_none | T_begin | T_created addr addr | T_body addr | T_ended addr | T_remove | T_exited

record Thread =
  thr_func :: addr
  thr_arg :: addr
  thr_handle :: bool
  thr_joined :: bool
  cpc :: create_pc
  tpc :: tfun_pc

record registry =
  Threads :: ThreadList
  OnCreatedThread :: addr
  OnEndedThread :: addr
  ThreadHandlerInited :: bool
  objects :: "addr \<rightharpoonup> Thread"

definition thread_handler_init_once :: "registry \<Rightarrow> registry" where
  "thread_handler_init_once R =
    (if \<not> ThreadHandlerInited R then R\<lparr>Threads := create_list, ThreadHandlerInited := True\<rparr> else R)"

definition put_thread :: "addr \<Rightarrow> Thread \<Rightarrow> registry \<Rightarrow> registry" where
  "put_thread a t R = R\<lparr>objects := (objects R)(a \<mapsto> t)\<rparr>"

text \<open>What the environment answers: memory for the object (an unused address) and for the list,
  and whether the system starts the thread.\<close>

record create_answers =
  mem_thread :: "addr option"
  list_room :: bool
  started :: bool

definition thread_create_begin :: "create_answers \<Rightarrow> addr \<Rightarrow> addr \<Rightarrow> registry \<Rightarrow> addr option \<times> registry" where
  "thread_create_begin V func arg R =
    (if func = 0 then (None, R)
     else case mem_thread V of
       None \<Rightarrow> (None, R)
     | Some a \<Rightarrow> (Some a, put_thread a \<lparr>thr_func = func, thr_arg = arg, thr_handle = False, thr_joined = False, cpc = C_new, tpc = T_none\<rparr> R))"

text \<open>The rest of \<open>thread_create\<close>, one section at a time; the new thread may run before the handle is stored.\<close>

definition thread_create_step :: "create_answers \<Rightarrow> addr \<Rightarrow> Thread \<Rightarrow> registry \<Rightarrow> registry option" where
  "thread_create_step V a t R =
    (case cpc t of
       C_new \<Rightarrow> Some (put_thread a (t\<lparr>cpc := C_inited\<rparr>) (thread_handler_init_once R))
     | C_inited \<Rightarrow> map_option (\<lambda>L. put_thread a (t\<lparr>cpc := C_listed\<rparr>) (R\<lparr>Threads := L\<rparr>)) (add_list (list_room V) a (Threads R))
     | C_listed \<Rightarrow> Some (put_thread a (if started V then t\<lparr>cpc := C_starting, tpc := T_begin\<rparr> else t\<lparr>cpc := C_failed\<rparr>) R)
     | C_starting \<Rightarrow> Some (put_thread a (t\<lparr>cpc := C_done, thr_handle := True\<rparr>) R)
     | C_failed \<Rightarrow> Some (put_thread a (t\<lparr>cpc := C_unlisted\<rparr>) (R\<lparr>Threads := remove_list a (Threads R)\<rparr>))
     | C_unlisted \<Rightarrow> Some (R\<lparr>objects := (objects R)(a := None)\<rparr>)
     | C_done \<Rightarrow> None)"

text \<open>\<open>tfun\<close>: the callbacks are read under the lock, called outside it, and the thread takes itself off the list.\<close>

datatype thread_event = Quiet_step | Called addr addr | Enumerated "addr list"

definition tfun_step :: "addr \<Rightarrow> Thread \<Rightarrow> registry \<Rightarrow> (thread_event \<times> registry) option" where
  "tfun_step a t R =
    (case tpc t of
       T_begin \<Rightarrow> Some (Quiet_step, put_thread a (t\<lparr>tpc := T_created (OnCreatedThread R) (OnEndedThread R)\<rparr>) R)
     | T_created f g \<Rightarrow> Some (if f \<noteq> 0 then Called f a else Quiet_step, put_thread a (t\<lparr>tpc := T_body g\<rparr>) R)
     | T_body g \<Rightarrow> Some (Called (thr_func t) (thr_arg t), put_thread a (t\<lparr>tpc := T_ended g\<rparr>) R)
     | T_ended g \<Rightarrow> Some (if g \<noteq> 0 then Called g a else Quiet_step, put_thread a (t\<lparr>tpc := T_remove\<rparr>) R)
     | T_remove \<Rightarrow> Some (Quiet_step, put_thread a (t\<lparr>tpc := T_exited\<rparr>) (R\<lparr>Threads := remove_list a (Threads R)\<rparr>))
     | _ \<Rightarrow> None)"

text \<open>\<open>thread_join\<close> returns once the thread has ended; the pointer of the caller becomes NULL.\<close>

definition thread_join :: "addr option \<Rightarrow> registry \<Rightarrow> (addr option \<times> registry) option" where
  "thread_join p R =
    (case p of
       None \<Rightarrow> Some (None, R)
     | Some a \<Rightarrow>
         (case objects R a of
            None \<Rightarrow> None
          | Some t \<Rightarrow> if thr_joined t \<or> tpc t = T_exited then Some (None, R\<lparr>objects := (objects R)(a := None)\<rparr>) else None))"

definition thread_init :: "addr \<Rightarrow> addr \<Rightarrow> registry \<Rightarrow> registry" where
  "thread_init created ended R = (thread_handler_init_once R)\<lparr>OnCreatedThread := created, OnEndedThread := ended\<rparr>"

text \<open>The objects the callback of \<open>thread_enum\<close> gets, in order.\<close>

definition thread_enum :: "registry \<Rightarrow> addr list \<times> registry" where
  "thread_enum R =
    (let R1 = thread_handler_init_once R in (map (\<lambda>i. tl_items (Threads R1) ! nat i) [0..tl_count (Threads R1) - 1], R1))"

section \<open>The system\<close>

inductive thread_step :: "registry \<Rightarrow> thread_event \<Rightarrow> registry \<Rightarrow> bool" where
  create: "thread_create_begin V func arg R = (Some a, R') \<Longrightarrow> objects R a = None \<Longrightarrow> thread_step R Quiet_step R'"
| creating: "objects R a = Some t \<Longrightarrow> thread_create_step V a t R = Some R' \<Longrightarrow> thread_step R Quiet_step R'"
| thread: "objects R a = Some t \<Longrightarrow> tfun_step a t R = Some (e, R') \<Longrightarrow> thread_step R e R'"
| join: "objects R a = Some t \<Longrightarrow> cpc t = C_done \<Longrightarrow> thread_join (Some a) R = Some (q, R') \<Longrightarrow> thread_step R Quiet_step R'"
| init: "thread_step R Quiet_step (thread_init created ended R)"
| enum: "thread_enum R = (xs, R') \<Longrightarrow> thread_step R (Enumerated xs) R'"

inductive thread_run :: "registry \<Rightarrow> thread_event list \<Rightarrow> registry \<Rightarrow> bool" for R0 where
  start: "thread_run R0 [] R0"
| more: "thread_run R0 es R \<Longrightarrow> thread_step R e R' \<Longrightarrow> thread_run R0 (es @ [e]) R'"

definition registry_zero :: registry where
  "registry_zero = \<lparr>Threads = \<lparr>tl_max = 0, tl_count = 0, tl_items = []\<rparr>, OnCreatedThread = 0, OnEndedThread = 0,
     ThreadHandlerInited = False, objects = Map.empty\<rparr>"

section \<open>The list is a sequence\<close>

definition tl_list :: "ThreadList \<Rightarrow> addr list" where
  "tl_list L = take (nat (tl_count L)) (tl_items L)"

definition tl_ok :: "ThreadList \<Rightarrow> bool" where
  "tl_ok L \<longleftrightarrow> 0 \<le> tl_count L \<and> tl_count L < tl_max L \<and> int (length (tl_items L)) = tl_max L \<and> tl_max L \<le> 2 ^ 30"

lemma tl_list_length: "tl_ok L \<Longrightarrow> int (length (tl_list L)) = tl_count L"
  by (auto simp: tl_ok_def tl_list_def)

lemma create_list_ok: "tl_ok create_list" "tl_list create_list = []"
  by (simp_all add: tl_ok_def create_list_def tl_list_def)

lemma add_list_appends:
  assumes "tl_ok L" "tl_count L < 2 ^ 29 - 1"
  shows "\<exists>L'. add_list True a L = Some L' \<and> tl_ok L' \<and> tl_list L' = tl_list L @ [a]"
proof -
  obtain c where c: "tl_count L = int c" "c < length (tl_items L)" using assms(1) by (auto simp: tl_ok_def dest!: zero_le_imp_eq_int)
  show ?thesis
  proof (cases "tl_count L + 1 \<ge> tl_max L")
    case False
    then show ?thesis using assms c
      by (simp add: add_list_def Let_def i32_id tl_ok_def tl_list_def nat_add_distrib take_Suc_conv_app_nth)
  next
    case True
    then have m: "tl_max L = int c + 1" "length (tl_items L) = c + 1" using assms(1) c by (auto simp: tl_ok_def)
    have n: "int c + 1 \<le> 2 ^ 29" using assms(2) c(1) by simp
    have nn: "nat (int c * 2 + 2) = 2 * c + 2" by (simp add: nat_add_distrib nat_mult_distrib mult.commute)
    have mx: "u64 (tl_max L * 2) = int c * 2 + 2" "i32 (int c * 2 + 2) = int c * 2 + 2" using m n by simp_all
    let ?xs = "take (2 * c + 2) (tl_items L) @ replicate (2 * c + 2 - length (tl_items L)) 0"
    have xs: "length ?xs = 2 * c + 2" "take c ?xs = take c (tl_items L)" using m(2) by simp_all
    have "add_list True a L = Some (L\<lparr>tl_max := int c * 2 + 2, tl_items := ?xs[c := a], tl_count := int c + 1\<rparr>)"
      using True c m n mx nn xs(1) by (simp add: add_list_def Let_def i32_id)
    moreover have "take (c + 1) (?xs[c := a]) = take c (tl_items L) @ [a]"
      using xs by (simp add: take_Suc_conv_app_nth del: take_append)
    ultimately show ?thesis using c n xs(1) by (auto simp: tl_ok_def tl_list_def nat_add_distrib)
  qed
qed

lemma shift_down_result:
  "i < n \<Longrightarrow> n \<le> length xs \<Longrightarrow> length (shift_down (int i) (int n) xs) = length xs \<and>
   take (n - 1) (shift_down (int i) (int n) xs) = take i xs @ drop (i + 1) (take n xs)"
proof (induction "n - i" arbitrary: i xs)
  case (Suc k)
  show ?case
  proof (cases "i + 1 < n")
    case True
    let ?ys = "xs[i := xs ! (i + 1)]"
    have "shift_down (int i) (int n) xs = shift_down (int (i + 1)) (int n) ?ys"
      using True by (subst shift_down.simps) (simp add: nat_add_distrib add.commute)
    moreover have "k = n - (i + 1)" "i + 1 < n" "n \<le> length ?ys" using Suc(2,4) True by simp_all
    note ih = Suc(1) [OF this]
    moreover have "take (i + 1) ?ys = take i xs @ [xs ! (i + 1)]" using Suc(3,4) True by (simp add: take_Suc_conv_app_nth)
    moreover have "drop (i + 1) (take n xs) = xs ! (i + 1) # drop (i + 1 + 1) (take n xs)"
      using Suc(4) True Cons_nth_drop_Suc [of "i + 1" "take n xs"] by simp
    moreover have "drop (i + 1 + 1) (take n ?ys) = drop (i + 1 + 1) (take n xs)" by (simp add: take_update_swap)
    ultimately show ?thesis by simp
  next
    case False
    then have "n = i + 1" using Suc(3) by simp
    moreover then have "shift_down (int i) (int n) xs = xs" by (subst shift_down.simps) simp
    ultimately show ?thesis by simp
  qed
qed simp

lemma remove_loop_result:
  assumes "tl_ok L" "i \<le> length (tl_list L)" "a \<notin> set (take i (tl_list L))"
  shows "tl_ok (remove_loop (int i) a L) \<and> tl_list (remove_loop (int i) a L) = remove1 a (tl_list L)"
  using assms(2,3)
proof (induction "length (tl_list L) - i" arbitrary: i)
  case 0
  then have "\<not> int i < tl_count L" "a \<notin> set (tl_list L)" using tl_list_length [OF assms(1)] by auto
  then show ?case using assms(1) by (subst (1 2) remove_loop.simps) (simp add: remove1_idem)
next
  case (Suc k)
  have c: "tl_count L = int (length (tl_list L))" "length (tl_list L) \<le> length (tl_items L)"
    using tl_list_length [OF assms(1)] by (simp_all add: tl_list_def)
  have i: "i < length (tl_list L)" using Suc(2) by linarith
  then have i: "i < length (tl_list L)" "tl_items L ! i = tl_list L ! i" by (simp_all add: tl_list_def)
  show ?case
  proof (cases "tl_list L ! i = a")
    case True
    let ?n = "length (tl_list L)"
    let ?xs = "shift_down (int i) (int ?n) (tl_items L)"
    have e: "remove_loop (int i) a L = L\<lparr>tl_items := ?xs, tl_count := int ?n - 1\<rparr>"
      using i True c(1) by (subst remove_loop.simps) simp
    have sh: "length ?xs = length (tl_items L)" "take (?n - 1) ?xs = take i (tl_items L) @ drop (i + 1) (take ?n (tl_items L))"
      using shift_down_result [OF i(1) c(2)] by simp_all
    have "take (nat (tl_count L)) (tl_items L) = tl_list L" by (simp add: tl_list_def)
    then have tn: "take ?n (tl_items L) = tl_list L" using c(1) by simp
    have "take i (tl_items L) = take i (tl_list L)" using i(1) tn by (metis less_imp_le min.absorb1 take_take)
    then have "tl_list (remove_loop (int i) a L) = take i (tl_list L) @ drop (i + 1) (tl_list L)"
    proof -
      have "tl_list (remove_loop (int i) a L) = take (nat (int ?n - 1)) ?xs" unfolding e by (simp add: tl_list_def)
      also have "nat (int ?n - 1) = ?n - 1" by simp
      finally show ?thesis using sh(2) tn \<open>take i (tl_items L) = take i (tl_list L)\<close> by (simp only:)
    qed
    also have "\<dots> = remove1 a (tl_list L)"
    proof -
      have "tl_list L = take i (tl_list L) @ a # drop (i + 1) (tl_list L)" using id_take_nth_drop [OF i(1)] True by simp
      then show ?thesis using Suc(4) by (metis remove1.simps(2) remove1_append)
    qed
    finally have "tl_list (remove_loop (int i) a L) = remove1 a (tl_list L)" .
    moreover have "tl_ok (remove_loop (int i) a L)" using assms(1) i(1) c(1) sh(1) unfolding e by (auto simp: tl_ok_def)
    ultimately show ?thesis by blast
  next
    case False
    then have e: "remove_loop (int i) a L = remove_loop (int (i + 1)) a L"
      using i c(1) by (subst remove_loop.simps) (simp add: add.commute)
    have "a \<notin> set (take (i + 1) (tl_list L))" using Suc(4) False i(1) by (simp add: take_Suc_conv_app_nth)
    then show ?thesis using Suc(1) [of "i + 1"] Suc(2) i(1) unfolding e by simp
  qed
qed

lemma remove_list_removes: "tl_ok L \<Longrightarrow> tl_ok (remove_list a L) \<and> tl_list (remove_list a L) = remove1 a (tl_list L)"
  using remove_loop_result [of L 0 a] by (simp add: remove_list_def)

lemma thread_enum_list: "ThreadHandlerInited R \<Longrightarrow> tl_ok (Threads R) \<Longrightarrow> thread_enum R = (tl_list (Threads R), R)"
proof -
  assume a: "ThreadHandlerInited R" "tl_ok (Threads R)"
  obtain c where c: "tl_count (Threads R) = int c" "c < length (tl_items (Threads R))" using a(2) by (auto simp: tl_ok_def dest!: zero_le_imp_eq_int)
  have "map (\<lambda>i. tl_items (Threads R) ! nat i) [0..int c - 1] = take c (tl_items (Threads R))"
    using c(2) by (intro nth_equalityI) (auto simp: nat_diff_distrib)
  then show ?thesis using a(1) c(1) by (simp add: thread_enum_def thread_handler_init_once_def tl_list_def Let_def)
qed

section \<open>The threads of the list are the threads alive\<close>

definition alive :: "Thread \<Rightarrow> bool" where
  "alive t \<longleftrightarrow> cpc t \<in> {C_listed, C_starting, C_done, C_failed} \<and> tpc t \<noteq> T_exited"

definition thread_ok :: "Thread \<Rightarrow> bool" where
  "thread_ok t \<longleftrightarrow> (tpc t = T_none \<longleftrightarrow> cpc t \<in> {C_new, C_inited, C_listed, C_failed, C_unlisted}) \<and> \<not> thr_joined t"

definition registry_ok :: "registry \<Rightarrow> bool" where
  "registry_ok R \<longleftrightarrow> (if ThreadHandlerInited R then tl_ok (Threads R) else tl_list (Threads R) = []) \<and>
     distinct (tl_list (Threads R)) \<and> set (tl_list (Threads R)) = {a. \<exists>t. objects R a = Some t \<and> alive t} \<and>
     (\<forall>a t. objects R a = Some t \<longrightarrow> thread_ok t \<and> (cpc t \<noteq> C_new \<longrightarrow> ThreadHandlerInited R))"

lemma registry_okD:
  assumes "registry_ok R"
  shows "ThreadHandlerInited R \<Longrightarrow> tl_ok (Threads R)" "\<not> ThreadHandlerInited R \<Longrightarrow> tl_list (Threads R) = []"
    "distinct (tl_list (Threads R))" "a \<in> set (tl_list (Threads R)) \<longleftrightarrow> (\<exists>t. objects R a = Some t \<and> alive t)"
    "objects R a = Some t \<Longrightarrow> thread_ok t" "objects R a = Some t \<Longrightarrow> cpc t \<noteq> C_new \<Longrightarrow> ThreadHandlerInited R"
  using assms by (auto simp: registry_ok_def split: if_splits)

text \<open>Steps that leave the list and whether each thread is alive as they are.\<close>

lemma registry_ok_object:
  assumes "registry_ok R" "objects R a = so" "alive t' \<longleftrightarrow> (\<exists>t. so = Some t \<and> alive t)" "thread_ok t'"
    and "cpc t' \<noteq> C_new \<longrightarrow> ThreadHandlerInited R"
  shows "registry_ok (put_thread a t' R)"
proof -
  have "{b. \<exists>t. objects (put_thread a t' R) b = Some t \<and> alive t} = {b. \<exists>t. objects R b = Some t \<and> alive t}"
    using assms(2,3) by (auto simp: put_thread_def)
  then show ?thesis using assms by (auto simp: registry_ok_def put_thread_def)
qed

lemma registry_ok_drop:
  assumes "registry_ok R" "objects R a = Some t" "\<not> alive t"
  shows "registry_ok (R\<lparr>objects := (objects R)(a := None)\<rparr>)"
proof -
  have "{b. \<exists>t. ((objects R)(a := None)) b = Some t \<and> alive t} = {b. \<exists>t. objects R b = Some t \<and> alive t}"
    using assms(2,3) by auto
  then show ?thesis using assms by (auto simp: registry_ok_def split: if_splits)
qed

lemma registry_ok_once: "registry_ok R \<Longrightarrow> registry_ok (thread_handler_init_once R)"
  using create_list_ok by (auto simp: registry_ok_def thread_handler_init_once_def)

lemma registry_ok_add:
  assumes r: "registry_ok R" "objects R a = Some t" "cpc t = C_inited" "add_list room a (Threads R) = Some L" "tl_list (Threads R) = xs"
    and l: "int (length xs) < 2 ^ 29 - 1"
  shows "registry_ok (put_thread a (t\<lparr>cpc := C_listed\<rparr>) (R\<lparr>Threads := L\<rparr>))" "tl_list L = xs @ [a]"
proof -
  have i: "ThreadHandlerInited R" using registry_okD(6) [OF r(1,2)] r(3) by simp
  have ok: "tl_ok (Threads R)" using registry_okD(1) [OF r(1) i] .
  have l': "tl_count (Threads R) < 2 ^ 29 - 1" using l r(5) tl_list_length [OF ok] by simp
  obtain L1 where L1: "add_list True a (Threads R) = Some L1" "tl_ok L1" "tl_list L1 = xs @ [a]"
    using add_list_appends [OF ok l', of a] r(5) by blast
  have "L = L1"
  proof (cases room)
    case False
    then show ?thesis using r(4) L1(1) ok by (auto simp: add_list_def Let_def split: if_splits)
  qed (use r(4) L1(1) in simp)
  then have L: "tl_ok L" "tl_list L = xs @ [a]" using L1 by simp_all
  show "tl_list L = xs @ [a]" by (rule L(2))
  have na: "a \<notin> set xs" using registry_okD(4) [OF r(1), of a] r(2,3,5) by (auto simp: alive_def)
  have ok': "thread_ok t" "tpc t = T_none" using registry_okD(5) [OF r(1,2)] r(3) by (auto simp: thread_ok_def)
  have "set xs \<union> {a} = {b. \<exists>t'. ((objects R)(a \<mapsto> t\<lparr>cpc := C_listed\<rparr>)) b = Some t' \<and> alive t'}"
    using registry_okD(4) [OF r(1)] r(5) ok'(2) by (auto simp: alive_def)
  then show "registry_ok (put_thread a (t\<lparr>cpc := C_listed\<rparr>) (R\<lparr>Threads := L\<rparr>))"
    using r(1,5) L na i ok' by (auto simp: registry_ok_def put_thread_def thread_ok_def)
qed

lemma registry_ok_remove:
  assumes r: "registry_ok R" "objects R a = Some t" "alive t" and t': "\<not> alive t'" "thread_ok t'"
  shows "registry_ok (put_thread a t' (R\<lparr>Threads := remove_list a (Threads R)\<rparr>))"
    "tl_list (remove_list a (Threads R)) = remove1 a (tl_list (Threads R))"
proof -
  have i: "ThreadHandlerInited R" using registry_okD(6) [OF r(1,2)] r(3) by (auto simp: alive_def)
  note ok = remove_list_removes [OF registry_okD(1) [OF r(1) i], of a]
  then show e: "tl_list (remove_list a (Threads R)) = remove1 a (tl_list (Threads R))" by simp
  have "set (remove1 a (tl_list (Threads R))) = {b. \<exists>s. ((objects R)(a \<mapsto> t')) b = Some s \<and> alive s}"
    using registry_okD(3,4) [OF r(1)] t'(1) by auto
  then show "registry_ok (put_thread a t' (R\<lparr>Threads := remove_list a (Threads R)\<rparr>))"
    using r(1) i e ok t'(2) by (auto simp: registry_ok_def put_thread_def)
qed

lemma create_begin_ok:
  assumes "registry_ok R" "thread_create_begin V func arg R = (Some a, R')" "objects R a = None"
  shows "registry_ok R'" "tl_list (Threads R') = tl_list (Threads R)"
proof -
  let ?t = "\<lparr>thr_func = func, thr_arg = arg, thr_handle = False, thr_joined = False, cpc = C_new, tpc = T_none\<rparr>"
  have e: "R' = put_thread a ?t R" using assms(2) by (auto simp: thread_create_begin_def split: if_splits option.splits)
  show "registry_ok R'" unfolding e by (rule registry_ok_object [OF assms(1,3)]) (simp_all add: alive_def thread_ok_def)
  show "tl_list (Threads R') = tl_list (Threads R)" by (simp add: e put_thread_def)
qed

lemma create_step_ok:
  assumes "registry_ok R" "objects R a = Some t" "thread_create_step V a t R = Some R'" "int (length (tl_list (Threads R))) < 2 ^ 29 - 1"
  shows "registry_ok R' \<and> length (tl_list (Threads R')) \<le> length (tl_list (Threads R)) + 1"
proof -
  note r = assms(1) and o = assms(2)
  have ok: "thread_ok t" by (rule registry_okD(5) [OF r o])
  note inited = registry_okD(6) [OF r o]
  have same: "length (tl_list (Threads (put_thread a t' R))) \<le> length (tl_list (Threads R)) + 1" for t' by (simp add: put_thread_def)
  show ?thesis
  proof (cases "cpc t")
    case C_new
    let ?R = "thread_handler_init_once R"
    have e: "R' = put_thread a (t\<lparr>cpc := C_inited\<rparr>) ?R" using assms(3) C_new by (simp add: thread_create_step_def)
    have "registry_ok R'" unfolding e
      by (rule registry_ok_object [OF registry_ok_once [OF r]])
        (use o C_new ok in \<open>auto simp: thread_handler_init_once_def alive_def thread_ok_def split: if_splits\<close>)
    moreover have "tl_list (Threads R') = tl_list (Threads R)"
      unfolding e using registry_okD(2) [OF r] create_list_ok(2) by (simp add: put_thread_def thread_handler_init_once_def)
    ultimately show ?thesis by simp
  next
    case C_inited
    then obtain L where "add_list (list_room V) a (Threads R) = Some L" "R' = put_thread a (t\<lparr>cpc := C_listed\<rparr>) (R\<lparr>Threads := L\<rparr>)"
      using assms(3) by (auto simp: thread_create_step_def)
    then show ?thesis using registry_ok_add [OF r o C_inited _ refl assms(4)] by (simp add: put_thread_def)
  next
    case C_listed
    have "registry_ok (put_thread a (if started V then t\<lparr>cpc := C_starting, tpc := T_begin\<rparr> else t\<lparr>cpc := C_failed\<rparr>) R)"
      by (rule registry_ok_object [OF r o]) (use C_listed ok inited in \<open>auto simp: alive_def thread_ok_def\<close>)
    then show ?thesis using assms(3) C_listed same by (auto simp: thread_create_step_def)
  next
    case C_starting
    have "registry_ok (put_thread a (t\<lparr>cpc := C_done, thr_handle := True\<rparr>) R)"
      by (rule registry_ok_object [OF r o]) (use C_starting ok inited in \<open>auto simp: alive_def thread_ok_def\<close>)
    then show ?thesis using assms(3) C_starting same by (auto simp: thread_create_step_def)
  next
    case C_failed
    have "tpc t \<noteq> T_exited" using ok C_failed by (auto simp: thread_ok_def)
    then show ?thesis
      using registry_ok_remove [OF r o, of "t\<lparr>cpc := C_unlisted\<rparr>"] assms(3) C_failed ok
      by (auto simp: thread_create_step_def alive_def thread_ok_def put_thread_def length_remove1)
  next
    case C_unlisted
    then show ?thesis using registry_ok_drop [OF r o] assms(3) by (auto simp: thread_create_step_def alive_def)
  qed (use assms(3) in \<open>simp add: thread_create_step_def\<close>)
qed

lemma tfun_step_ok:
  assumes "registry_ok R" "objects R a = Some t" "tfun_step a t R = Some (e, R')"
  shows "registry_ok R' \<and> length (tl_list (Threads R')) \<le> length (tl_list (Threads R)) \<and> (\<forall>xs. e \<noteq> Enumerated xs)"
proof -
  note r = assms(1) and o = assms(2)
  have ok: "thread_ok t" by (rule registry_okD(5) [OF r o])
  have pc: "cpc t \<in> {C_starting, C_done}" if "tpc t \<noteq> T_none" using ok that by (cases "cpc t") (auto simp: thread_ok_def)
  have mv: "registry_ok (put_thread a (t\<lparr>tpc := q\<rparr>) R)" if "q \<noteq> T_none" "q \<noteq> T_exited" "tpc t \<noteq> T_none" "tpc t \<noteq> T_exited" for q
    by (rule registry_ok_object [OF r o]) (use that ok pc registry_okD(6) [OF r o] in \<open>auto simp: alive_def thread_ok_def\<close>)
  show ?thesis
  proof (cases "tpc t")
    case T_remove
    have "alive t" using pc T_remove by (auto simp: alive_def)
    then show ?thesis using registry_ok_remove [OF r o, of "t\<lparr>tpc := T_exited\<rparr>"] assms(3) T_remove ok pc
      by (auto simp: tfun_step_def alive_def thread_ok_def put_thread_def length_remove1)
  qed (use assms(3) mv in \<open>auto simp: tfun_step_def put_thread_def split: if_splits\<close>)
qed

lemma thread_step_ok:
  assumes "thread_step R e R'" "registry_ok R" "int (length (tl_list (Threads R))) < 2 ^ 29 - 1"
  shows "registry_ok R' \<and> length (tl_list (Threads R')) \<le> length (tl_list (Threads R)) + 1"
  using assms(1)
proof cases
  case (create V func arg a)
  then show ?thesis using create_begin_ok [OF assms(2)] by simp
next
  case (creating a t V)
  then show ?thesis using create_step_ok [OF assms(2) _ _ assms(3)] by blast
next
  case (thread a t)
  then show ?thesis using tfun_step_ok [OF assms(2)] by fastforce
next
  case (join a t q)
  then have "\<not> thr_joined t" using registry_okD(5) [OF assms(2)] by (simp add: thread_ok_def)
  then have x: "tpc t = T_exited" "R' = R\<lparr>objects := (objects R)(a := None)\<rparr>"
    using join by (auto simp: thread_join_def split: if_splits)
  then have "registry_ok R'" using registry_ok_drop [OF assms(2) join(2)] by (simp add: alive_def)
  then show ?thesis using x by simp
next
  case (init created ended)
  have "registry_ok (thread_init created ended R)"
    using registry_ok_once [OF assms(2)] by (simp add: thread_init_def registry_ok_def)
  then show ?thesis using init registry_okD(2) [OF assms(2)] create_list_ok(2) by (simp add: thread_init_def thread_handler_init_once_def)
next
  case (enum xs)
  then have "R' = thread_handler_init_once R" by (auto simp: thread_enum_def Let_def)
  then show ?thesis using registry_ok_once [OF assms(2)] registry_okD(2) [OF assms(2)] create_list_ok(2) by (simp add: thread_handler_init_once_def)
qed

lemma thread_run_ok:
  assumes "thread_run registry_zero es R"
  shows "int (length es) < 2 ^ 29 - 1 \<longrightarrow> registry_ok R \<and> length (tl_list (Threads R)) \<le> length es"
  using assms
proof (induction rule: thread_run.induct)
  case start
  show ?case by (auto simp: registry_ok_def registry_zero_def tl_list_def)
next
  case (more es R e R')
  then show ?case using thread_step_ok [OF more(2)] by auto
qed

text \<open>C12: the list of threads is exact in every interleaving of creations, thread starts and ends, joins, enumerations and
  callbacks: each thread is listed once from its registration until it has ended, no object that was freed is listed,
  an enumeration visits exactly the listed threads, and a creation that has memory never crashes.\<close>

theorem threads_listed_alive:
  assumes "thread_run registry_zero es R" "int (length es) < 2 ^ 29 - 1"
  shows "distinct (tl_list (Threads R)) \<and> set (tl_list (Threads R)) = {a. \<exists>t. objects R a = Some t \<and> alive t} \<and>
    fst (thread_enum R) = tl_list (Threads R) \<and>
    (objects R a = Some t \<and> cpc t \<noteq> C_done \<and> list_room V \<longrightarrow> thread_create_step V a t R \<noteq> None)"
proof -
  have r: "registry_ok R" "length (tl_list (Threads R)) \<le> length es" using thread_run_ok [OF assms(1)] assms(2) by simp_all
  have en: "fst (thread_enum R) = tl_list (Threads R)"
  proof (cases "ThreadHandlerInited R")
    case True
    then show ?thesis using thread_enum_list [OF True registry_okD(1) [OF r(1) True]] by simp
  next
    case False
    then show ?thesis using registry_okD(2) [OF r(1)]
      by (simp add: thread_enum_def thread_handler_init_once_def create_list_def Let_def)
  qed
  have "thread_create_step V a t R \<noteq> None" if "objects R a = Some t" "cpc t \<noteq> C_done" "list_room V"
  proof (cases "cpc t")
    case C_inited
    then have ok: "tl_ok (Threads R)" using registry_okD(1,6) [OF r(1)] that(1) by simp
    have "tl_count (Threads R) < 2 ^ 29 - 1" using tl_list_length [OF ok] r(2) assms(2) by simp
    then show ?thesis using add_list_appends [OF ok, of a] that(3) C_inited by (auto simp: thread_create_step_def)
  qed (use that(2) in \<open>simp_all add: thread_create_step_def\<close>)
  then show ?thesis using registry_okD(3,4) [OF r(1)] en by blast
qed

text \<open>A thread can be enumerated before its handle has been stored.\<close>

definition answers :: create_answers where
  "answers = \<lparr>mem_thread = Some 64, list_room = True, started = True\<rparr>"

theorem threads_listed_alive_witness:
  "\<exists>es R t. thread_run registry_zero es R \<and> fst (thread_enum R) = [64] \<and> objects R 64 = Some t \<and> alive t \<and> tpc t = T_begin \<and> \<not> thr_handle t"
proof -
  let ?t = "\<lambda>c q. \<lparr>thr_func = 4096, thr_arg = 0, thr_handle = False, thr_joined = False, cpc = c, tpc = q\<rparr>"
  let ?R1 = "put_thread 64 (?t C_new T_none) registry_zero"
  let ?R2 = "put_thread 64 (?t C_inited T_none) (thread_handler_init_once ?R1)"
  obtain L where L: "add_list True 64 create_list = Some L" "tl_list L = [64]"
    using add_list_appends [OF create_list_ok(1), of 64] create_list_ok(2) by (auto simp: create_list_def)
  let ?R3 = "put_thread 64 (?t C_listed T_none) (?R2\<lparr>Threads := L\<rparr>)"
  let ?R4 = "put_thread 64 (?t C_starting T_begin) ?R3"
  have s1: "thread_step registry_zero Quiet_step ?R1"
    by (rule thread_step.create [of answers 4096 0]) (simp_all add: thread_create_begin_def answers_def registry_zero_def)
  have s2: "thread_step ?R1 Quiet_step ?R2"
    by (rule thread_step.creating [of _ 64 "?t C_new T_none" answers]) (simp_all add: thread_create_step_def put_thread_def)
  have s3: "thread_step ?R2 Quiet_step ?R3"
    by (rule thread_step.creating [of _ 64 "?t C_inited T_none" answers])
      (simp_all add: thread_create_step_def put_thread_def answers_def thread_handler_init_once_def registry_zero_def L)
  have s4: "thread_step ?R3 Quiet_step ?R4"
    by (rule thread_step.creating [of _ 64 "?t C_listed T_none" answers]) (simp_all add: thread_create_step_def put_thread_def answers_def)
  have run: "thread_run registry_zero ([] @ [Quiet_step] @ [Quiet_step] @ [Quiet_step] @ [Quiet_step]) ?R4"
    using thread_run.more [OF thread_run.more [OF thread_run.more [OF thread_run.more [OF thread_run.start s1] s2] s3] s4] by simp
  have "fst (thread_enum ?R4) = tl_list (Threads ?R4)" using threads_listed_alive [OF run] by simp
  also have "\<dots> = [64]" by (simp add: put_thread_def L(2))
  finally show ?thesis using run by (intro exI [of _ "[] @ [Quiet_step] @ [Quiet_step] @ [Quiet_step] @ [Quiet_step]"] exI [of _ ?R4])
    (auto simp: put_thread_def alive_def)
qed

end
