(* ===== verification/Leak_Watch.thy ===== *)
theory Leak_Watch
  imports Atomics Pool_Services Thread_Registry "HOL-Library.Multiset"
begin

text \<open>
  \<open>mem_leak_watch.c\<close>: the configuration, the log, the conservative scan for unreachable spans (the
  branch that is compiled where threads can be suspended), and the start, stop and loop of the
  monitor thread.  What the system answers during a scan (contexts of suspended threads, stack
  words, clock, memory for the buffers) is the record \<open>scan_env\<close>.
\<close>

section \<open>Levels and configuration\<close>

datatype MlwLevel = MLW_INFO | MLW_WARN | MLW_CRITICAL

fun mlw_level_name :: "MlwLevel \<Rightarrow> string" where
  "mlw_level_name MLW_WARN = ''WARN''"
| "mlw_level_name MLW_CRITICAL = ''CRITICAL''"
| "mlw_level_name MLW_INFO = ''INFO''"

record MemLeakWatchConfig =
  enabled :: bool
  interval_ms :: nat
  warn_threshold_bytes :: nat
  crit_threshold_bytes :: nat
  log_path :: "string option"

text \<open>\<open>phys\<close>: the physical memory, if the system was asked and answered.\<close>

definition mem_leak_watch_default_config :: "nat option \<Rightarrow> string \<Rightarrow> MemLeakWatchConfig option \<Rightarrow> MemLeakWatchConfig option" where
  "mem_leak_watch_default_config phys path out =
    (let total_phys = (case phys of None \<Rightarrow> 4 * 1024 * 1024 * 1024 | Some n \<Rightarrow> n)
     in map_option (\<lambda>_. \<lparr>enabled = True, interval_ms = 60000, warn_threshold_bytes = total_phys * 70 mod 2 ^ 64 div 100,
          crit_threshold_bytes = total_phys * 90 mod 2 ^ 64 div 100, log_path = Some path\<rparr>) out)"

section \<open>The log\<close>

record mlw_report =
  rp_level :: MlwLevel
  rp_kind :: string
  rp_span :: addr
  rp_size :: nat
  rp_used :: nat
  rp_age :: int

datatype mlw_output = Log_header | Log_line mlw_report | Console_line mlw_report | Error_event mlw_report

text \<open>The file is opened at the first line; \<open>can_open\<close> says whether that works.\<close>

definition mlw_log_open_locked :: "bool \<Rightarrow> bool \<Rightarrow> mlw_output list \<times> bool" where
  "mlw_log_open_locked can_open opened = (if opened then ([], True) else if can_open then ([Log_header], True) else ([], False))"

definition mlw_log :: "bool \<Rightarrow> mlw_report \<Rightarrow> bool \<Rightarrow> mlw_output list \<times> bool" where
  "mlw_log can_open r opened =
    (case mlw_log_open_locked can_open opened of
       (out, opened') \<Rightarrow>
         (out @ (if opened' then [Log_line r] else []) @ (if rp_kind r \<noteq> ''scan_clean'' then [Console_line r] else []) @
            (if rp_level r = MLW_CRITICAL then [Error_event r] else []), opened'))"

section \<open>Marking\<close>

abbreviation (input) MLW_SPAN_SIZE :: nat where "MLW_SPAN_SIZE \<equiv> 65536"

record MlwSpanTable =
  tb_spans :: "MemSpanInfo list"
  tb_reachable :: "bool list"

definition mlw_span_cmp :: "MemSpanInfo \<Rightarrow> MemSpanInfo \<Rightarrow> int" where
  "mlw_span_cmp a b = (if info_base a < info_base b then - 1 else if info_base a > info_base b then 1 else 0)"

text \<open>\<open>qsort\<close> with this comparison; the bases of the spans are distinct, so the order is determined.\<close>

definition sort_spans :: "MemSpanInfo list \<Rightarrow> MemSpanInfo list" where
  "sort_spans ss = sort_key info_base ss"

function mark_loop :: "nat \<Rightarrow> nat \<Rightarrow> addr \<Rightarrow> MlwSpanTable \<Rightarrow> MlwSpanTable" where
  "mark_loop lo hi w t =
    (if lo < hi then
       let mid = lo + (hi - lo) div 2; base = info_base (tb_spans t ! mid) in
       if w < base then mark_loop lo mid w t
       else if w \<ge> base + MLW_SPAN_SIZE then mark_loop (mid + 1) hi w t
       else t\<lparr>tb_reachable := (tb_reachable t)[mid := True]\<rparr>
     else t)"
  by pat_completeness auto
termination by (relation "measure (\<lambda>(lo, hi, w, t). hi - lo)") auto

declare mark_loop.simps [simp del]

definition mlw_mark_candidate :: "addr \<Rightarrow> MlwSpanTable \<Rightarrow> MlwSpanTable" where
  "mlw_mark_candidate w t = (if w = 0 then t else mark_loop 0 (length (tb_spans t)) w t)"

section \<open>Roots\<close>

record thread_context =
  ctx_regs :: "addr list"
  ctx_rsp :: addr
  ctx_stack_base :: addr
  ctx_rip :: addr

record scan_env =
  self_tid :: nat
  tid_of :: "nat \<Rightarrow> nat"
  handle_of :: "addr \<Rightarrow> nat"
  context_of :: "nat \<Rightarrow> thread_context option"
  word_at :: "addr \<Rightarrow> addr"
  spans_room :: bool
  reach_room :: bool
  push_room :: "nat \<Rightarrow> bool"
  tick_ms :: int
  log_opens :: bool

function scan_stack :: "(addr \<Rightarrow> addr) \<Rightarrow> addr \<Rightarrow> addr \<Rightarrow> MlwSpanTable \<Rightarrow> MlwSpanTable" where
  "scan_stack m p base t = (if p < base then scan_stack m (p + 8) base (mlw_mark_candidate (m p) t) else t)"
  by pat_completeness auto
termination by (relation "measure (\<lambda>(m, p, base, t). base - p)") auto

declare scan_stack.simps [simp del]

definition mlw_scan_thread_roots :: "scan_env \<Rightarrow> nat \<Rightarrow> MlwSpanTable \<Rightarrow> MlwSpanTable \<times> addr" where
  "mlw_scan_thread_roots V h t =
    (case context_of V h of
       None \<Rightarrow> (t, 0)
     | Some c \<Rightarrow>
         let t1 = fold mlw_mark_candidate (ctx_regs c) t; span_bytes = int (ctx_stack_base c) - int (ctx_rsp c)
         in (if ctx_rsp c \<noteq> 0 \<and> ctx_stack_base c \<noteq> 0 \<and> span_bytes > 0 \<and> span_bytes < 64 * 1024 * 1024
             then scan_stack (word_at V) (ctx_rsp c) (ctx_stack_base c) t1 else t1, ctx_rip c))"

record MlwHandleVec =
  hv_items :: "nat list"
  hv_cap :: nat

text \<open>A handle that does not fit because \<open>realloc\<close> fails is dropped; the vector's buffer has \<open>hv_cap\<close> places.\<close>

definition mlw_handle_push :: "(nat \<Rightarrow> bool) \<Rightarrow> nat \<Rightarrow> MlwHandleVec \<Rightarrow> MlwHandleVec" where
  "mlw_handle_push room h v =
    (if length (hv_items v) = hv_cap v then
       let nc = (if hv_cap v \<noteq> 0 then hv_cap v * 2 mod 2 ^ 32 else 16)
       in if \<not> room nc then v else v\<lparr>hv_items := hv_items v @ [h], hv_cap := nc\<rparr>
     else v\<lparr>hv_items := hv_items v @ [h]\<rparr>)"

definition mlw_thread_cb :: "scan_env \<Rightarrow> addr \<Rightarrow> MlwHandleVec \<Rightarrow> MlwHandleVec" where
  "mlw_thread_cb V thr v = mlw_handle_push (push_room V) (handle_of V thr) v"

section \<open>The scan\<close>

fun scan_threads :: "scan_env \<Rightarrow> MlwLevel \<Rightarrow> nat list \<Rightarrow> MlwSpanTable \<Rightarrow> addr \<Rightarrow> MlwSpanTable \<times> addr" where
  "scan_threads V level [] t sample = (t, sample)"
| "scan_threads V level (h # hs) t sample =
    (if tid_of V h = self_tid V then scan_threads V level hs t sample
     else case mlw_scan_thread_roots V h t of
       (t1, rip) \<Rightarrow> scan_threads V level hs t1 (if level = MLW_CRITICAL \<and> sample = 0 \<and> rip \<noteq> 0 then rip else sample))"

definition span_report :: "scan_env \<Rightarrow> MemSpanInfo \<Rightarrow> mlw_report" where
  "span_report V s =
    \<lparr>rp_level = MLW_WARN, rp_kind = ''leak_candidate'', rp_span = info_base s, rp_size = info_stride s * info_used s mod 2 ^ 64,
     rp_used = info_used s,
     rp_age = (if info_created_ms s \<noteq> 0 \<and> tick_ms V > info_created_ms s then tick_ms V - info_created_ms s else 0)\<rparr>"

fun report_spans ::
    "scan_env \<Rightarrow> (MemSpanInfo \<times> bool) list \<Rightarrow> mlw_output list \<Rightarrow> bool \<Rightarrow> nat \<Rightarrow> nat \<Rightarrow> mlw_output list \<times> bool \<times> nat \<times> nat" where
  "report_spans V [] out opened n bytes = (out, opened, n, bytes)"
| "report_spans V ((s, reachable) # ss) out opened n bytes =
    (if reachable \<or> info_used s = 0 then report_spans V ss out opened n bytes
     else let r = span_report V s in
       (case mlw_log (log_opens V) r opened of
          (o1, file1) \<Rightarrow> report_spans V ss (out @ o1) file1 (n + 1) ((bytes + rp_size r) mod 2 ^ 64)))"

definition mlw_run_scan :: "scan_env \<Rightarrow> MlwLevel \<Rightarrow> registry \<Rightarrow> bool \<Rightarrow> MemPool \<Rightarrow> mlw_output list \<times> bool \<times> MemPool" where
  "mlw_run_scan V level R opened P =
    (case memop_span_count P of
       (cnt, P1) \<Rightarrow>
         if \<not> spans_room V then ([], opened, P1)
         else (case memop_snapshot_spans (cnt + 64) P1 of
           (ss, P2) \<Rightarrow>
             if \<not> reach_room V then ([], opened, P2)
             else
               let t = \<lparr>tb_spans = sort_spans ss, tb_reachable = replicate (length ss) False\<rparr>;
                   hv = fold (mlw_thread_cb V) (fst (thread_enum R)) \<lparr>hv_items = [], hv_cap = 0\<rparr>;
                   (t1, sample) = scan_threads V level (hv_items hv) t 0;
                   (out, file1, n, bytes) = report_spans V (zip (tb_spans t1) (tb_reachable t1)) [] opened 0 0
               in if level = MLW_CRITICAL then
                    (case mlw_log (log_opens V) \<lparr>rp_level = MLW_CRITICAL, rp_kind = ''near_memory_limit'', rp_span = 0, rp_size = bytes,
                         rp_used = n mod 2 ^ 32, rp_age = 0\<rparr> file1 of (o2, file2) \<Rightarrow> (out @ o2, file2, P2))
                  else if level = MLW_WARN \<and> n = 0 then
                    (case mlw_log (log_opens V) \<lparr>rp_level = MLW_WARN, rp_kind = ''scan_clean'', rp_span = 0, rp_size = 0, rp_used = 0, rp_age = 0\<rparr> file1 of
                       (o2, file2) \<Rightarrow> (out @ o2, file2, P2))
                  else (out, file1, P2)))"

definition mem_leak_watch_scan_now :: "scan_env \<Rightarrow> registry \<Rightarrow> bool \<Rightarrow> MemPool \<Rightarrow> mlw_output list \<times> bool \<times> MemPool" where
  "mem_leak_watch_scan_now V R opened P = mlw_run_scan V MLW_WARN R opened P"

text \<open>What the timer does with the statistics of the pool.\<close>

definition mlw_check :: "MemLeakWatchConfig \<Rightarrow> MemPoolStats \<Rightarrow> MlwLevel option" where
  "mlw_check cfg st =
    (if os_reserved_bytes st \<ge> crit_threshold_bytes cfg then Some MLW_CRITICAL
     else if os_reserved_bytes st \<ge> warn_threshold_bytes cfg then Some MLW_WARN else None)"

section \<open>What a scan marks\<close>

definition holds :: "MemSpanInfo \<Rightarrow> addr \<Rightarrow> bool" where
  "holds s w \<longleftrightarrow> info_base s \<le> w \<and> w < info_base s + MLW_SPAN_SIZE"

definition table_ok :: "MlwSpanTable \<Rightarrow> bool" where
  "table_ok t \<longleftrightarrow> length (tb_reachable t) = length (tb_spans t) \<and>
     (\<forall>i j. i < j \<longrightarrow> j < length (tb_spans t) \<longrightarrow> info_base (tb_spans t ! i) + MLW_SPAN_SIZE \<le> info_base (tb_spans t ! j))"

definition mark_all :: "addr set \<Rightarrow> MlwSpanTable \<Rightarrow> MlwSpanTable" where
  "mark_all W t = t\<lparr>tb_reachable := map2 (\<lambda>s r. r \<or> (\<exists>w \<in> W. w \<noteq> 0 \<and> holds s w)) (tb_spans t) (tb_reachable t)\<rparr>"

lemma mark_all_spans [simp]: "tb_spans (mark_all W t) = tb_spans t"
  by (simp add: mark_all_def)

lemma mark_all_ok: "table_ok t \<Longrightarrow> table_ok (mark_all W t)"
  by (simp add: mark_all_def table_ok_def)

lemma mark_all_nth: "table_ok t \<Longrightarrow> i < length (tb_spans t) \<Longrightarrow>
    tb_reachable (mark_all W t) ! i = (tb_reachable t ! i \<or> (\<exists>w \<in> W. w \<noteq> 0 \<and> holds (tb_spans t ! i) w))"
  by (simp add: mark_all_def table_ok_def)

lemma table_eqI:
  assumes "tb_spans t = tb_spans t'" "length (tb_reachable t) = length (tb_reachable t')"
    "\<And>i. i < length (tb_reachable t) \<Longrightarrow> tb_reachable t ! i = tb_reachable t' ! i"
  shows "t = (t' :: MlwSpanTable)"
  using assms by (cases t, cases t') (auto intro: nth_equalityI)

lemma mark_all_all: "table_ok t \<Longrightarrow> mark_all A (mark_all B t) = mark_all (A \<union> B) t"
  by (rule table_eqI) (auto simp: mark_all_def table_ok_def)

lemma mark_all_none: "table_ok t \<Longrightarrow> mark_all {} t = t"
  by (rule table_eqI) (auto simp: mark_all_def table_ok_def)

lemma mark_loop_spec:
  assumes ok: "table_ok t" and hi: "hi \<le> length (tb_spans t)"
  shows "tb_spans (mark_loop lo hi w t) = tb_spans t \<and> length (tb_reachable (mark_loop lo hi w t)) = length (tb_spans t) \<and>
    (\<forall>i < length (tb_spans t). tb_reachable (mark_loop lo hi w t) ! i = (tb_reachable t ! i \<or> (lo \<le> i \<and> i < hi \<and> holds (tb_spans t ! i) w)))"
  using hi
proof (induction "hi - lo" arbitrary: lo hi rule: less_induct)
  case less
  have len: "length (tb_reachable t) = length (tb_spans t)" using ok by (simp add: table_ok_def)
  show ?case
  proof (cases "lo < hi")
    case False
    then have "mark_loop lo hi w t = t" by (subst mark_loop.simps) simp
    then show ?thesis using False len by auto
  next
    case True
    define mid where "mid = lo + (hi - lo) div 2"
    have m: "lo \<le> mid" "mid < hi" using True by (auto simp: mid_def)
    have gap: "info_base (tb_spans t ! i) + 65536 \<le> info_base (tb_spans t ! j)" if "i < j" "j < length (tb_spans t)" for i j
      using ok that by (simp add: table_ok_def)
    consider (low) "w < info_base (tb_spans t ! mid)" | (high) "info_base (tb_spans t ! mid) + 65536 \<le> w"
      | (hit) "holds (tb_spans t ! mid) w" by (fastforce simp: holds_def)
    then show ?thesis
    proof cases
      case low
      then have "mark_loop lo hi w t = mark_loop lo mid w t" using True by (subst mark_loop.simps) (simp add: mid_def [symmetric] Let_def)
      moreover have "\<not> holds (tb_spans t ! i) w" if "mid \<le> i" "i < hi" for i
        using gap [of mid i] low that less(2) by (cases "i = mid") (auto simp: holds_def)
      then have "(lo \<le> i \<and> i < mid \<and> holds (tb_spans t ! i) w) = (lo \<le> i \<and> i < hi \<and> holds (tb_spans t ! i) w)" for i
        using m by (cases "i < mid") auto
      ultimately show ?thesis using less(1) [of mid lo] m less(2) by simp
    next
      case high
      then have "mark_loop lo hi w t = mark_loop (mid + 1) hi w t" using True by (subst mark_loop.simps) (simp add: mid_def [symmetric] Let_def)
      moreover have "\<not> holds (tb_spans t ! i) w" if "lo \<le> i" "i \<le> mid" for i
        using gap [of i mid] high that less(2) m by (cases "i = mid") (auto simp: holds_def)
      then have "(mid + 1 \<le> i \<and> i < hi \<and> holds (tb_spans t ! i) w) = (lo \<le> i \<and> i < hi \<and> holds (tb_spans t ! i) w)" for i
        using m by (cases "i \<le> mid") auto
      ultimately show ?thesis using less(1) [of hi "mid + 1"] m less(2) by simp
    next
      case hit
      then have "mark_loop lo hi w t = t\<lparr>tb_reachable := (tb_reachable t)[mid := True]\<rparr>"
        using True by (subst mark_loop.simps) (simp add: mid_def [symmetric] Let_def holds_def)
      moreover have "((tb_reachable t)[mid := True]) ! i = (tb_reachable t ! i \<or> (lo \<le> i \<and> i < hi \<and> holds (tb_spans t ! i) w))"
        if "i < length (tb_spans t)" for i
      proof (cases "i = mid")
        case True
        then show ?thesis using hit m len that by simp
      next
        case False
        have "\<not> holds (tb_spans t ! i) w" if "i < hi"
        proof (cases "i < mid")
          case True
          then show ?thesis using gap [of i mid] hit less(2) m by (simp add: holds_def)
        next
          case False
          then show ?thesis using gap [of mid i] hit less(2) \<open>i < hi\<close> \<open>i \<noteq> mid\<close> by (simp add: holds_def)
        qed
        then show ?thesis using False by auto
      qed
      ultimately show ?thesis using len by simp
    qed
  qed
qed

lemma mark_candidate_all: "table_ok t \<Longrightarrow> mlw_mark_candidate w t = mark_all {w} t"
proof -
  assume ok: "table_ok t"
  show ?thesis
  proof (cases "w = 0")
    case True
    have "mark_all {0} t = t" by (rule table_eqI) (use ok in \<open>auto simp: mark_all_def table_ok_def\<close>)
    then show ?thesis using True by (simp add: mlw_mark_candidate_def)
  next
    case False
    show ?thesis
      by (rule table_eqI) (use mark_loop_spec [OF ok order_refl, of 0 w] mark_all_nth [OF ok, of _ "{w}"] mark_all_ok [OF ok, of "{w}"] False
        in \<open>auto simp: mlw_mark_candidate_def table_ok_def\<close>)
  qed
qed

lemma mark_list_all: "table_ok t \<Longrightarrow> fold mlw_mark_candidate ws t = mark_all (set ws) t"
proof (induction ws arbitrary: t)
  case (Cons w ws)
  then show ?case using mark_all_ok [OF Cons(2), of "{w}"] mark_all_all [OF Cons(2), of "set ws" "{w}"]
    by (simp add: mark_candidate_all)
qed (simp add: mark_all_none)

definition stack_words :: "(addr \<Rightarrow> addr) \<Rightarrow> addr \<Rightarrow> addr \<Rightarrow> addr set" where
  "stack_words m p base = {m (p + 8 * k) | k. p + 8 * k < base}"

lemma stack_words_step: "stack_words m p base = (if p < base then insert (m p) (stack_words m (p + 8) base) else {})"
proof -
  have "stack_words m p base = insert (m p) (stack_words m (p + 8) base)" if "p < base"
  proof -
    have "\<exists>k. m (p + 8 * n) = m (p + 8 + 8 * k) \<and> p + 8 + 8 * k < base" if "p + 8 * n < base" "m (p + 8 * n) \<noteq> m p" for n
      using that by (cases n) (auto simp: add.assoc)
    moreover have "\<exists>j. m (p + 8 + 8 * k) = m (p + 8 * j) \<and> p + 8 * j < base" if "p + 8 + 8 * k < base" for k
      using that by (intro exI [of _ "k + 1"]) (simp add: algebra_simps)
    ultimately show ?thesis using that unfolding stack_words_def by (auto intro: exI [of _ 0])
  qed
  then show ?thesis by (auto simp: stack_words_def)
qed

lemma scan_stack_all: "table_ok t \<Longrightarrow> scan_stack m p base t = mark_all (stack_words m p base) t"
proof (induction "base - p" arbitrary: p t rule: less_induct)
  case less
  show ?case
  proof (cases "p < base")
    case True
    have "scan_stack m p base t = scan_stack m (p + 8) base (mark_all {m p} t)"
      using True less(2) by (subst scan_stack.simps) (simp add: mark_candidate_all)
    also have "\<dots> = mark_all (stack_words m (p + 8) base) (mark_all {m p} t)"
      using less(1) [of "p + 8" "mark_all {m p} t"] True mark_all_ok [OF less(2)] by simp
    also have "\<dots> = mark_all (stack_words m p base) t"
      using mark_all_all [OF less(2)] True by (subst (2) stack_words_step) simp
    finally show ?thesis .
  next
    case False
    then show ?thesis using less(2) by (subst scan_stack.simps, subst stack_words_step) (simp add: mark_all_none)
  qed
qed

text \<open>The words a scan takes as roots.\<close>

definition thread_roots :: "scan_env \<Rightarrow> nat \<Rightarrow> addr set" where
  "thread_roots V h =
    (case context_of V h of
       None \<Rightarrow> {}
     | Some c \<Rightarrow> set (ctx_regs c) \<union>
         (if ctx_rsp c \<noteq> 0 \<and> ctx_rsp c < ctx_stack_base c \<and> ctx_stack_base c < ctx_rsp c + 64 * 1024 * 1024
          then stack_words (word_at V) (ctx_rsp c) (ctx_stack_base c) else {}))"

definition scan_roots :: "scan_env \<Rightarrow> registry \<Rightarrow> addr set" where
  "scan_roots V R = (\<Union>a \<in> {a \<in> set (fst (thread_enum R)). tid_of V (handle_of V a) \<noteq> self_tid V}. thread_roots V (handle_of V a))"

lemma scan_thread_all: "table_ok t \<Longrightarrow> fst (mlw_scan_thread_roots V h t) = mark_all (thread_roots V h) t"
proof -
  assume ok: "table_ok t"
  show ?thesis
  proof (cases "context_of V h")
    case None
    then show ?thesis using ok by (simp add: mlw_scan_thread_roots_def thread_roots_def mark_all_none)
  next
    case (Some c)
    have g: "(ctx_rsp c \<noteq> 0 \<and> ctx_stack_base c \<noteq> 0 \<and> 0 < int (ctx_stack_base c) - int (ctx_rsp c) \<and>
        int (ctx_stack_base c) - int (ctx_rsp c) < 64 * 1024 * 1024) \<longleftrightarrow>
      (ctx_rsp c \<noteq> 0 \<and> ctx_rsp c < ctx_stack_base c \<and> ctx_stack_base c < ctx_rsp c + 64 * 1024 * 1024)" by auto
    show ?thesis
      using mark_list_all [OF ok] scan_stack_all [OF mark_all_ok [OF ok]] mark_all_all [OF ok]
      unfolding mlw_scan_thread_roots_def thread_roots_def Some Let_def option.case fst_conv if_distrib [of fst] g
      by (simp add: Un_commute)
  qed
qed

lemma scan_threads_all:
  "table_ok t \<Longrightarrow> fst (scan_threads V level hs t r) = mark_all (\<Union>h \<in> {h \<in> set hs. tid_of V h \<noteq> self_tid V}. thread_roots V h) t"
proof (induction hs arbitrary: t r)
  case Nil
  then show ?case by (simp add: mark_all_none)
next
  case (Cons h hs)
  show ?case
  proof (cases "tid_of V h = self_tid V")
    case True
    then have "{x \<in> set (h # hs). tid_of V x \<noteq> self_tid V} = {x \<in> set hs. tid_of V x \<noteq> self_tid V}" by auto
    then show ?thesis using Cons True by simp
  next
    case False
    obtain t1 rip where s: "mlw_scan_thread_roots V h t = (t1, rip)" by force
    then have t1: "t1 = mark_all (thread_roots V h) t" using scan_thread_all [OF Cons(2), of V h] by simp
    have "{x \<in> set (h # hs). tid_of V x \<noteq> self_tid V} = insert h {x \<in> set hs. tid_of V x \<noteq> self_tid V}" using False by auto
    then show ?thesis
      using Cons(1) [OF mark_all_ok [OF Cons(2), of "thread_roots V h"]] mark_all_all [OF Cons(2)] False s t1
      by (simp add: Un_commute)
  qed
qed

lemma handles_all:
  "(\<And>n. push_room V n) \<Longrightarrow> hv_items (fold (mlw_thread_cb V) xs v) = hv_items v @ map (handle_of V) xs"
proof (induction xs arbitrary: v)
  case (Cons x xs)
  then have "hv_items (mlw_thread_cb V x v) = hv_items v @ [handle_of V x]" by (simp add: mlw_thread_cb_def mlw_handle_push_def Let_def)
  then show ?case using Cons by simp
qed simp

section \<open>What a scan reports\<close>

definition leak_reports :: "mlw_output list \<Rightarrow> mlw_report list" where
  "leak_reports out = concat (map (\<lambda>x. case x of Console_line r \<Rightarrow> if rp_kind r = ''leak_candidate'' then [r] else [] | _ \<Rightarrow> []) out)"

lemma leak_reports_simps [simp]: "leak_reports [] = []" "leak_reports (xs @ ys) = leak_reports xs @ leak_reports ys"
  by (simp_all add: leak_reports_def)

lemma leak_reports_log: "leak_reports (fst (mlw_log can r opened)) = (if rp_kind r = ''leak_candidate'' then [r] else [])"
  by (auto simp: mlw_log_def mlw_log_open_locked_def leak_reports_def)

lemma report_spans_leaks:
  "leak_reports (fst (report_spans V sr out opened n bytes)) =
     leak_reports out @ map (\<lambda>(s, r). span_report V s) (filter (\<lambda>(s, r). \<not> r \<and> info_used s \<noteq> 0) sr)"
proof (induction sr arbitrary: out opened n bytes)
  case (Cons sr srs)
  obtain s r where sr: "sr = (s, r)" by force
  obtain o1 f1 where l: "mlw_log (log_opens V) (span_report V s) opened = (o1, f1)" by force
  have "leak_reports o1 = [span_report V s]" using leak_reports_log [of "log_opens V" "span_report V s" opened] l by (simp add: span_report_def)
  then show ?case using Cons l by (simp add: sr Let_def)
qed simp

lemma run_scan_leaks:
  assumes "spans_room V" "reach_room V" "memop_span_count P = (c, P1)" "memop_snapshot_spans (c + 64) P1 = (ss, P2)"
    and "\<And>n. push_room V n" "table_ok \<lparr>tb_spans = sort_spans ss, tb_reachable = replicate (length ss) False\<rparr>"
  shows "leak_reports (fst (mlw_run_scan V level R opened P)) =
      map (span_report V) (filter (\<lambda>s. info_used s \<noteq> 0 \<and> \<not> (\<exists>w \<in> scan_roots V R. w \<noteq> 0 \<and> holds s w)) (sort_spans ss))"
    "snd (snd (mlw_run_scan V level R opened P)) = P2"
proof -
  let ?t = "\<lparr>tb_spans = sort_spans ss, tb_reachable = replicate (length ss) False\<rparr>"
  let ?hv = "hv_items (fold (mlw_thread_cb V) (fst (thread_enum R)) \<lparr>hv_items = [], hv_cap = 0\<rparr>)"
  obtain t1 sample where t1: "scan_threads V level ?hv ?t 0 = (t1, sample)" by force
  obtain out file1 n bytes where rp: "report_spans V (zip (tb_spans t1) (tb_reachable t1)) [] opened 0 0 = (out, file1, n, bytes)"
    by (metis prod_cases4)
  have roots: "(\<Union>h \<in> {h \<in> set ?hv. tid_of V h \<noteq> self_tid V}. thread_roots V h) = scan_roots V R"
    using handles_all [of V "fst (thread_enum R)" "\<lparr>hv_items = [], hv_cap = 0\<rparr>"] assms(5) by (auto simp: scan_roots_def)
  have t1e: "t1 = mark_all (scan_roots V R) ?t"
    using scan_threads_all [OF assms(6), of V level ?hv 0] unfolding roots t1 by simp
  have len: "length (sort_spans ss) = length ss" by (simp add: sort_spans_def)
  have reach: "tb_reachable t1 = map (\<lambda>s. \<exists>w \<in> scan_roots V R. w \<noteq> 0 \<and> holds s w) (sort_spans ss)"
    unfolding t1e by (rule nth_equalityI) (simp_all add: mark_all_def len)
  have zm: "map (\<lambda>(s, r). span_report V s) (filter (\<lambda>(s, r). \<not> r \<and> info_used s \<noteq> 0) (zip xs (map f xs))) =
      map (span_report V) (filter (\<lambda>s. info_used s \<noteq> 0 \<and> \<not> f s) xs)" for xs f by (induction xs) auto
  have lr: "leak_reports out = map (span_report V) (filter (\<lambda>s. info_used s \<noteq> 0 \<and> \<not> (\<exists>w \<in> scan_roots V R. w \<noteq> 0 \<and> holds s w)) (sort_spans ss))"
  proof -
    have "leak_reports out = map (\<lambda>(s, r). span_report V s) (filter (\<lambda>(s, r). \<not> r \<and> info_used s \<noteq> 0) (zip (tb_spans t1) (tb_reachable t1)))"
      using report_spans_leaks [of V "zip (tb_spans t1) (tb_reachable t1)" "[]" opened 0 0] unfolding rp by simp
    also have "zip (tb_spans t1) (tb_reachable t1) = zip (sort_spans ss) (map (\<lambda>s. \<exists>w \<in> scan_roots V R. w \<noteq> 0 \<and> holds s w) (sort_spans ss))"
      unfolding reach by (simp add: t1e)
    finally show ?thesis by (simp only: zm)
  qed
  have e: "mlw_run_scan V level R opened P =
      (if level = MLW_CRITICAL then
         (case mlw_log (log_opens V) \<lparr>rp_level = MLW_CRITICAL, rp_kind = ''near_memory_limit'', rp_span = 0, rp_size = bytes,
              rp_used = n mod 2 ^ 32, rp_age = 0\<rparr> file1 of (o2, file2) \<Rightarrow> (out @ o2, file2, P2))
       else if level = MLW_WARN \<and> n = 0 then
         (case mlw_log (log_opens V) \<lparr>rp_level = MLW_WARN, rp_kind = ''scan_clean'', rp_span = 0, rp_size = 0, rp_used = 0, rp_age = 0\<rparr> file1 of
            (o2, file2) \<Rightarrow> (out @ o2, file2, P2))
       else (out, file1, P2))"
    by (simp only: mlw_run_scan_def assms(1-4) t1 rp Let_def prod.case simp_thms if_True if_False)
  have "leak_reports (fst (mlw_run_scan V level R opened P)) = leak_reports out \<and> snd (snd (mlw_run_scan V level R opened P)) = P2"
    unfolding e by (simp add: leak_reports_log split_beta)
  then show "leak_reports (fst (mlw_run_scan V level R opened P)) =
      map (span_report V) (filter (\<lambda>s. info_used s \<noteq> 0 \<and> \<not> (\<exists>w \<in> scan_roots V R. w \<noteq> 0 \<and> holds s w)) (sort_spans ss))"
    "snd (snd (mlw_run_scan V level R opened P)) = P2"
    using lr by simp_all
qed

section \<open>The spans of the pool\<close>

lemma distinct_concat_map:
  "distinct xs \<Longrightarrow> (\<And>x. x \<in> set xs \<Longrightarrow> distinct (f x)) \<Longrightarrow> (\<And>x y. x \<in> set xs \<Longrightarrow> y \<in> set xs \<Longrightarrow> x \<noteq> y \<Longrightarrow> set (f x) \<inter> set (f y) = {}) \<Longrightarrow>
   distinct (concat (map f xs))"
proof (induction xs)
  case (Cons x xs)
  have "set (f x) \<inter> set (f y) = {}" if "y \<in> set xs" for y using Cons(2,4) that by (metis distinct.simps(2) list.set_intros)
  then show ?case using Cons by auto
qed simp

lemma image_filter_inverse: "(\<And>a. g (f a) = a) \<Longrightarrow> g ` {s \<in> f ` A. Q s} = {a \<in> A. Q (f a)}"
  by (auto simp: image_iff) metis

lemma heap_spans_set: "set (heap_spans H) = heap_set H"
  by (simp add: heap_spans_def heap_set_def atLeast0LessThan)

lemma heap_spans_distinct:
  assumes "heap_ok h H hm"
  shows "distinct (heap_spans H)"
proof -
  have c: "distinct (spans H ! c)" "a \<in> set (spans H ! c) \<Longrightarrow> class_id (hm a) = c \<and> sp_state (hm a) = SPAN_AVAILABLE" if "c < MEMOP_CLASS_COUNT" for c a
    using assms that span_okD(2,4) unfolding heap_ok_def by blast+
  have f: "distinct (full_list H)" "a \<in> set (full_list H) \<Longrightarrow> sp_state (hm a) = SPAN_FULL" for a
    using assms span_okD(4) unfolding heap_ok_def by blast+
  have "distinct (concat (map (\<lambda>c. spans H ! c) [0..<MEMOP_CLASS_COUNT]))"
  proof (rule distinct_concat_map)
    show "distinct [0..<MEMOP_CLASS_COUNT]" by (rule distinct_upt)
    show "distinct (spans H ! c)" if "c \<in> set [0..<MEMOP_CLASS_COUNT]" for c using that c(1) [of c] by (simp only: set_upt atLeastLessThan_iff)
    show "set (spans H ! c) \<inter> set (spans H ! d) = {}" if "c \<in> set [0..<MEMOP_CLASS_COUNT]" "d \<in> set [0..<MEMOP_CLASS_COUNT]" "c \<noteq> d" for c d
    proof -
      have "c < MEMOP_CLASS_COUNT" "d < MEMOP_CLASS_COUNT" using that(1,2) by (simp_all only: set_upt atLeastLessThan_iff)
      then show ?thesis using c(2) that(3) by blast
    qed
  qed
  moreover have "sp_state (hm a) = SPAN_AVAILABLE" if m: "a \<in> set (concat (map (\<lambda>c. spans H ! c) [0..<MEMOP_CLASS_COUNT]))" for a
  proof -
    obtain c where "c \<in> set [0..<MEMOP_CLASS_COUNT]" "a \<in> set (spans H ! c)" using m unfolding set_concat set_map by blast
    moreover then have "c < MEMOP_CLASS_COUNT" by (simp only: set_upt atLeastLessThan_iff)
    ultimately show ?thesis using c(2) by blast
  qed
  moreover have "\<not> (sp_state s = SPAN_AVAILABLE \<and> sp_state s = SPAN_FULL)" for s :: MemSpan by arith
  ultimately show ?thesis unfolding heap_spans_def distinct_append disjoint_iff using f by blast
qed

lemma pool_span_list:
  assumes "pool_inv P L"
  shows "distinct (concat (map (\<lambda>h. heap_spans (hp P h)) (heaps P)))"
    "set (concat (map (\<lambda>h. heap_spans (hp P h)) (heaps P))) = pool_spans P"
    "a \<in> pool_spans P \<Longrightarrow> a mod SPAN_SIZE = 0"
proof -
  note l = pool_invD(1,2) [OF assms]
  have ok: "h \<in> set (heaps P) \<Longrightarrow> heap_ok h (hp P h) (hdr P)" for h using l(2) by (simp add: lists_ok_def)
  show "distinct (concat (map (\<lambda>h. heap_spans (hp P h)) (heaps P)))"
    by (rule distinct_concat_map)
      (use l(1) ok heap_spans_distinct heap_sets_disjoint [OF l(2)] in \<open>auto simp: life_ok_def heap_spans_set\<close>)
  show "set (concat (map (\<lambda>h. heap_spans (hp P h)) (heaps P))) = pool_spans P"
    by (simp add: pool_spans_def spans_of_def heap_spans_set)
  show "a \<in> pool_spans P \<Longrightarrow> a mod SPAN_SIZE = 0" using pool_spans_ok [OF assms] span_okD(8) by blast
qed

lemma span_gap: "a mod SPAN_SIZE = 0 \<Longrightarrow> b mod SPAN_SIZE = 0 \<Longrightarrow> a < b \<Longrightarrow> a + SPAN_SIZE \<le> b"
  by (metis add_le_mono1 dvd_imp_mod_0 linorder_not_le mod_0_imp_dvd dvd_diff_nat zero_less_diff le_add_diff_inverse less_imp_le
      nat_dvd_not_less add.commute)

lemma sorted_table_ok:
  assumes "distinct (map info_base ss)" "\<And>s. s \<in> set ss \<Longrightarrow> info_base s mod SPAN_SIZE = 0"
  shows "table_ok \<lparr>tb_spans = sort_spans ss, tb_reachable = replicate (length ss) False\<rparr>"
proof -
  let ?b = "map info_base (sort_spans ss)"
  have s: "sorted ?b" by (simp add: sort_spans_def)
  have "mset ?b = mset (map info_base ss)" by (simp add: sort_spans_def)
  then have d: "distinct ?b" using assms(1) by (metis mset_eq_imp_distinct_iff)
  have m: "?b ! i mod SPAN_SIZE = 0" if "i < length ?b" for i
  proof -
    have "sort_spans ss ! i \<in> set ss" using that by (metis length_map nth_mem set_sort sort_spans_def)
    then show ?thesis using assms(2) that by simp
  qed
  have "?b ! i + SPAN_SIZE \<le> ?b ! j" if "i < j" "j < length ?b" for i j
  proof -
    have "?b ! i < ?b ! j" using s d that by (metis sorted_nth_mono nth_eq_iff_index_eq less_imp_le order_less_le order_less_trans less_le)
    then show ?thesis using span_gap m that by simp
  qed
  then show ?thesis by (simp add: table_ok_def sort_spans_def)
qed

text \<open>C15: a scan with memory for its buffers reports exactly the spans of the pool that have blocks in use and into which no
  register and no stack word of a scanned thread points, each once, in the order of their addresses, and only reads
  the pool.\<close>

theorem leak_scan_exact:
  assumes "pool_inv P L" "spans_room V" "reach_room V" "\<And>n. push_room V n"
  shows "map rp_span (leak_reports (fst (mlw_run_scan V level R opened P))) =
      sorted_list_of_set {a \<in> pool_spans P. sp_used (hdr P a) \<noteq> 0 \<and> \<not> (\<exists>w \<in> scan_roots V R. w \<noteq> 0 \<and> a \<le> w \<and> w < a + SPAN_SIZE)} \<and>
    snd (snd (mlw_run_scan V level R opened P)) = memop_init (memop_init P)"
proof -
  let ?P = "memop_init P"
  let ?as = "concat (map (\<lambda>h. heap_spans (hp P h)) (heaps P))"
  let ?ss = "map (memop_fill_span_info (memop_init ?P)) ?as"
  have eq: "hp ?P = hp P" "heaps ?P = heaps P" "hdr ?P = hdr P" "hp (memop_init ?P) = hp P" "heaps (memop_init ?P) = heaps P" "hdr (memop_init ?P) = hdr P"
    by (simp_all add: memop_init_def)
  have base: "info_base (memop_fill_span_info Q a) = a" "info_used (memop_fill_span_info Q a) = sp_used (hdr Q a)" for Q a
    by (simp_all add: memop_fill_span_info_def Let_def)
  obtain c where c: "memop_span_count P = (c, ?P)" "c = length ?as"
    by (simp add: memop_span_count_def Let_def eq length_concat comp_def)
  have ss: "memop_snapshot_spans (c + 64) ?P = (?ss, memop_init ?P)"
    using snapshot_heaps_take [of "[]" "c + 64" "memop_init ?P" "heaps P"] c(2) by (simp add: memop_snapshot_spans_def Let_def eq)
  note pl = pool_span_list [OF assms(1)]
  have mb: "map info_base ?ss = ?as" by (simp add: base comp_def)
  have ok: "table_ok \<lparr>tb_spans = sort_spans ?ss, tb_reachable = replicate (length ?ss) False\<rparr>"
  proof (rule sorted_table_ok)
    show "distinct (map info_base ?ss)" unfolding mb by (rule pl(1))
    show "info_base s mod SPAN_SIZE = 0" if m: "s \<in> set ?ss" for s
    proof -
      obtain a where "a \<in> set ?as" "s = memop_fill_span_info (memop_init ?P) a" using m unfolding set_map by blast
      then show ?thesis using pl(3) [of a] unfolding pl(2) [symmetric] by (simp only: base)
    qed
  qed
  note r = run_scan_leaks [OF assms(2,3) c(1) ss assms(4) ok, of level R opened]
  let ?hit = "\<lambda>s. info_used s \<noteq> 0 \<and> \<not> (\<exists>w \<in> scan_roots V R. w \<noteq> 0 \<and> holds s w)"
  let ?bs = "map info_base (filter ?hit (sort_spans ?ss))"
  have e: "map rp_span (leak_reports (fst (mlw_run_scan V level R opened P))) = ?bs"
    unfolding r(1) by (simp add: comp_def span_report_def)
  have "mset (map info_base (sort_spans ?ss)) = mset (map info_base ?ss)" by (simp only: mset_map sort_spans_def mset_sort)
  also have "\<dots> = mset ?as" by (simp only: mb)
  finally have "mset (map info_base (sort_spans ?ss)) = mset ?as" .
  then have "distinct (map info_base (sort_spans ?ss))" using pl(1) by (metis mset_eq_imp_distinct_iff)
  then have d: "distinct ?bs" by (rule distinct_map_filter)
  have s: "sorted ?bs" by (rule sorted_filter) (simp add: sort_spans_def)
  have "set ?bs = {a \<in> pool_spans P. sp_used (hdr P a) \<noteq> 0 \<and> \<not> (\<exists>w \<in> scan_roots V R. w \<noteq> 0 \<and> a \<le> w \<and> w < a + SPAN_SIZE)}"
  proof -
    have "set ?bs = info_base ` {s \<in> memop_fill_span_info (memop_init ?P) ` set ?as. ?hit s}"
      by (simp only: set_map set_filter sort_spans_def set_sort)
    also have "\<dots> = {a \<in> set ?as. ?hit (memop_fill_span_info (memop_init ?P) a)}" by (rule image_filter_inverse) (rule base)
    also have "\<dots> = {a \<in> pool_spans P. sp_used (hdr P a) \<noteq> 0 \<and> \<not> (\<exists>w \<in> scan_roots V R. w \<noteq> 0 \<and> a \<le> w \<and> w < a + SPAN_SIZE)}"
      by (simp only: pl(2) base eq holds_def)
    finally show ?thesis .
  qed
  then show ?thesis using sorted_list_of_set.idem_if_sorted_distinct [OF s d] r(2) unfolding e by simp
qed

lemma P_one_span: "heaps P_one = [1]" "4259840 \<in> heap_set (hp P_one 1)" "sp_used (hdr P_one 4259840) = 1"
proof -
  note d = P_one_def list_link_def memop_alloc_raw_def get_heap_def heap_create_locked_def memop_init_def pool_zero_def bump_env_def
      class_index_40 Let_def memop_refill_def span_create_def heap_chunk_acquire_def chunk_acquire_def
      chunk_acquire_global_def chunk_new_segment_def seg_os_alloc_def bump_mmap_def trim_map_def heap_zero_def
      upd_span_def upd_heap_def heap_list_insert_head_def MEMOP_CLASS_COUNT_def full_scan_empty round_up_def bump_stats_def refill_got_def
      heap_list_unlink_def
  show "heaps P_one = [1]" by (simp add: d)
  show "sp_used (hdr P_one 4259840) = 1" by (simp add: d)
  have "4259840 \<in> set (spans (hp P_one 1) ! 2)" by (simp add: d)
  then show "4259840 \<in> heap_set (hp P_one 1)" unfolding heap_set_def by (auto simp: MEMOP_CLASS_COUNT_def)
qed

definition calm_env :: scan_env where
  "calm_env = \<lparr>self_tid = 0, tid_of = id, handle_of = id, context_of = (\<lambda>_. None), word_at = (\<lambda>_. 0), spans_room = True, reach_room = True,
     push_room = (\<lambda>_. True), tick_ms = 0, log_opens = True\<rparr>"

theorem leak_scan_exact_witness:
  "4259840 \<in> set (map rp_span (leak_reports (fst (mlw_run_scan calm_env MLW_WARN registry_zero False P_one))))"
proof -
  obtain L where L: "pool_inv P_one L" using client_inv [OF bump_env_law P_one_client] by blast
  have r: "scan_roots calm_env registry_zero = {}" by (simp add: scan_roots_def thread_roots_def calm_env_def)
  have "finite (pool_spans P_one)" using pool_span_list(2) [OF L] by (metis List.finite_set)
  then have f: "finite {a \<in> pool_spans P_one. sp_used (hdr P_one a) \<noteq> 0 \<and> \<not> (\<exists>w \<in> {}. w \<noteq> 0 \<and> a \<le> w \<and> w < a + SPAN_SIZE)}" by simp
  have "4259840 \<in> pool_spans P_one" using P_one_span(1,2) by (simp add: pool_spans_def spans_of_def)
  then show ?thesis
    using leak_scan_exact [OF L, of calm_env MLW_WARN registry_zero False] set_sorted_list_of_set [OF f] P_one_span(3)
    unfolding r by (simp add: calm_env_def)
qed

end
