(* ===== verification/Leak_Text.thy ===== *)
theory Leak_Text
  imports Leak_Watch
begin

text \<open>
  The texts of \<open>mem_leak_watch.c\<close>: the default path of the log and the call chains of the report.  A C
  string is a list of characters without the terminating zero, a buffer a list of fixed length that
  contains one.  What the system knows (directories, symbols, lines) is an argument.
\<close>

section \<open>Buffers of characters\<close>

abbreviation NUL :: char where
  "NUL \<equiv> CHR 0x00"

definition c_text :: "string \<Rightarrow> string" where
  "c_text buf = takeWhile (\<lambda>c. c \<noteq> NUL) buf"

text \<open>\<open>snprintf (out + used, cap - used, ...)\<close> for a formatted text.\<close>

definition snprintf_at :: "string \<Rightarrow> nat \<Rightarrow> string \<Rightarrow> string" where
  "snprintf_at buf used s =
    (if length buf \<le> used then buf
     else let w = take (length buf - used - 1) s @ [NUL] in take used buf @ w @ drop (used + length w) buf)"

fun dec_digits_of :: "nat \<Rightarrow> string" where
  "dec_digits_of n = (if n < 10 then [] else dec_digits_of (n div 10)) @ [char_of (48 + n mod 10)]"

fun hex_digits_of :: "nat \<Rightarrow> string" where
  "hex_digits_of n = (if n < 16 then [] else hex_digits_of (n div 16)) @
     [char_of (let d = n mod 16 in if d < 10 then 48 + d else 87 + d)]"

text \<open>\<open>%p\<close> on Windows: sixteen digits, in upper case.\<close>

definition ptr_text :: "addr \<Rightarrow> string" where
  "ptr_text p = map (\<lambda>k. char_of (let d = p div 16 ^ k mod 16 in if d < 10 then 48 + d else 55 + d)) (rev [0..<16])"

section \<open>The default path of the log\<close>

definition log_name :: string where
  "log_name = ''mem_leak_watch.log''"

text \<open>\<open>buf\<close> is the static buffer, of 4096 bytes, empty before the first call; \<open>getcwd\<close> may fail.\<close>

definition linux_default_log_path :: "string option \<Rightarrow> string \<Rightarrow> string" where
  "linux_default_log_path getcwd buf =
    (if buf \<noteq> [] then buf
     else let d = (case getcwd of None \<Rightarrow> ''.'' | Some d \<Rightarrow> d) in d @ take (4096 - length d - 1) (CHR 0x2F # log_name))"

text \<open>On Windows: \<open>exe\<close> is the path of the program (\<open>None\<close> when it does not fit in 260 characters), \<open>full\<close>
  what \<open>GetFullPathNameA\<close> gives.\<close>

definition cut_last_part :: "string \<Rightarrow> string" where
  "cut_last_part s = (case dropWhile (\<lambda>c. c \<noteq> CHR 0x5C) (rev s) of [] \<Rightarrow> [] | c # r \<Rightarrow> rev r)"

definition win_default_log_path :: "string option \<Rightarrow> string \<Rightarrow> string \<Rightarrow> string" where
  "win_default_log_path exe full buf =
    (if buf \<noteq> [] then buf
     else case exe of
       None \<Rightarrow> full
     | Some s \<Rightarrow> take 519 (cut_last_part s @ [CHR 0x5C] @ log_name))"

section \<open>Call chains\<close>

text \<open>What the symbol library knows about an address: the function, the distance from its start, and
  perhaps the file and line.\<close>

type_synonym symbols = "addr \<Rightarrow> (string \<times> nat \<times> (string \<times> nat) option) option"

definition frame_text :: "symbols \<Rightarrow> addr \<Rightarrow> string" where
  "frame_text tab f =
    (case (if f = 0 then None else tab f) of
       Some (name, disp, Some (src, line)) \<Rightarrow> name @ ''+0x'' @ hex_digits_of disp @ '' ('' @ src @ '':'' @ dec_digits_of line @ '')''
     | Some (name, disp, None) \<Rightarrow> name @ ''+0x'' @ hex_digits_of disp
     | None \<Rightarrow> ''0x'' @ ptr_text f)"

definition chain_sep :: string where
  "chain_sep = '' <- ''"

text \<open>The loop over the frames from the \<open>i\<close>-th on.\<close>

fun format_loop :: "symbols \<Rightarrow> nat \<Rightarrow> addr list \<Rightarrow> nat \<Rightarrow> string \<Rightarrow> string" where
  "format_loop tab i [] used buf = buf"
| "format_loop tab i (f # fs) used buf =
    (if used < length buf then
       let s = (if i = 0 then [] else chain_sep) @ frame_text tab f; buf1 = snprintf_at buf used s
       in if length s = 0 then buf1 else format_loop tab (i + 1) fs (used + length s) buf1
     else buf)"

definition mlw_format_frames :: "symbols \<Rightarrow> addr list \<Rightarrow> string \<Rightarrow> string" where
  "mlw_format_frames tab frames buf =
    (if frames = [] then (if buf = [] then buf else NUL # tl buf) else format_loop tab 0 frames 0 buf)"

text \<open>The symbol library is initialised on demand: the new value of \<open>g_sym_inited\<close>, and whether this call
  does it.  The function of \<open>ntdll\<close> is looked up until it is found, then kept.\<close>

definition mlw_sym_ensure_init :: "int \<Rightarrow> int \<times> bool" where
  "mlw_sym_ensure_init g_sym_inited =
    (if atomic_get_inline g_sym_inited \<noteq> 0 then (g_sym_inited, False)
     else let (ok, s, _) = atomic_cas_inline g_sym_inited 0 1 in (s, ok))"

definition mlw_resolve_ntdll :: "addr option \<Rightarrow> addr \<Rightarrow> bool \<times> addr" where
  "mlw_resolve_ntdll proc cached =
    (if cached \<noteq> 0 then (True, cached)
     else case proc of None \<Rightarrow> (False, cached) | Some p \<Rightarrow> (p \<noteq> 0, p))"

lemma sym_init_once: "mlw_sym_ensure_init s = (s', b) \<Longrightarrow> s' \<noteq> 0 \<and> b = (s = 0) \<and> mlw_sym_ensure_init s' = (s', False)"
  by (auto simp: mlw_sym_ensure_init_def atomic_get_inline_def atomic_cas_inline_def split: if_splits)

section \<open>Properties\<close>

lemma length_snprintf_at [simp]: "length (snprintf_at buf used s) = length buf"
  by (auto simp: snprintf_at_def Let_def)

lemma snprintf_at_nil [simp]: "snprintf_at buf used s = [] \<longleftrightarrow> buf = []"
  by (metis length_0_conv length_snprintf_at)

lemma c_text_append: "NUL \<notin> set a \<Longrightarrow> c_text (a @ NUL # r) = a"
  by (induction a) (auto simp: c_text_def)

lemma c_text_snprintf:
  assumes "used < length buf" "length pre = used" "take used buf = pre" "NUL \<notin> set pre" "NUL \<notin> set s"
  shows "c_text (snprintf_at buf used s) = take (length buf - 1) (pre @ s)"
proof -
  have n: "NUL \<notin> set (take (length buf - used - 1) s)" using assms(5) by (meson in_set_takeD)
  have "snprintf_at buf used s = (pre @ take (length buf - used - 1) s) @ NUL # drop (used + Suc (length (take (length buf - used - 1) s))) buf"
    using assms(1,3) by (simp add: snprintf_at_def Let_def)
  then have "c_text (snprintf_at buf used s) = pre @ take (length buf - used - 1) s"
    using n assms(4) by (simp only: c_text_append set_append Un_iff not_False_eq_True simp_thms)
  moreover have "take (length buf - 1) pre = pre" using assms(1,2) by simp
  ultimately show ?thesis using assms(2) by (simp add: diff_right_commute)
qed

fun chain_text :: "symbols \<Rightarrow> addr list \<Rightarrow> string" where
  "chain_text tab [] = []"
| "chain_text tab [f] = frame_text tab f"
| "chain_text tab (f # g # fs) = frame_text tab f @ chain_sep @ chain_text tab (g # fs)"

text \<open>Names from the symbol library are C strings.\<close>

definition symbols_ok :: "symbols \<Rightarrow> bool" where
  "symbols_ok tab \<longleftrightarrow> (\<forall>f name disp r. tab f = Some (name, disp, r) \<longrightarrow>
     NUL \<notin> set name \<and> (\<forall>src line. r = Some (src, line) \<longrightarrow> NUL \<notin> set src))"

lemma char_of_no_nul: "0 < k \<Longrightarrow> k < 256 \<Longrightarrow> char_of k \<noteq> NUL" for k :: nat
proof
  assume k: "0 < k" "k < 256" and e: "char_of k = NUL"
  have "of_char (char_of k :: char) = k mod 256" by (simp add: of_char_of)
  then show False using k e by simp
qed

lemma dec_digits_no_nul: "NUL \<notin> set (dec_digits_of n)"
proof (induction n rule: dec_digits_of.induct)
  case (1 n)
  have "char_of (48 + n mod 10) \<noteq> NUL" by (rule char_of_no_nul) simp_all
  then show ?case using 1 by (subst dec_digits_of.simps) auto
qed

lemma hex_digits_no_nul: "NUL \<notin> set (hex_digits_of n)"
proof (induction n rule: hex_digits_of.induct)
  case (1 n)
  have "n mod 16 \<le> 15" by simp
  then have "char_of (let d = n mod 16 in if d < 10 then 48 + d else 87 + d) \<noteq> NUL"
    unfolding Let_def by (intro char_of_no_nul) (auto split: if_splits)
  then show ?case using 1 by (subst hex_digits_of.simps) auto
qed

lemma ptr_text_no_nul: "NUL \<notin> set (ptr_text p)"
proof -
  have "char_of (let d = p div 16 ^ k mod 16 in if d < 10 then 48 + d else 55 + d) \<noteq> NUL" for k
  proof -
    have "p div 16 ^ k mod 16 \<le> 15" by simp
    then show ?thesis unfolding Let_def by (intro char_of_no_nul) (auto split: if_splits)
  qed
  then show ?thesis unfolding ptr_text_def by (metis (no_types, lifting) imageE image_set)
qed

lemma marks_no_nul: "NUL \<notin> set ''+0x''" "NUL \<notin> set '' (''" "NUL \<notin> set '':''" "NUL \<notin> set '')''" "NUL \<notin> set ''0x''" "NUL \<notin> set '' <- ''"
  by simp_all

lemma frame_text_no_nul:
  assumes "symbols_ok tab"
  shows "NUL \<notin> set (frame_text tab f)"
proof (cases "if f = 0 then None else tab f")
  case None
  then show ?thesis unfolding frame_text_def None option.case set_append Un_iff using marks_no_nul(5) ptr_text_no_nul by blast
next
  case (Some r)
  obtain name disp l where r: "r = (name, disp, l)" by (cases r)
  have "tab f = Some (name, disp, l)" using Some r by (simp split: if_splits)
  then have n: "NUL \<notin> set name" "\<And>src line. l = Some (src, line) \<Longrightarrow> NUL \<notin> set src" using assms by (auto simp: symbols_ok_def)
  show ?thesis
  proof (cases l)
    case None
    then have "frame_text tab f = name @ ''+0x'' @ hex_digits_of disp" by (simp only: frame_text_def Some r option.case prod.case)
    then show ?thesis using n(1) marks_no_nul hex_digits_no_nul by (simp only: set_append Un_iff) blast
  next
    case (Some q)
    obtain src line where q: "q = (src, line)" by (cases q)
    have "frame_text tab f = name @ ''+0x'' @ hex_digits_of disp @ '' ('' @ src @ '':'' @ dec_digits_of line @ '')''"
      by (simp only: frame_text_def \<open>(if f = 0 then None else tab f) = Some r\<close> r Some q option.case prod.case)
    then show ?thesis using n(1) n(2) [OF Some [unfolded q]] marks_no_nul hex_digits_no_nul dec_digits_no_nul
      by (simp only: set_append Un_iff) blast
  qed
qed

lemma frame_text_not_nil: "frame_text tab f \<noteq> []"
  by (auto simp: frame_text_def split: option.split prod.split)

lemma chain_text_cons: "chain_text tab (f # fs) = frame_text tab f @ (if fs = [] then [] else chain_sep @ chain_text tab fs)"
  by (cases fs) simp_all

lemma chain_sep_no_nul: "NUL \<notin> set chain_sep"
  unfolding chain_sep_def by (rule marks_no_nul(6))

text \<open>The buffer after the loop, for the text \<open>T\<close> written so far.\<close>

lemma format_loop_text:
  assumes ok: "symbols_ok tab"
  shows "c_text buf = take (length buf - 1) T \<Longrightarrow> NUL \<notin> set T \<Longrightarrow> (i = 0 \<longleftrightarrow> T = []) \<Longrightarrow> buf \<noteq> [] \<Longrightarrow>
    length (format_loop tab i fs (length T) buf) = length buf \<and>
    c_text (format_loop tab i fs (length T) buf) =
      take (length buf - 1) (T @ (if fs = [] then [] else (if i = 0 then [] else chain_sep) @ chain_text tab fs))"
proof (induction fs arbitrary: i T buf)
  case (Cons f fs)
  define s where "s = (if i = 0 then [] else chain_sep) @ frame_text tab f"
  have s: "s \<noteq> []" "NUL \<notin> set s"
    using frame_text_not_nil frame_text_no_nul [OF ok] chain_sep_no_nul by (auto simp: s_def)
  have tx: "T @ (if i = 0 then [] else chain_sep) @ chain_text tab (f # fs) =
      (T @ s) @ (if fs = [] then [] else chain_sep @ chain_text tab fs)" by (simp add: s_def chain_text_cons)
  show ?case
  proof (cases "length T < length buf")
    case True
    have "c_text buf = T" using Cons.prems(1) True by simp
    then have tk: "take (length T) buf = T" unfolding c_text_def by (metis takeWhile_eq_take)
    let ?b = "snprintf_at buf (length T) s"
    have b: "c_text ?b = take (length ?b - 1) (T @ s)"
      using c_text_snprintf [OF True refl tk Cons.prems(2) s(2)] by simp
    have r: "format_loop tab i (f # fs) (length T) buf = format_loop tab (i + 1) fs (length (T @ s)) ?b"
      using True s(1) by (simp add: s_def [symmetric] Let_def)
    have "NUL \<notin> set (T @ s)" "(i + 1 = 0) = (T @ s = [])" "?b \<noteq> []" using Cons.prems(2,4) s by simp_all
    from Cons.IH [OF b this] show ?thesis unfolding r using tx by (simp split: if_splits)
  next
    case False
    then show ?thesis using Cons.prems(1) by simp
  qed
qed simp

text \<open>The call chain of the leak report: into a buffer of any size the code writes the texts of the
  frames, from the first one on, with the arrow between them, cut at the end of the buffer, always with
  its terminating zero and never past the buffer; without frames the text is empty.\<close>

theorem format_frames_text:
  assumes "symbols_ok tab" "buf \<noteq> []"
  shows "length (mlw_format_frames tab frames buf) = length buf \<and>
    c_text (mlw_format_frames tab frames buf) = take (length buf - 1) (chain_text tab frames)"
proof (cases frames)
  case Nil
  then show ?thesis using assms(2) by (cases buf) (simp_all add: mlw_format_frames_def c_text_def)
next
  case (Cons f fs)
  have s: "frame_text tab f \<noteq> []" "NUL \<notin> set (frame_text tab f)" using frame_text_not_nil frame_text_no_nul [OF assms(1)] by auto
  let ?b = "snprintf_at buf 0 (frame_text tab f)"
  have b: "c_text ?b = take (length ?b - 1) (frame_text tab f)"
    using c_text_snprintf [of 0 buf "[]" "frame_text tab f"] assms(2) s(2) by simp
  have r: "mlw_format_frames tab frames buf = format_loop tab 1 fs (length (frame_text tab f)) ?b"
    using Cons assms(2) s(1) by (simp add: mlw_format_frames_def Let_def)
  have "(1 = (0::nat)) = (frame_text tab f = [])" "?b \<noteq> []" using s(1) assms(2) by simp_all
  from format_loop_text [OF assms(1) b s(2) this, of fs] show ?thesis unfolding r using Cons by (simp add: chain_text_cons)
qed

lemma format_frames_text_witness:
  "c_text (mlw_format_frames (\<lambda>f. if f = 4096 then Some (''main'', 18, None) else None) [4096] (replicate 8 NUL)) = ''main+0x''"
  using format_frames_text [of "\<lambda>f. if f = 4096 then Some (''main'', 18, None) else None" "replicate 8 NUL" "[4096]"]
  by (simp add: symbols_ok_def frame_text_def split: if_splits)

text \<open>The default path is computed once and fits its buffer.\<close>

lemma linux_log_path_fits:
  assumes "\<And>d. getcwd = Some d \<Longrightarrow> length d < 4096" "length buf < 4096"
  shows "length (linux_default_log_path getcwd buf) < 4096"
    "linux_default_log_path getcwd' (linux_default_log_path getcwd buf) = linux_default_log_path getcwd buf \<or>
      linux_default_log_path getcwd buf = []"
  using assms by (auto simp: linux_default_log_path_def Let_def split: option.split)

end
