(* ===== verification/Task_Ring.thy ===== *)
theory Task_Ring
  imports Atomics Bounded_Queue
begin

text \<open>
  The typed ring that holds the tasks of a shard (\<open>pool_ring_*\<close> of \<open>thread_pool.c\<close>):
  one sequence number and one task per cell, pushes of one task, pops of a batch claimed by one
  compare-and-swap on \<open>head\<close>.  The operations are run here by one thread at a time; a retry
  loop that would spin for ever with no other thread running is \<open>None\<close>.
\<close>

section \<open>State and operations\<close>

record PoolTask =
  fn :: addr
  arg :: addr

record PoolCell =
  c_seq :: w32
  c_task :: PoolTask

record PoolRing =
  pr_tail :: w32
  pr_head :: w32
  cells :: "PoolCell list"
  pr_mask :: w32

definition cell_ix :: "PoolRing \<Rightarrow> w32 \<Rightarrow> nat" where
  "cell_ix r pos = unat (pos AND pr_mask r)"

definition cell_at :: "PoolRing \<Rightarrow> w32 \<Rightarrow> PoolCell" where
  "cell_at r pos = cells r ! cell_ix r pos"

definition set_cell :: "PoolRing \<Rightarrow> w32 \<Rightarrow> PoolCell \<Rightarrow> PoolRing" where
  "set_cell r pos c = r\<lparr>cells := (cells r)[cell_ix r pos := c]\<rparr>"

text \<open>\<open>mem\<close> is what \<open>pool_aligned_alloc\<close> returns: \<open>None\<close>, or cells of unknown contents.\<close>

definition pool_ring_init :: "PoolCell list option \<Rightarrow> nat \<Rightarrow> PoolRing \<Rightarrow> bool \<times> PoolRing" where
  "pool_ring_init mem cap r =
     (case mem of
        None \<Rightarrow> (False, r\<lparr>cells := []\<rparr>)
      | Some cs \<Rightarrow>
          (True, \<lparr>pr_tail = 0, pr_head = 0, cells = map (\<lambda>i. (cs ! i)\<lparr>c_seq := of_nat i\<rparr>) [0..<cap],
                  pr_mask = of_nat cap - 1\<rparr>))"

definition pool_ring_free :: "PoolRing \<Rightarrow> PoolRing" where
  "pool_ring_free r = r\<lparr>cells := []\<rparr>"

text \<open>The position \<open>pos\<close> is the value of \<open>tail\<close> the loop read last.\<close>

partial_function (option) ring_push_loop :: "PoolRing \<Rightarrow> PoolTask \<Rightarrow> w32 \<Rightarrow> (bool \<times> PoolRing) option" where
  "ring_push_loop r t pos =
     (let dif = sint (c_seq (cell_at r pos) - pos) in
      if dif = 0 then
        (let (ok, tail', _) = atomic_u32_cas_inline (pr_tail r) pos (pos + 1); r1 = r\<lparr>pr_tail := tail'\<rparr> in
         if ok then Some (True, set_cell r1 pos \<lparr>c_seq = pos + 1, c_task = t\<rparr>)
         else ring_push_loop r1 t (pr_tail r1))
      else if dif < 0 then Some (False, r)
      else ring_push_loop r t (pr_tail r))"

definition pool_ring_push :: "PoolRing \<Rightarrow> PoolTask \<Rightarrow> (bool \<times> PoolRing) option" where
  "pool_ring_push r t = ring_push_loop r t (pr_tail r)"

text \<open>How many cells from \<open>pos\<close> on are published, at most \<open>mx\<close>.\<close>

function ring_scan :: "PoolRing \<Rightarrow> w32 \<Rightarrow> nat \<Rightarrow> nat \<Rightarrow> nat" where
  "ring_scan r pos n mx =
     (if n < mx \<and> sint (c_seq (cell_at r (pos + of_nat n)) - (pos + of_nat n + 1)) = 0
      then ring_scan r pos (n + 1) mx else n)"
  by pat_completeness auto
termination by (relation "measure (\<lambda>(r, pos, n, mx). mx - n)") auto

declare ring_scan.simps [simp del]

text \<open>The claimed cells are read and recycled in order.\<close>

fun ring_drain :: "PoolRing \<Rightarrow> w32 \<Rightarrow> nat \<Rightarrow> PoolTask list \<times> PoolRing" where
  "ring_drain r pos 0 = ([], r)"
| "ring_drain r pos (Suc n) =
     (let c = cell_at r pos; (ts, r') = ring_drain (set_cell r pos (c\<lparr>c_seq := pos + pr_mask r + 1\<rparr>)) (pos + 1) n
      in (c_task c # ts, r'))"

partial_function (option) pool_ring_pop_batch :: "PoolRing \<Rightarrow> nat \<Rightarrow> (PoolTask list \<times> PoolRing) option" where
  "pool_ring_pop_batch r mx =
     (let pos = pr_head r; n = ring_scan r pos 0 mx in
      if n = 0 then Some ([], r)
      else (let (ok, head', _) = atomic_u32_cas_inline (pr_head r) pos (pos + of_nat n); r1 = r\<lparr>pr_head := head'\<rparr> in
            if ok then Some (ring_drain r1 pos n) else pool_ring_pop_batch r1 mx))"

definition pool_ring_count :: "PoolRing \<Rightarrow> int" where
  "pool_ring_count r = (let d = sint (pr_tail r - pr_head r) in if d > 0 then d else 0)"

section \<open>The queue a ring holds\<close>

definition pr_len :: "PoolRing \<Rightarrow> nat" where
  "pr_len r = unat (pr_tail r - pr_head r)"

definition pr_inv :: "nat \<Rightarrow> PoolRing \<Rightarrow> bool" where
  "pr_inv k r \<longleftrightarrow> 1 \<le> k \<and> k \<le> 30 \<and> pr_mask r = 2 ^ k - 1 \<and> length (cells r) = 2 ^ k \<and> pr_len r \<le> 2 ^ k \<and>
     (\<forall>i < 2 ^ k. c_seq (cells r ! ((unat (pr_head r) + i) mod 2 ^ k)) =
        pr_head r + of_nat i + (if i < pr_len r then 1 else 0))"

definition ring_tasks :: "PoolRing \<Rightarrow> PoolTask list" where
  "ring_tasks r = map (\<lambda>i. c_task (cell_at r (pr_head r + of_nat i))) [0..<pr_len r]"

definition pr_capacity :: "PoolRing \<Rightarrow> nat" where
  "pr_capacity r = length (cells r)"

lemma length_ring_tasks [simp]: "length (ring_tasks r) = pr_len r"
  by (simp add: ring_tasks_def)

lemma pr_invD:
  assumes "pr_inv k r"
  shows "1 \<le> k" "k \<le> 30" "pr_mask r = 2 ^ k - 1" "length (cells r) = 2 ^ k" "pr_len r \<le> 2 ^ k"
    "\<And>i. i < 2 ^ k \<Longrightarrow> c_seq (cells r ! ((unat (pr_head r) + i) mod 2 ^ k)) = pr_head r + of_nat i + (if i < pr_len r then 1 else 0)"
  using assms by (auto simp: pr_inv_def)

lemma cell_ix_plus: "pr_inv k r \<Longrightarrow> cell_ix r (h + of_nat i) = (unat h + i) mod 2 ^ k"
  using slot_index [of k h i] pr_invD(2,3) [of k r] by (simp add: cell_ix_def)

lemma cell_ix_head: "pr_inv k r \<Longrightarrow> cell_ix r h = unat h mod 2 ^ k"
  using cell_ix_plus [of k r h 0] by simp

lemma pr_tail_eq: "pr_tail r = pr_head r + of_nat (pr_len r)"
  by (simp add: pr_len_def)

lemma pow_bounds: "1 \<le> k \<Longrightarrow> k \<le> 30 \<Longrightarrow> 2 \<le> (2 :: nat) ^ k \<and> (2 :: nat) ^ k \<le> 1073741824"
  using power_increasing [of 1 k "2 :: nat"] power_increasing [of k 30 "2 :: nat"] by simp

lemma sint_small: "n < 2147483648 \<Longrightarrow> sint (of_nat n :: w32) = int n"
proof -
  assume n: "n < 2147483648"
  have "uint (of_nat n :: w32) = int n" using n by (simp add: unsigned_of_nat take_bit_nat_eq_self)
  then show ?thesis using n by (simp add: sint_uint signed_take_bit_int_eq_self)
qed

lemma sint_uminus: "0 < n \<Longrightarrow> n \<le> 2147483648 \<Longrightarrow> sint (- (of_nat n) :: w32) = - int n"
proof -
  assume n: "0 < n" "n \<le> 2147483648"
  have "- (of_nat n :: w32) = word_of_int (- int n)" by simp
  then have "sint (- (of_nat n) :: w32) = signed_take_bit 31 (- int n)" by (simp only: sint_sbintrunc') simp
  then show ?thesis using n by (simp add: signed_take_bit_int_eq_self)
qed

lemma seq_at:
  assumes "pr_inv k r" "i < 2 ^ k"
  shows "c_seq (cell_at r (pr_head r + of_nat i)) = pr_head r + of_nat i + (if i < pr_len r then 1 else 0)"
  using pr_invD(6) [OF assms] by (simp add: cell_at_def cell_ix_plus [OF assms(1)])

lemma seq_wrapped:
  assumes "pr_inv k r"
  shows "c_seq (cell_at r (pr_head r + of_nat (2 ^ k))) = pr_head r + (if 0 < pr_len r then 1 else 0)"
proof -
  have "cell_ix r (pr_head r + of_nat (2 ^ k)) = cell_ix r (pr_head r + of_nat 0)"
    using cell_ix_plus [OF assms] by (metis add.right_neutral mod_add_self2)
  then show ?thesis using seq_at [OF assms, of 0] by (simp add: cell_at_def)
qed

section \<open>Push\<close>

definition pr_pushed :: "PoolRing \<Rightarrow> PoolTask \<Rightarrow> PoolRing" where
  "pr_pushed r t = set_cell (r\<lparr>pr_tail := pr_tail r + 1\<rparr>) (pr_tail r) \<lparr>c_seq = pr_tail r + 1, c_task = t\<rparr>"

lemma pool_ring_push_cases:
  assumes inv: "pr_inv k r"
  shows "pool_ring_push r t = Some (if pr_len r < 2 ^ k then (True, pr_pushed r t) else (False, r))"
proof (cases "pr_len r < 2 ^ k")
  case True
  then have "c_seq (cell_at r (pr_tail r)) = pr_tail r" using seq_at [OF inv True] by (simp add: pr_tail_eq [symmetric])
  then show ?thesis
    using True by (simp add: pool_ring_push_def ring_push_loop.simps pr_pushed_def set_cell_def cell_ix_def)
next
  case False
  then have l: "pr_len r = 2 ^ k" using pr_invD(5) [OF inv] by simp
  have b: "2 \<le> (2 :: nat) ^ k" "(2 :: nat) ^ k \<le> 1073741824" using pow_bounds pr_invD(1,2) [OF inv] by blast+
  have "c_seq (cell_at r (pr_tail r)) - pr_tail r = - of_nat (2 ^ k - 1)"
    using seq_wrapped [OF inv] b by (simp add: pr_tail_eq l of_nat_diff)
  then have "sint (c_seq (cell_at r (pr_tail r)) - pr_tail r) = - int (2 ^ k - 1)"
    using sint_uminus [of "2 ^ k - 1"] b by simp
  moreover have "- int (2 ^ k - 1) < 0"
  proof -
    have "(0 :: nat) < 2 ^ k - 1" using b by linarith
    then show ?thesis by linarith
  qed
  ultimately show ?thesis
    using l unfolding pool_ring_push_def by (subst ring_push_loop.simps) (simp add: Let_def)
qed

lemma pushed_fields [simp]: "pr_head (pr_pushed r t) = pr_head r" "pr_tail (pr_pushed r t) = pr_tail r + 1"
  "pr_mask (pr_pushed r t) = pr_mask r" "length (cells (pr_pushed r t)) = length (cells r)"
  by (simp_all add: pr_pushed_def set_cell_def)

lemma pr_len_pushed:
  assumes "pr_inv k r" "pr_len r < 2 ^ k"
  shows "pr_len (pr_pushed r t) = pr_len r + 1"
proof -
  have "pr_len r + 1 < 2 ^ 32" using assms(2) pow_bounds [OF pr_invD(1,2) [OF assms(1)]] by simp
  moreover have "pr_tail r + 1 - pr_head r = of_nat (pr_len r + 1)" by (simp add: pr_tail_eq)
  ultimately show ?thesis by (simp only: pr_len_def [of "pr_pushed r t"] pushed_fields unat_of_nat) simp
qed

lemma pushed_cell:
  assumes inv: "pr_inv k r" and room: "pr_len r < 2 ^ k" and i: "i < 2 ^ k"
  shows "cell_at (pr_pushed r t) (pr_head r + of_nat i) =
    (if i = pr_len r then \<lparr>c_seq = pr_tail r + 1, c_task = t\<rparr> else cell_at r (pr_head r + of_nat i))"
proof -
  have ix: "cell_ix (r\<lparr>pr_tail := x\<rparr>) p = cell_ix r p" "cell_ix (pr_pushed r t) p = cell_ix r p" for p x
    by (simp_all add: cell_ix_def)
  have eq: "cell_ix r (pr_tail r) = cell_ix r (pr_head r + of_nat i) \<longleftrightarrow> i = pr_len r"
    using slot_inj [OF i room, of "unat (pr_head r)"] by (auto simp: pr_tail_eq cell_ix_plus [OF inv])
  have lt: "cell_ix r p < length (cells r)" for p
    using cell_ix_head [OF inv] pr_invD(4) [OF inv] by simp
  have "cell_at (pr_pushed r t) p = ((cells r)[cell_ix r (pr_tail r) := \<lparr>c_seq = pr_tail r + 1, c_task = t\<rparr>]) ! cell_ix r p" for p
    by (simp add: cell_at_def ix) (simp add: pr_pushed_def set_cell_def ix)
  then show ?thesis using eq lt by (simp add: nth_list_update cell_at_def)
qed

lemma pr_inv_pushed:
  assumes inv: "pr_inv k r" and room: "pr_len r < 2 ^ k"
  shows "pr_inv k (pr_pushed r t)" "ring_tasks (pr_pushed r t) = ring_tasks r @ [t]"
proof -
  note len = pr_len_pushed [OF inv room, of t]
  have at: "cell_at q (pr_head r + of_nat i) = cells q ! ((unat (pr_head r) + i) mod 2 ^ k)" if "pr_mask q = 2 ^ k - 1" for q i
    using that slot_index [of k "pr_head r" i] pr_invD(2) [OF inv] by (simp add: cell_at_def cell_ix_def)
  have "c_seq (cells (pr_pushed r t) ! ((unat (pr_head r) + i) mod 2 ^ k)) = pr_head r + of_nat i + (if i < pr_len r + 1 then 1 else 0)"
    if "i < 2 ^ k" for i
    using pushed_cell [OF inv room that, of t] at [of "pr_pushed r t" i] seq_at [OF inv that] pr_invD(3) [OF inv]
    by (auto simp: pr_tail_eq)
  then show "pr_inv k (pr_pushed r t)" using pr_invD(1-5) [OF inv] room by (simp add: pr_inv_def len)
  have "cell_at (pr_pushed r t) (pr_head r + of_nat i) = cell_at r (pr_head r + of_nat i)" if "i < pr_len r" for i
    using pushed_cell [OF inv room, of i t] that room by simp
  moreover have "c_task (cell_at (pr_pushed r t) (pr_head r + of_nat (pr_len r))) = t"
    using pushed_cell [OF inv room room, of t] by simp
  ultimately show "ring_tasks (pr_pushed r t) = ring_tasks r @ [t]" by (simp add: ring_tasks_def len)
qed

section \<open>Pop\<close>

text \<open>The state after the first task is popped; a batch is a run of these.\<close>

definition pr_popped :: "PoolRing \<Rightarrow> PoolRing" where
  "pr_popped r = (set_cell r (pr_head r) ((cell_at r (pr_head r))\<lparr>c_seq := pr_head r + pr_mask r + 1\<rparr>))\<lparr>pr_head := pr_head r + 1\<rparr>"

lemma popped_fields [simp]: "pr_head (pr_popped r) = pr_head r + 1" "pr_tail (pr_popped r) = pr_tail r"
  "pr_mask (pr_popped r) = pr_mask r" "length (cells (pr_popped r)) = length (cells r)"
  by (simp_all add: pr_popped_def set_cell_def)

lemma pr_len_popped:
  assumes "pr_len r \<noteq> 0"
  shows "pr_len (pr_popped r) = pr_len r - 1"
proof -
  have "pr_len r - 1 < 2 ^ 32" using unat_lt_2p32 [of "pr_tail r - pr_head r"] by (simp add: pr_len_def)
  moreover have "pr_tail r - (pr_head r + 1) = of_nat (pr_len r - 1)" using assms by (simp add: pr_tail_eq of_nat_diff)
  ultimately show ?thesis by (simp only: pr_len_def [of "pr_popped r"] popped_fields unat_of_nat) simp
qed

lemma popped_cell:
  assumes inv: "pr_inv k r" and i: "i < 2 ^ k"
  shows "cell_at (pr_popped r) (pr_head r + of_nat i) =
    (if i = 0 then (cell_at r (pr_head r))\<lparr>c_seq := pr_head r + pr_mask r + 1\<rparr> else cell_at r (pr_head r + of_nat i))"
proof -
  have ix: "cell_ix (pr_popped r) p = cell_ix r p" for p by (simp add: cell_ix_def)
  have z: "(0 :: nat) < 2 ^ k" by simp
  have eq: "cell_ix r (pr_head r) = cell_ix r (pr_head r + of_nat i) \<longleftrightarrow> i = 0"
    using slot_inj [OF i z, of "unat (pr_head r)"] by (auto simp: cell_ix_head [OF inv, of "pr_head r"] cell_ix_plus [OF inv])
  have lt: "cell_ix r p < length (cells r)" for p
    using cell_ix_head [OF inv] pr_invD(4) [OF inv] by simp
  have "cell_at (pr_popped r) p = ((cells r)[cell_ix r (pr_head r) := (cell_at r (pr_head r))\<lparr>c_seq := pr_head r + pr_mask r + 1\<rparr>]) ! cell_ix r p" for p
    by (simp add: cell_at_def ix) (simp add: pr_popped_def set_cell_def cell_at_def)
  then show ?thesis using eq lt by (simp add: nth_list_update cell_at_def)
qed

lemma pr_inv_popped:
  assumes inv: "pr_inv k r" and some: "pr_len r \<noteq> 0"
  shows "pr_inv k (pr_popped r)" "c_task (cell_at r (pr_head r)) # ring_tasks (pr_popped r) = ring_tasks r"
proof -
  note len = pr_len_popped [OF some]
  have next_head: "pr_head r + 1 + of_nat i = pr_head r + of_nat (Suc i)" for i by simp
  have at: "cell_at (pr_popped r) (pr_head r + 1 + of_nat i) = cells (pr_popped r) ! ((unat (pr_head r + 1) + i) mod 2 ^ k)" for i
    using slot_index [of k "pr_head r + 1" i] pr_invD(2,3) [OF inv] by (simp add: cell_at_def cell_ix_def)
  have "c_seq (cell_at (pr_popped r) (pr_head r + 1 + of_nat i)) = pr_head r + 1 + of_nat i + (if i < pr_len r - 1 then 1 else 0)"
    if i: "i < 2 ^ k" for i
  proof (cases "Suc i < 2 ^ k")
    case True
    have "cell_at (pr_popped r) (pr_head r + 1 + of_nat i) = cell_at r (pr_head r + of_nat (Suc i))"
      using popped_cell [OF inv True] by (simp only: next_head) simp
    then show ?thesis using seq_at [OF inv True] some by (auto simp: less_diff_conv)
  next
    case False
    with i have e: "Suc i = 2 ^ k" by simp
    have z: "(0 :: nat) < 2 ^ k" by simp
    have "cell_ix (pr_popped r) (pr_head r + of_nat (2 ^ k)) = cell_ix (pr_popped r) (pr_head r + of_nat 0)"
      using cell_ix_plus [OF inv, of "pr_head r" "2 ^ k"] cell_ix_plus [OF inv, of "pr_head r" 0] by (simp add: cell_ix_def)
    then have "cell_at (pr_popped r) (pr_head r + of_nat (Suc i)) = cell_at (pr_popped r) (pr_head r + of_nat 0)"
      by (simp only: e cell_at_def)
    also have "c_seq \<dots> = pr_head r + 2 ^ k" using popped_cell [OF inv z] pr_invD(3) [OF inv] by simp
    also have "\<dots> = pr_head r + 1 + of_nat i" using arg_cong [OF e, of "of_nat :: nat \<Rightarrow> w32"] by (simp add: add.assoc)
    finally have "c_seq (cell_at (pr_popped r) (pr_head r + 1 + of_nat i)) = pr_head r + 1 + of_nat i" by (simp only: next_head)
    moreover have "\<not> i < pr_len r - 1" using e pr_invD(5) [OF inv] by simp
    ultimately show ?thesis by simp
  qed
  then show "pr_inv k (pr_popped r)" using pr_invD(1-5) [OF inv] at by (simp add: pr_inv_def len)
  have "cell_at (pr_popped r) (pr_head r + 1 + of_nat i) = cell_at r (pr_head r + of_nat (Suc i))" if "i < pr_len r - 1" for i
    using popped_cell [OF inv, of "Suc i"] that pr_invD(5) [OF inv] by (simp only: next_head) simp
  then have tl: "ring_tasks (pr_popped r) = map (\<lambda>i. c_task (cell_at r (pr_head r + of_nat (Suc i)))) [0..<pr_len r - 1]"
    by (simp add: ring_tasks_def len)
  show "c_task (cell_at r (pr_head r)) # ring_tasks (pr_popped r) = ring_tasks r"
    unfolding tl ring_tasks_def [of r] using some by (subst (2) map_upt_Cons) simp_all
qed

lemma drain_head: "ring_drain (r\<lparr>pr_head := h\<rparr>) p n = (case ring_drain r p n of (ts, r') \<Rightarrow> (ts, r'\<lparr>pr_head := h\<rparr>))"
proof (induction n arbitrary: r p)
  case (Suc n)
  have "set_cell (r\<lparr>pr_head := h\<rparr>) p c = (set_cell r p c)\<lparr>pr_head := h\<rparr>" "cell_at (r\<lparr>pr_head := h\<rparr>) p = cell_at r p" for c
    by (simp_all add: set_cell_def cell_ix_def cell_at_def)
  then show ?case using Suc by (simp add: Let_def split: prod.splits)
qed simp

lemma drain_batch:
  "pr_inv k r \<Longrightarrow> n \<le> pr_len r \<Longrightarrow>
    \<exists>r'. ring_drain (r\<lparr>pr_head := pr_head r + of_nat n\<rparr>) (pr_head r) n = (take n (ring_tasks r), r') \<and> pr_inv k r' \<and>
      ring_tasks r' = drop n (ring_tasks r)"
proof (induction n arbitrary: r)
  case (Suc n)
  have some: "pr_len r \<noteq> 0" using Suc.prems(2) by simp
  note p = pr_inv_popped [OF Suc.prems(1) some]
  have "n \<le> pr_len (pr_popped r)" using Suc.prems(2) by (simp add: pr_len_popped [OF some])
  from Suc.IH [OF p(1) this] obtain r' where
    r': "ring_drain ((pr_popped r)\<lparr>pr_head := pr_head r + 1 + of_nat n\<rparr>) (pr_head r + 1) n = (take n (ring_tasks (pr_popped r)), r')"
    "pr_inv k r'" "ring_tasks r' = drop n (ring_tasks (pr_popped r))" by auto
  have st: "set_cell (r\<lparr>pr_head := h\<rparr>) (pr_head r) ((cell_at r (pr_head r))\<lparr>c_seq := pr_head r + pr_mask r + 1\<rparr>) = (pr_popped r)\<lparr>pr_head := h\<rparr>"
    "cell_at (r\<lparr>pr_head := h\<rparr>) (pr_head r) = cell_at r (pr_head r)" for h
    by (simp_all add: pr_popped_def set_cell_def cell_ix_def cell_at_def)
  have h: "pr_head r + of_nat (Suc n) = pr_head r + 1 + of_nat n" by simp
  have "ring_drain (r\<lparr>pr_head := pr_head r + of_nat (Suc n)\<rparr>) (pr_head r) (Suc n) = (c_task (cell_at r (pr_head r)) # take n (ring_tasks (pr_popped r)), r')"
    unfolding h using r'(1) st by (simp add: Let_def)
  moreover have "c_task (cell_at r (pr_head r)) # take n (ring_tasks (pr_popped r)) = take (Suc n) (ring_tasks r)"
    "drop n (ring_tasks (pr_popped r)) = drop (Suc n) (ring_tasks r)"
    using p(2) by (metis take_Suc_Cons, metis drop_Suc_Cons)
  ultimately show ?case using r'(2,3) by auto
qed simp

lemma sint_zero_iff: "sint w = 0 \<longleftrightarrow> w = 0" for w :: w32
  by (rule signed_eq_0_iff)

lemma ring_scan_len:
  assumes inv: "pr_inv k r"
  shows "n \<le> pr_len r \<Longrightarrow> n \<le> mx \<Longrightarrow> ring_scan r (pr_head r) n mx = min mx (pr_len r)"
proof (induction "mx - n" arbitrary: n)
  case 0
  then show ?case by (simp add: ring_scan.simps)
next
  case (Suc d)
  have lt: "n < mx" using Suc.hyps(2) by simp
  have b: "2 \<le> (2 :: nat) ^ k" "(2 :: nat) ^ k \<le> 1073741824" using pow_bounds pr_invD(1,2) [OF inv] by blast+
  have seq: "c_seq (cell_at r (pr_head r + of_nat n)) - (pr_head r + of_nat n + 1) = 0 \<longleftrightarrow> n < pr_len r"
  proof (cases "n < 2 ^ k")
    case True
    then show ?thesis using seq_at [OF inv True] by simp
  next
    case False
    then have e: "n = 2 ^ k" "pr_len r = 2 ^ k" using Suc.prems(1) pr_invD(5) [OF inv] by simp_all
    have "unat (2 ^ k :: w32) \<noteq> 0" using pr_invD(2) [OF inv] by (simp add: unat_pow)
    then have "of_nat (2 ^ k) \<noteq> (0 :: w32)" by (metis of_nat_numeral of_nat_power unat_0)
    then show ?thesis using seq_wrapped [OF inv] e by simp
  qed
  show ?case
  proof (cases "n < pr_len r")
    case True
    then have "ring_scan r (pr_head r) n mx = ring_scan r (pr_head r) (n + 1) mx"
      using lt seq by (subst ring_scan.simps) (simp add: sint_zero_iff)
    then show ?thesis using Suc.hyps(1) [of "n + 1"] Suc.hyps(2) True lt by simp
  next
    case False
    then have "ring_scan r (pr_head r) n mx = n" using seq by (subst ring_scan.simps) (simp add: sint_zero_iff)
    then show ?thesis using False Suc.prems lt by simp
  qed
qed

lemma pool_ring_pop_batch_cases:
  assumes inv: "pr_inv k r"
  shows "\<exists>r'. pool_ring_pop_batch r mx = Some (take mx (ring_tasks r), r') \<and> pr_inv k r' \<and> ring_tasks r' = drop mx (ring_tasks r)"
proof -
  let ?n = "min mx (pr_len r)"
  have n: "ring_scan r (pr_head r) 0 mx = ?n" using ring_scan_len [OF inv, of 0 mx] by simp
  obtain r' where r': "ring_drain (r\<lparr>pr_head := pr_head r + of_nat ?n\<rparr>) (pr_head r) ?n = (take ?n (ring_tasks r), r')"
    "pr_inv k r'" "ring_tasks r' = drop ?n (ring_tasks r)" using drain_batch [OF inv, of ?n] by auto
  have td: "take ?n (ring_tasks r) = take mx (ring_tasks r)" "drop ?n (ring_tasks r) = drop mx (ring_tasks r)"
    by (simp_all add: min_def)
  show ?thesis
  proof (cases "?n = 0")
    case True
    then have "pool_ring_pop_batch r mx = Some ([], r)" using n by (simp add: pool_ring_pop_batch.simps)
    moreover have "take mx (ring_tasks r) = []" "drop mx (ring_tasks r) = ring_tasks r" using True td by simp_all
    ultimately show ?thesis using inv by simp
  next
    case False
    let ?h = "pr_head r + of_nat ?n"
    have "pool_ring_pop_batch r mx = Some (ring_drain (r\<lparr>pr_head := ?h\<rparr>) (pr_head r) ?n)"
      using False unfolding pool_ring_pop_batch.simps [of r mx] n Let_def by simp
    then have "pool_ring_pop_batch r mx = Some (take ?n (ring_tasks r), r')"
      by (simp only: r'(1))
    then show ?thesis using r'(2,3) td by simp
  qed
qed

lemma pool_ring_count_len: "pr_inv k r \<Longrightarrow> pool_ring_count r = int (pr_len r)"
proof -
  assume inv: "pr_inv k r"
  have "pr_len r < 2147483648" using pr_invD(5) [OF inv] pow_bounds [OF pr_invD(1,2) [OF inv]] by simp
  moreover have "pr_tail r - pr_head r = of_nat (pr_len r)" by (simp add: pr_tail_eq)
  ultimately show ?thesis using sint_small [of "pr_len r"] by (simp add: pool_ring_count_def)
qed

section \<open>The ring as a bounded queue\<close>

definition pr_valid :: "PoolRing \<Rightarrow> bool" where
  "pr_valid r \<longleftrightarrow> (\<exists>k. pr_inv k r)"

lemma pool_ring_init_valid:
  assumes "length cs = 2 ^ k" "1 \<le> k" "k \<le> 30"
  shows "fst (pool_ring_init (Some cs) (2 ^ k) r)" "pr_valid (snd (pool_ring_init (Some cs) (2 ^ k) r))"
    "ring_tasks (snd (pool_ring_init (Some cs) (2 ^ k) r)) = []" "pr_capacity (snd (pool_ring_init (Some cs) (2 ^ k) r)) = 2 ^ k"
proof -
  let ?r = "snd (pool_ring_init (Some cs) (2 ^ k) r)"
  have len: "pr_len ?r = 0" "pr_head ?r = 0" "pr_mask ?r = 2 ^ k - 1"
    and cells: "cells ?r = map (\<lambda>i. (cs ! i)\<lparr>c_seq := of_nat i\<rparr>) [0..<2 ^ k]"
    by (simp_all add: pool_ring_init_def pr_len_def)
  have "pr_inv k ?r" using assms len by (simp add: pr_inv_def cells)
  then show "pr_valid ?r" by (auto simp: pr_valid_def)
  show "fst (pool_ring_init (Some cs) (2 ^ k) r)" by (simp add: pool_ring_init_def)
  show "ring_tasks ?r = []" "pr_capacity ?r = 2 ^ k" using len by (simp_all add: ring_tasks_def pr_capacity_def cells)
qed

lemma pr_valid_capacity: "pr_inv k r \<Longrightarrow> pr_capacity r = 2 ^ k"
  using pr_invD(4) by (simp add: pr_capacity_def)

lemma push_valid:
  assumes "pr_valid r"
  shows "pr_len r < pr_capacity r \<Longrightarrow> \<exists>r'. pool_ring_push r t = Some (True, r') \<and> pr_valid r' \<and> pr_capacity r' = pr_capacity r \<and>
      ring_tasks r' = ring_tasks r @ [t]"
    "\<not> pr_len r < pr_capacity r \<Longrightarrow> pool_ring_push r t = Some (False, r)"
proof -
  obtain k where inv: "pr_inv k r" using assms by (auto simp: pr_valid_def)
  note c = pr_valid_capacity [OF inv]
  { assume "pr_len r < pr_capacity r"
    then have room: "pr_len r < 2 ^ k" by (simp add: c)
    have "pool_ring_push r t = Some (True, pr_pushed r t)" using pool_ring_push_cases [OF inv] room by simp
    then show "\<exists>r'. pool_ring_push r t = Some (True, r') \<and> pr_valid r' \<and> pr_capacity r' = pr_capacity r \<and>
        ring_tasks r' = ring_tasks r @ [t]"
      using pr_inv_pushed [OF inv room, of t] by (auto simp: pr_valid_def pr_capacity_def) }
  show "\<not> pr_len r < pr_capacity r \<Longrightarrow> pool_ring_push r t = Some (False, r)"
    using pool_ring_push_cases [OF inv, of t] by (simp add: c)
qed

lemma pop_batch_valid:
  assumes "pr_valid r"
  shows "\<exists>r'. pool_ring_pop_batch r mx = Some (take mx (ring_tasks r), r') \<and> pr_valid r' \<and> pr_capacity r' = pr_capacity r \<and>
      ring_tasks r' = drop mx (ring_tasks r)"
proof -
  obtain k where inv: "pr_inv k r" using assms by (auto simp: pr_valid_def)
  obtain r' where "pool_ring_pop_batch r mx = Some (take mx (ring_tasks r), r')" "pr_inv k r'" "ring_tasks r' = drop mx (ring_tasks r)"
    using pool_ring_pop_batch_cases [OF inv] by blast
  then show ?thesis using pr_valid_capacity [OF inv] pr_valid_capacity [of k r'] by (auto simp: pr_valid_def)
qed

lemma count_valid: "pr_valid r \<Longrightarrow> pool_ring_count r = int (length (ring_tasks r))"
  using pool_ring_count_len by (auto simp: pr_valid_def)

text \<open>The pop of one task, the way the bounded queue has it.\<close>

definition ring_pop_one :: "PoolRing \<Rightarrow> (PoolTask option \<times> PoolRing) option" where
  "ring_pop_one r = map_option (\<lambda>(ts, r'). (case ts of [] \<Rightarrow> None | t # _ \<Rightarrow> Some t, r')) (pool_ring_pop_batch r 1)"

lemma pop_empty_same: "pr_valid r \<Longrightarrow> ring_tasks r = [] \<Longrightarrow> pool_ring_pop_batch r mx = Some ([], r)"
proof -
  assume "pr_valid r" "ring_tasks r = []"
  then obtain k where inv: "pr_inv k r" and z: "pr_len r = 0" by (auto simp: pr_valid_def ring_tasks_def)
  have "ring_scan r (pr_head r) 0 mx = 0" using ring_scan_len [OF inv, of 0 mx] z by simp
  then show ?thesis by (subst pool_ring_pop_batch.simps) simp
qed

interpretation task_ring: bounded_fifo pool_ring_push ring_pop_one ring_tasks pr_capacity pr_valid
proof (unfold_locales, goal_cases)
  case (1 q)
  then show ?case using pr_invD(5) pr_valid_capacity by (auto simp: pr_valid_def)
next
  case (2 q x)
  then show ?case using push_valid(1) [of q x] by simp
next
  case (3 q x)
  then show ?case using push_valid(2) [of q x] by simp
next
  case (4 q x xs)
  then show ?case using pop_batch_valid [of q 1] by (auto simp: ring_pop_one_def)
next
  case (5 q)
  then show ?case using pop_empty_same [of q 1] by (simp add: ring_pop_one_def)
qed

section \<open>Properties\<close>

text \<open>C9: the shard's ring refines a bounded queue, at any 32-bit position: on a valid ring every sequence of pushes
  and pops of one task returns and answers as a first-in-first-out queue bounded by the ring's capacity; and a
  batch of any size takes exactly that many tasks from the front, in order, or all there are.\<close>

theorem task_ring_fifo:
  assumes "pr_valid r"
  shows "(\<exists>r'. queue_run pool_ring_push ring_pop_one ops r =
       Some (fst (fifo_run (pr_capacity r) ops (ring_tasks r)), r') \<and> pr_valid r' \<and>
       ring_tasks r' = snd (fifo_run (pr_capacity r) ops (ring_tasks r))) \<and>
    (\<exists>r'. pool_ring_pop_batch r mx = Some (take mx (ring_tasks r), r') \<and> pr_valid r' \<and> ring_tasks r' = drop mx (ring_tasks r)) \<and>
    pool_ring_count r = int (length (ring_tasks r))"
  using task_ring.run_fifo [OF assms, of ops] pop_batch_valid [OF assms, of mx] count_valid [OF assms] by blast

definition cell_zero :: PoolCell where
  "cell_zero = \<lparr>c_seq = 7, c_task = \<lparr>fn = 0, arg = 0\<rparr>\<rparr>"

definition ring_two :: PoolRing where
  "ring_two = snd (pool_ring_init (Some [cell_zero, cell_zero]) 2 undefined)"

lemma ring_two_valid: "pr_valid ring_two" "ring_tasks ring_two = []" "pr_capacity ring_two = 2"
  using pool_ring_init_valid [of "[cell_zero, cell_zero]" 1 undefined] by (simp_all add: ring_two_def)

definition task_a :: PoolTask where "task_a = \<lparr>fn = 4096, arg = 0\<rparr>"

definition task_b :: PoolTask where "task_b = \<lparr>fn = 4096, arg = 8\<rparr>"

theorem task_ring_fifo_witness:
  "\<exists>r'. queue_run pool_ring_push ring_pop_one [Push task_a, Push task_b, Push task_a, Pop, Pop, Pop] ring_two =
     Some ([Pushed True, Pushed True, Pushed False, Popped (Some task_a), Popped (Some task_b), Popped None], r') \<and> ring_tasks r' = []"
  using task_ring_fifo [OF ring_two_valid(1), of "[Push task_a, Push task_b, Push task_a, Pop, Pop, Pop]" 2]
  by (auto simp: ring_two_valid)

end
