(* ===== verification/Work_Deque.thy ===== *)
theory Work_Deque
  imports Task_Ring "HOL-Library.Multiset"
begin

text \<open>
  The work-stealing deque of a worker (\<open>pool_deque_*\<close> of \<open>thread_pool.c\<close>), twice: the
  three operations as functions, each run to its end; and their atomic accesses as the steps of
  one owner and any number of thieves, interleaved in every order under sequential consistency.
  Positions are unbounded integers: the code counts in 64 bits, and \<open>2^63\<close> pushes are out of
  reach.  A failed \<open>malloc\<close> gives no buffer.
\<close>

unbundle bit_operations_syntax

section \<open>The operations\<close>

record PoolDeque =
  dq_top :: int
  dq_bottom :: int
  dq_buf :: "PoolTask list"
  dq_cap :: int
  dq_mask :: int

definition slot_ix :: "PoolDeque \<Rightarrow> int \<Rightarrow> nat" where
  "slot_ix d i = nat (i AND dq_mask d)"

definition pool_slot_get :: "PoolDeque \<Rightarrow> int \<Rightarrow> PoolTask" where
  "pool_slot_get d i = dq_buf d ! slot_ix d i"

definition pool_slot_set :: "PoolDeque \<Rightarrow> int \<Rightarrow> PoolTask \<Rightarrow> PoolDeque" where
  "pool_slot_set d i t = d\<lparr>dq_buf := (dq_buf d)[slot_ix d i := t]\<rparr>"

definition pool_deque_init :: "PoolTask list option \<Rightarrow> int \<Rightarrow> PoolDeque \<Rightarrow> bool \<times> PoolDeque" where
  "pool_deque_init mem cap d =
     (case mem of
        None \<Rightarrow> (False, d\<lparr>dq_buf := []\<rparr>)
      | Some b \<Rightarrow> (True, \<lparr>dq_top = 0, dq_bottom = 0, dq_buf = b, dq_cap = cap, dq_mask = cap - 1\<rparr>))"

definition pool_deque_free :: "PoolDeque \<Rightarrow> PoolDeque" where
  "pool_deque_free d = d\<lparr>dq_buf := []\<rparr>"

definition pool_deque_push :: "PoolDeque \<Rightarrow> PoolTask \<Rightarrow> bool \<times> PoolDeque" where
  "pool_deque_push d t =
     (let b = dq_bottom d; tp = dq_top d in
      if b - tp \<ge> dq_cap d then (False, d)
      else (True, (pool_slot_set d b t)\<lparr>dq_bottom := b + 1\<rparr>))"

definition pool_deque_take :: "PoolDeque \<Rightarrow> PoolTask option \<times> PoolDeque" where
  "pool_deque_take d =
     (if dq_bottom d - dq_top d \<le> 0 then (None, d)
      else
        let b = dq_bottom d - 1; d1 = d\<lparr>dq_bottom := b\<rparr>; t = dq_top d1 in
        if t \<le> b then
          let out = pool_slot_get d1 b in
          if t = b then
            let (ok, top', _) = atomic_cas_inline (dq_top d1) t (t + 1)
            in (if ok then Some out else None, d1\<lparr>dq_top := top', dq_bottom := b + 1\<rparr>)
          else (Some out, d1)
        else (None, d1\<lparr>dq_bottom := b + 1\<rparr>))"

definition pool_deque_steal :: "PoolDeque \<Rightarrow> PoolTask option \<times> PoolDeque" where
  "pool_deque_steal d =
     (let t = dq_top d; b = dq_bottom d in
      if t < b then
        let x = pool_slot_get d t; (ok, top', _) = atomic_cas_inline (dq_top d) t (t + 1)
        in (if ok then Some x else None, d\<lparr>dq_top := top'\<rparr>)
      else (None, d))"

section \<open>The deque as a list\<close>

definition dq_inv :: "PoolDeque \<Rightarrow> bool" where
  "dq_inv d \<longleftrightarrow> (\<exists>k. dq_cap d = 2 ^ k \<and> dq_mask d = 2 ^ k - 1 \<and> length (dq_buf d) = 2 ^ k)"

definition slots :: "PoolDeque \<Rightarrow> int \<Rightarrow> int \<Rightarrow> PoolTask list" where
  "slots d i j = map (pool_slot_get d) [i..j - 1]"

definition deque_tasks :: "PoolDeque \<Rightarrow> PoolTask list" where
  "deque_tasks d = slots d (dq_top d) (dq_bottom d)"

definition deque_valid :: "PoolDeque \<Rightarrow> bool" where
  "deque_valid d \<longleftrightarrow> dq_inv d \<and> dq_top d \<le> dq_bottom d \<and> dq_bottom d - dq_top d \<le> dq_cap d"

lemma slot_ix_mod:
  assumes "dq_inv d"
  shows "int (slot_ix d i) = i mod dq_cap d" "slot_ix d i < length (dq_buf d)"
proof -
  obtain k where k: "dq_cap d = 2 ^ k" "dq_mask d = 2 ^ k - 1" "length (dq_buf d) = 2 ^ k"
    using assms by (auto simp: dq_inv_def)
  have "i AND (2 ^ k - 1) = take_bit k i" by (simp add: take_bit_eq_mask mask_eq_exp_minus_1)
  then have e: "i AND (2 ^ k - 1) = i mod 2 ^ k" by (simp add: take_bit_eq_mod)
  then show "int (slot_ix d i) = i mod dq_cap d" by (simp add: slot_ix_def k)
  have "i mod 2 ^ k < 2 ^ k" by simp
  then show "slot_ix d i < length (dq_buf d)" by (simp add: slot_ix_def k e nat_less_iff)
qed

lemma slot_ix_inj:
  assumes "dq_inv d" "slot_ix d i = slot_ix d j" "\<bar>i - j\<bar> < dq_cap d"
  shows "i = j"
proof -
  have "i mod dq_cap d = j mod dq_cap d" using slot_ix_mod(1) [OF assms(1)] assms(2) by metis
  then have "dq_cap d dvd i - j" by (simp add: mod_eq_dvd_iff)
  then show ?thesis using assms(3) by (metis abs_dvd_iff dvd_imp_le_int eq_iff_diff_eq_0 linorder_not_le abs_of_nonneg abs_ge_zero le_less_trans less_imp_le zdvd_not_zless zero_less_abs_iff)
qed

lemma slots_empty [simp]: "j \<le> i \<Longrightarrow> slots d i j = []"
  by (simp add: slots_def)

lemma length_slots [simp]: "length (slots d i j) = nat (j - i)"
  by (simp add: slots_def)

lemma slots_front: "i < j \<Longrightarrow> slots d i j = pool_slot_get d i # slots d (i + 1) j"
  by (simp add: slots_def upto_rec1)

lemma slots_last: "i \<le> j \<Longrightarrow> slots d i (j + 1) = slots d i j @ [pool_slot_get d j]"
  by (simp add: slots_def upto_rec2)

lemma slots_cong: "(\<And>x. i \<le> x \<Longrightarrow> x < j \<Longrightarrow> pool_slot_get d' x = pool_slot_get d x) \<Longrightarrow> slots d' i j = slots d i j"
  by (simp add: slots_def)

lemma slot_fields [simp]:
  "pool_slot_get (d\<lparr>dq_top := t\<rparr>) i = pool_slot_get d i" "pool_slot_get (d\<lparr>dq_bottom := b\<rparr>) i = pool_slot_get d i"
  "slots (d\<lparr>dq_top := t\<rparr>) i j = slots d i j" "slots (d\<lparr>dq_bottom := b\<rparr>) i j = slots d i j"
  "dq_inv (d\<lparr>dq_top := t\<rparr>) = dq_inv d" "dq_inv (d\<lparr>dq_bottom := b\<rparr>) = dq_inv d"
  by (simp_all add: pool_slot_get_def slot_ix_def slots_def dq_inv_def)

lemma slot_set_fields [simp]: "dq_top (pool_slot_set d i t) = dq_top d" "dq_bottom (pool_slot_set d i t) = dq_bottom d"
  "dq_cap (pool_slot_set d i t) = dq_cap d" "dq_inv (pool_slot_set d i t) = dq_inv d"
  by (simp_all add: pool_slot_set_def dq_inv_def)

lemma slot_get_set:
  assumes "dq_inv d"
  shows "pool_slot_get (pool_slot_set d i t) i = t"
    "\<bar>j - i\<bar> < dq_cap d \<Longrightarrow> j \<noteq> i \<Longrightarrow> pool_slot_get (pool_slot_set d i t) j = pool_slot_get d j"
proof -
  have ix: "slot_ix (pool_slot_set d i t) x = slot_ix d x" for x by (simp add: slot_ix_def pool_slot_set_def)
  show "pool_slot_get (pool_slot_set d i t) i = t"
    using slot_ix_mod(2) [OF assms] by (simp add: pool_slot_get_def ix) (simp add: pool_slot_set_def)
  assume "\<bar>j - i\<bar> < dq_cap d" "j \<noteq> i"
  then have "slot_ix d j \<noteq> slot_ix d i" using slot_ix_inj [OF assms] by blast
  then show "pool_slot_get (pool_slot_set d i t) j = pool_slot_get d j"
    by (simp add: pool_slot_get_def ix) (simp add: pool_slot_set_def)
qed

lemma slots_set:
  "dq_inv d \<Longrightarrow> j \<le> b \<Longrightarrow> b - i < dq_cap d \<Longrightarrow> slots (pool_slot_set d b t) i j = slots d i j"
  by (rule slots_cong) (simp add: slot_get_set)

section \<open>What a worker relies on\<close>

text \<open>The contract of a deque whose operations run one at a time: the owner works at the back, thieves at the front.\<close>

locale task_deque =
  fixes push :: "'d \<Rightarrow> 'a \<Rightarrow> bool \<times> 'd"
    and take_op :: "'d \<Rightarrow> 'a option \<times> 'd"
    and steal :: "'d \<Rightarrow> 'a option \<times> 'd"
    and contents :: "'d \<Rightarrow> 'a list"
    and room :: "'d \<Rightarrow> nat"
    and valid :: "'d \<Rightarrow> bool"
  assumes push_room: "valid d \<Longrightarrow> length (contents d) < room d \<Longrightarrow>
      \<exists>d'. push d x = (True, d') \<and> valid d' \<and> room d' = room d \<and> contents d' = contents d @ [x]"
    and push_full: "valid d \<Longrightarrow> \<not> length (contents d) < room d \<Longrightarrow> push d x = (False, d)"
    and take_back: "valid d \<Longrightarrow> contents d = xs @ [x] \<Longrightarrow>
      \<exists>d'. take_op d = (Some x, d') \<and> valid d' \<and> room d' = room d \<and> contents d' = xs"
    and take_none: "valid d \<Longrightarrow> contents d = [] \<Longrightarrow> take_op d = (None, d)"
    and steal_front: "valid d \<Longrightarrow> contents d = x # xs \<Longrightarrow>
      \<exists>d'. steal d = (Some x, d') \<and> valid d' \<and> room d' = room d \<and> contents d' = xs"
    and steal_none: "valid d \<Longrightarrow> contents d = [] \<Longrightarrow> steal d = (None, d)"
begin

lemma push_mset:
  assumes "valid d"
  shows "\<exists>ok d'. push d x = (ok, d') \<and> valid d' \<and> room d' = room d \<and>
    mset (contents d') + (if ok then {#} else {#x#}) = add_mset x (mset (contents d))"
  using push_room [OF assms, of x] push_full [OF assms, of x] assms by (cases "length (contents d) < room d") force+

lemma take_mset:
  assumes "valid d"
  shows "\<exists>r d'. take_op d = (r, d') \<and> valid d' \<and> room d' = room d \<and> mset (contents d) = mset (contents d') + mset_set (set_option r) \<and>
    (r = None \<longrightarrow> contents d = [] \<and> d' = d)"
proof (cases "contents d" rule: rev_cases)
  case (snoc xs x)
  then show ?thesis using take_back [OF assms snoc] by auto
qed (use take_none [OF assms] assms in auto)

lemma steal_mset:
  assumes "valid d"
  shows "\<exists>r d'. steal d = (r, d') \<and> valid d' \<and> room d' = room d \<and> mset (contents d) = mset (contents d') + mset_set (set_option r) \<and>
    (r = None \<longrightarrow> contents d = [] \<and> d' = d)"
proof (cases "contents d")
  case (Cons x xs)
  then show ?thesis using steal_front [OF assms Cons] by auto
qed (use steal_none [OF assms] assms in auto)

end

interpretation pool_deque: task_deque pool_deque_push pool_deque_take pool_deque_steal deque_tasks "\<lambda>d. nat (dq_cap d)" deque_valid
proof (unfold_locales, goal_cases)
  case (1 d x)
  then have v: "dq_inv d" "dq_top d \<le> dq_bottom d" "dq_bottom d - dq_top d < dq_cap d"
    by (auto simp: deque_valid_def deque_tasks_def)
  then show ?case
    by (auto simp: pool_deque_push_def Let_def deque_valid_def deque_tasks_def slots_last slots_set slot_get_set)
next
  case (2 d x)
  then show ?case by (auto simp: pool_deque_push_def Let_def deque_valid_def deque_tasks_def)
next
  case (3 d xs x)
  then have v: "dq_inv d" "dq_top d < dq_bottom d" "dq_bottom d - dq_top d \<le> dq_cap d"
    by (auto simp: deque_valid_def deque_tasks_def) (metis linorder_not_less slots_empty snoc_eq_iff_butlast)
  have "slots d (dq_top d) (dq_bottom d - 1) @ [pool_slot_get d (dq_bottom d - 1)] = xs @ [x]"
    using 3(2) v(2) slots_last [of "dq_top d" "dq_bottom d - 1" d] by (simp add: deque_tasks_def)
  then have x: "pool_slot_get d (dq_bottom d - 1) = x" "slots d (dq_top d) (dq_bottom d - 1) = xs" by simp_all
  show ?case
  proof (cases "dq_top d = dq_bottom d - 1")
    case True
    then have "xs = []" using x(2) by simp
    then show ?thesis using v x True by (auto simp: pool_deque_take_def Let_def deque_valid_def deque_tasks_def)
  next
    case False
    then show ?thesis using v x by (auto simp: pool_deque_take_def Let_def deque_valid_def deque_tasks_def)
  qed
next
  case (4 d)
  then show ?case by (auto simp: pool_deque_take_def deque_tasks_def dest: arg_cong [of _ _ length])
next
  case (5 d x xs)
  then have v: "dq_inv d" "dq_top d < dq_bottom d" "dq_bottom d - dq_top d \<le> dq_cap d"
    by (auto simp: deque_valid_def deque_tasks_def) (metis linorder_not_less slots_empty list.distinct(1))
  then have "pool_slot_get d (dq_top d) = x" "slots d (dq_top d + 1) (dq_bottom d) = xs"
    using 5(2) slots_front [OF v(2), of d] by (auto simp: deque_tasks_def)
  then show ?case using v by (auto simp: pool_deque_steal_def Let_def deque_valid_def deque_tasks_def)
next
  case (6 d)
  then show ?case by (auto simp: pool_deque_steal_def deque_tasks_def Let_def dest: arg_cong [of _ _ length])
qed

end
