(* ===== verification/Thread_Pool.thy ===== *)
theory Thread_Pool
  imports Work_Deque
begin

text \<open>
  The work-stealing pool of \<open>thread_pool.c\<close> (built with its default parameters, on Linux):
  its state, and the operations on it, each run by one thread to its end.  The shards, the workers
  and the counters are lists; a worker is known by its index; a NULL array is the empty list (the
  arrays of a created pool are never empty).  A worker's wait object is its futex word
  (\<open>thread_wait.h\<close>).  \<open>None\<close> is a crash or a loop that never ends.
\<close>

section \<open>State\<close>

record PoolWorker =
  is_core :: bool
  is_elastic :: bool
  handle :: bool
  shard_cursor :: w32
  steal_cursor :: w32
  start_count :: int
  in_task :: int
  mon_last :: int
  lifo_task :: PoolTask
  lifo_full :: bool
  lifo_streak :: int
  pending :: "PoolTask list"
  pend_i :: nat
  pend_n :: nat
  deque :: PoolDeque
  parked :: int
  wait :: int

record ThreadPool =
  n_core :: nat
  n_workers :: nat
  n_total :: nat
  n_elastic :: nat
  n_shards :: nat
  shards :: "PoolRing list"
  workers :: "PoolWorker list"
  ctrs :: "int list"
  n_ctrs :: nat
  wait_inited :: bool
  ocioso_desde_ms :: int
  ocioso_iniciadas :: int
  submit_rr :: w32
  wake_rr :: w32
  n_parked_core :: int
  n_girando :: int
  stop :: int
  n_vigia :: int
  giro_us :: int
  perfil :: int
  mon_dormindo :: int
  mon_handle :: bool
  mon_wait :: int

abbreviation (input) POOL_SHARD_CAP :: nat where "POOL_SHARD_CAP \<equiv> 4096"
abbreviation (input) POOL_DEQUE_CAP :: int where "POOL_DEQUE_CAP \<equiv> 4096"
abbreviation (input) POOL_BATCH :: nat where "POOL_BATCH \<equiv> 2"
abbreviation (input) POOL_LIFO_CAP :: int where "POOL_LIFO_CAP \<equiv> 8"
abbreviation (input) POOL_STUCK_MIN :: nat where "POOL_STUCK_MIN \<equiv> 2"
abbreviation (input) POOL_GIRADORES_MIN :: int where "POOL_GIRADORES_MIN \<equiv> 1"
abbreviation (input) POOL_PERFIL_PERFORMANCE :: int where "POOL_PERFIL_PERFORMANCE \<equiv> 0"
abbreviation (input) POOL_PERFIL_ECONOMIA :: int where "POOL_PERFIL_ECONOMIA \<equiv> 1"

abbreviation worker :: "ThreadPool \<Rightarrow> nat \<Rightarrow> PoolWorker" where
  "worker P i \<equiv> workers P ! i"

definition upd_worker :: "nat \<Rightarrow> (PoolWorker \<Rightarrow> PoolWorker) \<Rightarrow> ThreadPool \<Rightarrow> ThreadPool" where
  "upd_worker i f P = P\<lparr>workers := (workers P)[i := f (worker P i)]\<rparr>"

definition upd_shard :: "nat \<Rightarrow> PoolRing \<Rightarrow> ThreadPool \<Rightarrow> ThreadPool" where
  "upd_shard s r P = P\<lparr>shards := (shards P)[s := r]\<rparr>"

definition upd_ctr :: "nat \<Rightarrow> (int \<Rightarrow> int) \<Rightarrow> ThreadPool \<Rightarrow> ThreadPool" where
  "upd_ctr i f P = P\<lparr>ctrs := (ctrs P)[i := f (ctrs P ! i)]\<rparr>"

section \<open>The futex word (\<open>thread_wait.h\<close>)\<close>

definition thread_wait_prepare :: "nat \<Rightarrow> ThreadPool \<Rightarrow> ThreadPool" where
  "thread_wait_prepare i = upd_worker i (\<lambda>w. w\<lparr>wait := 0\<rparr>)"

definition thread_wait_wake :: "nat \<Rightarrow> ThreadPool \<Rightarrow> ThreadPool" where
  "thread_wait_wake i = upd_worker i (\<lambda>w. w\<lparr>wait := 1\<rparr>)"

text \<open>One look at the word by a sleeper: woken (and the word cleared), timed out, or still asleep.\<close>

definition thread_wait_sleep_for :: "bool \<Rightarrow> nat \<Rightarrow> ThreadPool \<Rightarrow> bool option \<times> ThreadPool" where
  "thread_wait_sleep_for timeout i P =
     (if wait (worker P i) \<noteq> 0 then (Some True, upd_worker i (\<lambda>w. w\<lparr>wait := 0\<rparr>) P)
      else if timeout then (Some False, P) else (None, P))"

section \<open>Running and finding tasks\<close>

definition pool_ctr_dec_self :: "nat \<Rightarrow> ThreadPool \<Rightarrow> ThreadPool" where
  "pool_ctr_dec_self i P = upd_ctr (n_shards P + i) (\<lambda>v. i64 (v - 1)) P"

text \<open>\<open>pool_run\<close> before and after the call of the task.\<close>

definition pool_run_enter :: "nat \<Rightarrow> ThreadPool \<Rightarrow> ThreadPool" where
  "pool_run_enter i P =
     upd_worker i (\<lambda>w. w\<lparr>in_task := atomic_add_single_writer_inline (in_task w) 1,
                          start_count := atomic_add64_single_writer_inline (start_count w) 1\<rparr>) P"

definition pool_run_leave :: "nat \<Rightarrow> ThreadPool \<Rightarrow> ThreadPool" where
  "pool_run_leave i P =
     pool_ctr_dec_self i (upd_worker i (\<lambda>w. w\<lparr>in_task := atomic_add_single_writer_inline (in_task w) (- 1)\<rparr>) P)"

text \<open>The scan of the shards from \<open>sc\<close> on, and of the other workers' deques from \<open>s2 + k\<close> on.\<close>

function scan_shards :: "nat \<Rightarrow> w32 \<Rightarrow> nat \<Rightarrow> ThreadPool \<Rightarrow> (PoolTask option \<times> ThreadPool) option" where
  "scan_shards i sc g P =
     (if g < n_shards P then
        let s = unat ((sc + of_nat g) mod of_nat (n_shards P)) in
        (case pool_ring_pop_batch (shards P ! s) POOL_BATCH of
           None \<Rightarrow> None
         | Some ([], r) \<Rightarrow> scan_shards i sc (g + 1) (upd_shard s r P)
         | Some (t # ts, r) \<Rightarrow>
             Some (Some t,
                upd_worker i (\<lambda>w. w\<lparr>shard_cursor := of_nat s, lifo_streak := 0,
                    pending := (t # ts) @ drop (length (t # ts)) (pending w), pend_i := 1, pend_n := length (t # ts)\<rparr>)
                  (upd_shard s r P)))
      else Some (None, P))"
  by pat_completeness auto
termination by (relation "measure (\<lambda>(i, sc, g, P). n_shards P - g)") (auto simp: upd_shard_def)

declare scan_shards.simps [simp del]

function scan_steal :: "nat \<Rightarrow> w32 \<Rightarrow> nat \<Rightarrow> ThreadPool \<Rightarrow> PoolTask option \<times> ThreadPool" where
  "scan_steal i s2 k P =
     (if k \<le> n_total P then
        let v = unat ((s2 + of_nat k) mod of_nat (n_total P)) in
        if v = i then scan_steal i s2 (k + 1) P
        else (case pool_deque_steal (deque (worker P v)) of
           (None, d) \<Rightarrow> scan_steal i s2 (k + 1) (upd_worker v (\<lambda>w. w\<lparr>deque := d\<rparr>) P)
         | (Some t, d) \<Rightarrow>
             (Some t, upd_worker i (\<lambda>w. w\<lparr>steal_cursor := of_nat v, lifo_streak := 0\<rparr>)
                        (upd_worker v (\<lambda>w. w\<lparr>deque := d\<rparr>) P)))
      else (None, P))"
  by pat_completeness auto
termination by (relation "measure (\<lambda>(i, s2, k, P). n_total P + 1 - k)") (auto simp: upd_worker_def)

declare scan_steal.simps [simp del]

definition take_lifo :: "nat \<Rightarrow> int \<Rightarrow> ThreadPool \<Rightarrow> PoolTask option \<times> ThreadPool" where
  "take_lifo i streak P = (Some (lifo_task (worker P i)), upd_worker i (\<lambda>w. w\<lparr>lifo_streak := streak, lifo_full := False\<rparr>) P)"

definition pool_try_get :: "nat \<Rightarrow> ThreadPool \<Rightarrow> (PoolTask option \<times> ThreadPool) option" where
  "pool_try_get i P =
     (let w = worker P i in
      if lifo_full w \<and> lifo_streak w < POOL_LIFO_CAP then Some (take_lifo i (lifo_streak w + 1) P)
      else
        (case pool_deque_take (deque w) of
           (Some t, d) \<Rightarrow> Some (Some t, upd_worker i (\<lambda>w. w\<lparr>deque := d, lifo_streak := 0\<rparr>) P)
         | (None, d) \<Rightarrow>
             let P1 = upd_worker i (\<lambda>w. w\<lparr>deque := d\<rparr>) P in
             if pend_i w < pend_n w then
               Some (Some (pending w ! pend_i w), upd_worker i (\<lambda>w. w\<lparr>lifo_streak := 0, pend_i := pend_i w + 1\<rparr>) P1)
             else
               (case scan_shards i (shard_cursor w) 0 P1 of
                  None \<Rightarrow> None
                | Some (Some t, P2) \<Rightarrow> Some (Some t, P2)
                | Some (None, P2) \<Rightarrow>
                    (case scan_steal i (steal_cursor w) 1 P2 of
                       (Some t, P3) \<Rightarrow> Some (Some t, P3)
                     | (None, P3) \<Rightarrow> if lifo_full w then Some (take_lifo i 0 P3) else Some (None, P3)))))"

section \<open>Waking\<close>

function wake_scan :: "w32 \<Rightarrow> nat \<Rightarrow> ThreadPool \<Rightarrow> ThreadPool" where
  "wake_scan start j P =
     (if j < n_core P then
        let idx = unat ((start + of_nat j) mod of_nat (n_core P)) in
        if parked (worker P idx) = 0 then wake_scan start (j + 1) P
        else (let (ok, p', _) = atomic_cas_inline (parked (worker P idx)) 1 0;
                  P1 = upd_worker idx (\<lambda>w. w\<lparr>parked := p'\<rparr>) P
              in if ok then thread_wait_wake idx P1 else wake_scan start (j + 1) P1)
      else P)"
  by pat_completeness auto
termination by (relation "measure (\<lambda>(start, j, P). n_core P - j)") (auto simp: upd_worker_def)

declare wake_scan.simps [simp del]

definition pool_wake_one_core :: "ThreadPool \<Rightarrow> ThreadPool" where
  "pool_wake_one_core P =
     (if n_parked_core P \<le> 0 then P
      else (let (start, rr) = atomic_u32_add_inline (wake_rr P) 1 in wake_scan start 0 (P\<lparr>wake_rr := rr\<rparr>)))"

text \<open>\<open>fila\<close> is the length of the ring or of the deque the task went into.\<close>

definition pool_wake_submit :: "int \<Rightarrow> ThreadPool \<Rightarrow> ThreadPool" where
  "pool_wake_submit fila P =
     (if n_parked_core P > 0 \<and> n_girando P \<ge> POOL_GIRADORES_MIN \<and>
         (let g = n_girando P in g \<ge> POOL_GIRADORES_MIN \<and> fila \<le> g)
      then P else pool_wake_one_core P)"

definition pool_ha_fila :: "ThreadPool \<Rightarrow> bool" where
  "pool_ha_fila P = list_ex (\<lambda>r. pool_ring_count r > 0) (take (n_shards P) (shards P))"

definition pool_gira_fim :: "bool \<Rightarrow> ThreadPool \<Rightarrow> ThreadPool" where
  "pool_gira_fim achou P =
     (let (antes, g) = atomic_sub_inline (n_girando P) 1; P1 = P\<lparr>n_girando := g\<rparr> in
      if achou \<and> antes \<le> POOL_GIRADORES_MIN \<and> pool_ha_fila P1 then pool_wake_one_core P1 else P1)"

section \<open>Submitting\<close>

definition deque_fila :: "PoolDeque \<Rightarrow> int" where
  "deque_fila d = i32 (dq_bottom d - dq_top d)"

text \<open>A submit from a task of worker \<open>i\<close>: the task put aside to be run at once, if any, and the pool.\<close>

definition submit_reentrant :: "nat \<Rightarrow> PoolTask \<Rightarrow> ThreadPool \<Rightarrow> PoolTask option \<times> ThreadPool" where
  "submit_reentrant i t P =
     (let P1 = upd_ctr (n_shards P + i) (\<lambda>v. snd (atomic_add64_inline v 1)) P; w = worker P1 i in
      if \<not> lifo_full w then (None, upd_worker i (\<lambda>w. w\<lparr>lifo_task := t, lifo_full := True\<rparr>) P1)
      else
        let old = lifo_task w; P2 = upd_worker i (\<lambda>w. w\<lparr>lifo_task := t\<rparr>) P1 in
        case pool_deque_push (deque w) old of
          (False, d) \<Rightarrow> (Some old, upd_worker i (\<lambda>w. w\<lparr>deque := d\<rparr>) P2)
        | (True, d) \<Rightarrow> (None, pool_wake_submit (deque_fila d) (upd_worker i (\<lambda>w. w\<lparr>deque := d\<rparr>) P2)))"

text \<open>One round of a submit from outside: choose a shard and count; then push, or take the count back.\<close>

definition submit_count :: "ThreadPool \<Rightarrow> nat \<times> ThreadPool" where
  "submit_count P =
     (let (v, rr) = atomic_u32_add_inline (submit_rr P) 1; s = unat (v mod of_nat (n_shards P))
      in (s, upd_ctr s (\<lambda>v. snd (atomic_add64_inline v 1)) (P\<lparr>submit_rr := rr\<rparr>)))"

definition submit_push :: "nat \<Rightarrow> PoolTask \<Rightarrow> ThreadPool \<Rightarrow> (bool \<times> ThreadPool) option" where
  "submit_push s t P = map_option (\<lambda>(ok, r). (ok, upd_shard s r P)) (pool_ring_push (shards P ! s) t)"

definition submit_wake :: "nat \<Rightarrow> ThreadPool \<Rightarrow> ThreadPool" where
  "submit_wake s P =
     (let P1 = pool_wake_submit (pool_ring_count (shards P ! s)) P in
      if mon_dormindo P1 \<noteq> 0 then
        (let (ok, m, _) = atomic_cas_inline (mon_dormindo P1) 1 0; P2 = P1\<lparr>mon_dormindo := m\<rparr>
         in if ok then P2\<lparr>mon_wait := 1\<rparr> else P2)
      else P1)"

definition submit_uncount :: "nat \<Rightarrow> ThreadPool \<Rightarrow> ThreadPool" where
  "submit_uncount s P = upd_ctr s (\<lambda>v. snd (atomic_sub64_inline v 1)) P"

text \<open>The whole call, from a thread outside the pool; with all shards full it waits for ever.\<close>

partial_function (option) submit_loop :: "PoolTask \<Rightarrow> ThreadPool \<Rightarrow> (bool \<times> ThreadPool) option" where
  "submit_loop t P =
     (case submit_count P of (s, P1) \<Rightarrow>
       (case submit_push s t P1 of
          None \<Rightarrow> None
        | Some (ok, P2) \<Rightarrow>
            if ok then Some (True, submit_wake s P2)
            else if stop (submit_uncount s P2) \<noteq> 0 then Some (False, submit_uncount s P2)
            else submit_loop t (submit_uncount s P2)))"

definition pool_submit_relative :: "ThreadPool option \<Rightarrow> PoolTask \<Rightarrow> (bool \<times> ThreadPool option) option" where
  "pool_submit_relative po t =
     (case po of
        None \<Rightarrow> Some (False, None)
      | Some P \<Rightarrow>
          if fn t = 0 \<or> stop P \<noteq> 0 then Some (False, po)
          else map_option (\<lambda>(ok, P'). (ok, Some P')) (submit_loop t P))"

section \<open>Counting\<close>

definition pool_total_pending :: "ThreadPool \<Rightarrow> int option" where
  "pool_total_pending P = (if length (ctrs P) < n_ctrs P then None else Some (fold (\<lambda>v s. i64 (s + v)) (take (n_ctrs P) (ctrs P)) 0))"

definition pool_iniciadas :: "ThreadPool \<Rightarrow> int" where
  "pool_iniciadas P = fold (\<lambda>w s. i64 (s + start_count w)) (take (n_total P) (workers P)) 0"

text \<open>Waiting with no other thread running: the loop ends only if the count is not positive.\<close>

definition pool_wait_idle_relative :: "ThreadPool option \<Rightarrow> unit option" where
  "pool_wait_idle_relative po =
     (case po of
        None \<Rightarrow> Some ()
      | Some P \<Rightarrow> (case pool_total_pending P of None \<Rightarrow> None | Some n \<Rightarrow> if n > 0 then None else Some ()))"

definition pool_dims_relative :: "ThreadPool option \<Rightarrow> (nat \<times> nat) option" where
  "pool_dims_relative po = map_option (\<lambda>P. (n_workers P, n_core P)) po"

end
