(* ===== verification/Pool_Control.thy ===== *)
theory Pool_Control
  imports Thread_Pool
begin

text \<open>
  Creation and destruction of a pool, its monitor, its run-time settings and the global pool.
  What the process is given (processors, memory, threads, the timer) is the record \<open>create_env\<close>.
\<close>

section \<open>Settings\<close>

text \<open>Wakes core \<open>i\<close> if it is parked: only who swaps \<open>parked\<close> from 1 to 0 wakes it.\<close>

definition unpark :: "nat \<Rightarrow> ThreadPool \<Rightarrow> bool \<times> ThreadPool" where
  "unpark i P =
     (let (ok, p', _) = atomic_cas_inline (parked (worker P i)) 1 0; P1 = upd_worker i (\<lambda>w. w\<lparr>parked := p'\<rparr>) P
      in (ok, if ok then thread_wait_wake i P1 else P1))"

definition pool_vigias_relative :: "ThreadPool \<Rightarrow> int \<Rightarrow> ThreadPool" where
  "pool_vigias_relative P vigias =
     (let v = (if vigias < 0 then 0 else vigias); v = (if v > int (n_core P) then int (n_core P) else v)
      in fold (\<lambda>i P. snd (unpark i P)) [0..<nat v] (P\<lparr>n_vigia := v\<rparr>))"

definition pool_giro_max_us_relative :: "ThreadPool \<Rightarrow> int \<Rightarrow> ThreadPool" where
  "pool_giro_max_us_relative P us = P\<lparr>giro_us := (if us < - 1 then - 1 else us)\<rparr>"

definition wake_monitor :: "ThreadPool \<Rightarrow> ThreadPool" where
  "wake_monitor P =
     (let (ok, m, _) = atomic_cas_inline (mon_dormindo P) 1 0; P1 = P\<lparr>mon_dormindo := m\<rparr>
      in if ok then P1\<lparr>mon_wait := 1\<rparr> else P1)"

definition pool_perfil_relative :: "ThreadPool \<Rightarrow> int \<Rightarrow> ThreadPool" where
  "pool_perfil_relative P p =
     (if p = POOL_PERFIL_ECONOMIA then
        pool_vigias_relative (pool_giro_max_us_relative (P\<lparr>perfil := POOL_PERFIL_ECONOMIA\<rparr>) 20) 0
      else wake_monitor (pool_giro_max_us_relative (P\<lparr>perfil := POOL_PERFIL_PERFORMANCE\<rparr>) (- 1)))"

definition pool_perfil_atual_relative :: "ThreadPool option \<Rightarrow> int" where
  "pool_perfil_atual_relative po = (case po of None \<Rightarrow> POOL_PERFIL_PERFORMANCE | Some P \<Rightarrow> perfil P)"

section \<open>The monitor\<close>

text \<open>A pass of the monitor up to its sleep: how long it will sleep, in microseconds.  \<open>now\<close> is the
  clock, in microseconds.\<close>

definition monitor_before :: "int \<Rightarrow> ThreadPool \<Rightarrow> (int \<times> ThreadPool) option" where
  "monitor_before now P =
     (if perfil P = POOL_PERFIL_ECONOMIA then
        (case pool_total_pending P of
           None \<Rightarrow> None
         | Some n \<Rightarrow>
             if n = 0 then
               let iniciadas = pool_iniciadas P; P1 = P\<lparr>mon_wait := 0\<rparr>;
                   (ok, m, _) = atomic_cas_inline (mon_dormindo P1) 0 1; P2 = P1\<lparr>mon_dormindo := m\<rparr>
               in case pool_total_pending P2 of
                    None \<Rightarrow> None
                  | Some n2 \<Rightarrow>
                      if n2 = 0 then
                        let agora = c_div now 1000 in
                        Some (1000000,
                          if ocioso_desde_ms P2 = 0 then P2\<lparr>ocioso_desde_ms := agora, ocioso_iniciadas := iniciadas\<rparr>
                          else if wait_inited P2 \<and> agora - ocioso_desde_ms P2 \<ge> 1000 then P2\<lparr>wait_inited := False\<rparr>
                          else P2)
                      else Some (5000, P2\<lparr>mon_dormindo := 0\<rparr>)
             else Some (5000, P))
      else Some (5000, P))"

text \<open>After the sleep: the timer comes back when there is work again.\<close>

definition monitor_timer :: "ThreadPool \<Rightarrow> ThreadPool option" where
  "monitor_timer P =
     (if ocioso_desde_ms P \<noteq> 0 \<or> \<not> wait_inited P then
        let trabalhou = ocioso_desde_ms P \<noteq> 0 \<and> pool_iniciadas P \<noteq> ocioso_iniciadas P in
        (case pool_total_pending P of
           None \<Rightarrow> None
         | Some n \<Rightarrow>
             if perfil P \<noteq> POOL_PERFIL_ECONOMIA \<or> trabalhou \<or> n > 0
             then Some (P\<lparr>ocioso_desde_ms := 0, wait_inited := True\<rparr>)
             else Some P)
      else Some P)"

text \<open>A worker is stuck when it is in a task and has started none since the last pass.\<close>

definition stuck_count :: "ThreadPool \<Rightarrow> nat" where
  "stuck_count P = length (filter (\<lambda>w. in_task w \<noteq> 0 \<and> start_count w = mon_last w) (take (n_workers P) (workers P)))"

definition note_starts :: "ThreadPool \<Rightarrow> ThreadPool" where
  "note_starts P =
     P\<lparr>workers := map (\<lambda>w. w\<lparr>mon_last := start_count w\<rparr>) (take (n_workers P) (workers P)) @ drop (n_workers P) (workers P)\<rparr>"

function wake_elastic :: "nat \<Rightarrow> nat \<Rightarrow> ThreadPool \<Rightarrow> ThreadPool" where
  "wake_elastic e to_wake P =
     (if e < n_total P \<and> 0 < to_wake then
        if parked (worker P e) = 0 then wake_elastic (e + 1) to_wake P
        else (case unpark e P of (ok, P1) \<Rightarrow> wake_elastic (e + 1) (if ok then to_wake - 1 else to_wake) P1)
      else P)"
  by pat_completeness auto
termination
  by (relation "measure (\<lambda>(e, to_wake, P). n_total P - e)")
    (auto simp: unpark_def upd_worker_def thread_wait_wake_def Let_def split: prod.splits)

declare wake_elastic.simps [simp del]

definition monitor_after :: "ThreadPool \<Rightarrow> ThreadPool option" where
  "monitor_after P =
     (let P1 = P\<lparr>mon_dormindo := 0\<rparr> in
      if stop P1 \<noteq> 0 then Some P1
      else (case monitor_timer P1 of
         None \<Rightarrow> None
       | Some P2 \<Rightarrow>
           let stuck = stuck_count P2; P3 = note_starts P2 in
           if stuck < POOL_STUCK_MIN \<or> \<not> pool_ha_fila P3 then Some P3
           else Some (wake_elastic (n_workers P3) stuck P3)))"

section \<open>Destruction\<close>

definition pool_thread_join :: "nat \<Rightarrow> ThreadPool \<Rightarrow> ThreadPool" where
  "pool_thread_join i = upd_worker i (\<lambda>w. w\<lparr>handle := False\<rparr>)"

definition wake_join :: "nat \<Rightarrow> ThreadPool \<Rightarrow> ThreadPool" where
  "wake_join i P = pool_thread_join i (thread_wait_wake i P)"

text \<open>The state of the structure when it is freed.\<close>

definition pool_destroy_relative :: "ThreadPool option \<Rightarrow> ThreadPool option option" where
  "pool_destroy_relative po =
     (case po of
        None \<Rightarrow> Some None
      | Some P \<Rightarrow>
          let joined = (if stop P = 0 then
               (case pool_wait_idle_relative po of
                  None \<Rightarrow> None
                | Some _ \<Rightarrow> Some (fold wake_join [0..<length (workers P)] (P\<lparr>stop := 1, mon_wait := 1, mon_handle := False\<rparr>)))
             else Some P)
          in case joined of
               None \<Rightarrow> None
             | Some P1 \<Rightarrow> Some (Some (P1\<lparr>workers := map (\<lambda>w. w\<lparr>deque := pool_deque_free (deque w)\<rparr>) (workers P1),
                                        shards := map pool_ring_free (shards P1), wait_inited := False\<rparr>)))"

section \<open>Creation\<close>

record create_env =
  cpus :: int
  pool_mem :: bool
  ctrs_mem :: bool
  shards_mem :: bool
  workers_mem :: bool
  ring_mem :: "nat \<Rightarrow> PoolCell list option"
  deque_mem :: "nat \<Rightarrow> PoolTask list option"
  thread_ok :: "nat \<Rightarrow> bool"
  monitor_ok :: bool

definition ring_zero :: PoolRing where
  "ring_zero = \<lparr>pr_tail = 0, pr_head = 0, cells = [], pr_mask = 0\<rparr>"

definition deque_zero :: PoolDeque where
  "deque_zero = \<lparr>dq_top = 0, dq_bottom = 0, dq_buf = [], dq_cap = 0, dq_mask = 0\<rparr>"

definition worker_zero :: PoolWorker where
  "worker_zero = \<lparr>is_core = False, is_elastic = False, handle = False, shard_cursor = 0, steal_cursor = 0, start_count = 0, in_task = 0,
     mon_last = 0, lifo_task = \<lparr>fn = 0, arg = 0\<rparr>, lifo_full = False, lifo_streak = 0, pending = replicate 2 \<lparr>fn = 0, arg = 0\<rparr>,
     pend_i = 0, pend_n = 0, deque = deque_zero, parked = 0, wait = 0\<rparr>"

text \<open>The dimensions: cores, workers, elastic workers and shards for a number of processors.\<close>

definition pool_shape :: "int \<Rightarrow> int \<Rightarrow> int \<times> int \<times> int \<times> int" where
  "pool_shape cpu_count cores_override =
     (let cores = (if cores_override > 0 then cores_override else cpu_count); cores = (if cores < 1 then 1 else cores);
          nw = (if cores < 1 then 1 else cores);
          nc = c_div (i32 (cores * 7)) 10; nc = (if nc < 1 then 1 else nc); nc = (if nc > nw then nw else nc);
          ne = c_div (cores * 1) 1; ne = (if ne < 0 then 0 else ne);
          G = c_div cores 4; G = (if G < 1 then 1 else G)
      in (nc, nw, ne, G))"

definition pool_blank :: "int \<times> int \<times> int \<times> int \<Rightarrow> create_env \<Rightarrow> ThreadPool" where
  "pool_blank shape V =
     (case shape of (nc, nw, ne, G) \<Rightarrow>
       let nt = nat (nw + ne) in
       \<lparr>n_core = nat nc, n_workers = nat nw, n_total = nt, n_elastic = nat ne, n_shards = nat G,
        shards = (if shards_mem V then replicate (nat G) ring_zero else []),
        workers = (if workers_mem V then replicate nt worker_zero else []),
        ctrs = (if ctrs_mem V then replicate (nat G + nt) 0 else []), n_ctrs = nat G + nt,
        wait_inited = False, ocioso_desde_ms = 0, ocioso_iniciadas = 0, submit_rr = 0, wake_rr = 0, n_parked_core = 0,
        n_girando = 0, stop = 0, n_vigia = 0, giro_us = - 1, perfil = POOL_PERFIL_PERFORMANCE, mon_dormindo = 0,
        mon_handle = False, mon_wait = 0\<rparr>)"

text \<open>The three loops of the creation; each stops at the first failure.\<close>

fun init_rings :: "create_env \<Rightarrow> nat list \<Rightarrow> ThreadPool \<Rightarrow> bool \<times> ThreadPool" where
  "init_rings V [] P = (True, P)"
| "init_rings V (s # ss) P =
     (case pool_ring_init (ring_mem V s) POOL_SHARD_CAP (shards P ! s) of
        (ok, r) \<Rightarrow> let P1 = upd_shard s r P in if ok then init_rings V ss P1 else (False, P1))"

fun init_workers :: "create_env \<Rightarrow> nat list \<Rightarrow> ThreadPool \<Rightarrow> bool \<times> ThreadPool" where
  "init_workers V [] P = (True, P)"
| "init_workers V (i # is) P =
     (let w = (worker P i)\<lparr>is_core := i < n_core P, is_elastic := i \<ge> n_workers P, shard_cursor := of_nat (i mod n_shards P),
            steal_cursor := of_nat i, lifo_full := False, lifo_streak := 0, pend_i := 0, pend_n := 0, wait := 0,
            parked := (if i \<ge> n_workers P then 1 else 0)\<rparr>
      in case pool_deque_init (deque_mem V i) POOL_DEQUE_CAP (deque w) of
           (ok, d) \<Rightarrow> let P1 = upd_worker i (\<lambda>_. w\<lparr>deque := d\<rparr>) P in if ok then init_workers V is P1 else (False, P1))"

text \<open>A thread that does not start: those already started are told to stop, woken and joined.\<close>

fun start_workers :: "create_env \<Rightarrow> nat list \<Rightarrow> ThreadPool \<Rightarrow> bool \<times> ThreadPool" where
  "start_workers V [] P = (True, P)"
| "start_workers V (i # is) P =
     (if thread_ok V i then start_workers V is (upd_worker i (\<lambda>w. w\<lparr>handle := True\<rparr>) P)
      else (False, fold wake_join [0..<i] (P\<lparr>stop := 1\<rparr>)))"

definition start_monitor :: "create_env \<Rightarrow> ThreadPool \<Rightarrow> bool \<times> ThreadPool" where
  "start_monitor V P =
     (if monitor_ok V then (True, P\<lparr>mon_wait := 0, mon_handle := True\<rparr>)
      else (False, fold wake_join [0..<n_total P] (P\<lparr>mon_wait := 0, stop := 1\<rparr>)))"

text \<open>The result: no pool (with the structure that was freed, if there was one), or the pool.\<close>

datatype create_result = No_pool "ThreadPool option" | New_pool ThreadPool

definition create_failed :: "ThreadPool \<Rightarrow> create_result option" where
  "create_failed P = map_option No_pool (pool_destroy_relative (Some P))"

definition pool_create_relative :: "create_env \<Rightarrow> int \<Rightarrow> create_result option" where
  "pool_create_relative V cores_override =
     (if \<not> pool_mem V then Some (No_pool None)
      else
        let P = pool_blank (pool_shape (cpus V) cores_override) V in
        if \<not> ctrs_mem V \<or> \<not> shards_mem V \<or> \<not> workers_mem V then create_failed P
        else (case init_rings V [0..<n_shards P] (P\<lparr>wait_inited := True\<rparr>) of
           (False, P1) \<Rightarrow> create_failed P1
         | (True, P1) \<Rightarrow>
             (case init_workers V [0..<n_total P1] P1 of
                (False, P2) \<Rightarrow> create_failed P2
              | (True, P2) \<Rightarrow>
                  (case start_workers V [0..<n_total P2] P2 of
                     (False, P3) \<Rightarrow> create_failed P3
                   | (True, P3) \<Rightarrow>
                       (case start_monitor V P3 of
                          (False, P4) \<Rightarrow> create_failed P4
                        | (True, P4) \<Rightarrow> Some (New_pool P4))))))"

section \<open>The global pool\<close>

type_synonym global_pool = "ThreadPool option"

definition pool_create :: "create_env \<Rightarrow> global_pool \<Rightarrow> global_pool option" where
  "pool_create V g =
     (case g of
        None \<Rightarrow> map_option (\<lambda>r. case r of No_pool _ \<Rightarrow> None | New_pool P \<Rightarrow> Some P) (pool_create_relative V 0)
      | Some P \<Rightarrow> Some (Some P))"

definition pool_destroy :: "global_pool \<Rightarrow> global_pool option" where
  "pool_destroy g = (case g of None \<Rightarrow> Some None | Some P \<Rightarrow> map_option (\<lambda>_. None) (pool_destroy_relative (Some P)))"

definition pool_submit :: "PoolTask \<Rightarrow> global_pool \<Rightarrow> (bool \<times> global_pool) option" where
  "pool_submit t g = (case g of None \<Rightarrow> Some (False, None) | Some P \<Rightarrow> pool_submit_relative (Some P) t)"

definition pool_wait_idle :: "global_pool \<Rightarrow> unit option" where
  "pool_wait_idle g = pool_wait_idle_relative g"

definition pool_dims :: "global_pool \<Rightarrow> (nat \<times> nat) option" where
  "pool_dims g = pool_dims_relative g"

definition pool_vigias :: "int \<Rightarrow> global_pool \<Rightarrow> global_pool" where
  "pool_vigias v g = map_option (\<lambda>P. pool_vigias_relative P v) g"

definition pool_giro_max_us :: "int \<Rightarrow> global_pool \<Rightarrow> global_pool" where
  "pool_giro_max_us us g = map_option (\<lambda>P. pool_giro_max_us_relative P us) g"

definition pool_perfil :: "int \<Rightarrow> global_pool \<Rightarrow> global_pool" where
  "pool_perfil p g = map_option (\<lambda>P. pool_perfil_relative P p) g"

definition pool_perfil_atual :: "global_pool \<Rightarrow> int" where
  "pool_perfil_atual g = pool_perfil_atual_relative g"

end
