(* ===== verification/Worker_Steps.thy ===== *)
theory Worker_Steps
  imports Pool_Control
begin

text \<open>
  The threads of a pool as state machines: the loop of a worker (with its spinning, parking and
  retirement), the bodies of the tasks it runs, nested, the submits from outside and a call of
  \<open>pool_wait_idle\<close>.  Steps of all threads interleave in every order.  A step is a section of the
  code; the grain is coarser than the single accesses: a search for work (\<open>pool_try_get\<close>, with the
  steals and the batch it takes from a shard), a push to a shard, a submission from a task
  (\<open>submit_reentrant\<close>) and a pass of the monitor are one step each.  So a steal that loses its
  compare-and-swap to another thread, or a cell of a shard that is claimed and not yet published, is not
  seen in a run; theory \<open>Deque_Steps\<close> shows for the deques, and only for them, that the single
  accesses implement whole operations.  What a task does is its choice: it may submit tasks and
  it returns.
\<close>

section \<open>A worker\<close>

text \<open>The point a worker has reached in \<open>pool_worker_fn\<close> and the functions it calls.\<close>

datatype worker_pc =
    W_top
  | W_vigia_check
  | W_vigia nat
  | W_again
  | W_spin bool
  | W_spin_time int nat bool bool
  | W_spin_pause nat
  | W_spin_yield nat
  | W_spin_found PoolTask bool
  | W_spin_end bool bool
  | W_spin_sleep0 nat
  | W_park
  | W_recheck
  | W_sleep bool int
  | E_top
  | E_prepare
  | E_check
  | E_sleep
  | E_after
  | E_work
  | W_done

text \<open>The locals of the loop, and the tasks whose bodies are running, innermost first.\<close>

record worker_ctl =
  pc :: worker_pc
  park_us :: int
  ocioso :: int
  idle :: int
  fim_giro :: int
  frames :: "PoolTask list"

definition run_task :: "nat \<Rightarrow> PoolTask \<Rightarrow> worker_ctl \<Rightarrow> ThreadPool \<Rightarrow> worker_ctl \<times> ThreadPool" where
  "run_task i t c P = (c\<lparr>frames := t # frames c\<rparr>, pool_run_enter i P)"

text \<open>A core or reserve worker runs a task and starts its loop again with the base wait.\<close>

definition found :: "nat \<Rightarrow> worker_ctl \<Rightarrow> PoolTask \<Rightarrow> ThreadPool \<Rightarrow> worker_ctl \<times> ThreadPool" where
  "found i c t P = run_task i t (c\<lparr>pc := W_top, park_us := 1000, ocioso := 0\<rparr>) P"

definition try_then ::
    "nat \<Rightarrow> ThreadPool \<Rightarrow> (PoolTask \<Rightarrow> ThreadPool \<Rightarrow> worker_ctl \<times> ThreadPool) \<Rightarrow> (ThreadPool \<Rightarrow> worker_ctl \<times> ThreadPool) \<Rightarrow>
      (worker_ctl \<times> ThreadPool) option" where
  "try_then i P hit miss =
     (case pool_try_get i P of None \<Rightarrow> None | Some (Some t, P1) \<Rightarrow> Some (hit t P1) | Some (None, P1) \<Rightarrow> Some (miss P1))"

abbreviation goto :: "worker_ctl \<Rightarrow> worker_pc \<Rightarrow> ThreadPool \<Rightarrow> worker_ctl \<times> ThreadPool" where
  "goto c q P \<equiv> (c\<lparr>pc := q\<rparr>, P)"

definition set_parked :: "nat \<Rightarrow> int \<Rightarrow> ThreadPool \<Rightarrow> ThreadPool" where
  "set_parked i v = upd_worker i (\<lambda>w. w\<lparr>parked := v\<rparr>)"

definition park_core :: "nat \<Rightarrow> ThreadPool \<Rightarrow> ThreadPool" where
  "park_core i P = (set_parked i 1 P)\<lparr>n_parked_core := snd (atomic_add_inline (n_parked_core P) 1)\<rparr>"

definition unpark_core :: "nat \<Rightarrow> ThreadPool \<Rightarrow> ThreadPool" where
  "unpark_core i P = (set_parked i 0 P)\<lparr>n_parked_core := snd (atomic_sub_inline (n_parked_core P) 1)\<rparr>"

text \<open>How long to sleep, and the next wait after a sleep.\<close>

definition sleep_time :: "bool \<Rightarrow> bool \<Rightarrow> int \<Rightarrow> int" where
  "sleep_time core eco park =
     (if core then (if eco \<or> park \<le> 50000 then park else 50000) else if eco then park else 1000)"

definition after_sleep :: "bool \<Rightarrow> bool \<Rightarrow> bool \<Rightarrow> worker_ctl \<Rightarrow> worker_ctl" where
  "after_sleep core eco woken c =
     (if (core \<or> eco) \<and> \<not> woken then
        let teto = (if core \<and> eco then 250000 else 50000)
        in c\<lparr>ocioso := 1, park_us := (if park_us c * 2 > teto then teto else park_us c * 2)\<rparr>
      else c\<lparr>ocioso := 2, park_us := 1000\<rparr>)"

text \<open>\<open>pool_spin\<close>: \<open>now\<close> is the clock.  The flag \<open>conta\<close> says whether the worker counts as spinning,
  \<open>dorme0\<close> whether the spin ends with the \<open>sleep0\<close> phase.\<close>

definition spin_start :: "int \<Rightarrow> bool \<Rightarrow> worker_ctl \<Rightarrow> ThreadPool \<Rightarrow> worker_ctl \<times> ThreadPool" where
  "spin_start now curto c P =
     (let conta = (giro_us P < 0);
          giro = (if curto \<and> giro_us P < 0 then 20 else giro_us P);
          dorme0 = (curto \<and> giro_us P < 0);
          P1 = (if conta then P\<lparr>n_girando := snd (atomic_add_inline (n_girando P) 1)\<rparr> else P)
      in if giro \<ge> 0 then
           if giro > 0 then goto c (W_spin_time (now + giro) 0 conta dorme0) P1 else goto c (W_spin_end conta dorme0) P1
         else goto c (W_spin_pause 0) P1)"

fun spin_step :: "int \<Rightarrow> nat \<Rightarrow> worker_pc \<Rightarrow> worker_ctl \<Rightarrow> ThreadPool \<Rightarrow> (worker_ctl \<times> ThreadPool) option" where
  "spin_step now i (W_spin curto) c P = Some (spin_start now curto c P)"
| "spin_step now i (W_spin_time fim k conta d) c P =
     try_then i P (\<lambda>t. goto c (W_spin_found t conta))
       (\<lambda>P1. if stop P1 \<noteq> 0 \<or> (k mod 64 = 63 \<and> now \<ge> fim) then goto c (W_spin_end conta d) P1
             else goto c (W_spin_time fim (k + 1) conta d) P1)"
| "spin_step now i (W_spin_pause k) c P =
     (if k < 512 then
        try_then i P (\<lambda>t. goto c (W_spin_found t True))
          (\<lambda>P1. if stop P1 \<noteq> 0 then goto c (W_spin_yield 0) P1 else goto c (W_spin_pause (k + 1)) P1)
      else Some (goto c (W_spin_yield 0) P))"
| "spin_step now i (W_spin_yield k) c P =
     (if k < 64 then
        try_then i P (\<lambda>t. goto c (W_spin_found t True))
          (\<lambda>P1. if stop P1 \<noteq> 0 then goto c (W_spin_end True True) P1 else goto c (W_spin_yield (k + 1)) P1)
      else Some (goto c (W_spin_end True True) P))"
| "spin_step now i (W_spin_found t conta) c P = Some (found i c t (if conta then pool_gira_fim True P else P))"
| "spin_step now i (W_spin_end conta d) c P =
     Some (goto c (if d then W_spin_sleep0 0 else W_park) (if conta then pool_gira_fim False P else P))"
| "spin_step now i (W_spin_sleep0 k) c P =
     (if k < 8 then
        try_then i P (found i c)
          (\<lambda>P1. if stop P1 \<noteq> 0 then goto c W_park P1 else goto c (W_spin_sleep0 (k + 1)) P1)
      else Some (goto c W_park P))"
| "spin_step now i q c P = None"

text \<open>\<open>pool_vigia_gira\<close>: 512 tries, then the CPU is yielded and the loop starts again.\<close>

definition vigia_step :: "nat \<Rightarrow> nat \<Rightarrow> worker_ctl \<Rightarrow> ThreadPool \<Rightarrow> (worker_ctl \<times> ThreadPool) option" where
  "vigia_step i k c P =
     (if k < 512 then
        try_then i P (found i c)
          (\<lambda>P1. if stop P1 \<noteq> 0 then goto c W_top P1 else goto c (W_vigia (k + 1)) P1)
      else Some (goto c W_top P))"

text \<open>The retirement of an elastic worker that finds nothing.\<close>

definition elastic_miss :: "int \<Rightarrow> worker_ctl \<Rightarrow> ThreadPool \<Rightarrow> worker_ctl \<times> ThreadPool" where
  "elastic_miss now c P =
     (if giro_us P \<ge> 0 then
        if giro_us P = 0 then goto c E_top P
        else
          let fim = (if fim_giro c = 0 then now + giro_us P else fim_giro c); n = idle c + 1
          in if n AND 63 = 63 \<and> now \<ge> fim then goto c E_top P
             else (c\<lparr>pc := E_work, idle := n, fim_giro := fim\<rparr>, P)
      else if idle c + 1 > 200000 then goto c E_top P
      else (c\<lparr>pc := E_work, idle := idle c + 1\<rparr>, P))"

fun elastic_step :: "int \<Rightarrow> bool \<Rightarrow> nat \<Rightarrow> worker_pc \<Rightarrow> worker_ctl \<Rightarrow> ThreadPool \<Rightarrow> (worker_ctl \<times> ThreadPool) option" where
  "elastic_step now timeout i E_top c P =
     Some (if stop P \<noteq> 0 then goto c W_done P else goto c E_prepare (set_parked i 1 P))"
| "elastic_step now timeout i E_prepare c P = Some (goto c E_check (thread_wait_prepare i P))"
| "elastic_step now timeout i E_check c P = Some (goto c (if parked (worker P i) \<noteq> 0 then E_sleep else E_after) P)"
| "elastic_step now timeout i E_sleep c P =
     (case thread_wait_sleep_for timeout i P of
        (None, P1) \<Rightarrow> Some (goto c E_sleep P1)
      | (Some _, P1) \<Rightarrow> Some (goto c E_after P1))"
| "elastic_step now timeout i E_after c P =
     Some (if stop P \<noteq> 0 then goto c W_done P
           else if parked (worker P i) \<noteq> 0 then goto c E_top P
           else (c\<lparr>pc := E_work, idle := 0, fim_giro := 0\<rparr>, P))"
| "elastic_step now timeout i E_work c P =
     (if stop P \<noteq> 0 then Some (goto c E_top P)
      else try_then i P (\<lambda>t. run_task i t (c\<lparr>pc := E_work, idle := 0, fim_giro := 0\<rparr>)) (elastic_miss now c))"
| "elastic_step now timeout i q c P = None"

fun core_step :: "bool \<Rightarrow> nat \<Rightarrow> worker_pc \<Rightarrow> worker_ctl \<Rightarrow> ThreadPool \<Rightarrow> (worker_ctl \<times> ThreadPool) option" where
  "core_step timeout i W_top c P =
     (if stop P \<noteq> 0 then Some (goto c W_done P) else try_then i P (found i c) (goto c W_vigia_check))"
| "core_step timeout i W_vigia_check c P =
     Some (if is_core (worker P i) \<and> int i < n_vigia P then goto c (W_vigia 0) P else goto c W_again (thread_wait_prepare i P))"
| "core_step timeout i (W_vigia k) c P = vigia_step i k c P"
| "core_step timeout i W_again c P =
     try_then i P (found i c)
       (\<lambda>P1. goto c (if is_core (worker P1 i) \<and> ocioso c \<noteq> 1 then W_spin (ocioso c = 2) else W_park) P1)"
| "core_step timeout i W_park c P =
     Some (if stop P \<noteq> 0 then goto c W_done P
           else goto c W_recheck (if is_core (worker P i) then park_core i P else P))"
| "core_step timeout i W_recheck c P =
     (let doze = (\<lambda>P1. let core = is_core (worker P1 i); eco = (perfil P1 = POOL_PERFIL_ECONOMIA)
                       in goto c (W_sleep eco (sleep_time core eco (park_us c))) P1)
      in if is_core (worker P i) then try_then i P (\<lambda>t P1. found i c t (unpark_core i P1)) doze else Some (doze P))"
| "core_step timeout i (W_sleep eco espera) c P =
     (case thread_wait_sleep_for timeout i P of
        (None, P1) \<Rightarrow> Some (c, P1)
      | (Some woken, P1) \<Rightarrow>
          let core = is_core (worker P1 i)
          in Some (goto (after_sleep core eco woken c) W_top (if core then unpark_core i P1 else P1)))"
| "core_step timeout i q c P = None"

text \<open>The next step of worker \<open>i\<close> when no body is running; \<open>timeout\<close> says whether a sleep may time out now.\<close>

definition pool_worker_step :: "int \<Rightarrow> bool \<Rightarrow> nat \<Rightarrow> worker_ctl \<Rightarrow> ThreadPool \<Rightarrow> (worker_ctl \<times> ThreadPool) option" where
  "pool_worker_step now timeout i c P =
     (case pc c of
        W_done \<Rightarrow> None
      | W_spin b \<Rightarrow> spin_step now i (pc c) c P
      | W_spin_time a k b d \<Rightarrow> spin_step now i (pc c) c P
      | W_spin_pause k \<Rightarrow> spin_step now i (pc c) c P
      | W_spin_yield k \<Rightarrow> spin_step now i (pc c) c P
      | W_spin_found t b \<Rightarrow> spin_step now i (pc c) c P
      | W_spin_end b d \<Rightarrow> spin_step now i (pc c) c P
      | W_spin_sleep0 k \<Rightarrow> spin_step now i (pc c) c P
      | E_top \<Rightarrow> elastic_step now timeout i (pc c) c P
      | E_prepare \<Rightarrow> elastic_step now timeout i (pc c) c P
      | E_check \<Rightarrow> elastic_step now timeout i (pc c) c P
      | E_sleep \<Rightarrow> elastic_step now timeout i (pc c) c P
      | E_after \<Rightarrow> elastic_step now timeout i (pc c) c P
      | E_work \<Rightarrow> elastic_step now timeout i (pc c) c P
      | q \<Rightarrow> core_step timeout i q c P)"

definition worker_start :: "PoolWorker \<Rightarrow> worker_ctl" where
  "worker_start w = \<lparr>pc = (if is_elastic w then E_top else W_top), park_us = 1000, ocioso = 0, idle = 0, fim_giro = 0, frames = []\<rparr>"

section \<open>The system\<close>

text \<open>A thread outside the pool, inside \<open>pool_submit_relative\<close>.\<close>

datatype submit_pc =
    S_idle
  | S_counted PoolTask nat
  | S_full PoolTask nat
  | S_retry PoolTask
  | S_pushed nat

record pool_system =
  pool :: ThreadPool
  ctl :: "worker_ctl list"
  subs :: "submit_pc list"
  scan :: "(nat \<times> int) option"

datatype pool_event =
    Quiet
  | Submitted PoolTask
  | Refused PoolTask
  | Finished PoolTask
  | Idle_seen

abbreviation set_ctl :: "pool_system \<Rightarrow> nat \<Rightarrow> worker_ctl \<Rightarrow> ThreadPool \<Rightarrow> pool_system" where
  "set_ctl s i c P \<equiv> s\<lparr>pool := P, ctl := (ctl s)[i := c]\<rparr>"

abbreviation set_sub :: "pool_system \<Rightarrow> nat \<Rightarrow> submit_pc \<Rightarrow> ThreadPool \<Rightarrow> pool_system" where
  "set_sub s j q P \<equiv> s\<lparr>pool := P, subs := (subs s)[j := q]\<rparr>"

text \<open>A step inside \<open>pool_submit_relative\<close>: pushing, taking the count back, trying again, waking.\<close>

fun submit_step :: "submit_pc \<Rightarrow> ThreadPool \<Rightarrow> (pool_event \<times> submit_pc \<times> ThreadPool) option" where
  "submit_step S_idle P = None"
| "submit_step (S_counted t k) P =
     (case submit_push k t P of
        None \<Rightarrow> None
      | Some (ok, P1) \<Rightarrow> Some (Quiet, if ok then S_pushed k else S_full t k, P1))"
| "submit_step (S_full t k) P = Some (Quiet, S_retry t, submit_uncount k P)"
| "submit_step (S_retry t) P =
     (if stop P \<noteq> 0 then Some (Refused t, S_idle, P)
      else case submit_count P of (k, P1) \<Rightarrow> Some (Quiet, S_counted t k, P1))"
| "submit_step (S_pushed k) P = Some (Quiet, S_idle, submit_wake k P)"

text \<open>The calls that only change settings, and the monitor.\<close>

inductive control_step :: "ThreadPool \<Rightarrow> ThreadPool \<Rightarrow> bool" where
  vigias: "control_step P (pool_vigias_relative P v)"
| giro: "control_step P (pool_giro_max_us_relative P us)"
| perfil: "control_step P (pool_perfil_relative P p)"
| monitor_sleep: "monitor_before now P = Some (us, P') \<Longrightarrow> control_step P P'"
| monitor_pass: "monitor_after P = Some P' \<Longrightarrow> control_step P P'"
| stopping: "control_step P (P\<lparr>stop := 1\<rparr>)"

inductive system_step :: "pool_system \<Rightarrow> pool_event \<Rightarrow> pool_system \<Rightarrow> bool" where
  work: "i < length (ctl s) \<Longrightarrow> frames (ctl s ! i) = [] \<Longrightarrow> pool_worker_step now timeout i (ctl s ! i) (pool s) = Some (c, P) \<Longrightarrow>
      system_step s Quiet (set_ctl s i c P)"
| body_submit: "i < length (ctl s) \<Longrightarrow> frames (ctl s ! i) = t # ts \<Longrightarrow> fn u \<noteq> 0 \<Longrightarrow> stop (pool s) = 0 \<Longrightarrow>
      submit_reentrant i u (pool s) = (None, P) \<Longrightarrow> system_step s (Submitted u) (set_ctl s i (ctl s ! i) P)"
| body_submit_run: "i < length (ctl s) \<Longrightarrow> frames (ctl s ! i) = t # ts \<Longrightarrow> fn u \<noteq> 0 \<Longrightarrow> stop (pool s) = 0 \<Longrightarrow>
      submit_reentrant i u (pool s) = (Some old, P) \<Longrightarrow> run_task i old (ctl s ! i) P = (c, P1) \<Longrightarrow>
      system_step s (Submitted u) (set_ctl s i c P1)"
| body_return: "i < length (ctl s) \<Longrightarrow> frames (ctl s ! i) = t # ts \<Longrightarrow>
      system_step s (Finished t) (set_ctl s i ((ctl s ! i)\<lparr>frames := ts\<rparr>) (pool_run_leave i (pool s)))"
| submit_call: "j < length (subs s) \<Longrightarrow> subs s ! j = S_idle \<Longrightarrow> fn t \<noteq> 0 \<Longrightarrow> stop (pool s) = 0 \<Longrightarrow> submit_count (pool s) = (k, P) \<Longrightarrow>
      system_step s (Submitted t) (set_sub s j (S_counted t k) P)"
| submit_more: "j < length (subs s) \<Longrightarrow> submit_step (subs s ! j) (pool s) = Some (e, q, P) \<Longrightarrow> system_step s e (set_sub s j q P)"
| control: "control_step (pool s) P \<Longrightarrow> system_step s Quiet (s\<lparr>pool := P\<rparr>)"
| scan_call: "scan s = None \<Longrightarrow> system_step s Quiet (s\<lparr>scan := Some (0, 0)\<rparr>)"
| scan_read: "scan s = Some (k, acc) \<Longrightarrow> k < n_ctrs (pool s) \<Longrightarrow>
      system_step s Quiet (s\<lparr>scan := Some (k + 1, i64 (acc + ctrs (pool s) ! k))\<rparr>)"
| scan_again: "scan s = Some (n_ctrs (pool s), acc) \<Longrightarrow> acc > 0 \<Longrightarrow> system_step s Quiet (s\<lparr>scan := Some (0, 0)\<rparr>)"
| scan_return: "scan s = Some (n_ctrs (pool s), acc) \<Longrightarrow> acc \<le> 0 \<Longrightarrow> system_step s Idle_seen (s\<lparr>scan := None\<rparr>)"

inductive system_run :: "pool_system \<Rightarrow> pool_event list \<Rightarrow> pool_system \<Rightarrow> bool" for s0 where
  start: "system_run s0 [] s0"
| more: "system_run s0 es s \<Longrightarrow> system_step s e s' \<Longrightarrow> system_run s0 (es @ [e]) s'"

text \<open>A pool whose threads have just started, with \<open>m\<close> threads outside.\<close>

definition system_start :: "ThreadPool \<Rightarrow> nat \<Rightarrow> pool_system" where
  "system_start P m = \<lparr>pool = P, ctl = map worker_start (workers P), subs = replicate m S_idle, scan = None\<rparr>"

end
