(* ===== verification/Pool_Tasks.thy ===== *)
theory Pool_Tasks
  imports Worker_Steps
begin

text \<open>
  Where the tasks of a pool are, and what each operation does to them: finding a task moves one
  task out of the queues, submitting moves one in, everything else leaves them alone.
\<close>

section \<open>Sums over a list with one element changed\<close>

lemma sum_list_update_add:
  fixes f :: "'a \<Rightarrow> 'b :: cancel_comm_monoid_add"
  assumes "i < length xs"
  shows "sum_list (map f (xs[i := x])) + f (xs ! i) = sum_list (map f xs) + f x"
  using assms
proof (induction xs arbitrary: i)
  case (Cons a xs)
  show ?case
  proof (cases i)
    case (Suc j)
    then have "sum_list (map f (xs[j := x])) + f (xs ! j) = sum_list (map f xs) + f x" using Cons by simp
    then show ?thesis using Suc by (simp add: add.assoc)
  qed (simp add: ac_simps)
qed simp

lemma sum_list_zero: "(\<And>x. x \<in> set xs \<Longrightarrow> f x = 0) \<Longrightarrow> sum_list (map f xs) = (0 :: 'b :: cancel_comm_monoid_add)"
  by (induction xs) simp_all

section \<open>Tasks in the queues\<close>

definition worker_tasks :: "PoolWorker \<Rightarrow> PoolTask multiset" where
  "worker_tasks w = (if lifo_full w then {#lifo_task w#} else {#}) + mset (deque_tasks (deque w)) +
     mset (drop (pend_i w) (take (pend_n w) (pending w)))"

definition queued :: "ThreadPool \<Rightarrow> PoolTask multiset" where
  "queued P = sum_list (map (\<lambda>r. mset (ring_tasks r)) (shards P)) + sum_list (map worker_tasks (workers P))"

definition worker_valid :: "nat \<Rightarrow> nat \<Rightarrow> PoolWorker \<Rightarrow> bool" where
  "worker_valid ns nt w \<longleftrightarrow> deque_valid (deque w) \<and> pend_n w \<le> 2 \<and> length (pending w) = 2 \<and>
     unat (shard_cursor w) < ns \<and> unat (steal_cursor w) < nt"

definition pool_valid :: "ThreadPool \<Rightarrow> bool" where
  "pool_valid P \<longleftrightarrow> 0 < n_shards P \<and> 0 < n_total P \<and> 0 < n_core P \<and> n_core P \<le> n_workers P \<and> n_workers P \<le> n_total P \<and>
     n_shards P + n_total P < 2 ^ 31 \<and>
     length (shards P) = n_shards P \<and> length (workers P) = n_total P \<and> n_ctrs P = n_shards P + n_total P \<and>
     length (ctrs P) = n_ctrs P \<and> (\<forall>r \<in> set (shards P). pr_valid r) \<and>
     (\<forall>w \<in> set (workers P). worker_valid (n_shards P) (n_total P) w)"

lemma pool_validD:
  assumes "pool_valid P"
  shows "0 < n_shards P" "0 < n_total P" "0 < n_core P" "n_core P \<le> n_workers P" "n_workers P \<le> n_total P"
    "n_shards P + n_total P < 2147483648" "length (shards P) = n_shards P" "length (workers P) = n_total P"
    "n_ctrs P = n_shards P + n_total P" "length (ctrs P) = n_ctrs P"
    "s < n_shards P \<Longrightarrow> pr_valid (shards P ! s)"
    "i < n_total P \<Longrightarrow> worker_valid (n_shards P) (n_total P) (worker P i)"
  using assms by (auto simp: pool_valid_def)

text \<open>What the queue operations leave alone.\<close>

definition worker_same :: "PoolWorker \<Rightarrow> PoolWorker \<Rightarrow> bool" where
  "worker_same w w' \<longleftrightarrow> is_core w' = is_core w \<and> is_elastic w' = is_elastic w \<and> parked w' = parked w \<and> in_task w' = in_task w"

definition pool_same :: "ThreadPool \<Rightarrow> ThreadPool \<Rightarrow> bool" where
  "pool_same P P' \<longleftrightarrow> P' = P\<lparr>shards := shards P', workers := workers P'\<rparr> \<and> list_all2 worker_same (workers P) (workers P')"

lemma workers_same_refl: "list_all2 worker_same ws ws"
  by (rule list_all2_refl) (simp add: worker_same_def)

lemma workers_same_trans: "list_all2 worker_same us vs \<Longrightarrow> list_all2 worker_same vs ws \<Longrightarrow> list_all2 worker_same us ws"
  by (rule list_all2_trans [of worker_same worker_same worker_same]) (auto simp: worker_same_def)

lemma pool_same_refl [simp]: "pool_same P P"
  by (simp add: pool_same_def workers_same_refl)

lemma pool_same_fields:
  assumes "pool_same P P'"
  shows "n_shards P' = n_shards P" "n_total P' = n_total P" "n_core P' = n_core P" "n_workers P' = n_workers P"
    "ctrs P' = ctrs P" "n_ctrs P' = n_ctrs P" "stop P' = stop P" "length (workers P') = length (workers P)"
    "giro_us P' = giro_us P" "perfil P' = perfil P" "n_parked_core P' = n_parked_core P" "n_girando P' = n_girando P"
proof -
  have e: "P' = P\<lparr>shards := shards P', workers := workers P'\<rparr>" and l: "list_all2 worker_same (workers P) (workers P')"
    using assms by (simp_all add: pool_same_def)
  show "length (workers P') = length (workers P)" using l by (simp add: list_all2_lengthD)
  show "n_shards P' = n_shards P" "n_total P' = n_total P" "n_core P' = n_core P" "n_workers P' = n_workers P"
    "ctrs P' = ctrs P" "n_ctrs P' = n_ctrs P" "stop P' = stop P"
    "giro_us P' = giro_us P" "perfil P' = perfil P" "n_parked_core P' = n_parked_core P" "n_girando P' = n_girando P"
    by (subst e, simp)+
qed

lemma pool_same_trans: "pool_same P Q \<Longrightarrow> pool_same Q R \<Longrightarrow> pool_same P R"
proof -
  assume a: "pool_same P Q" "pool_same Q R"
  have q: "Q = P\<lparr>shards := shards Q, workers := workers Q\<rparr>" and r: "R = Q\<lparr>shards := shards R, workers := workers R\<rparr>"
    using a by (simp_all add: pool_same_def)
  have "R = P\<lparr>shards := shards R, workers := workers R\<rparr>" by (subst r, subst q) simp
  then show ?thesis using a workers_same_trans by (auto simp: pool_same_def)
qed

lemma pool_same_worker:
  assumes "worker_same (worker P i) (f (worker P i))"
  shows "pool_same P (upd_worker i f P)"
proof (cases "i < length (workers P)")
  case True
  then have "list_all2 worker_same ((workers P)[i := worker P i]) ((workers P)[i := f (worker P i)])"
    using assms workers_same_refl by (intro list_all2_update_cong) simp_all
  then show ?thesis by (simp add: pool_same_def upd_worker_def)
qed (simp add: pool_same_def upd_worker_def workers_same_refl list_update_beyond)

lemma pool_same_shard: "pool_same P (upd_shard s r P)"
  by (simp add: pool_same_def upd_shard_def workers_same_refl)

lemma upd_fields [simp]:
  "n_shards (upd_worker i f P) = n_shards P" "n_total (upd_worker i f P) = n_total P" "n_core (upd_worker i f P) = n_core P"
  "n_workers (upd_worker i f P) = n_workers P" "ctrs (upd_worker i f P) = ctrs P" "n_ctrs (upd_worker i f P) = n_ctrs P"
  "shards (upd_worker i f P) = shards P" "length (workers (upd_worker i f P)) = length (workers P)" "stop (upd_worker i f P) = stop P"
  "n_shards (upd_shard s r P) = n_shards P" "n_total (upd_shard s r P) = n_total P" "n_core (upd_shard s r P) = n_core P"
  "n_workers (upd_shard s r P) = n_workers P" "ctrs (upd_shard s r P) = ctrs P" "n_ctrs (upd_shard s r P) = n_ctrs P"
  "workers (upd_shard s r P) = workers P" "length (shards (upd_shard s r P)) = length (shards P)" "stop (upd_shard s r P) = stop P"
  "n_shards (upd_ctr c g P) = n_shards P" "n_total (upd_ctr c g P) = n_total P" "n_core (upd_ctr c g P) = n_core P"
  "n_workers (upd_ctr c g P) = n_workers P" "shards (upd_ctr c g P) = shards P" "n_ctrs (upd_ctr c g P) = n_ctrs P"
  "workers (upd_ctr c g P) = workers P" "length (ctrs (upd_ctr c g P)) = length (ctrs P)" "stop (upd_ctr c g P) = stop P"
  by (simp_all add: upd_worker_def upd_shard_def upd_ctr_def)

lemma worker_upd: "i < length (workers P) \<Longrightarrow> worker (upd_worker i f P) j = (if j = i then f (worker P i) else worker P j)"
  by (simp add: upd_worker_def nth_list_update)

lemma shard_upd: "s < length (shards P) \<Longrightarrow> shards (upd_shard s r P) ! s' = (if s' = s then r else shards P ! s')"
  by (simp add: upd_shard_def nth_list_update)

lemma queued_ctr [simp]: "queued (upd_ctr c g P) = queued P"
  by (simp add: queued_def)

lemma queued_worker:
  "i < length (workers P) \<Longrightarrow> queued (upd_worker i f P) + worker_tasks (worker P i) = queued P + worker_tasks (f (worker P i))"
  using sum_list_update_add [of i "workers P" worker_tasks "f (worker P i)"]
  by (simp add: queued_def upd_worker_def ac_simps)

lemma queued_shard:
  "s < length (shards P) \<Longrightarrow> queued (upd_shard s r P) + mset (ring_tasks (shards P ! s)) = queued P + mset (ring_tasks r)"
  using sum_list_update_add [of s "shards P" "\<lambda>r. mset (ring_tasks r)" r]
  by (simp add: queued_def upd_shard_def ac_simps)

lemma queued_worker_same:
  "i < length (workers P) \<Longrightarrow> worker_tasks (f (worker P i)) = worker_tasks (worker P i) \<Longrightarrow> queued (upd_worker i f P) = queued P"
  using queued_worker [of i P f] by simp

lemma pool_valid_worker:
  assumes "pool_valid P" "i < n_total P" "worker_valid (n_shards P) (n_total P) (f (worker P i))"
  shows "pool_valid (upd_worker i f P)"
proof -
  have "worker_valid (n_shards P) (n_total P) w" if "w \<in> set ((workers P)[i := f (worker P i)])" for w
    using set_update_subset [OF that] assms by (auto simp: pool_valid_def)
  then show ?thesis using assms(1) by (simp add: pool_valid_def) (simp add: upd_worker_def)
qed

lemma pool_valid_shard:
  assumes "pool_valid P" "pr_valid r"
  shows "pool_valid (upd_shard s r P)"
proof -
  have "pr_valid q" if "q \<in> set ((shards P)[s := r])" for q
    using set_update_subset [OF that] assms by (auto simp: pool_valid_def)
  then show ?thesis using assms(1) by (simp add: pool_valid_def) (simp add: upd_shard_def)
qed

lemma pool_valid_ctr: "pool_valid P \<Longrightarrow> pool_valid (upd_ctr c g P)"
  by (simp add: pool_valid_def)

lemma unat_index: "0 < n \<Longrightarrow> n < 2147483648 \<Longrightarrow> unat (v mod of_nat n :: w32) = unat v mod n"
  by (simp add: unat_mod unat_of_nat)

lemma cursor_plus:
  "unat (sc :: w32) < n \<Longrightarrow> g \<le> n \<Longrightarrow> n < 2147483648 \<Longrightarrow> unat ((sc + of_nat g) mod of_nat n) = (unat sc + g) mod n"
proof -
  assume a: "unat sc < n" "g \<le> n" "n < 2147483648"
  have "unat (sc + of_nat g) = unat sc + g" using a by (simp add: unat_word_ariths unat_of_nat)
  then show ?thesis using unat_index [of n "sc + of_nat g"] a by simp
qed

section \<open>Finding a task\<close>

definition opt_mset :: "PoolTask option \<Rightarrow> PoolTask multiset" where
  "opt_mset r = (case r of None \<Rightarrow> {#} | Some t \<Rightarrow> {#t#})"

lemma opt_mset_simps [simp]: "opt_mset None = {#}" "opt_mset (Some t) = {#t#}"
  by (simp_all add: opt_mset_def)

text \<open>A task found left the queues; nothing else changed, and nothing at all when none was found.\<close>

definition got_spec :: "ThreadPool \<Rightarrow> PoolTask option \<Rightarrow> ThreadPool \<Rightarrow> bool" where
  "got_spec P r P' \<longleftrightarrow> pool_same P P' \<and> pool_valid P' \<and> queued P = queued P' + opt_mset r \<and> (r = None \<longrightarrow> P' = P)"

lemma got_none: "pool_valid P \<Longrightarrow> got_spec P None P"
  by (simp add: got_spec_def)

lemma upd_shard_id: "s < length (shards P) \<Longrightarrow> upd_shard s (shards P ! s) P = P"
  by (simp add: upd_shard_def)

lemma upd_worker_id: "f (worker P i) = worker P i \<Longrightarrow> upd_worker i f P = P"
  by (simp add: upd_worker_def)

lemma upd_worker_twice: "i < length (workers P) \<Longrightarrow> upd_worker i f (upd_worker i g P) = upd_worker i (\<lambda>w. f (g w)) P"
  by (simp add: upd_worker_def)

lemma worker_validD:
  assumes "worker_valid ns nt w"
  shows "deque_valid (deque w)" "pend_n w \<le> 2" "length (pending w) = 2" "unat (shard_cursor w) < ns" "unat (steal_cursor w) < nt"
  using assms by (simp_all add: worker_valid_def)

lemma batch_found:
  assumes v: "pool_valid P" and i: "i < n_total P" and s: "s < n_shards P"
    and dry: "pend_n (worker P i) \<le> pend_i (worker P i)"
    and pop: "pool_ring_pop_batch (shards P ! s) 2 = Some (t # ts, r)"
  defines "P' \<equiv> upd_worker i (\<lambda>w. w\<lparr>shard_cursor := of_nat s, lifo_streak := 0,
      pending := (t # ts) @ drop (length (t # ts)) (pending w), pend_i := 1, pend_n := length (t # ts)\<rparr>) (upd_shard s r P)"
  shows "got_spec P (Some t) P'"
proof -
  let ?f = "\<lambda>w. w\<lparr>shard_cursor := of_nat s, lifo_streak := 0,
      pending := (t # ts) @ drop (length (t # ts)) (pending w), pend_i := 1, pend_n := length (t # ts)\<rparr>"
  note d = pool_validD [OF v]
  note w = worker_validD [OF d(12) [OF i]]
  obtain r' where r': "pool_ring_pop_batch (shards P ! s) 2 = Some (take 2 (ring_tasks (shards P ! s)), r')" "pr_valid r'"
    "ring_tasks r' = drop 2 (ring_tasks (shards P ! s))" using pop_batch_valid [OF d(11) [OF s], of 2] by blast
  have r: "r' = r" "t # ts = take 2 (ring_tasks (shards P ! s))" using r'(1) pop by simp_all
  have len: "length (t # ts) \<le> 2" by (simp only: r(2)) simp
  have li: "i < length (workers (upd_shard s r P))" "i < length (workers P)" "s < length (shards P)" using i s d(7,8) by simp_all
  have wt: "worker_tasks (?f (worker P i)) = worker_tasks (worker P i) + mset ts"
  proof -
    have "drop (pend_i (worker P i)) (take (pend_n (worker P i)) (pending (worker P i))) = []" using dry by simp
    then show ?thesis by (simp add: worker_tasks_def)
  qed
  have a: "queued P' + worker_tasks (worker P i) = queued (upd_shard s r P) + (worker_tasks (worker P i) + mset ts)"
    using queued_worker [OF li(1), of ?f] wt unfolding P'_def by simp
  have "mset (ring_tasks (shards P ! s)) = mset (take 2 (ring_tasks (shards P ! s))) + mset (drop 2 (ring_tasks (shards P ! s)))"
    by (metis append_take_drop_id mset_append)
  then have "(queued (upd_shard s r P) + mset (t # ts)) + mset (drop 2 (ring_tasks (shards P ! s))) =
      queued P + mset (drop 2 (ring_tasks (shards P ! s)))"
    using queued_shard [OF li(3), of r] r'(3) r(1) unfolding r(2) by (simp add: add.assoc)
  then have "queued (upd_shard s r P) + mset (t # ts) = queued P" by (rule add_right_imp_eq)
  then have q: "queued P = queued P' + {#t#}" using a by (simp add: ac_simps)
  have wv: "worker_valid (n_shards P) (n_total P) (?f (worker P i))"
    using w len s d(6) by (simp add: worker_valid_def unat_of_nat)
  have "pool_valid (upd_shard s r P)" using pool_valid_shard [OF v] r'(2) r(1) by blast
  then have "pool_valid P'" unfolding P'_def by (rule pool_valid_worker) (use i wv in simp_all)
  moreover have "pool_same (upd_shard s r P) P'" unfolding P'_def by (rule pool_same_worker) (simp add: worker_same_def)
  then have "pool_same P P'" using pool_same_shard pool_same_trans by blast
  ultimately show ?thesis using q by (simp add: got_spec_def)
qed

definition shard_order :: "ThreadPool \<Rightarrow> w32 \<Rightarrow> nat \<Rightarrow> nat" where
  "shard_order P sc g = unat ((sc + of_nat g) mod of_nat (n_shards P))"

lemma shard_order_less: "pool_valid P \<Longrightarrow> shard_order P sc g < n_shards P"
  using pool_validD(1,6) [of P] unat_index [of "n_shards P"] by (simp add: shard_order_def)

lemma scan_shards_ok:
  assumes v: "pool_valid P" and i: "i < n_total P" and dry: "pend_n (worker P i) \<le> pend_i (worker P i)"
  shows "\<exists>r P'. scan_shards i sc g P = Some (r, P') \<and> got_spec P r P' \<and>
    (r = None \<longrightarrow> (\<forall>g'. g \<le> g' \<longrightarrow> g' < n_shards P \<longrightarrow> ring_tasks (shards P ! shard_order P sc g') = []))"
proof (induction "n_shards P - g" arbitrary: g)
  case 0
  then show ?case using v by (subst scan_shards.simps) (simp add: got_none)
next
  case (Suc n)
  then have g: "g < n_shards P" by simp
  let ?s = "shard_order P sc g"
  have s: "?s < n_shards P" by (rule shard_order_less [OF v])
  obtain r' where pop: "pool_ring_pop_batch (shards P ! ?s) 2 = Some (take 2 (ring_tasks (shards P ! ?s)), r')"
    using pop_batch_valid [OF pool_validD(11) [OF v s], of 2] by blast
  show ?case
  proof (cases "take 2 (ring_tasks (shards P ! ?s))")
    case Nil
    then have e: "ring_tasks (shards P ! ?s) = []" by simp
    then have "r' = shards P ! ?s" using pop_empty_same [OF pool_validD(11) [OF v s] e, of 2] pop by simp
    then have "scan_shards i sc g P = scan_shards i sc (g + 1) P"
      using g pop Nil s pool_validD(7) [OF v] by (subst scan_shards.simps) (simp add: shard_order_def Let_def upd_shard_id)
    moreover obtain r P' where ih: "scan_shards i sc (g + 1) P = Some (r, P')" "got_spec P r P'"
      "r = None \<longrightarrow> (\<forall>g'. g + 1 \<le> g' \<longrightarrow> g' < n_shards P \<longrightarrow> ring_tasks (shards P ! shard_order P sc g') = [])"
      using Suc.hyps(1) [of "g + 1"] Suc.hyps(2) by force
    moreover have "ring_tasks (shards P ! shard_order P sc g') = []" if "g \<le> g'" "g' < n_shards P" "r = None" for g'
      using ih(3) that e by (cases "g' = g") auto
    ultimately show ?thesis by auto
  next
    case (Cons t ts)
    then show ?thesis
      using g pop batch_found [OF v i s dry, of t ts r'] by (subst scan_shards.simps) (simp add: shard_order_def Let_def)
  qed
qed

lemma shard_order_covers:
  assumes "pool_valid P" "unat sc < n_shards P" "s < n_shards P"
  shows "\<exists>g < n_shards P. shard_order P sc g = s"
proof -
  obtain g where g: "g < n_shards P" "(unat sc + g) mod n_shards P = s" using slot_window_covers [OF assms(3)] by blast
  have "n_shards P < 2147483648" using pool_validD(6) [OF assms(1)] by simp
  then have "shard_order P sc g = s" using cursor_plus [OF assms(2), of g] g by (simp add: shard_order_def)
  then show ?thesis using g(1) by blast
qed

text \<open>The steal scan: the deques of the other workers.\<close>

definition victim :: "ThreadPool \<Rightarrow> w32 \<Rightarrow> nat \<Rightarrow> nat" where
  "victim P s2 k = unat ((s2 + of_nat k) mod of_nat (n_total P))"

lemma victim_less: "pool_valid P \<Longrightarrow> victim P s2 k < n_total P"
  using pool_validD(2,6) [of P] unat_index [of "n_total P"] by (simp add: victim_def)

lemma deque_changed:
  assumes v: "pool_valid P" and j: "j < n_total P" and d: "deque_valid d" and m: "mset (deque_tasks (deque (worker P j))) = mset (deque_tasks d) + opt_mset r"
  shows "pool_valid (upd_worker j (\<lambda>w. w\<lparr>deque := d\<rparr>) P)" "queued P = queued (upd_worker j (\<lambda>w. w\<lparr>deque := d\<rparr>) P) + opt_mset r"
    "pool_same P (upd_worker j (\<lambda>w. w\<lparr>deque := d\<rparr>) P)"
proof -
  let ?f = "\<lambda>w. w\<lparr>deque := d\<rparr>"
  note pd = pool_validD [OF v]
  show "pool_valid (upd_worker j ?f P)" using pd(12) [OF j] d by (intro pool_valid_worker [OF v j]) (simp add: worker_valid_def)
  have "worker_tasks (worker P j) = worker_tasks (?f (worker P j)) + opt_mset r" using m by (simp add: worker_tasks_def ac_simps)
  then have "queued (upd_worker j ?f P) + opt_mset r + worker_tasks (?f (worker P j)) = queued P + worker_tasks (?f (worker P j))"
    using queued_worker [of j P ?f] j pd(8) by (simp add: ac_simps)
  then show "queued P = queued (upd_worker j ?f P) + opt_mset r" by (simp only: add_right_cancel)
  show "pool_same P (upd_worker j ?f P)" by (rule pool_same_worker) (simp add: worker_same_def)
qed

lemma cursor_set:
  assumes v: "pool_valid P" and i: "i < n_total P" and j: "j < n_total P"
  defines "P' \<equiv> upd_worker i (\<lambda>w. w\<lparr>steal_cursor := of_nat j, lifo_streak := 0\<rparr>) P"
  shows "pool_valid P'" "queued P' = queued P" "pool_same P P'"
proof -
  let ?f = "\<lambda>w. w\<lparr>steal_cursor := of_nat j, lifo_streak := 0\<rparr>"
  note pd = pool_validD [OF v]
  show "pool_valid P'" unfolding P'_def using pd(12) [OF i] j pd(6)
    by (intro pool_valid_worker [OF v i]) (simp add: worker_valid_def unat_of_nat)
  show "queued P' = queued P" unfolding P'_def using i pd(8) by (intro queued_worker_same) (simp_all add: worker_tasks_def)
  show "pool_same P P'" unfolding P'_def by (rule pool_same_worker) (simp add: worker_same_def)
qed

lemma scan_steal_ok:
  assumes v: "pool_valid P" and i: "i < n_total P"
  shows "\<exists>r P'. scan_steal i s2 k P = (r, P') \<and> got_spec P r P' \<and>
    (r = None \<longrightarrow> (\<forall>k'. k \<le> k' \<longrightarrow> k' \<le> n_total P \<longrightarrow> victim P s2 k' \<noteq> i \<longrightarrow> deque_tasks (deque (worker P (victim P s2 k'))) = []))"
proof (induction "n_total P + 1 - k" arbitrary: k)
  case 0
  then show ?case using v by (subst scan_steal.simps) (simp add: got_none)
next
  case (Suc n)
  then have k: "k \<le> n_total P" by simp
  let ?v = "victim P s2 k"
  have vi: "?v < n_total P" by (rule victim_less [OF v])
  note dv = worker_validD(1) [OF pool_validD(12) [OF v vi]]
  obtain r P' where ih: "scan_steal i s2 (k + 1) P = (r, P')" "got_spec P r P'"
    "r = None \<longrightarrow> (\<forall>k'. k + 1 \<le> k' \<longrightarrow> k' \<le> n_total P \<longrightarrow> victim P s2 k' \<noteq> i \<longrightarrow> deque_tasks (deque (worker P (victim P s2 k'))) = [])"
    using Suc.hyps(1) [of "k + 1"] Suc.hyps(2) by force
  have miss: ?case if "scan_steal i s2 k P = scan_steal i s2 (k + 1) P" "?v \<noteq> i \<longrightarrow> deque_tasks (deque (worker P ?v)) = []"
  proof -
    have "deque_tasks (deque (worker P (victim P s2 k'))) = []" if "k \<le> k'" "k' \<le> n_total P" "victim P s2 k' \<noteq> i" "r = None" for k'
      using ih(3) that \<open>?v \<noteq> i \<longrightarrow> _\<close> by (cases "k' = k") auto
    then show ?thesis using that(1) ih(1,2) by auto
  qed
  show ?case
  proof (cases "?v = i")
    case True
    then show ?thesis using k by (intro miss) (subst scan_steal.simps, simp add: victim_def, simp)
  next
    case False
    obtain x d where st: "pool_deque_steal (deque (worker P ?v)) = (x, d)" "deque_valid d"
      "mset (deque_tasks (deque (worker P ?v))) = mset (deque_tasks d) + mset_set (set_option x)"
      "x = None \<longrightarrow> deque_tasks (deque (worker P ?v)) = [] \<and> d = deque (worker P ?v)"
      using pool_deque.steal_mset [OF dv] by blast
    show ?thesis
    proof (cases x)
      case None
      then have "upd_worker ?v (\<lambda>w. w\<lparr>deque := d\<rparr>) P = P" using st(4) by (intro upd_worker_id) simp
      then show ?thesis using None st k False by (intro miss) (subst scan_steal.simps, simp add: victim_def Let_def, simp)
    next
      case (Some t)
      let ?P = "upd_worker ?v (\<lambda>w. w\<lparr>deque := d\<rparr>) P"
      have m: "mset (deque_tasks (deque (worker P ?v))) = mset (deque_tasks d) + opt_mset (Some t)" using st(3) Some by simp
      note c = deque_changed [OF v vi st(2) m]
      have n: "n_total ?P = n_total P" by simp
      let ?Q = "upd_worker i (\<lambda>w. w\<lparr>steal_cursor := of_nat ?v, lifo_streak := 0\<rparr>) ?P"
      note q = cursor_set [OF c(1), of i ?v] 
      have "scan_steal i s2 k P = (Some t, ?Q)" using k False st(1) Some by (subst scan_steal.simps) (simp add: victim_def Let_def)
      moreover have "got_spec P (Some t) ?Q" using q(1,2) [unfolded n, OF i vi] c(2) pool_same_trans [OF c(3) q(3) [unfolded n, OF i vi]] by (simp add: got_spec_def)
      ultimately show ?thesis by auto
    qed
  qed
qed

lemma victim_covers:
  assumes v: "pool_valid P" and s: "unat s2 < n_total P" and j: "j < n_total P"
  shows "\<exists>k. 1 \<le> k \<and> k \<le> n_total P \<and> victim P s2 k = j"
proof -
  obtain g where g: "g < n_total P" "(unat s2 + g) mod n_total P = j" using slot_window_covers [OF j] by blast
  have n: "n_total P < 2147483648" using pool_validD(6) [OF v] by simp
  show ?thesis
  proof (cases g)
    case 0
    then have "victim P s2 (n_total P) = j" using cursor_plus [OF s, of "n_total P"] n g by (simp add: victim_def)
    then show ?thesis using pool_validD(2) [OF v] by (intro exI [of _ "n_total P"]) simp
  next
    case (Suc m)
    then have "victim P s2 g = j" using cursor_plus [OF s, of g] n g by (simp add: victim_def)
    then show ?thesis using Suc g(1) by (intro exI [of _ g]) simp
  qed
qed

lemma taken_lifo:
  assumes v: "pool_valid P" and i: "i < n_total P" and full: "lifo_full (worker P i)" and r: "take_lifo i k P = (r, P')"
  shows "got_spec P r P'" "r = Some (lifo_task (worker P i))"
proof -
  let ?f = "\<lambda>w. w\<lparr>lifo_streak := k, lifo_full := False\<rparr>"
  have e: "r = Some (lifo_task (worker P i))" "P' = upd_worker i ?f P" using r by (simp_all add: take_lifo_def)
  note pd = pool_validD [OF v]
  have "worker_tasks (worker P i) = worker_tasks (?f (worker P i)) + {#lifo_task (worker P i)#}" using full by (simp add: worker_tasks_def)
  then have "queued P' + {#lifo_task (worker P i)#} + worker_tasks (?f (worker P i)) = queued P + worker_tasks (?f (worker P i))"
    using queued_worker [of i P ?f] i pd(8) e(2) by (simp add: ac_simps)
  then have "queued P = queued P' + {#lifo_task (worker P i)#}" by (simp only: add_right_cancel)
  moreover have "pool_valid P'" unfolding e(2) using pd(12) [OF i] by (intro pool_valid_worker [OF v i]) (simp add: worker_valid_def)
  moreover have "pool_same P P'" unfolding e(2) by (rule pool_same_worker) (simp add: worker_same_def)
  ultimately show "got_spec P r P'" using e(1) by (simp add: got_spec_def)
  show "r = Some (lifo_task (worker P i))" by (rule e(1))
qed

text \<open>What worker \<open>i\<close> can find: its own slot, deque and batch, every shard, every other deque.\<close>

definition reachable_tasks :: "nat \<Rightarrow> ThreadPool \<Rightarrow> bool" where
  "reachable_tasks i P \<longleftrightarrow> worker_tasks (worker P i) \<noteq> {#} \<or> (\<exists>s < n_shards P. ring_tasks (shards P ! s) \<noteq> []) \<or>
     (\<exists>j < n_total P. deque_tasks (deque (worker P j)) \<noteq> [])"

lemma deque_taken:
  assumes v: "pool_valid P" and i: "i < n_total P" and t: "pool_deque_take (deque (worker P i)) = (Some t, d)"
  shows "got_spec P (Some t) (upd_worker i (\<lambda>w. w\<lparr>deque := d, lifo_streak := 0\<rparr>) P)"
proof -
  note dv = worker_validD(1) [OF pool_validD(12) [OF v i]]
  have d: "deque_valid d" "mset (deque_tasks (deque (worker P i))) = mset (deque_tasks d) + opt_mset (Some t)"
    using pool_deque.take_mset [OF dv] t by auto
  note c = deque_changed [OF v i d]
  let ?P = "upd_worker i (\<lambda>w. w\<lparr>deque := d\<rparr>) P"
  let ?g = "\<lambda>w. w\<lparr>lifo_streak := 0\<rparr>"
  have li: "i < length (workers P)" using i pool_validD(8) [OF v] by simp
  have e: "upd_worker i (\<lambda>w. w\<lparr>deque := d, lifo_streak := 0\<rparr>) P = upd_worker i ?g ?P" using li by (simp add: upd_worker_twice)
  have "queued (upd_worker i ?g ?P) = queued ?P" using li by (intro queued_worker_same) (simp_all add: worker_tasks_def)
  moreover have "pool_valid (upd_worker i ?g ?P)"
    by (rule pool_valid_worker [OF c(1)]) (use i pool_validD(12) [OF c(1), of i] in \<open>simp_all add: worker_valid_def\<close>)
  moreover have "pool_same ?P (upd_worker i ?g ?P)" by (rule pool_same_worker) (simp add: worker_same_def)
  ultimately show ?thesis unfolding e got_spec_def using c(2) pool_same_trans [OF c(3)] by simp
qed

lemma batch_next:
  assumes v: "pool_valid P" and i: "i < n_total P" and p: "pend_i (worker P i) < pend_n (worker P i)"
  shows "got_spec P (Some (pending (worker P i) ! pend_i (worker P i)))
    (upd_worker i (\<lambda>w. w\<lparr>lifo_streak := 0, pend_i := pend_i w + 1\<rparr>) P)"
proof -
  let ?w = "worker P i" and ?f = "\<lambda>w. w\<lparr>lifo_streak := 0, pend_i := pend_i w + 1\<rparr>"
  note pd = pool_validD [OF v]
  note w = worker_validD [OF pd(12) [OF i]]
  have li: "i < length (workers P)" using i pd(8) by simp
  have "drop (pend_i ?w) (take (pend_n ?w) (pending ?w)) = pending ?w ! pend_i ?w # drop (pend_i ?w + 1) (take (pend_n ?w) (pending ?w))"
    using p w(2,3) by (subst Cons_nth_drop_Suc [symmetric]) simp_all
  then have "worker_tasks ?w = worker_tasks (?f ?w) + {#pending ?w ! pend_i ?w#}" by (simp add: worker_tasks_def)
  then have "queued (upd_worker i ?f P) + {#pending ?w ! pend_i ?w#} + worker_tasks (?f ?w) = queued P + worker_tasks (?f ?w)"
    using queued_worker [OF li, of ?f] by (simp add: ac_simps)
  then have "queued P = queued (upd_worker i ?f P) + {#pending ?w ! pend_i ?w#}" by (simp only: add_right_cancel)
  moreover have "pool_valid (upd_worker i ?f P)" using w by (intro pool_valid_worker [OF v i]) (simp add: worker_valid_def)
  moreover have "pool_same P (upd_worker i ?f P)" by (rule pool_same_worker) (simp add: worker_same_def)
  ultimately show ?thesis by (simp add: got_spec_def)
qed

lemma nothing_reachable:
  assumes v: "pool_valid P" and i: "i < n_total P" and "\<not> lifo_full (worker P i)" "deque_tasks (deque (worker P i)) = []"
    and dry: "\<not> pend_i (worker P i) < pend_n (worker P i)"
    and sh: "\<forall>g'. 0 \<le> g' \<longrightarrow> g' < n_shards P \<longrightarrow> ring_tasks (shards P ! shard_order P sc g') = []"
    and st: "\<forall>k'. 1 \<le> k' \<longrightarrow> k' \<le> n_total P \<longrightarrow> victim P s2 k' \<noteq> i \<longrightarrow> deque_tasks (deque (worker P (victim P s2 k'))) = []"
    and cur: "unat sc < n_shards P" "unat s2 < n_total P"
  shows "\<not> reachable_tasks i P"
proof -
  have "ring_tasks (shards P ! s) = []" if s: "s < n_shards P" for s
    using shard_order_covers [OF v cur(1) s] sh by auto
  moreover have "deque_tasks (deque (worker P j)) = []" if j: "j < n_total P" for j
  proof (cases "j = i")
    case False
    obtain k where "1 \<le> k" "k \<le> n_total P" "victim P s2 k = j" using victim_covers [OF v cur(2) j] by blast
    then show ?thesis using st False by blast
  qed (simp add: assms(4))
  moreover have "worker_tasks (worker P i) = {#}" using assms(3,4) dry by (simp add: worker_tasks_def)
  ultimately show ?thesis by (auto simp: reachable_tasks_def)
qed

lemma scan_shards_empty:
  assumes v: "pool_valid P" and e: "\<And>s. s < n_shards P \<Longrightarrow> ring_tasks (shards P ! s) = []"
  shows "scan_shards i sc g P = Some (None, P)"
proof (induction "n_shards P - g" arbitrary: g)
  case (Suc n)
  have "pool_ring_pop_batch (shards P ! shard_order P sc g) 2 = Some ([], shards P ! shard_order P sc g)"
    using pop_empty_same pool_validD(11) [OF v] e shard_order_less [OF v] by blast
  then show ?case using Suc(1) [of "g + 1"] Suc(2) shard_order_less [OF v, of sc g] pool_validD(7) [OF v]
    by (subst scan_shards.simps) (simp add: shard_order_def Let_def upd_shard_id)
qed (subst scan_shards.simps, simp)

lemma scan_steal_empty:
  assumes v: "pool_valid P" and e: "\<And>j. j < n_total P \<Longrightarrow> deque_tasks (deque (worker P j)) = []"
  shows "scan_steal i s2 k P = (None, P)"
proof (induction "n_total P + 1 - k" arbitrary: k)
  case (Suc n)
  let ?v = "victim P s2 k"
  have "pool_deque_steal (deque (worker P ?v)) = (None, deque (worker P ?v))"
    using pool_deque.steal_none worker_validD(1) [OF pool_validD(12) [OF v]] e victim_less [OF v] by blast
  moreover have "upd_worker ?v (\<lambda>w. w\<lparr>deque := deque (worker P ?v)\<rparr>) P = P" by (intro upd_worker_id) simp
  ultimately show ?case using Suc(1) [of "k + 1"] Suc(2)
    by (subst scan_steal.simps) (simp add: victim_def Let_def)
qed (subst scan_steal.simps, simp)

lemma pool_try_get_ok:
  assumes v: "pool_valid P" and i: "i < n_total P"
  shows "\<exists>r P'. pool_try_get i P = Some (r, P') \<and> got_spec P r P' \<and> (r = None \<longleftrightarrow> \<not> reachable_tasks i P)"
proof -
  let ?w = "worker P i"
  note pd = pool_validD [OF v]
  note w = worker_validD [OF pd(12) [OF i]]
  have hit: ?thesis if "pool_try_get i P = Some (Some t, P')" "got_spec P (Some t) P'" "reachable_tasks i P" for t P'
    using that by auto
  show ?thesis
  proof (cases "lifo_full ?w \<and> lifo_streak ?w < 8")
    case True
    obtain r P' where l: "take_lifo i (lifo_streak ?w + 1) P = (r, P')" by force
    then have "pool_try_get i P = Some (r, P')" using True by (simp add: pool_try_get_def Let_def)
    then show ?thesis using taken_lifo [OF v i _ l] True hit by (auto simp: reachable_tasks_def worker_tasks_def)
  next
    case False
    then have nf: "(lifo_full ?w \<and> lifo_streak ?w < 8) = False" by simp
    obtain x d where tk: "pool_deque_take (deque ?w) = (x, d)" "x = None \<longrightarrow> deque_tasks (deque ?w) = [] \<and> d = deque ?w"
      "mset (deque_tasks (deque ?w)) = mset (deque_tasks d) + mset_set (set_option x)"
      using pool_deque.take_mset [OF w(1)] by blast
    show ?thesis
    proof (cases x)
      case (Some t)
      then have "pool_try_get i P = Some (Some t, upd_worker i (\<lambda>w. w\<lparr>deque := d, lifo_streak := 0\<rparr>) P)"
        using tk(1) by (simp only: pool_try_get_def Let_def nf) simp
      moreover have "reachable_tasks i P" using tk(3) Some i by (auto simp: reachable_tasks_def worker_tasks_def)
      ultimately show ?thesis using hit deque_taken [OF v i] tk(1) Some by blast
    next
      case None
      then have dn: "deque_tasks (deque ?w) = []" "d = deque ?w" using tk(2) by simp_all
      have p1: "upd_worker i (\<lambda>w. w\<lparr>deque := d\<rparr>) P = P" using dn(2) by (intro upd_worker_id) simp
      show ?thesis
      proof (cases "pend_i ?w < pend_n ?w")
        case True
        then have "pool_try_get i P = Some (Some (pending ?w ! pend_i ?w), upd_worker i (\<lambda>w. w\<lparr>lifo_streak := 0, pend_i := pend_i w + 1\<rparr>) P)"
          using True tk(1) None p1 by (simp only: pool_try_get_def Let_def nf) simp
        moreover have "reachable_tasks i P" using True w(2,3) by (auto simp: reachable_tasks_def worker_tasks_def)
        ultimately show ?thesis using hit batch_next [OF v i True] by blast
      next
        case dry: False
        then have "pend_n ?w \<le> pend_i ?w" by simp
        from scan_shards_ok [OF v i this, of "shard_cursor ?w" 0] obtain r P2 where
          sc: "scan_shards i (shard_cursor ?w) 0 P = Some (r, P2)" "got_spec P r P2"
          "r = None \<longrightarrow> (\<forall>g'. 0 \<le> g' \<longrightarrow> g' < n_shards P \<longrightarrow> ring_tasks (shards P ! shard_order P (shard_cursor ?w) g') = [])" by blast
        show ?thesis
        proof (cases r)
          case (Some t)
          then have "pool_try_get i P = Some (Some t, P2)" using tk(1) None p1 dry sc(1) by (simp only: pool_try_get_def Let_def nf) simp
          moreover have "reachable_tasks i P"
          proof (rule ccontr)
            assume "\<not> reachable_tasks i P"
            then have "scan_shards i (shard_cursor ?w) 0 P = Some (None, P)"
              by (intro scan_shards_empty [OF v]) (auto simp: reachable_tasks_def)
            then show False using sc(1) Some by simp
          qed
          ultimately show ?thesis using hit sc(2) Some by blast
        next
          case rn: None
          then have p2: "P2 = P" using sc(2) by (simp add: got_spec_def)
          obtain x' P3 where ss: "scan_steal i (steal_cursor ?w) 1 P = (x', P3)" "got_spec P x' P3"
            "x' = None \<longrightarrow> (\<forall>k'. 1 \<le> k' \<longrightarrow> k' \<le> n_total P \<longrightarrow> victim P (steal_cursor ?w) k' \<noteq> i \<longrightarrow>
               deque_tasks (deque (worker P (victim P (steal_cursor ?w) k'))) = [])"
            using scan_steal_ok [OF v i, of "steal_cursor ?w" 1] by blast
          have tg: "pool_try_get i P = (case x' of Some t \<Rightarrow> Some (Some t, P3)
              | None \<Rightarrow> if lifo_full ?w then Some (take_lifo i 0 P3) else Some (None, P3))"
            using tk(1) None p1 dry sc(1) rn p2 ss(1) by (simp only: pool_try_get_def Let_def nf) (simp split: option.split)
          show ?thesis
          proof (cases x')
            case (Some t)
            have "reachable_tasks i P"
            proof (rule ccontr)
              assume "\<not> reachable_tasks i P"
              then have "scan_steal i (steal_cursor ?w) 1 P = (None, P)"
                by (intro scan_steal_empty [OF v]) (auto simp: reachable_tasks_def)
              then show False using ss(1) Some by simp
            qed
            then show ?thesis using hit tg Some ss(2) by simp
          next
            case xn: None
            then have p3: "P3 = P" using ss(2) by (simp add: got_spec_def)
            show ?thesis
            proof (cases "lifo_full ?w")
              case True
              obtain r' P' where l: "take_lifo i 0 P = (r', P')" by force
              have "reachable_tasks i P" using True by (auto simp: reachable_tasks_def worker_tasks_def)
              moreover have g: "got_spec P r' P'" "r' = Some (lifo_task ?w)" by (rule taken_lifo [OF v i True l])+
              moreover have "pool_try_get i P = Some (r', P')" unfolding tg xn p3 using True by (simp only: option.case l if_True)
              ultimately show ?thesis using hit [of "lifo_task ?w" P'] by (simp only: g(2))
            next
              case lf: False
              have "\<not> reachable_tasks i P"
                by (rule nothing_reachable [OF v i lf dn(1) dry mp [OF sc(3) rn] mp [OF ss(3) xn] w(4,5)])
              then show ?thesis using tg xn p3 lf got_none [OF v] by auto
            qed
          qed
        qed
      qed
    qed
  qed
qed

section \<open>Operations that move no task\<close>

definition worker_calm :: "PoolWorker \<Rightarrow> PoolWorker \<Rightarrow> bool" where
  "worker_calm w w' \<longleftrightarrow> deque w' = deque w \<and> pending w' = pending w \<and> pend_i w' = pend_i w \<and> pend_n w' = pend_n w \<and>
     lifo_task w' = lifo_task w \<and> lifo_full w' = lifo_full w \<and> shard_cursor w' = shard_cursor w \<and> steal_cursor w' = steal_cursor w"

definition pool_calm :: "ThreadPool \<Rightarrow> ThreadPool \<Rightarrow> bool" where
  "pool_calm P P' \<longleftrightarrow> shards P' = shards P \<and> ctrs P' = ctrs P \<and> n_ctrs P' = n_ctrs P \<and> n_shards P' = n_shards P \<and> n_total P' = n_total P \<and>
     n_core P' = n_core P \<and> n_workers P' = n_workers P \<and> list_all2 worker_calm (workers P) (workers P')"

lemma workers_calm_refl [simp]: "list_all2 worker_calm ws ws"
  by (rule list_all2_refl) (simp add: worker_calm_def)

lemma pool_calm_refl [simp]: "pool_calm P P"
  by (simp add: pool_calm_def)

lemma pool_calm_trans: "pool_calm P Q \<Longrightarrow> pool_calm Q R \<Longrightarrow> pool_calm P R"
proof -
  assume a: "pool_calm P Q" "pool_calm Q R"
  have "list_all2 worker_calm (workers P) (workers R)"
    by (rule list_all2_trans [of worker_calm worker_calm worker_calm "workers P" "workers Q"]) (use a in \<open>auto simp: worker_calm_def pool_calm_def\<close>)
  then show ?thesis using a by (simp add: pool_calm_def)
qed

lemma pool_calm_worker:
  assumes "\<And>w. worker_calm w (f w)"
  shows "pool_calm P (upd_worker i f P)"
proof (cases "i < length (workers P)")
  case True
  then have "list_all2 worker_calm ((workers P)[i := worker P i]) ((workers P)[i := f (worker P i)])"
    using assms by (intro list_all2_update_cong) simp_all
  then show ?thesis by (simp add: pool_calm_def upd_worker_def)
qed (simp add: pool_calm_def upd_worker_def list_update_beyond)

lemma pool_calm_control:
  "pool_calm P (P\<lparr>n_parked_core := a\<rparr>)" "pool_calm P (P\<lparr>n_girando := a\<rparr>)" "pool_calm P (P\<lparr>wake_rr := v\<rparr>)" "pool_calm P (P\<lparr>submit_rr := v\<rparr>)"
  "pool_calm P (P\<lparr>mon_dormindo := a\<rparr>)" "pool_calm P (P\<lparr>mon_wait := a\<rparr>)" "pool_calm P (P\<lparr>n_vigia := a\<rparr>)" "pool_calm P (P\<lparr>giro_us := a\<rparr>)"
  "pool_calm P (P\<lparr>perfil := a\<rparr>)" "pool_calm P (P\<lparr>stop := a\<rparr>)" "pool_calm P (P\<lparr>wait_inited := b\<rparr>)"
  "pool_calm P (P\<lparr>ocioso_desde_ms := a, ocioso_iniciadas := c\<rparr>)" "pool_calm P (P\<lparr>ocioso_desde_ms := a, wait_inited := b\<rparr>)"
  by (simp_all add: pool_calm_def)

lemma worker_tasks_calm: "list_all2 worker_calm ws vs \<Longrightarrow> map worker_tasks vs = map worker_tasks ws"
  by (induction rule: list_all2_induct) (simp_all add: worker_calm_def worker_tasks_def)

lemma worker_valid_calm:
  assumes c: "list_all2 worker_calm ws vs" and v: "\<forall>w \<in> set ws. worker_valid a b w"
  shows "\<forall>w \<in> set vs. worker_valid a b w"
proof
  fix w assume "w \<in> set vs"
  then obtain i where i: "i < length vs" "w = vs ! i" by (auto simp: in_set_conv_nth)
  then have "worker_calm (ws ! i) w" "ws ! i \<in> set ws" using c by (auto simp: list_all2_conv_all_nth)
  then show "worker_valid a b w" using v unfolding worker_valid_def worker_calm_def by metis
qed

lemma pool_calm_queued: "pool_calm P P' \<Longrightarrow> queued P' = queued P"
  using worker_tasks_calm by (auto simp: pool_calm_def queued_def)

lemma pool_calm_valid: "pool_calm P P' \<Longrightarrow> pool_valid P \<Longrightarrow> pool_valid P'"
proof -
  assume c: "pool_calm P P'" and v: "pool_valid P"
  have w: "list_all2 worker_calm (workers P) (workers P')" using c by (simp add: pool_calm_def)
  have "length (workers P') = length (workers P)" using list_all2_lengthD [OF w] by simp
  moreover have "\<forall>w \<in> set (workers P'). worker_valid (n_shards P) (n_total P) w"
    using v by (intro worker_valid_calm [OF w]) (simp add: pool_valid_def)
  ultimately show "pool_valid P'" using c v by (simp add: pool_calm_def pool_valid_def)
qed

lemma pool_calm_dims: "pool_calm P P' \<Longrightarrow> ctrs P' = ctrs P" "pool_calm P P' \<Longrightarrow> n_total P' = n_total P" "pool_calm P P' \<Longrightarrow> n_shards P' = n_shards P"
  by (simp_all add: pool_calm_def)

lemma calm_wait [simp]: "pool_calm P (thread_wait_prepare i P)" "pool_calm P (thread_wait_wake i P)" "pool_calm P (set_parked i v P)"
  by (simp_all add: thread_wait_prepare_def thread_wait_wake_def set_parked_def pool_calm_worker worker_calm_def)

lemma calm_sleep: "thread_wait_sleep_for b i P = (r, P') \<Longrightarrow> pool_calm P P'"
  by (auto simp: thread_wait_sleep_for_def pool_calm_worker worker_calm_def split: if_splits)

lemma calm_park [simp]: "pool_calm P (park_core i P)" "pool_calm P (unpark_core i P)"
  using pool_calm_trans [OF calm_wait(3) pool_calm_control(1)] by (simp_all add: park_core_def unpark_core_def)

lemma calm_run_enter [simp]: "pool_calm P (pool_run_enter i P)"
  by (simp add: pool_run_enter_def pool_calm_worker worker_calm_def)

lemma calm_unpark [simp]: "pool_calm P (snd (unpark i P))"
proof -
  have "pool_calm P (upd_worker i (\<lambda>w. w\<lparr>parked := v\<rparr>) P)" for v by (simp add: pool_calm_worker worker_calm_def)
  then show ?thesis using pool_calm_trans [OF _ calm_wait(2)] by (auto simp: unpark_def Let_def split: prod.splits)
qed

lemma calm_wake_scan: "pool_calm P (wake_scan start j P)"
proof (induction start j P rule: wake_scan.induct)
  case (1 start j P)
  let ?i = "unat ((start + of_nat j) mod of_nat (n_core P))"
  obtain ok p' v where c: "atomic_cas_inline (parked (worker P ?i)) 1 0 = (ok, p', v)" by (rule prod_cases3)
  let ?P = "upd_worker ?i (\<lambda>w. w\<lparr>parked := p'\<rparr>) P"
  have a: "pool_calm P ?P" by (simp add: pool_calm_worker worker_calm_def)
  have w: "pool_calm P (thread_wait_wake ?i ?P)" by (rule pool_calm_trans [OF a calm_wait(2)])
  have i1: "pool_calm P (wake_scan start (j + 1) P)" if "j < n_core P" "parked (worker P ?i) = 0" using 1(1) that by simp
  have i2: "pool_calm P (wake_scan start (j + 1) ?P)" if "j < n_core P" "parked (worker P ?i) \<noteq> 0" "\<not> ok"
    using pool_calm_trans [OF a] 1(2) [OF that(1) refl that(2) c [symmetric] refl refl refl that(3)] .
  show ?case using w i1 i2 unfolding wake_scan.simps [of start j P] Let_def c prod.case
    by (cases "j < n_core P"; cases "parked (worker P ?i) = 0"; cases ok) simp_all
qed

lemma calm_wake_one [simp]: "pool_calm P (pool_wake_one_core P)"
  using pool_calm_trans [OF pool_calm_control(3) calm_wake_scan] by (auto simp: pool_wake_one_core_def Let_def split: prod.splits)

lemma calm_wake_submit [simp]: "pool_calm P (pool_wake_submit f P)"
  by (simp add: pool_wake_submit_def)

lemma calm_gira_fim [simp]: "pool_calm P (pool_gira_fim b P)"
  using pool_calm_trans [OF pool_calm_control(2) calm_wake_one] pool_calm_control(2) by (auto simp: pool_gira_fim_def Let_def split: prod.splits)

lemma calm_wake_monitor: "pool_calm P (wake_monitor P)"
  by (auto simp: wake_monitor_def pool_calm_def Let_def split: prod.splits)

lemma submit_wake_monitor:
  "submit_wake s P = (let P1 = pool_wake_submit (pool_ring_count (shards P ! s)) P in if mon_dormindo P1 \<noteq> 0 then wake_monitor P1 else P1)"
  by (simp add: submit_wake_def wake_monitor_def Let_def)

lemma calm_submit_wake [simp]: "pool_calm P (submit_wake s P)"
  unfolding submit_wake_monitor Let_def
  using pool_calm_trans [OF calm_wake_submit calm_wake_monitor] calm_wake_submit by (simp only: split: if_split) blast

lemma calm_fold: "(\<And>x P. pool_calm P (f x P)) \<Longrightarrow> pool_calm P (fold f xs P)"
  by (induction xs arbitrary: P) (auto intro: pool_calm_trans)

lemma calm_vigias: "pool_calm P (pool_vigias_relative P v)"
  unfolding pool_vigias_relative_def Let_def by (rule pool_calm_trans [OF pool_calm_control(7) calm_fold]) simp

lemma calm_giro: "pool_calm P (pool_giro_max_us_relative P us)"
  by (simp add: pool_giro_max_us_relative_def pool_calm_control)

lemma calm_perfil: "pool_calm P (pool_perfil_relative P p)"
  unfolding pool_perfil_relative_def
  by (simp add: pool_calm_trans [OF pool_calm_trans [OF pool_calm_control(9) calm_giro] calm_vigias]
      pool_calm_trans [OF pool_calm_trans [OF pool_calm_control(9) calm_giro] calm_wake_monitor])

lemma calm_monitor_before: "monitor_before now P = Some (us, P') \<Longrightarrow> pool_calm P P'"
  by (auto simp: monitor_before_def pool_calm_def Let_def split: if_splits option.splits prod.splits)

lemma calm_note_starts: "pool_calm P (note_starts P)"
proof -
  have "list_all2 worker_calm ws (map (\<lambda>w. w\<lparr>mon_last := start_count w\<rparr>) ws)" for ws
    by (induction ws) (simp_all add: worker_calm_def)
  then have "list_all2 worker_calm (take (n_workers P) (workers P) @ drop (n_workers P) (workers P))
      (map (\<lambda>w. w\<lparr>mon_last := start_count w\<rparr>) (take (n_workers P) (workers P)) @ drop (n_workers P) (workers P))"
    by (intro list_all2_appendI) simp_all
  then show ?thesis by (simp add: note_starts_def pool_calm_def)
qed

lemma calm_wake_elastic: "pool_calm P (wake_elastic e k P)"
proof (induction e k P rule: wake_elastic.induct)
  case (1 e k P)
  obtain ok Q where u: "unpark e P = (ok, Q)" by force
  then have a: "pool_calm P Q" using calm_unpark [of P e] by simp
  have i1: "pool_calm P (wake_elastic (e + 1) k P)" if "e < n_total P \<and> 0 < k" "parked (worker P e) = 0" using 1(1) that by simp
  have i2: "pool_calm P (wake_elastic (e + 1) (if ok then k - 1 else k) Q)" if "e < n_total P \<and> 0 < k" "parked (worker P e) \<noteq> 0"
    using pool_calm_trans [OF a] 1(2) [OF that u [symmetric]] .
  show ?case using i1 i2 unfolding wake_elastic.simps [of e k P] u prod.case by (simp del: One_nat_def add_Suc_right Suc_eq_plus1)
qed

lemma calm_monitor_after: "monitor_after P = Some P' \<Longrightarrow> pool_calm P P'"
proof -
  assume a: "monitor_after P = Some P'"
  have t: "pool_calm Q R" if "monitor_timer Q = Some R" for Q R
    using that by (auto simp: monitor_timer_def pool_calm_def Let_def split: if_splits option.splits)
  let ?P = "P\<lparr>mon_dormindo := 0\<rparr>"
  have p: "pool_calm P ?P" by (rule pool_calm_control)
  show ?thesis
  proof (cases "stop ?P \<noteq> 0")
    case True
    then show ?thesis using a p by (simp add: monitor_after_def)
  next
    case False
    then obtain Q where q: "monitor_timer ?P = Some Q" using a by (auto simp: monitor_after_def Let_def split: option.splits)
    have n: "pool_calm P (note_starts Q)" by (rule pool_calm_trans [OF pool_calm_trans [OF p t [OF q]] calm_note_starts])
    have "P' = note_starts Q \<or> P' = wake_elastic (n_workers (note_starts Q)) (stuck_count Q) (note_starts Q)"
      using a False q by (simp add: monitor_after_def Let_def split: if_splits)
    then show ?thesis using n pool_calm_trans [OF n calm_wake_elastic] by blast
  qed
qed

lemma calm_control_step: "control_step P P' \<Longrightarrow> pool_calm P P'"
  by (erule control_step.cases)
    (simp_all add: calm_vigias calm_giro calm_perfil calm_monitor_before calm_monitor_after pool_calm_control)

end
