(* ===== verification/Deque_Steps.thy ===== *)
theory Deque_Steps
  imports Work_Deque
begin

text \<open>
  The deque under concurrency: every load, store and compare-and-swap of the owner's push and
  take and of the thieves' steal is a step of its own, and the steps of all threads interleave in
  every order.  The abstract deque is a list, plus the task the owner has won but not returned.
  Every step is a step of the abstract deque; so each pushed task is returned exactly once.
\<close>

section \<open>The threads\<close>

text \<open>Where the owner is: the next access is the one the constructor names.\<close>

datatype owner_pc =
    O_idle
  | Push_top PoolTask int
  | Push_fn PoolTask int
  | Push_arg PoolTask int
  | Push_pub PoolTask int
  | Take_top int
  | Take_dec int
  | Take_read int
  | Take_fn int int
  | Take_arg int int addr
  | Take_cas int PoolTask
  | Take_restore int "PoolTask option"

datatype thief_pc =
    T_idle
  | T_bottom int
  | T_fn int
  | T_arg int addr
  | T_cas int PoolTask

datatype deque_event =
    Silent
  | Put PoolTask
  | Put_full
  | Taken PoolTask
  | Take_empty
  | Stolen nat PoolTask
  | Steal_failed nat

record deque_state =
  dq :: PoolDeque
  ow :: owner_pc
  th :: "nat \<Rightarrow> thief_pc"

abbreviation with_owner :: "deque_state \<Rightarrow> PoolDeque \<Rightarrow> owner_pc \<Rightarrow> deque_state" where
  "with_owner s d pc \<equiv> s\<lparr>dq := d, ow := pc\<rparr>"

abbreviation with_thief :: "deque_state \<Rightarrow> nat \<Rightarrow> PoolDeque \<Rightarrow> thief_pc \<Rightarrow> deque_state" where
  "with_thief s i d pc \<equiv> s\<lparr>dq := d, th := (th s)(i := pc)\<rparr>"

text \<open>The two words of a slot are stored and loaded one at a time.\<close>

definition set_slot_fn :: "PoolDeque \<Rightarrow> int \<Rightarrow> addr \<Rightarrow> PoolDeque" where
  "set_slot_fn d i v = pool_slot_set d i ((pool_slot_get d i)\<lparr>fn := v\<rparr>)"

definition set_slot_arg :: "PoolDeque \<Rightarrow> int \<Rightarrow> addr \<Rightarrow> PoolDeque" where
  "set_slot_arg d i v = pool_slot_set d i ((pool_slot_get d i)\<lparr>arg := v\<rparr>)"

text \<open>The step of the owner inside an operation.\<close>

fun owner_step :: "owner_pc \<Rightarrow> PoolDeque \<Rightarrow> PoolDeque \<times> owner_pc \<times> deque_event" where
  "owner_step O_idle d = (d, O_idle, Silent)"
| "owner_step (Push_top t b) d = (if b - dq_top d \<ge> dq_cap d then (d, O_idle, Put_full) else (d, Push_fn t b, Silent))"
| "owner_step (Push_fn t b) d = (set_slot_fn d b (fn t), Push_arg t b, Silent)"
| "owner_step (Push_arg t b) d = (set_slot_arg d b (arg t), Push_pub t b, Silent)"
| "owner_step (Push_pub t b) d = (d\<lparr>dq_bottom := b + 1\<rparr>, O_idle, Put t)"
| "owner_step (Take_top b) d = (if b - dq_top d \<le> 0 then (d, O_idle, Take_empty) else (d, Take_dec (b - 1), Silent))"
| "owner_step (Take_dec b) d = (d\<lparr>dq_bottom := b\<rparr>, Take_read b, Silent)"
| "owner_step (Take_read b) d =
     (if dq_top d \<le> b then (d, Take_fn b (dq_top d), Silent) else (d, Take_restore b None, Silent))"
| "owner_step (Take_fn b t) d = (d, Take_arg b t (fn (pool_slot_get d b)), Silent)"
| "owner_step (Take_arg b t f) d =
     (let x = \<lparr>fn = f, arg = arg (pool_slot_get d b)\<rparr>
      in if t = b then (d, Take_cas b x, Silent) else (d, O_idle, Taken x))"
| "owner_step (Take_cas b x) d =
     (let (ok, top', _) = atomic_cas_inline (dq_top d) b (b + 1)
      in (d\<lparr>dq_top := top'\<rparr>, Take_restore b (if ok then Some x else None), Silent))"
| "owner_step (Take_restore b r) d =
     (d\<lparr>dq_bottom := b + 1\<rparr>, O_idle, case r of None \<Rightarrow> Take_empty | Some x \<Rightarrow> Taken x)"

fun thief_step :: "nat \<Rightarrow> thief_pc \<Rightarrow> PoolDeque \<Rightarrow> PoolDeque \<times> thief_pc \<times> deque_event" where
  "thief_step i T_idle d = (d, T_bottom (dq_top d), Silent)"
| "thief_step i (T_bottom t) d = (if t < dq_bottom d then (d, T_fn t, Silent) else (d, T_idle, Steal_failed i))"
| "thief_step i (T_fn t) d = (d, T_arg t (fn (pool_slot_get d t)), Silent)"
| "thief_step i (T_arg t f) d = (d, T_cas t \<lparr>fn = f, arg = arg (pool_slot_get d t)\<rparr>, Silent)"
| "thief_step i (T_cas t x) d =
     (let (ok, top', _) = atomic_cas_inline (dq_top d) t (t + 1)
      in (d\<lparr>dq_top := top'\<rparr>, T_idle, if ok then Stolen i x else Steal_failed i))"

text \<open>An operation of the owner starts by reading \<open>bottom\<close>.\<close>

inductive deque_step :: "deque_state \<Rightarrow> deque_event \<Rightarrow> deque_state \<Rightarrow> bool" where
  push_call: "ow s = O_idle \<Longrightarrow> deque_step s Silent (s\<lparr>ow := Push_top t (dq_bottom (dq s))\<rparr>)"
| take_call: "ow s = O_idle \<Longrightarrow> deque_step s Silent (s\<lparr>ow := Take_top (dq_bottom (dq s))\<rparr>)"
| owner: "ow s \<noteq> O_idle \<Longrightarrow> owner_step (ow s) (dq s) = (d, pc, e) \<Longrightarrow> deque_step s e (with_owner s d pc)"
| thief: "thief_step i (th s i) (dq s) = (d, pc, e) \<Longrightarrow> deque_step s e (with_thief s i d pc)"

inductive deque_run :: "deque_state \<Rightarrow> deque_event list \<Rightarrow> deque_state \<Rightarrow> bool" for s0 where
  start: "deque_run s0 [] s0"
| more: "deque_run s0 es s \<Longrightarrow> deque_step s e s' \<Longrightarrow> deque_run s0 (es @ [e]) s'"

definition deque_start :: "PoolDeque \<Rightarrow> deque_state" where
  "deque_start d = \<lparr>dq = d, ow = O_idle, th = (\<lambda>_. T_idle)\<rparr>"

section \<open>The abstract deque\<close>

text \<open>Where the tasks still to be returned end: while a take is under way \<open>bottom\<close> is one too low.\<close>

fun task_end :: "owner_pc \<Rightarrow> PoolDeque \<Rightarrow> int" where
  "task_end (Take_read b) d = b + 1"
| "task_end (Take_fn b t) d = (if t < b then b else b + 1)"
| "task_end (Take_arg b t f) d = (if t < b then b else b + 1)"
| "task_end (Take_cas b x) d = b + 1"
| "task_end (Take_restore b r) d = b + 1"
| "task_end pc d = dq_bottom d"

fun won :: "owner_pc \<Rightarrow> PoolDeque \<Rightarrow> PoolTask option" where
  "won (Take_fn b t) d = (if t < b then Some (pool_slot_get d b) else None)"
| "won (Take_arg b t f) d = (if t < b then Some (pool_slot_get d b) else None)"
| "won (Take_restore b r) d = r"
| "won pc d = None"

definition waiting :: "deque_state \<Rightarrow> PoolTask list" where
  "waiting s = slots (dq s) (dq_top (dq s)) (task_end (ow s) (dq s))"

abbreviation owner_won :: "deque_state \<Rightarrow> PoolTask option" where
  "owner_won s \<equiv> won (ow s) (dq s)"

text \<open>The steps of the abstract deque: the tasks waiting, and the one the owner has won.\<close>

inductive abs_step :: "PoolTask list \<times> PoolTask option \<Rightarrow> deque_event \<Rightarrow> PoolTask list \<times> PoolTask option \<Rightarrow> bool" where
  stay: "abs_step (xs, w) Silent (xs, w)"
| put: "abs_step (xs, None) (Put t) (xs @ [t], None)"
| put_full: "abs_step (xs, None) Put_full (xs, None)"
| claim: "abs_step (xs @ [x], None) Silent (xs, Some x)"
| taken: "abs_step (xs, Some x) (Taken x) (xs, None)"
| empty: "abs_step ([], None) Take_empty ([], None)"
| stolen: "abs_step (x # xs, w) (Stolen i x) (xs, w)"
| failed: "abs_step (xs, w) (Steal_failed i) (xs, w)"

section \<open>The invariant\<close>

fun owner_ok :: "owner_pc \<Rightarrow> PoolDeque \<Rightarrow> bool" where
  "owner_ok O_idle d = True"
| "owner_ok (Push_top t b) d = (b = dq_bottom d)"
| "owner_ok (Push_fn t b) d = (b = dq_bottom d \<and> b - dq_top d < dq_cap d)"
| "owner_ok (Push_arg t b) d = (b = dq_bottom d \<and> b - dq_top d < dq_cap d \<and> fn (pool_slot_get d b) = fn t)"
| "owner_ok (Push_pub t b) d = (b = dq_bottom d \<and> b - dq_top d < dq_cap d \<and> pool_slot_get d b = t)"
| "owner_ok (Take_top b) d = (b = dq_bottom d)"
| "owner_ok (Take_dec b) d = (b + 1 = dq_bottom d)"
| "owner_ok (Take_read b) d = (b = dq_bottom d)"
| "owner_ok (Take_fn b t) d = (b = dq_bottom d \<and> t \<le> b \<and> (t = b \<longrightarrow> b \<le> dq_top d))"
| "owner_ok (Take_arg b t f) d = (b = dq_bottom d \<and> t \<le> b \<and> (t = b \<longrightarrow> b \<le> dq_top d) \<and> f = fn (pool_slot_get d b))"
| "owner_ok (Take_cas b x) d = (b = dq_bottom d \<and> b \<le> dq_top d \<and> x = pool_slot_get d b)"
| "owner_ok (Take_restore b r) d = (b = dq_bottom d \<and> dq_top d = b + 1)"

text \<open>A thief whose position is still \<open>top\<close> holds what it will steal.\<close>

fun thief_ok :: "thief_pc \<Rightarrow> PoolDeque \<Rightarrow> int \<Rightarrow> bool" where
  "thief_ok T_idle d l = True"
| "thief_ok (T_bottom t) d l = (t \<le> dq_top d)"
| "thief_ok (T_fn t) d l = (t \<le> dq_top d \<and> (t = dq_top d \<longrightarrow> t < l))"
| "thief_ok (T_arg t f) d l = (t \<le> dq_top d \<and> (t = dq_top d \<longrightarrow> t < l \<and> f = fn (pool_slot_get d t)))"
| "thief_ok (T_cas t x) d l = (t \<le> dq_top d \<and> (t = dq_top d \<longrightarrow> t < l \<and> x = pool_slot_get d t))"

definition deque_ok :: "deque_state \<Rightarrow> bool" where
  "deque_ok s \<longleftrightarrow> (let d = dq s; l = task_end (ow s) d in
     dq_inv d \<and> dq_top d \<le> l \<and> l - dq_top d \<le> dq_cap d \<and> owner_ok (ow s) d \<and> (\<forall>i. thief_ok (th s i) d l))"

lemma thief_ok_frame:
  assumes "thief_ok pc d l" "dq_top d \<le> dq_top d'"
    and "dq_top d' = dq_top d \<Longrightarrow> dq_top d < l \<Longrightarrow> dq_top d < l' \<and> pool_slot_get d' (dq_top d) = pool_slot_get d (dq_top d)"
  shows "thief_ok pc d' l'"
  using assms by (cases pc) auto

lemma deque_okD:
  assumes "deque_ok s"
  shows "dq_inv (dq s)" "dq_top (dq s) \<le> task_end (ow s) (dq s)" "task_end (ow s) (dq s) - dq_top (dq s) \<le> dq_cap (dq s)"
    "owner_ok (ow s) (dq s)" "thief_ok (th s i) (dq s) (task_end (ow s) (dq s))"
  using assms by (simp_all add: deque_ok_def Let_def)

text \<open>The frame for a step of the owner that leaves \<open>top\<close> and the waiting slots alone.\<close>

lemma owner_frame:
  assumes ok: "deque_ok s" and inv: "dq_inv d" and cap: "dq_cap d = dq_cap (dq s)" and top: "dq_top d = dq_top (dq s)"
    and l: "dq_top d \<le> task_end pc d" "task_end pc d - dq_top d \<le> dq_cap d"
    and low: "dq_top d < task_end (ow s) (dq s) \<Longrightarrow> dq_top d < task_end pc d"
    and slots: "\<And>i. dq_top d \<le> i \<Longrightarrow> i < task_end (ow s) (dq s) \<Longrightarrow> pool_slot_get d i = pool_slot_get (dq s) i"
    and pc: "owner_ok pc d"
  shows "deque_ok (with_owner s d pc)"
proof -
  have "thief_ok (th s i) d (task_end pc d)" for i
    by (rule thief_ok_frame [OF deque_okD(5) [OF ok, of i]]) (use top low slots in auto)
  then show ?thesis using assms by (simp add: deque_ok_def Let_def)
qed

lemma set_slot_fields [simp]:
  "dq_top (set_slot_fn d i v) = dq_top d" "dq_bottom (set_slot_fn d i v) = dq_bottom d" "dq_cap (set_slot_fn d i v) = dq_cap d"
  "dq_inv (set_slot_fn d i v) = dq_inv d"
  "dq_top (set_slot_arg d i v) = dq_top d" "dq_bottom (set_slot_arg d i v) = dq_bottom d" "dq_cap (set_slot_arg d i v) = dq_cap d"
  "dq_inv (set_slot_arg d i v) = dq_inv d"
  by (simp_all add: set_slot_fn_def set_slot_arg_def)

lemma set_slot_get:
  assumes "dq_inv d"
  shows "fn (pool_slot_get (set_slot_fn d i v) i) = v"
    "fn (pool_slot_get (set_slot_arg d i v) i) = fn (pool_slot_get d i)" "arg (pool_slot_get (set_slot_arg d i v) i) = v"
    "\<bar>j - i\<bar> < dq_cap d \<Longrightarrow> j \<noteq> i \<Longrightarrow> pool_slot_get (set_slot_fn d i v) j = pool_slot_get d j"
    "\<bar>j - i\<bar> < dq_cap d \<Longrightarrow> j \<noteq> i \<Longrightarrow> pool_slot_get (set_slot_arg d i v) j = pool_slot_get d j"
  by (simp_all add: set_slot_fn_def set_slot_arg_def slot_get_set [OF assms])

lemma task_eta [simp]: "\<lparr>fn = fn x, arg = arg x\<rparr> = x" for x :: PoolTask
  by simp

lemma owner_step_ok:
  assumes ok: "deque_ok s" and st: "owner_step (ow s) (dq s) = (d, pc, e)"
  shows "deque_ok (with_owner s d pc) \<and> abs_step (waiting s, owner_won s) e (slots d (dq_top d) (task_end pc d), won pc d)"
proof -
  note o = deque_okD(1-4) [OF ok]
  show ?thesis
  proof (cases "ow s")
    case O_idle
    then show ?thesis using st ok by (auto simp: waiting_def deque_ok_def intro: abs_step.stay)
  next
    case (Push_top t b)
    then show ?thesis using st o by (auto simp: waiting_def intro!: owner_frame [OF ok] abs_step.stay abs_step.put_full split: if_splits)
  next
    case (Push_fn t b)
    then have d: "d = set_slot_fn (dq s) b (fn t)" "pc = Push_arg t b" "e = Silent" "b = dq_bottom (dq s)" "b - dq_top (dq s) < dq_cap (dq s)"
      using st o by auto
    have same: "pool_slot_get d i = pool_slot_get (dq s) i" if "dq_top (dq s) \<le> i" "i < b" for i
      unfolding d(1) using that d(5) by (intro set_slot_get(4) o(1)) auto
    then have "slots d (dq_top d) b = slots (dq s) (dq_top (dq s)) b" by (auto simp: d(1) intro!: slots_cong)
    moreover have "deque_ok (with_owner s d pc)"
      by (rule owner_frame [OF ok]) (use d o same Push_fn set_slot_get(1) [OF o(1)] in auto)
    ultimately show ?thesis using d Push_fn by (auto simp: waiting_def intro: abs_step.stay)
  next
    case (Push_arg t b)
    then have d: "d = set_slot_arg (dq s) b (arg t)" "pc = Push_pub t b" "e = Silent" "b = dq_bottom (dq s)" "b - dq_top (dq s) < dq_cap (dq s)"
      "fn (pool_slot_get (dq s) b) = fn t"
      using st o by auto
    have same: "pool_slot_get d i = pool_slot_get (dq s) i" if "dq_top (dq s) \<le> i" "i < b" for i
      unfolding d(1) using that d(5) by (intro set_slot_get(5) o(1)) auto
    then have "slots d (dq_top d) b = slots (dq s) (dq_top (dq s)) b" by (auto simp: d(1) intro!: slots_cong)
    moreover have "pool_slot_get d b = t" using set_slot_get(2,3) [OF o(1)] d(6) by (simp add: d(1))
    then have "deque_ok (with_owner s d pc)"
      by (intro owner_frame [OF ok]) (use d o same Push_arg in auto)
    ultimately show ?thesis using d Push_arg by (auto simp: waiting_def intro: abs_step.stay)
  next
    case (Push_pub t b)
    then have d: "d = (dq s)\<lparr>dq_bottom := b + 1\<rparr>" "pc = O_idle" "e = Put t" "b = dq_bottom (dq s)" "b - dq_top (dq s) < dq_cap (dq s)"
      "pool_slot_get (dq s) b = t"
      using st o by auto
    have "slots d (dq_top d) (b + 1) = slots (dq s) (dq_top (dq s)) b @ [t]"
      using o(2) d(4,6) Push_pub by (simp add: d(1) slots_last)
    moreover have "deque_ok (with_owner s d pc)"
      by (rule owner_frame [OF ok]) (use d o Push_pub in auto)
    ultimately show ?thesis using d Push_pub by (auto simp: waiting_def intro: abs_step.put)
  next
    case (Take_top b)
    then show ?thesis using st o
      by (auto simp: waiting_def intro!: owner_frame [OF ok] abs_step.stay abs_step.empty split: if_splits)
  next
    case (Take_dec b)
    then show ?thesis using st o by (auto simp: waiting_def intro!: owner_frame [OF ok] abs_step.stay)
  next
    case (Take_read b)
    then show ?thesis using st o
      by (auto simp: waiting_def slots_last intro!: owner_frame [OF ok] abs_step.stay abs_step.claim split: if_splits)
  next
    case (Take_fn b t)
    then show ?thesis using st o by (auto simp: waiting_def intro!: owner_frame [OF ok] abs_step.stay)
  next
    case (Take_arg b t f)
    then have x: "\<lparr>fn = f, arg = arg (pool_slot_get (dq s) b)\<rparr> = pool_slot_get (dq s) b" using o(4) by simp
    show ?thesis
    proof (cases "t = b")
      case False
      then have d: "t < b" "e = Taken (pool_slot_get (dq s) b)" "d = dq s" "pc = O_idle"
        using st o(4) Take_arg by (auto simp: Let_def)
      have "deque_ok (with_owner s d pc)" by (rule owner_frame [OF ok]) (use d o Take_arg in auto)
      then show ?thesis using d o Take_arg by (auto simp: waiting_def intro: abs_step.taken)
    qed (use st o Take_arg in \<open>auto simp: waiting_def Let_def intro!: owner_frame [OF ok] abs_step.stay\<close>)
  next
    case (Take_cas b x)
    show ?thesis
    proof (cases "dq_top (dq s) = b")
      case True
      then have d: "d = (dq s)\<lparr>dq_top := b + 1\<rparr>" "pc = Take_restore b (Some x)" "e = Silent" "x = pool_slot_get (dq s) b" "b = dq_bottom (dq s)"
        using st o Take_cas by auto
      have "thief_ok (th s i) d (b + 1)" for i
        by (rule thief_ok_frame [OF deque_okD(5) [OF ok, of i]]) (use True d in auto)
      then have "deque_ok (with_owner s d pc)" using d o Take_cas by (simp add: deque_ok_def Let_def)
      moreover have "waiting s = [] @ [x]" using True d Take_cas by (simp add: waiting_def slots_front)
      ultimately show ?thesis using d Take_cas by (auto intro: abs_step.claim [of "[]", simplified])
    next
      case False
      then have "dq_top (dq s) = b + 1" using o Take_cas by auto
      then show ?thesis using st o False Take_cas
        by (auto simp: waiting_def atomic_cas_inline_def intro!: owner_frame [OF ok] abs_step.stay)
    qed
  next
    case (Take_restore b r)
    then show ?thesis using st o
      by (cases r) (auto simp: waiting_def intro!: owner_frame [OF ok] abs_step.taken abs_step.empty)
  qed
qed

lemma owner_call_ok:
  assumes ok: "deque_ok s" and idle: "ow s = O_idle" and pc: "pc = Push_top t (dq_bottom (dq s)) \<or> pc = Take_top (dq_bottom (dq s))"
  shows "deque_ok (s\<lparr>ow := pc\<rparr>)" "waiting (s\<lparr>ow := pc\<rparr>) = waiting s" "owner_won (s\<lparr>ow := pc\<rparr>) = owner_won s"
  using assms by (auto simp: deque_ok_def waiting_def Let_def)

text \<open>A successful steal moves \<open>top\<close>; what the owner holds stays right.\<close>

lemma owner_ok_top: "owner_ok pc d \<Longrightarrow> dq_top d < task_end pc d \<Longrightarrow> owner_ok pc (d\<lparr>dq_top := dq_top d + 1\<rparr>)"
  by (cases pc) auto

lemma task_end_top [simp]: "task_end pc (d\<lparr>dq_top := t\<rparr>) = task_end pc d"
  by (cases pc) auto

lemma won_top [simp]: "won pc (d\<lparr>dq_top := t\<rparr>) = won pc d"
  by (cases pc) auto

lemma thief_step_ok:
  assumes ok: "deque_ok s" and st: "thief_step i (th s i) (dq s) = (d, pc, e)"
  shows "deque_ok (with_thief s i d pc) \<and> abs_step (waiting s, owner_won s) e (slots d (dq_top d) (task_end (ow s) d), won (ow s) d)"
proof -
  note o = deque_okD(1-4) [OF ok]
  note t = deque_okD(5) [OF ok]
  let ?l = "task_end (ow s) (dq s)"
  have same: ?thesis if "d = dq s" "thief_ok pc (dq s) ?l" "e = Silent \<or> e = Steal_failed i"
    using that ok abs_step.stay abs_step.failed by (auto simp: deque_ok_def Let_def waiting_def)
  have bottom: "dq_bottom (dq s) \<le> ?l" using o(4) by (cases "ow s") auto
  show ?thesis
  proof (cases "th s i")
    case (T_cas a x)
    show ?thesis
    proof (cases "dq_top (dq s) = a")
      case True
      then have d: "d = (dq s)\<lparr>dq_top := a + 1\<rparr>" "pc = T_idle" "e = Stolen i x" and x: "a < ?l" "x = pool_slot_get (dq s) a"
        using st T_cas t [of i] by auto
      have "thief_ok (th s j) d ?l" for j
        by (rule thief_ok_frame [OF t [of j]]) (use True d in auto)
      then have "deque_ok (with_thief s i d pc)" using d o x(1) True owner_ok_top [OF o(4)] by (simp add: deque_ok_def Let_def)
      moreover have "waiting s = x # slots d (dq_top d) (task_end (ow s) d)" using True d x by (simp add: waiting_def slots_front)
      ultimately show ?thesis using d by (simp add: abs_step.stolen)
    next
      case False
      then have "d = dq s" "pc = T_idle" "e = Steal_failed i" using st T_cas by (auto simp: atomic_cas_inline_def)
      then show ?thesis by (intro same) simp_all
    qed
  qed (rule same; use st t [of i] bottom in \<open>auto split: if_splits\<close>)+
qed

lemma deque_step_ok:
  assumes "deque_ok s" "deque_step s e s'"
  shows "deque_ok s' \<and> abs_step (waiting s, owner_won s) e (waiting s', owner_won s')"
  using assms(2)
proof cases
  case push_call
  then show ?thesis using owner_call_ok [OF assms(1)] by (auto intro: abs_step.stay)
next
  case take_call
  then show ?thesis using owner_call_ok [OF assms(1)] by (auto intro: abs_step.stay)
next
  case (owner d pc)
  then show ?thesis using owner_step_ok [OF assms(1) owner(3)] by (simp add: waiting_def)
next
  case (thief i d pc)
  then show ?thesis using thief_step_ok [OF assms(1) thief(2)] by (simp add: waiting_def)
qed

section \<open>Properties\<close>

lemma deque_start_ok: "deque_valid d \<Longrightarrow> deque_ok (deque_start d)"
  by (simp add: deque_ok_def deque_start_def deque_valid_def Let_def)

lemma deque_run_ok: "deque_run s0 es s \<Longrightarrow> deque_ok s0 \<Longrightarrow> deque_ok s"
  by (induction rule: deque_run.induct) (simp_all add: deque_step_ok)

text \<open>C5: the deque is linearizable: in every interleaving of the owner with any number of thieves, each access is a step
  of the abstract deque.  A published task joins the back; a steal that succeeds returns the front task and removes
  it; the owner wins the back task, once, and returns exactly that one; a take reports an empty deque only when no
  task waits, and a push a full one only when \<open>cap\<close> tasks do.\<close>

theorem deque_linearizable:
  assumes "deque_valid d" "deque_run (deque_start d) es s" "deque_step s e s'"
  shows "abs_step (waiting s, owner_won s) e (waiting s', owner_won s') \<and>
    length (waiting s') \<le> nat (dq_cap (dq s')) \<and> (e = Put_full \<longrightarrow> length (waiting s) = nat (dq_cap (dq s)))"
proof (intro conjI impI)
  note ok = deque_run_ok [OF assms(2) deque_start_ok [OF assms(1)]]
  note st = deque_step_ok [OF ok assms(3)]
  show "abs_step (waiting s, owner_won s) e (waiting s', owner_won s')" using st by blast
  show "length (waiting s') \<le> nat (dq_cap (dq s'))" using deque_okD(3) [of s'] st by (simp add: waiting_def nat_mono)
  assume e: "e = Put_full"
  have "thief_step i p q \<noteq> (x, y, Put_full)" for i p q x y
    by (cases p) (auto simp: Let_def split: prod.splits)
  with assms(3) e obtain x y where "owner_step (ow s) (dq s) = (x, y, Put_full)" by (auto elim: deque_step.cases)
  then obtain t b where "ow s = Push_top t b" "b - dq_top (dq s) \<ge> dq_cap (dq s)"
    by (cases "ow s") (auto simp: Let_def split: prod.splits if_splits option.splits)
  then show "length (waiting s) = nat (dq_cap (dq s))" using deque_okD(3,4) [OF ok] by (simp add: waiting_def)
qed

text \<open>The tasks put and the tasks returned in a run.\<close>

definition tasks_put :: "deque_event list \<Rightarrow> PoolTask multiset" where
  "tasks_put es = mset (concat (map (\<lambda>e. case e of Put t \<Rightarrow> [t] | _ \<Rightarrow> []) es))"

definition tasks_got :: "deque_event list \<Rightarrow> PoolTask multiset" where
  "tasks_got es = mset (concat (map (\<lambda>e. case e of Taken t \<Rightarrow> [t] | Stolen i t \<Rightarrow> [t] | _ \<Rightarrow> []) es))"

definition dq_held :: "deque_state \<Rightarrow> PoolTask multiset" where
  "dq_held s = mset (waiting s) + (case owner_won s of None \<Rightarrow> {#} | Some x \<Rightarrow> {#x#})"

lemma abs_step_balance:
  "abs_step (xs, w) e (ys, v) \<Longrightarrow>
    mset xs + (case w of None \<Rightarrow> {#} | Some x \<Rightarrow> {#x#}) + tasks_put [e] =
    mset ys + (case v of None \<Rightarrow> {#} | Some x \<Rightarrow> {#x#}) + tasks_got [e]"
  by (cases rule: abs_step.cases) (auto simp: tasks_put_def tasks_got_def)

lemma tasks_append: "tasks_put (es @ fs) = tasks_put es + tasks_put fs" "tasks_got (es @ fs) = tasks_got es + tasks_got fs"
  by (simp_all add: tasks_put_def tasks_got_def)

text \<open>C7: no task of a worker's deque is lost or run twice: at every moment of every interleaving, the tasks pushed are
  exactly the tasks returned by takes and steals, those still waiting, and the one the owner is about to return.\<close>

theorem deque_exactly_once:
  assumes "deque_valid d" "deque_tasks d = []" "deque_run (deque_start d) es s"
  shows "tasks_put es = tasks_got es + dq_held s"
  using assms(3)
proof (induction rule: deque_run.induct)
  case start
  have "slots d (dq_top d) (dq_bottom d) = []" using assms(2) by (simp add: deque_tasks_def)
  then show ?case by (simp add: tasks_put_def tasks_got_def dq_held_def deque_start_def waiting_def)
next
  case (more es s e s')
  note ok = deque_run_ok [OF more(1) deque_start_ok [OF assms(1)]]
  have "dq_held s + tasks_put [e] = dq_held s' + tasks_got [e]"
    unfolding dq_held_def using deque_step_ok [OF ok more(2)] by (intro abs_step_balance) blast
  then show ?case using more(3) by (simp add: tasks_append ac_simps)
qed

section \<open>Schedules\<close>

text \<open>A schedule names the thread of each step; it computes the run.\<close>

datatype sched = Call_push PoolTask | Call_take | Owner | Thief nat

fun sched_step :: "sched \<Rightarrow> deque_state \<Rightarrow> deque_event \<times> deque_state" where
  "sched_step (Call_push t) s = (Silent, s\<lparr>ow := Push_top t (dq_bottom (dq s))\<rparr>)"
| "sched_step Call_take s = (Silent, s\<lparr>ow := Take_top (dq_bottom (dq s))\<rparr>)"
| "sched_step Owner s = (case owner_step (ow s) (dq s) of (d, pc, e) \<Rightarrow> (e, with_owner s d pc))"
| "sched_step (Thief i) s = (case thief_step i (th s i) (dq s) of (d, pc, e) \<Rightarrow> (e, with_thief s i d pc))"

fun sched_ok :: "sched \<Rightarrow> deque_state \<Rightarrow> bool" where
  "sched_ok (Call_push t) s = (ow s = O_idle)"
| "sched_ok Call_take s = (ow s = O_idle)"
| "sched_ok Owner s = (ow s \<noteq> O_idle)"
| "sched_ok (Thief i) s = True"

fun sched_run :: "sched list \<Rightarrow> deque_state \<Rightarrow> (deque_event list \<times> deque_state) option" where
  "sched_run [] s = Some ([], s)"
| "sched_run (a # as) s =
     (if sched_ok a s then
        case sched_step a s of (e, s1) \<Rightarrow> (case sched_run as s1 of None \<Rightarrow> None | Some (es, s2) \<Rightarrow> Some (e # es, s2))
      else None)"

lemma sched_step_sound: "sched_ok a s \<Longrightarrow> sched_step a s = (e, s') \<Longrightarrow> deque_step s e s'"
  by (cases a) (auto split: prod.splits intro: deque_step.intros)

lemma sched_run_sound: "sched_run as s = Some (es, s') \<Longrightarrow> deque_run s0 fs s \<Longrightarrow> deque_run s0 (fs @ es) s'"
proof (induction as arbitrary: s es fs)
  case (Cons a as)
  then obtain e s1 es' where st: "sched_ok a s" "sched_step a s = (e, s1)" "sched_run as s1 = Some (es', s')" "es = e # es'"
    by (auto split: if_splits prod.splits option.splits)
  from deque_run.more [OF Cons.prems(2) sched_step_sound [OF st(1,2)]] have "deque_run s0 (fs @ [e]) s1" .
  from Cons.IH [OF st(3) this] show ?case using st(4) by simp
qed simp

text \<open>One task, and a thief that steals it while the owner takes.\<close>

definition deque_two :: PoolDeque where
  "deque_two = snd (pool_deque_init (Some [task_a, task_a]) 2 undefined)"

lemma deque_two: "deque_valid deque_two" "deque_tasks deque_two = []"
  by (simp_all add: deque_two_def pool_deque_init_def deque_valid_def dq_inv_def deque_tasks_def exI [of _ 1])

definition race :: "sched list" where
  "race = [Call_push task_b, Owner, Owner, Owner, Owner, Thief 3, Thief 3, Call_take, Owner, Owner, Owner, Owner, Thief 3, Thief 3, Thief 3,
     Owner, Owner, Owner]"

lemma race_run:
  "\<exists>s. deque_run (deque_start deque_two)
     [Silent, Silent, Silent, Silent, Put task_b, Silent, Silent, Silent, Silent, Silent, Silent, Silent, Silent, Silent, Stolen 3 task_b,
      Silent, Silent, Take_empty] s"
proof -
  have "\<exists>s. sched_run race (deque_start deque_two) = Some ([Silent, Silent, Silent, Silent, Put task_b, Silent, Silent, Silent, Silent,
      Silent, Silent, Silent, Silent, Silent, Stolen 3 task_b, Silent, Silent, Take_empty], s)"
    by (simp add: race_def deque_start_def deque_two_def pool_deque_init_def set_slot_fn_def set_slot_arg_def pool_slot_set_def
        pool_slot_get_def slot_ix_def atomic_cas_inline_def task_b_def)
  then show ?thesis using sched_run_sound [OF _ deque_run.start] by fastforce
qed

theorem deque_exactly_once_witness:
  "\<exists>es s. deque_run (deque_start deque_two) es s \<and> tasks_put es = {#task_b#} \<and> tasks_got es = {#task_b#} \<and> dq_held s = {#}"
proof -
  obtain es s where r: "deque_run (deque_start deque_two) es s" "tasks_put es = {#task_b#}" "tasks_got es = {#task_b#}"
    using race_run by (force simp: tasks_put_def tasks_got_def)
  then show ?thesis using deque_exactly_once [OF deque_two r(1)] by auto
qed

theorem deque_linearizable_witness:
  "\<exists>s. deque_run (deque_start deque_two) [Silent] s \<and> abs_step ([], None) Silent (waiting s, owner_won s)"
proof -
  let ?s = "(deque_start deque_two)\<lparr>ow := Take_top 0\<rparr>"
  have st: "deque_step (deque_start deque_two) Silent ?s"
    using deque_step.take_call [of "deque_start deque_two"] by (simp add: deque_start_def deque_two_def pool_deque_init_def)
  have "waiting (deque_start deque_two) = []" "owner_won (deque_start deque_two) = None"
    using deque_two(2) by (simp_all add: waiting_def deque_start_def deque_tasks_def)
  then show ?thesis
    using deque_linearizable [OF deque_two(1) deque_run.start st] deque_run.more [OF deque_run.start st] by auto
qed

end
