(* ===== verification/Pool_Accounting.thy ===== *)
theory Pool_Accounting
  imports Pool_Tasks Deque_Steps
begin

text \<open>
  The books of the pool: at every moment of every interleaving the submitted tasks are the
  finished ones, the refused ones and those held somewhere, and the counters add up to the number
  held.
\<close>

section \<open>Tasks held by threads\<close>

fun spin_task :: "worker_pc \<Rightarrow> PoolTask multiset" where
  "spin_task (W_spin_found t b) = {#t#}"
| "spin_task q = {#}"

definition ctl_tasks :: "worker_ctl \<Rightarrow> PoolTask multiset" where
  "ctl_tasks c = mset (frames c) + spin_task (pc c)"

fun sub_tasks :: "submit_pc \<Rightarrow> PoolTask multiset" where
  "sub_tasks (S_counted t k) = {#t#}"
| "sub_tasks (S_full t k) = {#t#}"
| "sub_tasks (S_retry t) = {#t#}"
| "sub_tasks q = {#}"

text \<open>A submit that is about to try again has taken its count back.\<close>

fun sub_retry :: "submit_pc \<Rightarrow> int" where
  "sub_retry (S_retry t) = 1"
| "sub_retry q = 0"

fun sub_shard_ok :: "nat \<Rightarrow> submit_pc \<Rightarrow> bool" where
  "sub_shard_ok n (S_counted t k) = (k < n)"
| "sub_shard_ok n (S_full t k) = (k < n)"
| "sub_shard_ok n (S_pushed k) = (k < n)"
| "sub_shard_ok n q = True"

definition held :: "pool_system \<Rightarrow> PoolTask multiset" where
  "held s = queued (pool s) + sum_list (map ctl_tasks (ctl s)) + sum_list (map sub_tasks (subs s))"

definition retries :: "pool_system \<Rightarrow> int" where
  "retries s = sum_list (map sub_retry (subs s))"

definition ctr_ok :: "ThreadPool \<Rightarrow> int \<Rightarrow> bool" where
  "ctr_ok P n \<longleftrightarrow> (\<exists>k. sum_list (ctrs P) = n + 2 ^ 64 * k)"

definition system_ok :: "pool_system \<Rightarrow> bool" where
  "system_ok s \<longleftrightarrow> pool_valid (pool s) \<and> length (ctl s) = n_total (pool s) \<and>
     (\<forall>q \<in> set (subs s). sub_shard_ok (n_shards (pool s)) q) \<and> ctr_ok (pool s) (int (size (held s)) - retries s)"

section \<open>The steps of a worker\<close>

definition task_moved :: "worker_ctl \<Rightarrow> ThreadPool \<Rightarrow> worker_ctl \<times> ThreadPool \<Rightarrow> bool" where
  "task_moved c P r \<longleftrightarrow> (case r of (c', P') \<Rightarrow> pool_valid P' \<and> ctrs P' = ctrs P \<and> n_total P' = n_total P \<and> n_shards P' = n_shards P \<and>
     queued P + ctl_tasks c = queued P' + ctl_tasks c')"

lemma moved_calm: "pool_valid P \<Longrightarrow> pool_calm P P' \<Longrightarrow> ctl_tasks c' = ctl_tasks c \<Longrightarrow> task_moved c P (c', P')"
  using pool_calm_valid pool_calm_queued pool_calm_dims by (simp add: task_moved_def)

lemma moved_hit:
  "got_spec P (Some t) P1 \<Longrightarrow> pool_calm P1 P' \<Longrightarrow> ctl_tasks c' = add_mset t (ctl_tasks c) \<Longrightarrow> task_moved c P (c', P')"
  using pool_calm_valid [of P1 P'] pool_calm_queued [of P1 P'] pool_calm_dims [of P1 P'] pool_same_fields [of P P1]
  by (simp add: task_moved_def got_spec_def)

lemma moved_then: "task_moved c P (c1, P1) \<Longrightarrow> task_moved c1 P1 r \<Longrightarrow> task_moved c P r"
  by (auto simp: task_moved_def split: prod.splits)

lemma try_then_moved:
  assumes v: "pool_valid P" and i: "i < n_total P"
    and hit: "\<And>t P1. got_spec P (Some t) P1 \<Longrightarrow> task_moved c P (hit t P1)" and miss: "task_moved c P (miss P)"
    and r: "try_then i P hit miss = Some r"
  shows "task_moved c P r"
proof -
  obtain x P1 where t: "pool_try_get i P = Some (x, P1)" "got_spec P x P1" using pool_try_get_ok [OF v i] by blast
  show ?thesis
  proof (cases x)
    case None
    then have "P1 = P" using t(2) by (simp add: got_spec_def)
    then show ?thesis using r t(1) None miss by (simp add: try_then_def)
  next
    case (Some y)
    then have "r = hit y P1" using r t(1) by (simp add: try_then_def)
    then show ?thesis using hit t(2) Some by blast
  qed
qed

lemma ctl_tasks_goto [simp]: "ctl_tasks (c\<lparr>pc := q\<rparr>) = mset (frames c) + spin_task q"
  by (simp add: ctl_tasks_def)

lemma moved_found:
  assumes "got_spec P (Some t) P1" "pool_calm P1 P2" "spin_task (pc c) = {#}"
  shows "task_moved c P (found i c t P2)"
  unfolding found_def run_task_def
  by (rule moved_hit [OF assms(1) pool_calm_trans [OF assms(2) calm_run_enter]]) (use assms(3) in \<open>simp add: ctl_tasks_def\<close>)

lemma after_sleep_tasks [simp]: "frames (after_sleep core eco w c) = frames c"
  by (simp add: after_sleep_def Let_def)

lemma calm_girando: "pool_calm P (if b then P\<lparr>n_girando := a\<rparr> else P)"
  by (simp add: pool_calm_control)

lemma spin_start_moved: "pool_valid P \<Longrightarrow> spin_task (pc c) = {#} \<Longrightarrow> task_moved c P (spin_start now curto c P)"
  unfolding spin_start_def Let_def
  by (auto intro!: moved_calm simp: pool_calm_control ctl_tasks_def)

lemma spin_step_moved:
  assumes v: "pool_valid P" and i: "i < n_total P" and r: "spin_step now i (pc c) c P = Some r"
  shows "task_moved c P r"
proof (cases "pc c")
  case (W_spin curto)
  then show ?thesis using r spin_start_moved [OF v] by auto
next
  case (W_spin_time fim k conta d)
  have "try_then i P (\<lambda>t. goto c (W_spin_found t conta))
       (\<lambda>P1. if stop P1 \<noteq> 0 \<or> (k mod 64 = 63 \<and> now \<ge> fim) then goto c (W_spin_end conta d) P1
             else goto c (W_spin_time fim (k + 1) conta d) P1) = Some r" using r W_spin_time by simp
  then show ?thesis
    by (rule try_then_moved [OF v i, rotated 2]) (auto intro: moved_hit moved_calm [OF v] simp: W_spin_time ctl_tasks_def)
next
  case (W_spin_pause k)
  show ?thesis
  proof (cases "k < 512")
    case True
    then have "try_then i P (\<lambda>t. goto c (W_spin_found t True))
          (\<lambda>P1. if stop P1 \<noteq> 0 then goto c (W_spin_yield 0) P1 else goto c (W_spin_pause (k + 1)) P1) = Some r" using r W_spin_pause by simp
    then show ?thesis
      by (rule try_then_moved [OF v i, rotated 2]) (auto intro: moved_hit moved_calm [OF v] simp: W_spin_pause ctl_tasks_def)
  qed (use r W_spin_pause in \<open>auto intro: moved_calm [OF v] simp: ctl_tasks_def\<close>)
next
  case (W_spin_yield k)
  show ?thesis
  proof (cases "k < 64")
    case True
    then have "try_then i P (\<lambda>t. goto c (W_spin_found t True))
          (\<lambda>P1. if stop P1 \<noteq> 0 then goto c (W_spin_end True True) P1 else goto c (W_spin_yield (k + 1)) P1) = Some r" using r W_spin_yield by simp
    then show ?thesis
      by (rule try_then_moved [OF v i, rotated 2]) (auto intro: moved_hit moved_calm [OF v] simp: W_spin_yield ctl_tasks_def)
  qed (use r W_spin_yield in \<open>auto intro: moved_calm [OF v] simp: ctl_tasks_def\<close>)
next
  case (W_spin_found t conta)
  let ?P = "if conta then pool_gira_fim True P else P"
  have "r = found i c t ?P" using r W_spin_found by simp
  moreover have "pool_calm P ?P" by simp
  then have "task_moved c P (found i c t ?P)"
    unfolding found_def run_task_def
    by (intro moved_calm [OF v] pool_calm_trans [OF _ calm_run_enter]) (auto simp: ctl_tasks_def W_spin_found)
  ultimately show ?thesis by simp
next
  case (W_spin_end conta d)
  have "pool_calm P (if conta then pool_gira_fim False P else P)" by simp
  then show ?thesis using r W_spin_end by (auto intro!: moved_calm [OF v] simp: ctl_tasks_def)
next
  case (W_spin_sleep0 k)
  show ?thesis
  proof (cases "k < 8")
    case True
    then have "try_then i P (found i c)
          (\<lambda>P1. if stop P1 \<noteq> 0 then goto c W_park P1 else goto c (W_spin_sleep0 (k + 1)) P1) = Some r" using r W_spin_sleep0 by simp
    then show ?thesis
      by (rule try_then_moved [OF v i, rotated 2]) (auto intro: moved_found moved_calm [OF v] simp: W_spin_sleep0 ctl_tasks_def)
  qed (use r W_spin_sleep0 in \<open>auto intro: moved_calm [OF v] simp: ctl_tasks_def\<close>)
qed (use r in simp_all)

lemma elastic_miss_moved: "pool_valid P \<Longrightarrow> spin_task (pc c) = {#} \<Longrightarrow> task_moved c P (elastic_miss now c P)"
  unfolding elastic_miss_def Let_def by (auto intro!: moved_calm simp: ctl_tasks_def)

lemma elastic_step_moved:
  assumes v: "pool_valid P" and i: "i < n_total P" and r: "elastic_step now timeout i (pc c) c P = Some r"
  shows "task_moved c P r"
proof (cases "pc c")
  case E_sleep
  obtain x Q where s: "thread_wait_sleep_for timeout i P = (x, Q)" by force
  show ?thesis using r s E_sleep calm_sleep [OF s] by (cases x) (auto intro: moved_calm [OF v] simp: ctl_tasks_def)
next
  case E_work
  show ?thesis
  proof (cases "stop P \<noteq> 0")
    case False
    then have "try_then i P (\<lambda>t. run_task i t (c\<lparr>pc := E_work, idle := 0, fim_giro := 0\<rparr>)) (elastic_miss now c) = Some r"
      using r E_work by simp
    then show ?thesis
      by (rule try_then_moved [OF v i, rotated 2])
        (auto intro: moved_hit elastic_miss_moved [OF v] simp: E_work run_task_def ctl_tasks_def)
  qed (use r E_work in \<open>auto intro: moved_calm [OF v] simp: ctl_tasks_def\<close>)
qed (use r in \<open>auto intro!: moved_calm [OF v] simp: ctl_tasks_def\<close>)

lemma vigia_step_moved:
  assumes v: "pool_valid P" and i: "i < n_total P" and r: "vigia_step i k c P = Some r" and "spin_task (pc c) = {#}"
  shows "task_moved c P r"
proof (cases "k < 512")
  case True
  then have "try_then i P (found i c) (\<lambda>P1. if stop P1 \<noteq> 0 then goto c W_top P1 else goto c (W_vigia (k + 1)) P1) = Some r"
    using r by (simp add: vigia_step_def)
  then show ?thesis
    by (rule try_then_moved [OF v i, rotated 2]) (use assms(4) in \<open>auto intro: moved_found moved_calm [OF v] simp: ctl_tasks_def\<close>)
qed (use r assms(4) in \<open>auto intro: moved_calm [OF v] simp: vigia_step_def ctl_tasks_def\<close>)

lemma core_step_moved:
  assumes v: "pool_valid P" and i: "i < n_total P" and r: "core_step timeout i (pc c) c P = Some r"
  shows "task_moved c P r"
proof (cases "pc c")
  case W_top
  show ?thesis
  proof (cases "stop P \<noteq> 0")
    case False
    then have "try_then i P (found i c) (goto c W_vigia_check) = Some r" using r W_top by simp
    then show ?thesis
      by (rule try_then_moved [OF v i, rotated 2]) (auto intro: moved_found moved_calm [OF v] simp: W_top ctl_tasks_def)
  qed (use r W_top in \<open>auto intro: moved_calm [OF v] simp: ctl_tasks_def\<close>)
next
  case W_vigia_check
  then show ?thesis using r by (auto intro!: moved_calm [OF v] simp: ctl_tasks_def split: if_splits)
next
  case (W_vigia k)
  then show ?thesis using r vigia_step_moved [OF v i, of k c r] by simp
next
  case W_again
  then have "try_then i P (found i c)
       (\<lambda>P1. goto c (if is_core (worker P1 i) \<and> ocioso c \<noteq> 1 then W_spin (ocioso c = 2) else W_park) P1) = Some r" using r by simp
  then show ?thesis
    by (rule try_then_moved [OF v i, rotated 2]) (auto intro!: moved_found moved_calm [OF v] simp: W_again ctl_tasks_def)
next
  case W_park
  then show ?thesis using r by (auto intro!: moved_calm [OF v] simp: ctl_tasks_def split: if_splits)
next
  case W_recheck
  let ?doze = "\<lambda>P1. goto c (W_sleep (perfil P1 = 1) (sleep_time (is_core (worker P1 i)) (perfil P1 = 1) (park_us c))) P1"
  show ?thesis
  proof (cases "is_core (worker P i)")
    case True
    then have "try_then i P (\<lambda>t P1. found i c t (unpark_core i P1)) ?doze = Some r" using r W_recheck by (simp add: Let_def)
    then show ?thesis
      by (rule try_then_moved [OF v i, rotated 2]) (auto intro!: moved_found moved_calm [OF v] simp: W_recheck ctl_tasks_def)
  qed (use r W_recheck in \<open>auto intro!: moved_calm [OF v] simp: ctl_tasks_def Let_def\<close>)
next
  case (W_sleep eco espera)
  obtain x Q where s: "thread_wait_sleep_for timeout i P = (x, Q)" by force
  note q = calm_sleep [OF s]
  show ?thesis
  proof (cases x)
    case None
    then show ?thesis using r s W_sleep q by (auto intro: moved_calm [OF v] simp: ctl_tasks_def)
  next
    case (Some w)
    then show ?thesis using r s W_sleep q pool_calm_trans [OF q calm_park(2)]
      by (auto intro!: moved_calm [OF v] simp: ctl_tasks_def Let_def)
  qed
qed (use r in simp_all)

lemma worker_step_moved:
  assumes "pool_valid P" "i < n_total P" "pool_worker_step now timeout i c P = Some r"
  shows "task_moved c P r"
  using assms(3) spin_step_moved [OF assms(1,2), of now c r] elastic_step_moved [OF assms(1,2), of now timeout c r]
    core_step_moved [OF assms(1,2), of timeout c r]
  unfolding pool_worker_step_def by (cases "pc c") simp_all

section \<open>The counters\<close>

lemma i64_cong: "\<exists>k. i64 x = x + 2 ^ 64 * k"
proof -
  have "i64 x = x - 2 ^ 64 * ((x + 2 ^ 63) div 2 ^ 64)"
    using minus_div_mult_eq_mod [of "x + 2 ^ 63" "2 ^ 64", symmetric] by (simp add: i64_def algebra_simps)
  then show ?thesis by (intro exI [of _ "- ((x + 2 ^ 63) div 2 ^ 64)"]) simp
qed

lemma i64_shift: "i64 (x + 2 ^ 64 * k) = i64 x"
proof -
  have "(x + 2 ^ 63 + 2 ^ 64 * k) mod 2 ^ 64 = (x + 2 ^ 63) mod 2 ^ 64" by (rule mod_mult_self2)
  then show ?thesis by (simp only: i64_def add.assoc add.commute [of "2 ^ 64 * k"])
qed

lemma i64_add: "i64 (i64 a + b) = i64 (a + b)"
proof -
  obtain k where "i64 a = a + 2 ^ 64 * k" using i64_cong by blast
  then have "i64 a + b = (a + b) + 2 ^ 64 * k" by simp
  then show ?thesis by (simp only: i64_shift)
qed

lemma ctr_ok_upd:
  assumes "ctr_ok P n" "c < length (ctrs P)" "\<And>v. \<exists>k. f v = v + d + 2 ^ 64 * k"
  shows "ctr_ok (upd_ctr c f P) (n + d)"
proof -
  obtain k where k: "sum_list (ctrs P) = n + 2 ^ 64 * k" using assms(1) by (auto simp: ctr_ok_def)
  obtain k' where k': "f (ctrs P ! c) = ctrs P ! c + d + 2 ^ 64 * k'" using assms(3) by blast
  have "sum_list (ctrs (upd_ctr c f P)) + ctrs P ! c = sum_list (ctrs P) + f (ctrs P ! c)"
    using sum_list_update_add [OF assms(2), of "\<lambda>x. x" "f (ctrs P ! c)"] by (simp add: upd_ctr_def)
  then have "sum_list (ctrs (upd_ctr c f P)) = n + d + 2 ^ 64 * (k + k')" using k k' by (simp add: algebra_simps)
  then show ?thesis unfolding ctr_ok_def by blast
qed

lemma count_up: "\<exists>k. snd (atomic_add64_inline v 1) = v + 1 + 2 ^ 64 * k"
  using i64_cong [of "v + 1"] by (simp add: atomic_add64_inline_def)

lemma count_down: "\<exists>k. snd (atomic_sub64_inline v 1) = v + - 1 + 2 ^ 64 * k" "\<exists>k. i64 (v - 1) = v + - 1 + 2 ^ 64 * k"
  using i64_cong [of "v - 1"] by (simp_all add: atomic_sub64_inline_def)

lemma fold_i64: "fold (\<lambda>v s. i64 (s + v)) xs (i64 a) = i64 (a + sum_list xs)"
  by (induction xs arbitrary: a) (simp_all add: i64_add add.assoc)

lemma total_pending_sum:
  assumes "pool_valid P" "ctr_ok P n"
  shows "pool_total_pending P = Some (i64 n)"
proof -
  obtain k where "sum_list (ctrs P) = n + 2 ^ 64 * k" using assms(2) by (auto simp: ctr_ok_def)
  moreover have "fold (\<lambda>v s. i64 (s + v)) (ctrs P) 0 = i64 (sum_list (ctrs P))" using fold_i64 [of "ctrs P" 0] by simp
  ultimately show ?thesis
    using pool_validD(10) [OF assms(1)] i64_shift [of n k] by (simp add: pool_total_pending_def)
qed

lemma ctr_ok_ctrs: "ctrs P' = ctrs P \<Longrightarrow> ctr_ok P' n = ctr_ok P n"
  by (simp add: ctr_ok_def)

section \<open>Submitting and returning\<close>

lemma submit_reentrant_ok:
  assumes v: "pool_valid P" and i: "i < n_total P" and r: "submit_reentrant i u P = (x, P')" and n: "ctr_ok P n"
  shows "pool_valid P'" "queued P' + opt_mset x = queued P + {#u#}" "ctr_ok P' (n + 1)" "n_total P' = n_total P" "n_shards P' = n_shards P"
proof -
  note pd = pool_validD [OF v]
  let ?P = "upd_ctr (n_shards P + i) (\<lambda>v. snd (atomic_add64_inline v 1)) P"
  have c: "ctr_ok ?P (n + 1)" using ctr_ok_upd [OF n _ count_up] i pd(9,10) by simp
  have v1: "pool_valid ?P" by (rule pool_valid_ctr [OF v])
  let ?w = "worker ?P i"
  have li: "i < length (workers ?P)" "i < n_total ?P" using i pd(8) by simp_all
  note wv = pool_validD(12) [OF v1 li(2)]
  have w: "worker_valid (n_shards ?P) (n_total ?P) (g ?w)" if "g ?w = ?w\<lparr>lifo_task := a, lifo_full := b\<rparr>" for g a b
    using wv that by (simp add: worker_valid_def)
  have "pool_valid P' \<and> queued P' + opt_mset x = queued P + {#u#} \<and> ctr_ok P' (n + 1) \<and> n_total P' = n_total P \<and> n_shards P' = n_shards P"
  proof (cases "lifo_full ?w")
    case False
    let ?f = "\<lambda>w. w\<lparr>lifo_task := u, lifo_full := True\<rparr>"
    have e: "x = None" "P' = upd_worker i ?f ?P" using r False by (simp_all add: submit_reentrant_def Let_def)
    have "worker_tasks (?f ?w) = worker_tasks ?w + {#u#}" using False by (simp add: worker_tasks_def)
    then have "queued P' + worker_tasks ?w = (queued P + {#u#}) + worker_tasks ?w"
      using queued_worker [OF li(1), of ?f] e(2) by (simp add: ac_simps)
    then have "queued P' = queued P + {#u#}" by (simp only: add_right_cancel)
    moreover have "pool_valid P'" unfolding e(2) by (rule pool_valid_worker [OF v1 li(2)]) (use wv in \<open>simp add: worker_valid_def\<close>)
    ultimately show ?thesis using e c ctr_ok_ctrs [of P' ?P] by simp
  next
    case True
    obtain ok d where p: "pool_deque_push (deque ?w) (lifo_task ?w) = (ok, d)" by force
    have d: "deque_valid d" "mset (deque_tasks d) + (if ok then {#} else {#lifo_task ?w#}) = add_mset (lifo_task ?w) (mset (deque_tasks (deque ?w)))"
      using pool_deque.push_mset [OF worker_validD(1) [OF wv], of "lifo_task ?w"] p by auto
    let ?f = "\<lambda>w. w\<lparr>lifo_task := u, deque := d\<rparr>"
    let ?Q = "upd_worker i ?f ?P"
    have q: "upd_worker i (\<lambda>w. w\<lparr>deque := d\<rparr>) (upd_worker i (\<lambda>w. w\<lparr>lifo_task := u\<rparr>) ?P) = ?Q" using li(1) by (simp add: upd_worker_twice)
    have e: "x = (if ok then None else Some (lifo_task ?w))" "pool_calm ?Q P'"
      using r True p q by (auto simp: submit_reentrant_def Let_def split: bool.splits)
    have "worker_tasks (?f ?w) + opt_mset x = worker_tasks ?w + {#u#}"
      using True d(2) by (cases ok) (simp_all add: worker_tasks_def e(1))
    then have "(queued ?Q + opt_mset x) + worker_tasks ?w = (queued P + {#u#}) + worker_tasks ?w"
      using queued_worker [OF li(1), of ?f] by (simp add: ac_simps)
    then have "queued ?Q + opt_mset x = queued P + {#u#}" by (simp only: add_right_cancel)
    moreover have "pool_valid ?Q" by (rule pool_valid_worker [OF v1 li(2)]) (use wv d(1) in \<open>simp add: worker_valid_def\<close>)
    ultimately show ?thesis
      using pool_calm_queued [OF e(2)] pool_calm_valid [OF e(2)] pool_calm_dims [OF e(2)] c ctr_ok_ctrs [of P' ?P] by simp
  qed
  then show "pool_valid P'" "queued P' + opt_mset x = queued P + {#u#}" "ctr_ok P' (n + 1)" "n_total P' = n_total P" "n_shards P' = n_shards P"
    by blast+
qed

lemma run_leave_ok:
  assumes v: "pool_valid P" and i: "i < n_total P" and n: "ctr_ok P n"
  shows "pool_valid (pool_run_leave i P)" "queued (pool_run_leave i P) = queued P" "ctr_ok (pool_run_leave i P) (n - 1)"
    "n_total (pool_run_leave i P) = n_total P" "n_shards (pool_run_leave i P) = n_shards P"
proof -
  let ?P = "upd_worker i (\<lambda>w. w\<lparr>in_task := atomic_add_single_writer_inline (in_task w) (- 1)\<rparr>) P"
  have c: "pool_calm P ?P" by (simp add: pool_calm_worker worker_calm_def)
  have e: "pool_run_leave i P = upd_ctr (n_shards P + i) (\<lambda>v. i64 (v - 1)) ?P"
    by (simp add: pool_run_leave_def pool_ctr_dec_self_def)
  show "pool_valid (pool_run_leave i P)" unfolding e by (rule pool_valid_ctr [OF pool_calm_valid [OF c v]])
  show "queued (pool_run_leave i P) = queued P" unfolding e using pool_calm_queued [OF c] by simp
  have "ctr_ok ?P n" using n by (simp add: ctr_ok_def)
  then have "ctr_ok (pool_run_leave i P) (n + - 1)"
    unfolding e by (rule ctr_ok_upd [OF _ _ count_down(2)]) (use i pool_validD(9,10) [OF v] in simp)
  then show "ctr_ok (pool_run_leave i P) (n - 1)" by simp
  show "n_total (pool_run_leave i P) = n_total P" "n_shards (pool_run_leave i P) = n_shards P" unfolding e by simp_all
qed

lemma submit_count_ok:
  assumes v: "pool_valid P" and n: "ctr_ok P n" and r: "submit_count P = (k, P')"
  shows "k < n_shards P" "pool_valid P'" "queued P' = queued P" "ctr_ok P' (n + 1)" "n_total P' = n_total P" "n_shards P' = n_shards P"
proof -
  note pd = pool_validD [OF v]
  let ?P = "P\<lparr>submit_rr := submit_rr P + 1\<rparr>"
  have e: "k = unat (submit_rr P mod of_nat (n_shards P))" "P' = upd_ctr k (\<lambda>v. snd (atomic_add64_inline v 1)) ?P"
    using r by (auto simp: submit_count_def atomic_u32_add_inline_def Let_def)
  show k: "k < n_shards P" using unat_index [of "n_shards P" "submit_rr P"] pd(1,6) e(1) by simp
  have c: "pool_calm P ?P" by (rule pool_calm_control)
  show "pool_valid P'" unfolding e(2) by (rule pool_valid_ctr [OF pool_calm_valid [OF c v]])
  show "queued P' = queued P" unfolding e(2) using pool_calm_queued [OF c] by simp
  have "ctr_ok ?P n" using n by (simp add: ctr_ok_def)
  then show "ctr_ok P' (n + 1)" unfolding e(2) by (rule ctr_ok_upd [OF _ _ count_up]) (use k pd(9,10) in simp)
  show "n_total P' = n_total P" "n_shards P' = n_shards P" unfolding e(2) by simp_all
qed

lemma submit_push_ok:
  assumes v: "pool_valid P" and k: "k < n_shards P" and r: "submit_push k t P = Some (ok, P')"
  shows "pool_valid P'" "queued P' + (if ok then {#} else {#t#}) = queued P + {#t#}" "ctrs P' = ctrs P" "n_total P' = n_total P" "n_shards P' = n_shards P"
proof -
  note pd = pool_validD [OF v]
  obtain q where q: "pool_ring_push (shards P ! k) t = Some (ok, q)" "P' = upd_shard k q P" using r by (auto simp: submit_push_def)
  have "pr_valid q \<and> ring_tasks q = ring_tasks (shards P ! k) @ (if ok then [t] else [])"
    using push_valid [OF pd(11) [OF k], of t] q(1) pd(11) [OF k] by (cases "pr_len (shards P ! k) < pr_capacity (shards P ! k)") auto
  then have "pr_valid q" "ring_tasks q = ring_tasks (shards P ! k) @ (if ok then [t] else [])" by auto
  then show "pool_valid P'" "queued P' + (if ok then {#} else {#t#}) = queued P + {#t#}"
    using pool_valid_shard [OF v] queued_shard [of k P q] k pd(7) by (auto simp: q(2))
  show "ctrs P' = ctrs P" "n_total P' = n_total P" "n_shards P' = n_shards P" by (simp_all add: q(2))
qed

section \<open>The steps of the system\<close>

definition event_in :: "pool_event \<Rightarrow> PoolTask multiset" where
  "event_in e = (case e of Submitted t \<Rightarrow> {#t#} | _ \<Rightarrow> {#})"

definition event_out :: "pool_event \<Rightarrow> PoolTask multiset" where
  "event_out e = (case e of Finished t \<Rightarrow> {#t#} | Refused t \<Rightarrow> {#t#} | _ \<Rightarrow> {#})"

lemma event_simps [simp]:
  "event_in Quiet = {#}" "event_in (Submitted t) = {#t#}" "event_in (Finished t) = {#}" "event_in (Refused t) = {#}" "event_in Idle_seen = {#}"
  "event_out Quiet = {#}" "event_out (Submitted t) = {#}" "event_out (Finished t) = {#t#}" "event_out (Refused t) = {#t#}"
  "event_out Idle_seen = {#}"
  by (simp_all add: event_in_def event_out_def)

definition step_spec :: "pool_system \<Rightarrow> pool_event \<Rightarrow> pool_system \<Rightarrow> bool" where
  "step_spec s e s' \<longleftrightarrow> system_ok s' \<and> held s + event_in e = held s' + event_out e \<and> length (subs s') = length (subs s)"

lemma system_okD:
  assumes "system_ok s"
  shows "pool_valid (pool s)" "length (ctl s) = n_total (pool s)" "\<forall>q \<in> set (subs s). sub_shard_ok (n_shards (pool s)) q"
    "ctr_ok (pool s) (int (size (held s)) - retries s)"
  using assms by (simp_all add: system_ok_def)

lemma size_balance: "held s + A = held s' + B \<Longrightarrow> int (size (held s')) = int (size (held s)) + int (size A) - int (size B)"
  by (drule arg_cong [of _ _ size]) simp

text \<open>A step of worker \<open>i\<close>, which changes its control, the pool and the counters by the tasks in and out.\<close>

lemma ctl_step:
  assumes ok: "system_ok s" and i: "i < length (ctl s)" and v: "pool_valid P"
    and dims: "n_total P = n_total (pool s)" "n_shards P = n_shards (pool s)"
    and q: "queued (pool s) + ctl_tasks (ctl s ! i) + event_in e = queued P + ctl_tasks c + event_out e"
    and ctr: "ctr_ok P (int (size (held s)) - retries s + int (size (event_in e)) - int (size (event_out e)))"
  shows "step_spec s e (set_ctl s i c P)"
proof -
  let ?s = "set_ctl s i c P"
  have sum: "sum_list (map ctl_tasks ((ctl s)[i := c])) + ctl_tasks (ctl s ! i) = sum_list (map ctl_tasks (ctl s)) + ctl_tasks c"
    by (rule sum_list_update_add [OF i])
  have "(held s + event_in e) + ctl_tasks (ctl s ! i) =
      (queued (pool s) + ctl_tasks (ctl s ! i) + event_in e) + sum_list (map ctl_tasks (ctl s)) + sum_list (map sub_tasks (subs s))"
    by (simp add: held_def ac_simps)
  also have "\<dots> = queued P + event_out e + (sum_list (map ctl_tasks (ctl s)) + ctl_tasks c) + sum_list (map sub_tasks (subs s))"
    unfolding q by (simp add: ac_simps)
  also have "\<dots> = (held ?s + event_out e) + ctl_tasks (ctl s ! i)"
    unfolding sum [symmetric] by (simp add: held_def ac_simps)
  finally have h: "held s + event_in e = held ?s + event_out e" by (simp only: add_right_cancel)
  have "retries ?s = retries s" by (simp add: retries_def)
  then have "int (size (held ?s)) - retries ?s = int (size (held s)) - retries s + int (size (event_in e)) - int (size (event_out e))"
    using size_balance [OF h] by linarith
  then have "ctr_ok P (int (size (held ?s)) - retries ?s)" by (simp only: ctr)
  then have "system_ok ?s" using system_okD [OF ok] v dims by (simp add: system_ok_def)
  then show ?thesis using h by (simp add: step_spec_def)
qed

text \<open>A step of a thread outside the pool.\<close>

lemma sub_step:
  assumes ok: "system_ok s" and j: "j < length (subs s)" and v: "pool_valid P"
    and dims: "n_total P = n_total (pool s)" "n_shards P = n_shards (pool s)"
    and q: "queued (pool s) + sub_tasks (subs s ! j) + event_in e = queued P + sub_tasks x + event_out e"
    and sh: "sub_shard_ok (n_shards (pool s)) x"
    and ctr: "ctr_ok P (int (size (held s)) - retries s + int (size (event_in e)) - int (size (event_out e)) - (sub_retry x - sub_retry (subs s ! j)))"
  shows "step_spec s e (set_sub s j x P)"
proof -
  let ?s = "set_sub s j x P"
  have sum: "sum_list (map sub_tasks ((subs s)[j := x])) + sub_tasks (subs s ! j) = sum_list (map sub_tasks (subs s)) + sub_tasks x"
    by (rule sum_list_update_add [OF j])
  have "(held s + event_in e) + sub_tasks (subs s ! j) =
      (queued (pool s) + sub_tasks (subs s ! j) + event_in e) + sum_list (map ctl_tasks (ctl s)) + sum_list (map sub_tasks (subs s))"
    by (simp add: held_def ac_simps)
  also have "\<dots> = queued P + event_out e + sum_list (map ctl_tasks (ctl s)) + (sum_list (map sub_tasks (subs s)) + sub_tasks x)"
    unfolding q by (simp add: ac_simps)
  also have "\<dots> = (held ?s + event_out e) + sub_tasks (subs s ! j)"
    unfolding sum [symmetric] by (simp add: held_def ac_simps)
  finally have h: "held s + event_in e = held ?s + event_out e" by (simp only: add_right_cancel)
  have "retries ?s + sub_retry (subs s ! j) = retries s + sub_retry x"
    using sum_list_update_add [OF j, of sub_retry x] by (simp add: retries_def)
  then have "int (size (held ?s)) - retries ?s =
      int (size (held s)) - retries s + int (size (event_in e)) - int (size (event_out e)) - (sub_retry x - sub_retry (subs s ! j))"
    using size_balance [OF h] by linarith
  then have "ctr_ok P (int (size (held ?s)) - retries ?s)" by (simp only: ctr)
  moreover have "\<forall>y \<in> set ((subs s)[j := x]). sub_shard_ok (n_shards (pool s)) y"
    using system_okD(3) [OF ok] sh by (auto dest: set_update_subset)
  ultimately have "system_ok ?s" using system_okD [OF ok] v dims by (simp add: system_ok_def)
  then show ?thesis using h by (simp add: step_spec_def)
qed

lemma submit_step_ok:
  assumes ok: "system_ok s" and j: "j < length (subs s)" and st: "submit_step (subs s ! j) (pool s) = Some (e, q, P)"
  shows "step_spec s e (set_sub s j q P)"
proof -
  note o = system_okD [OF ok]
  have sj: "sub_shard_ok (n_shards (pool s)) (subs s ! j)" using o(3) j by simp
  show ?thesis
  proof (cases "subs s ! j")
    case (S_counted t k)
    then obtain b where p: "submit_push k t (pool s) = Some (b, P)" and e: "e = Quiet" "q = (if b then S_pushed k else S_full t k)"
      using st by (auto split: option.splits prod.splits)
    have k: "k < n_shards (pool s)" using sj S_counted by simp
    note pp = submit_push_ok [OF o(1) k p]
    show ?thesis
      by (rule sub_step [OF ok j pp(1,4,5)]) (use pp(2,3) o(4) S_counted e k in \<open>auto simp: ctr_ok_def split: if_splits\<close>)
  next
    case (S_full t k)
    then have e: "e = Quiet" "q = S_retry t" "P = submit_uncount k (pool s)" using st by simp_all
    have k: "k < length (ctrs (pool s))" using sj S_full pool_validD(9,10) [OF o(1)] by simp
    have "ctr_ok P (int (size (held s)) - retries s + - 1)"
      unfolding e(3) submit_uncount_def by (rule ctr_ok_upd [OF o(4) k count_down(1)])
    moreover have "pool_valid P" "n_total P = n_total (pool s)" "n_shards P = n_shards (pool s)" "queued P = queued (pool s)"
      unfolding e(3) submit_uncount_def using pool_valid_ctr [OF o(1)] by simp_all
    ultimately show ?thesis using e S_full by (intro sub_step [OF ok j]) simp_all
  next
    case (S_retry t)
    show ?thesis
    proof (cases "stop (pool s) \<noteq> 0")
      case True
      then have "e = Refused t" "q = S_idle" "P = pool s" using st S_retry by simp_all
      then show ?thesis using o S_retry by (intro sub_step [OF ok j]) simp_all
    next
      case False
      obtain k P1 where c: "submit_count (pool s) = (k, P1)" by force
      then have e: "e = Quiet" "q = S_counted t k" "P = P1" using st S_retry False by simp_all
      note cc = submit_count_ok [OF o(1) o(4) c]
      then show ?thesis using e S_retry by (intro sub_step [OF ok j]) (simp_all add: algebra_simps)
    qed
  next
    case (S_pushed k)
    then have e: "e = Quiet" "q = S_idle" "P = submit_wake k (pool s)" using st by simp_all
    have c: "pool_calm (pool s) P" unfolding e(3) by simp
    have "ctr_ok P (int (size (held s)) - retries s)" using o(4) pool_calm_dims(1) [OF c] by (simp add: ctr_ok_def)
    then show ?thesis using pool_calm_valid [OF c o(1)] pool_calm_queued [OF c] pool_calm_dims [OF c] e S_pushed
      by (intro sub_step [OF ok j]) simp_all
  qed (use st in simp)
qed

lemma pool_only_step:
  assumes ok: "system_ok s" and c: "pool_calm (pool s) P"
  shows "step_spec s Quiet (s\<lparr>pool := P\<rparr>)"
proof -
  note o = system_okD [OF ok]
  have h: "held (s\<lparr>pool := P\<rparr>) = held s" "retries (s\<lparr>pool := P\<rparr>) = retries s"
    using pool_calm_queued [OF c] by (simp_all add: held_def retries_def)
  then show ?thesis using o pool_calm_valid [OF c o(1)] pool_calm_dims [OF c] by (simp add: step_spec_def system_ok_def ctr_ok_def)
qed

lemma scan_step: "system_ok s \<Longrightarrow> e = Quiet \<or> e = Idle_seen \<Longrightarrow> step_spec s e (s\<lparr>scan := x\<rparr>)"
  by (auto simp: step_spec_def system_ok_def held_def retries_def)

lemma system_step_ok:
  assumes ok: "system_ok s" and st: "system_step s e s'"
  shows "step_spec s e s'"
proof -
  note o = system_okD [OF ok]
  show ?thesis
    using st
  proof cases
    case (work i now timeout c P)
    have "task_moved (ctl s ! i) (pool s) (c, P)" using worker_step_moved [OF o(1) _ work(5)] work(3) o(2) by simp
    then show ?thesis unfolding work(1,2) using o(4) by (intro ctl_step [OF ok work(3)]) (simp_all add: task_moved_def ctr_ok_def)
  next
    case (body_submit i t ts u P)
    have i: "i < n_total (pool s)" using body_submit(3) o(2) by simp
    note r = submit_reentrant_ok [OF o(1) i body_submit(7) o(4)]
    show ?thesis unfolding body_submit(1,2) using r by (intro ctl_step [OF ok body_submit(3)]) (simp_all add: ac_simps)
  next
    case (body_submit_run i t ts u old P c P1)
    have i: "i < n_total (pool s)" using body_submit_run(3) o(2) by simp
    note r = submit_reentrant_ok [OF o(1) i body_submit_run(7) o(4)]
    have c: "c = (ctl s ! i)\<lparr>frames := old # frames (ctl s ! i)\<rparr>" "pool_calm P P1"
      using body_submit_run(8) by (auto simp: run_task_def)
    have t: "ctl_tasks c = add_mset old (ctl_tasks (ctl s ! i))" by (simp add: c(1) ctl_tasks_def)
    have "ctr_ok P1 (int (size (held s)) - retries s + 1)" using r(3) pool_calm_dims(1) [OF c(2)] by (simp add: ctr_ok_def)
    moreover have "queued P1 + add_mset old {#} = queued (pool s) + {#u#}" using r(2) pool_calm_queued [OF c(2)] by simp
    ultimately show ?thesis
      unfolding body_submit_run(1,2) using r pool_calm_valid [OF c(2)] pool_calm_dims [OF c(2)] t
      by (intro ctl_step [OF ok body_submit_run(3)]) (simp_all add: ac_simps)
  next
    case (body_return i t ts)
    have i: "i < n_total (pool s)" using body_return(3) o(2) by simp
    note r = run_leave_ok [OF o(1) i o(4)]
    show ?thesis unfolding body_return(1,2) using r body_return(4)
      by (intro ctl_step [OF ok body_return(3)]) (simp_all add: ctl_tasks_def)
  next
    case (submit_call j t k P)
    note r = submit_count_ok [OF o(1) o(4) submit_call(7)]
    show ?thesis unfolding submit_call(1,2) using r submit_call(4) by (intro sub_step [OF ok submit_call(3)]) simp_all
  next
    case (submit_more j q P)
    then show ?thesis using submit_step_ok [OF ok] by blast
  next
    case (control P)
    then show ?thesis using pool_only_step [OF ok calm_control_step] by blast
  qed (use scan_step [OF ok] in auto)
qed

section \<open>Properties\<close>

definition submitted :: "pool_event list \<Rightarrow> PoolTask multiset" where
  "submitted es = sum_list (map event_in es)"

definition finished :: "pool_event list \<Rightarrow> PoolTask multiset" where
  "finished es = sum_list (map (\<lambda>e. case e of Finished t \<Rightarrow> {#t#} | _ \<Rightarrow> {#}) es)"

definition refused :: "pool_event list \<Rightarrow> PoolTask multiset" where
  "refused es = sum_list (map (\<lambda>e. case e of Refused t \<Rightarrow> {#t#} | _ \<Rightarrow> {#}) es)"

lemma out_split: "sum_list (map event_out es) = finished es + refused es"
  by (induction es) (auto simp: finished_def refused_def event_out_def ac_simps split: pool_event.splits)

text \<open>A pool nobody has used yet.\<close>

definition fresh_pool :: "ThreadPool \<Rightarrow> bool" where
  "fresh_pool P \<longleftrightarrow> pool_valid P \<and> queued P = {#} \<and> sum_list (ctrs P) = 0"

lemma system_start_ok:
  assumes "fresh_pool P"
  shows "system_ok (system_start P m)" "held (system_start P m) = {#}"
proof -
  have c: "sum_list (map (ctl_tasks \<circ> worker_start) ws) = {#}" for ws
    by (induction ws) (simp_all add: ctl_tasks_def worker_start_def)
  have z: "sum_list (map sub_tasks (replicate m S_idle)) = {#}" "sum_list (map sub_retry (replicate m S_idle)) = 0"
    by (induction m) simp_all
  show h: "held (system_start P m) = {#}" using assms c z by (simp add: held_def system_start_def fresh_pool_def)
  show "system_ok (system_start P m)"
    using assms h z pool_validD(8) [of P] by (auto simp: system_ok_def system_start_def fresh_pool_def retries_def ctr_ok_def)
qed

lemma system_run_ok:
  assumes "fresh_pool P" "system_run (system_start P m) es s"
  shows "system_ok s \<and> sum_list (map event_in es) = held s + sum_list (map event_out es)"
  using assms(2)
proof (induction rule: system_run.induct)
  case start
  then show ?case using system_start_ok [OF assms(1), of m] by simp
next
  case (more es s e s')
  then have st: "step_spec s e s'" using system_step_ok by blast
  have "held s + event_in e = held s' + event_out e" using st by (simp add: step_spec_def)
  then show ?case using st more.IH by (simp add: step_spec_def ac_simps)
qed

text \<open>C3: no task of the pool is lost or run twice, and the counters tell the truth: in every interleaving of workers, task
  bodies, outside submitters, monitor and settings (where a search for work, an operation on a ring, a submission
  from a task and a pass of the monitor are single steps), the tasks submitted are exactly those finished, those refused
  at shutdown and those held in a queue, by a worker or by a submitter; the sum of the counters, read at one
  moment, is the number held (up to submitters about to retry).  So when it is not positive all submitted work is
  over.\<close>

theorem pool_tasks_accounted:
  assumes "fresh_pool P" "system_run (system_start P m) es s"
  shows "submitted es = finished es + refused es + held s \<and>
    pool_total_pending (pool s) = Some (i64 (int (size (held s)) - retries s)) \<and>
    (retries s = 0 \<and> int (size (held s)) < 2 ^ 63 \<and> pool_total_pending (pool s) = Some n \<and> n \<le> 0 \<longrightarrow>
       submitted es = finished es + refused es)"
proof -
  have r: "system_ok s" "submitted es = held s + (finished es + refused es)"
    using system_run_ok [OF assms] out_split by (simp_all add: submitted_def)
  note t = total_pending_sum [OF system_okD(1,4) [OF r(1)]]
  have "held s = {#}" if "retries s = 0" "int (size (held s)) < 2 ^ 63" "pool_total_pending (pool s) = Some n" "n \<le> 0"
  proof -
    have "n = i64 (int (size (held s)))" using t that by simp
    then have "n = int (size (held s))" using that(2) by (simp add: i64_id)
    then show ?thesis using that(4) by simp
  qed
  then show ?thesis using r(2) t by (auto simp: ac_simps)
qed

text \<open>C10: finding work: on a valid pool \<open>pool_try_get\<close>, not interrupted by other threads, always returns; it comes back empty-handed, and changes nothing,
  exactly when there is no task in the worker's own slot, deque and batch, in any shard or in any other worker's
  deque; a task it returns has left the queues, all others are still there.\<close>

theorem pool_try_get_complete:
  assumes "pool_valid P" "i < n_total P"
  shows "\<exists>r P'. pool_try_get i P = Some (r, P') \<and> pool_valid P' \<and> queued P = queued P' + opt_mset r \<and>
    (r = None \<longleftrightarrow> \<not> reachable_tasks i P) \<and> (r = None \<longrightarrow> P' = P) \<and> ctrs P' = ctrs P"
  using pool_try_get_ok [OF assms] pool_same_fields(5) unfolding got_spec_def by blast

section \<open>A small pool\<close>

definition mini_worker :: "bool \<Rightarrow> PoolWorker" where
  "mini_worker core = worker_zero\<lparr>is_core := core, handle := True, deque := deque_two\<rparr>"

definition mini_pool :: ThreadPool where
  "mini_pool = \<lparr>n_core = 1, n_workers = 2, n_total = 2, n_elastic = 0, n_shards = 1, shards = [ring_two],
     workers = [mini_worker True, mini_worker False], ctrs = [0, 0, 0], n_ctrs = 3, wait_inited = True, ocioso_desde_ms = 0,
     ocioso_iniciadas = 0, submit_rr = 0, wake_rr = 0, n_parked_core = 0, n_girando = 0, stop = 0, n_vigia = 0, giro_us = - 1,
     perfil = 0, mon_dormindo = 0, mon_handle = True, mon_wait = 0\<rparr>"

lemma mini_worker_ok: "worker_valid 1 2 (mini_worker c)" "worker_tasks (mini_worker c) = {#}"
  using deque_two by (simp_all add: worker_valid_def worker_tasks_def mini_worker_def worker_zero_def)

lemma mini_fresh: "fresh_pool mini_pool"
  using mini_worker_ok ring_two_valid by (simp add: fresh_pool_def pool_valid_def queued_def mini_pool_def)

theorem pool_try_get_complete_witness: "pool_try_get 0 mini_pool = Some (None, mini_pool)"
proof -
  have d: "deque_tasks (deque (mini_worker c)) = []" for c using deque_two by (simp add: mini_worker_def)
  have "\<not> reachable_tasks 0 mini_pool"
    using mini_worker_ok(2) ring_two_valid(2) d by (simp add: reachable_tasks_def mini_pool_def less_2_cases_iff nth_Cons')
  moreover have "pool_valid mini_pool" "0 < n_total mini_pool" using mini_fresh by (simp_all add: fresh_pool_def mini_pool_def)
  ultimately show ?thesis using pool_try_get_complete [of mini_pool 0] by auto
qed

end
