(* ===== verification/Pool_Races.thy ===== *)
theory Pool_Races
  imports Pool_Accounting
begin

text \<open>
  A run of a small pool (two workers, one shard) in which \<open>pool_wait_idle\<close> returns while a task is
  still running, because it adds up the counters one at a time; and a run in which every task is
  accounted for.
\<close>

section \<open>A wait that returns too early\<close>

definition task_c :: PoolTask where "task_c = \<lparr>fn = 4096, arg = 16\<rparr>"

definition task_d :: PoolTask where "task_d = \<lparr>fn = 4096, arg = 24\<rparr>"

text \<open>The pool of the run: its ring, its workers and its counters vary.\<close>

definition mini_with :: "PoolRing \<Rightarrow> PoolWorker \<Rightarrow> PoolWorker \<Rightarrow> int list \<Rightarrow> w32 \<Rightarrow> ThreadPool" where
  "mini_with r w0 w1 cs k = mini_pool\<lparr>shards := [r], workers := [w0, w1], ctrs := cs, submit_rr := k\<rparr>"

lemma mini_with_fields [simp]:
  "n_core (mini_with r w0 w1 cs k) = 1" "n_total (mini_with r w0 w1 cs k) = 2" "n_shards (mini_with r w0 w1 cs k) = 1"
  "shards (mini_with r w0 w1 cs k) = [r]" "workers (mini_with r w0 w1 cs k) = [w0, w1]" "ctrs (mini_with r w0 w1 cs k) = cs"
  "n_ctrs (mini_with r w0 w1 cs k) = 3" "stop (mini_with r w0 w1 cs k) = 0" "n_parked_core (mini_with r w0 w1 cs k) = 0"
  "mon_dormindo (mini_with r w0 w1 cs k) = 0" "submit_rr (mini_with r w0 w1 cs k) = k"
  by (simp_all add: mini_with_def mini_pool_def)

lemma mini_with_upd:
  "upd_ctr 0 f (mini_with r w0 w1 [a, b, c] k) = mini_with r w0 w1 [f a, b, c] k"
  "upd_ctr (Suc 0) f (mini_with r w0 w1 [a, b, c] k) = mini_with r w0 w1 [a, f b, c] k"
  "upd_ctr 2 f (mini_with r w0 w1 [a, b, c] k) = mini_with r w0 w1 [a, b, f c] k"
  "upd_worker 0 g (mini_with r w0 w1 cs k) = mini_with r (g w0) w1 cs k"
  "upd_worker (Suc 0) g (mini_with r w0 w1 cs k) = mini_with r w0 (g w1) cs k"
  "upd_shard 0 q (mini_with r w0 w1 cs k) = mini_with q w0 w1 cs k"
  "(mini_with r w0 w1 cs k)\<lparr>submit_rr := v\<rparr> = mini_with r w0 w1 cs v"
  by (simp_all add: upd_ctr_def upd_worker_def upd_shard_def mini_with_def mini_pool_def)

lemma mini_pool_with: "mini_pool = mini_with ring_two (mini_worker True) (mini_worker False) [0, 0, 0] 0"
  by (simp add: mini_with_def mini_pool_def)

lemma mini_stop: "stop mini_pool = 0"
  by (simp add: mini_pool_def)

text \<open>The ring and the deque through the run.\<close>

lemma ring_life: "\<exists>r1 r2. pool_ring_push ring_two t = Some (True, r1) \<and> pool_ring_pop_batch r1 2 = Some ([t], r2) \<and>
    pool_ring_pop_batch r2 2 = Some ([], r2)"
proof -
  obtain r1 where r1: "pool_ring_push ring_two t = Some (True, r1)" "pr_valid r1" "ring_tasks r1 = [t]"
    using push_valid(1) [OF ring_two_valid(1), of t] ring_two_valid length_ring_tasks [of ring_two] by (auto simp del: length_ring_tasks)
  obtain r2 where r2: "pool_ring_pop_batch r1 2 = Some ([t], r2)" "pr_valid r2" "ring_tasks r2 = []"
    using pop_batch_valid [OF r1(2), of 2] r1(3) by auto
  show ?thesis using r1(1) r2(1) pop_empty_same [OF r2(2,3)] by blast
qed

lemma deque_life: "\<exists>d1 d2. pool_deque_push deque_two t = (True, d1) \<and> pool_deque_steal d1 = (Some t, d2)"
proof -
  have n: "deque_tasks deque_two = []" "0 < nat (dq_cap deque_two)" using deque_two by (simp_all add: deque_two_def pool_deque_init_def)
  obtain d1 where d1: "pool_deque_push deque_two t = (True, d1)" "deque_valid d1" "deque_tasks d1 = [t]"
    using pool_deque.push_room [OF deque_two(1), of t] n by auto
  then show ?thesis using pool_deque.steal_front [OF d1(2), of t "[]"] by auto
qed

lemma deque_dry: "pool_deque_take deque_two = (None, deque_two)" "pool_deque_steal deque_two = (None, deque_two)"
  using pool_deque.take_none pool_deque.steal_none deque_two by blast+

definition top_ctl :: worker_ctl where
  "top_ctl = \<lparr>pc = W_top, park_us = 1000, ocioso = 0, idle = 0, fim_giro = 0, frames = []\<rparr>"

lemma top_ctl_fields [simp]: "frames top_ctl = []" "pc top_ctl = W_top" "top_ctl\<lparr>frames := []\<rparr> = top_ctl"
  by (simp_all add: top_ctl_def)

lemma mini_start: "system_start mini_pool 1 = \<lparr>pool = mini_pool, ctl = [top_ctl, top_ctl], subs = [S_idle], scan = None\<rparr>"
  by (simp add: system_start_def mini_pool_def worker_start_def top_ctl_def mini_worker_def worker_zero_def)

text \<open>The first task goes in and is taken by the first worker.\<close>

lemma run_task_b:
  "\<exists>r w. system_run (system_start mini_pool 1) [Submitted task_b, Quiet, Quiet, Quiet]
      \<lparr>pool = mini_with r w (mini_worker False) [1, 0, 0] 1, ctl = [top_ctl\<lparr>frames := [task_b]\<rparr>, top_ctl], subs = [S_idle], scan = None\<rparr> \<and>
    pool_ring_pop_batch r 2 = Some ([], r) \<and> deque w = deque_two \<and> \<not> lifo_full w"
proof -
  obtain r1 r2 where r: "pool_ring_push ring_two task_b = Some (True, r1)" "pool_ring_pop_batch r1 2 = Some ([task_b], r2)"
    "pool_ring_pop_batch r2 2 = Some ([], r2)" using ring_life by blast
  let ?wa = "mini_worker True" and ?wb = "mini_worker False"
  let ?S = "\<lambda>P c q. \<lparr>pool = P, ctl = [c, top_ctl], subs = [q], scan = None\<rparr>"
  have s1: "system_step (system_start mini_pool 1) (Submitted task_b) (?S (mini_with ring_two ?wa ?wb [1, 0, 0] 1) top_ctl (S_counted task_b 0))"
  proof -
    have "submit_count mini_pool = (0, mini_with ring_two ?wa ?wb [1, 0, 0] 1)"
      unfolding mini_pool_with
      by (simp add: submit_count_def atomic_u32_add_inline_def mini_with_upd atomic_add64_inline_def)
    then show ?thesis
      using system_step.submit_call [of 0 "system_start mini_pool 1" task_b 0 "mini_with ring_two ?wa ?wb [1, 0, 0] 1"]
      unfolding mini_start by (simp add: task_b_def mini_stop)
  qed
  have s2: "system_step (?S (mini_with ring_two ?wa ?wb [1, 0, 0] 1) top_ctl (S_counted task_b 0)) Quiet
      (?S (mini_with r1 ?wa ?wb [1, 0, 0] 1) top_ctl (S_pushed 0))" (is "system_step ?a Quiet _")
    using system_step.submit_more [of 0 ?a Quiet "S_pushed 0" "mini_with r1 ?wa ?wb [1, 0, 0] 1"] r(1)
    by (simp add: submit_push_def mini_with_upd)
  have s3: "system_step (?S (mini_with r1 ?wa ?wb [1, 0, 0] 1) top_ctl (S_pushed 0)) Quiet
      (?S (mini_with r1 ?wa ?wb [1, 0, 0] 1) top_ctl S_idle)" (is "system_step ?b Quiet _")
    using system_step.submit_more [of 0 ?b Quiet S_idle "mini_with r1 ?wa ?wb [1, 0, 0] 1"]
    by (simp add: submit_wake_def pool_wake_submit_def pool_wake_one_core_def)
  let ?f = "\<lambda>w. w\<lparr>shard_cursor := 0, lifo_streak := 0, pending := task_b # drop 1 (pending w), pend_i := 1, pend_n := 1\<rparr>"
  let ?wr = "(?f ?wa)\<lparr>in_task := 1, start_count := 1\<rparr>"
  have get: "pool_try_get 0 (mini_with r1 ?wa ?wb [1, 0, 0] 1) = Some (Some task_b, mini_with r2 (?f ?wa) ?wb [1, 0, 0] 1)"
    using deque_dry r(2)
    by (simp add: pool_try_get_def Let_def mini_worker_def worker_zero_def mini_with_upd scan_shards.simps)
  have s4: "system_step (?S (mini_with r1 ?wa ?wb [1, 0, 0] 1) top_ctl S_idle) Quiet
      (?S (mini_with r2 ?wr ?wb [1, 0, 0] 1) (top_ctl\<lparr>frames := [task_b]\<rparr>) S_idle)" (is "system_step ?c Quiet _")
  proof -
    have "pool_worker_step 0 False 0 top_ctl (mini_with r1 ?wa ?wb [1, 0, 0] 1) =
        Some (top_ctl\<lparr>frames := [task_b]\<rparr>, mini_with r2 ?wr ?wb [1, 0, 0] 1)"
      using get by (simp add: pool_worker_step_def try_then_def found_def run_task_def pool_run_enter_def mini_with_upd
          mini_worker_def worker_zero_def atomic_add_single_writer_inline_def atomic_add64_single_writer_inline_def top_ctl_def)
    then show ?thesis
      using system_step.work [of 0 ?c 0 False "top_ctl\<lparr>frames := [task_b]\<rparr>" "mini_with r2 ?wr ?wb [1, 0, 0] 1"] by simp
  qed
  note run = system_run.more [OF system_run.more [OF system_run.more [OF system_run.more [OF system_run.start s1] s2] s3] s4]
  show ?thesis
    by (rule exI [of _ r2], rule exI [of _ ?wr]) (use run r(3) in \<open>simp add: mini_worker_def worker_zero_def\<close>)
qed

text \<open>While the wait adds up the counters, the first worker's task spawns two and the second worker runs one.\<close>

lemma worker_one_steals:
  assumes r: "pool_ring_pop_batch r 2 = Some ([], r)" and d: "pool_deque_steal d1 = (Some t, d2)" "deque w = d1"
  shows "\<exists>w'. pool_worker_step 0 False 1 top_ctl (mini_with r w (mini_worker False) cs k) =
    Some (top_ctl\<lparr>frames := [t]\<rparr>, mini_with r (w\<lparr>deque := d2\<rparr>) w' cs k)"
proof -
  let ?f = "\<lambda>w. w\<lparr>steal_cursor := 0, lifo_streak := 0\<rparr>"
  have get: "pool_try_get 1 (mini_with r w (mini_worker False) cs k) = Some (Some t, mini_with r (w\<lparr>deque := d2\<rparr>) (?f (mini_worker False)) cs k)"
    using deque_dry r d
    by (simp add: pool_try_get_def Let_def mini_worker_def worker_zero_def mini_with_upd scan_shards.simps scan_steal.simps)
  then show ?thesis
    by (simp add: pool_worker_step_def try_then_def found_def run_task_def pool_run_enter_def mini_with_upd
        mini_worker_def worker_zero_def top_ctl_def) (rule exI, rule refl)
qed

lemma spawn_two:
  assumes "deque w = deque_two" "\<not> lifo_full w" and d: "pool_deque_push deque_two task_c = (True, d1)"
  defines "w1 \<equiv> w\<lparr>lifo_task := task_c, lifo_full := True\<rparr>"
  shows "submit_reentrant 0 task_c (mini_with r w v [a, 0, b] k) = (None, mini_with r w1 v [a, 1, b] k)"
    "submit_reentrant 0 task_d (mini_with r w1 v [a, 1, b] k) = (None, mini_with r (w1\<lparr>lifo_task := task_d, deque := d1\<rparr>) v [a, 2, b] k)"
  using assms by (simp_all add: submit_reentrant_def mini_with_upd atomic_add64_inline_def Let_def pool_wake_submit_def pool_wake_one_core_def)

text \<open>C29: \<open>pool_wait_idle\<close> may return while work is under way: the counters are read one after another, so a task
  that was spawned after its counter was read and finished before the next one is subtracted without ever having been
  added.  In this run the call starts after \<open>task_b\<close> was submitted and returns while \<open>task_b\<close> is still running and
  \<open>task_d\<close> still waits.\<close>

theorem wait_idle_returns_early:
  "\<exists>es s. fresh_pool mini_pool \<and> system_run (system_start mini_pool 1) (es @ [Idle_seen]) s \<and> scan s = None \<and>
     task_b \<in># submitted es \<and> finished es = {#task_c#} \<and> task_b \<in> set (frames (ctl s ! 0)) \<and> held s = {#task_b, task_d#}"
proof -
  obtain r w where r: "system_run (system_start mini_pool 1) [Submitted task_b, Quiet, Quiet, Quiet]
      \<lparr>pool = mini_with r w (mini_worker False) [1, 0, 0] 1, ctl = [top_ctl\<lparr>frames := [task_b]\<rparr>, top_ctl], subs = [S_idle], scan = None\<rparr>"
    "pool_ring_pop_batch r 2 = Some ([], r)" "deque w = deque_two" "\<not> lifo_full w" using run_task_b by blast
  obtain d1 d2 where d: "pool_deque_push deque_two task_c = (True, d1)" "pool_deque_steal d1 = (Some task_c, d2)" using deque_life by blast
  let ?va = "w\<lparr>lifo_task := task_c, lifo_full := True\<rparr>"
  let ?vb = "?va\<lparr>lifo_task := task_d, deque := d1\<rparr>"
  note sp = spawn_two [OF r(3,4) d(1)]
  obtain x where x: "pool_worker_step 0 False 1 top_ctl (mini_with r ?vb (mini_worker False) [1, 2, 0] 1) =
    Some (top_ctl\<lparr>frames := [task_c]\<rparr>, mini_with r (?vb\<lparr>deque := d2\<rparr>) x [1, 2, 0] 1)"
    using worker_one_steals [OF r(2) d(2), of ?vb] by auto
  let ?c = "top_ctl\<lparr>frames := [task_b]\<rparr>"
  let ?S = "\<lambda>P c n. \<lparr>pool = P, ctl = [?c, c], subs = [S_idle], scan = n\<rparr>"
  let ?Pa = "mini_with r w (mini_worker False) [1, 0, 0] 1"
  let ?Pb = "mini_with r ?va (mini_worker False) [1, 1, 0] 1"
  let ?Pc = "mini_with r ?vb (mini_worker False) [1, 2, 0] 1"
  let ?Pd = "mini_with r (?vb\<lparr>deque := d2\<rparr>) x [1, 2, 0] 1"
  let ?Pe = "mini_with r (?vb\<lparr>deque := d2\<rparr>) (x\<lparr>in_task := i32 (in_task x - 1)\<rparr>) [1, 2, - 1] 1"
  have t: "fn task_c \<noteq> 0" "fn task_d \<noteq> 0" by (simp_all add: task_c_def task_d_def)
  have s1: "system_step (?S ?Pa top_ctl None) Quiet (?S ?Pa top_ctl (Some (0, 0)))"
    using system_step.scan_call [of "?S ?Pa top_ctl None"] by simp
  have s2: "system_step (?S ?Pa top_ctl (Some (0, 0))) Quiet (?S ?Pa top_ctl (Some (1, 1)))"
    using system_step.scan_read [of "?S ?Pa top_ctl (Some (0, 0))" 0 0] by simp
  have s3: "system_step (?S ?Pa top_ctl (Some (1, 1))) Quiet (?S ?Pa top_ctl (Some (2, 1)))"
    using system_step.scan_read [of "?S ?Pa top_ctl (Some (1, 1))" 1 1] by (simp add: numeral_2_eq_2)
  have s4: "system_step (?S ?Pa top_ctl (Some (2, 1))) (Submitted task_c) (?S ?Pb top_ctl (Some (2, 1)))"
    using system_step.body_submit [of 0 "?S ?Pa top_ctl (Some (2, 1))" task_b "[]" task_c ?Pb] sp(1) t by simp
  have s5: "system_step (?S ?Pb top_ctl (Some (2, 1))) (Submitted task_d) (?S ?Pc top_ctl (Some (2, 1)))"
    using system_step.body_submit [of 0 "?S ?Pb top_ctl (Some (2, 1))" task_b "[]" task_d ?Pc] sp(2) t by simp
  have s6: "system_step (?S ?Pc top_ctl (Some (2, 1))) Quiet (?S ?Pd (top_ctl\<lparr>frames := [task_c]\<rparr>) (Some (2, 1)))"
    using system_step.work [of 1 "?S ?Pc top_ctl (Some (2, 1))" 0 False "top_ctl\<lparr>frames := [task_c]\<rparr>" ?Pd] x by simp
  have s7: "system_step (?S ?Pd (top_ctl\<lparr>frames := [task_c]\<rparr>) (Some (2, 1))) (Finished task_c) (?S ?Pe top_ctl (Some (2, 1)))"
  proof -
    have "pool_run_leave 1 ?Pd = ?Pe"
      by (simp add: pool_run_leave_def pool_ctr_dec_self_def mini_with_upd atomic_add_single_writer_inline_def numeral_2_eq_2 [symmetric])
    then show ?thesis
      using system_step.body_return [of 1 "?S ?Pd (top_ctl\<lparr>frames := [task_c]\<rparr>) (Some (2, 1))" task_c "[]"] by simp
  qed
  have s8: "system_step (?S ?Pe top_ctl (Some (2, 1))) Quiet (?S ?Pe top_ctl (Some (3, 0)))"
    using system_step.scan_read [of "?S ?Pe top_ctl (Some (2, 1))" 2 1] by (simp add: numeral_eq_Suc)
  have s9: "system_step (?S ?Pe top_ctl (Some (3, 0))) Idle_seen (?S ?Pe top_ctl None)"
    using system_step.scan_return [of "?S ?Pe top_ctl (Some (3, 0))" 0] by simp
  note run8 = system_run.more [OF system_run.more [OF system_run.more [OF system_run.more [OF system_run.more [OF system_run.more
    [OF system_run.more [OF system_run.more [OF r(1) s1] s2] s3] s4] s5] s6] s7] s8]
  let ?es = "[Submitted task_b, Quiet, Quiet, Quiet] @ [Quiet] @ [Quiet] @ [Quiet] @ [Submitted task_c] @ [Submitted task_d] @ [Quiet] @
    [Finished task_c] @ [Quiet]"
  have run: "system_run (system_start mini_pool 1) (?es @ [Idle_seen]) (?S ?Pe top_ctl None)"
    using system_run.more [OF run8 s9] by simp
  have ev: "submitted ?es = {#task_b, task_c, task_d#}" "finished ?es = {#task_c#}" by (simp_all add: submitted_def finished_def)
  have "sum_list (map event_in (?es @ [Idle_seen])) = {#task_b, task_c, task_d#}" "sum_list (map event_out (?es @ [Idle_seen])) = {#task_c#}"
    by simp_all
  then have "held (?S ?Pe top_ctl None) = {#task_b, task_d#}"
    using conjunct2 [OF system_run_ok [OF mini_fresh run]] by (simp add: add_mset_commute)
  then show ?thesis using run ev mini_fresh
    by (intro exI [of _ ?es] exI [of _ "?S ?Pe top_ctl None"]) simp
qed

theorem pool_tasks_accounted_witness:
  "\<exists>es s. system_run (system_start mini_pool 1) es s \<and> submitted es = {#task_b#} \<and> held s = {#task_b#} \<and> pool_total_pending (pool s) = Some 1"
proof -
  obtain r w where r: "system_run (system_start mini_pool 1) [Submitted task_b, Quiet, Quiet, Quiet]
      \<lparr>pool = mini_with r w (mini_worker False) [1, 0, 0] 1, ctl = [top_ctl\<lparr>frames := [task_b]\<rparr>, top_ctl], subs = [S_idle], scan = None\<rparr>"
    (is "system_run _ ?es ?s") using run_task_b by blast
  have "submitted ?es = {#task_b#}" "finished ?es = {#}" "refused ?es = {#}" "retries ?s = 0"
    by (simp_all add: submitted_def finished_def refused_def retries_def)
  then have "held ?s = {#task_b#}" "pool_total_pending (pool ?s) = Some 1" "submitted ?es = {#task_b#}"
    using pool_tasks_accounted [OF mini_fresh r, of 1] by simp_all
  then show ?thesis using r by blast
qed

end
