(* ===== verification/Pool_Wakeups.thy ===== *)
theory Pool_Wakeups
  imports Pool_Accounting
begin

text \<open>
  Who wakes whom: the wake-up of one parked core, the announcement of a spawned task, and the
  elastic workers the monitor activates.
\<close>

section \<open>Waking one core\<close>

definition core_order :: "ThreadPool \<Rightarrow> w32 \<Rightarrow> nat \<Rightarrow> nat" where
  "core_order P start j = unat ((start + of_nat j) mod of_nat (n_core P))"

definition woken :: "nat \<Rightarrow> ThreadPool \<Rightarrow> ThreadPool" where
  "woken i = upd_worker i (\<lambda>w. w\<lparr>parked := 0, wait := 1\<rparr>)"

definition parked_flags :: "ThreadPool \<Rightarrow> bool" where
  "parked_flags P \<longleftrightarrow> (\<forall>i < n_total P. parked (worker P i) = 0 \<or> parked (worker P i) = 1)"

lemma woken_eq: "i < length (workers P) \<Longrightarrow> thread_wait_wake i (upd_worker i (\<lambda>w. w\<lparr>parked := 0\<rparr>) P) = woken i P"
  by (simp add: thread_wait_wake_def woken_def upd_worker_twice)

lemma core_order_less: "pool_valid P \<Longrightarrow> core_order P start j < n_core P"
  using pool_validD(3-6) [of P] unat_index [of "n_core P"] by (simp add: core_order_def)

lemma wake_scan_find:
  assumes v: "pool_valid P" and f: "parked_flags P"
  shows "wake_scan start j P =
    (case List.find (\<lambda>j. parked (worker P (core_order P start j)) \<noteq> 0) [j..<n_core P] of
       None \<Rightarrow> P | Some j \<Rightarrow> woken (core_order P start j) P)"
proof (induction "n_core P - j" arbitrary: j)
  case 0
  then show ?case by (subst wake_scan.simps) simp
next
  case (Suc n)
  let ?i = "core_order P start j"
  have j: "j < n_core P" "[j..<n_core P] = j # [j + 1..<n_core P]" using Suc(2) by (simp_all add: upt_rec)
  have i: "?i < n_total P" using core_order_less [OF v, of start j] pool_validD(4,5) [OF v] by simp
  show ?case
  proof (cases "parked (worker P ?i) = 0")
    case True
    then have "wake_scan start j P = wake_scan start (j + 1) P" using j(1) by (subst wake_scan.simps) (simp add: core_order_def Let_def)
    then show ?thesis using Suc(1) [of "j + 1"] Suc(2) True by (simp add: j(2))
  next
    case False
    then have p: "parked (worker P ?i) = 1" using f i by (auto simp: parked_flags_def)
    then have "wake_scan start j P = thread_wait_wake ?i (upd_worker ?i (\<lambda>w. w\<lparr>parked := 0\<rparr>) P)"
      using j(1) by (subst wake_scan.simps) (simp add: core_order_def Let_def)
    then show ?thesis using woken_eq [of ?i P] i pool_validD(8) [OF v] False by (simp add: j(2))
  qed
qed

lemma core_order_covers:
  assumes "pool_valid P" "unat start + n_core P \<le> 2 ^ 32" "i < n_core P"
  shows "\<exists>j < n_core P. core_order P start j = i"
proof -
  obtain j where j: "j < n_core P" "(unat start + j) mod n_core P = i" using slot_window_covers [OF assms(3)] by blast
  have n: "0 < n_core P" "n_core P < 2147483648" using pool_validD(3-6) [OF assms(1)] by simp_all
  have "unat (start + of_nat j) = unat start + j" using assms(2) j(1) by (simp add: unat_word_ariths unat_of_nat)
  then have "core_order P start j = i" using unat_index [OF n, of "start + of_nat j"] j(2) by (simp add: core_order_def)
  then show ?thesis using j(1) by blast
qed

text \<open>C11: waking a core: while the round-robin counter does not wrap during the scan, \<open>pool_wake_one_core\<close> wakes exactly
  one parked core, clearing its flag, whenever there is one, and otherwise only advances the counter.  At the wrap
  of the counter it can pass over the only parked core: with three cores and the counter at \<open>2^32 - 1\<close> core 2 is not
  looked at.\<close>

theorem wake_one_core_wakes:
  assumes "pool_valid P" "parked_flags P" "0 < n_parked_core P" "unat (wake_rr P) + n_core P \<le> 2 ^ 32"
  defines "Q \<equiv> P\<lparr>wake_rr := wake_rr P + 1\<rparr>"
  shows "if \<exists>i < n_core P. parked (worker P i) = 1
    then \<exists>i < n_core P. parked (worker P i) = 1 \<and> pool_wake_one_core P = woken i Q
    else pool_wake_one_core P = Q"
proof -
  have q: "pool_valid Q" "parked_flags Q" "workers Q = workers P" "n_core Q = n_core P"
    using assms(1,2) by (simp_all add: Q_def pool_valid_def parked_flags_def)
  let ?f = "List.find (\<lambda>j. parked (worker P (core_order P (wake_rr P) j)) \<noteq> 0) [0..<n_core P]"
  have co: "core_order Q s j = core_order P s j" for s j by (simp add: core_order_def q)
  have e: "pool_wake_one_core P = (case ?f of None \<Rightarrow> Q | Some j \<Rightarrow> woken (core_order P (wake_rr P) j) Q)"
    using assms(3) wake_scan_find [OF q(1,2), of "wake_rr P" 0]
    by (simp add: pool_wake_one_core_def atomic_u32_add_inline_def Q_def [symmetric] q co split: option.split)
  have flag: "parked (worker P (core_order P (wake_rr P) j)) \<noteq> 0 \<longleftrightarrow> parked (worker P (core_order P (wake_rr P) j)) = 1" for j
  proof -
    have "core_order P (wake_rr P) j < n_total P"
      using core_order_less [OF assms(1), of "wake_rr P" j] pool_validD(4,5) [OF assms(1)] by simp
    then have "parked (worker P (core_order P (wake_rr P) j)) = 0 \<or> parked (worker P (core_order P (wake_rr P) j)) = 1"
      using assms(2) unfolding parked_flags_def by blast
    then show ?thesis by auto
  qed
  show ?thesis
  proof (cases ?f)
    case None
    have "parked (worker P i) \<noteq> 1" if i: "i < n_core P" for i
      using core_order_covers [OF assms(1,4) i] None by (auto simp: find_None_iff)
    then show ?thesis using e None by auto
  next
    case (Some j)
    then have "parked (worker P (core_order P (wake_rr P) j)) = 1" using flag by (auto simp: find_Some_iff)
    then show ?thesis using e Some core_order_less [OF assms(1), of "wake_rr P" j] by auto
  qed
qed

definition trio_pool :: "w32 \<Rightarrow> ThreadPool" where
  "trio_pool k = mini_pool\<lparr>n_core := 3, n_workers := 3, n_total := 3, n_ctrs := 4, ctrs := [0, 0, 0, 0], n_parked_core := 1, wake_rr := k,
     workers := [mini_worker True, mini_worker True, (mini_worker True)\<lparr>parked := 1\<rparr>]\<rparr>"

lemma trio_ok: "pool_valid (trio_pool k)" "parked_flags (trio_pool k)"
proof -
  have w: "worker_valid 1 3 (mini_worker c)" "worker_valid 1 3 ((mini_worker c)\<lparr>parked := 1\<rparr>)" for c
    using mini_worker_ok(1) [of c] by (simp_all add: worker_valid_def mini_worker_def worker_zero_def)
  show "pool_valid (trio_pool k)" using w ring_two_valid(1) by (simp add: pool_valid_def trio_pool_def mini_pool_def)
  show "parked_flags (trio_pool k)"
    by (auto simp: parked_flags_def trio_pool_def mini_worker_def worker_zero_def numeral_3_eq_3 less_Suc_eq)
qed

theorem wake_one_core_wakes_witness: "\<exists>i < 3. pool_wake_one_core (trio_pool 0) = woken i ((trio_pool 0)\<lparr>wake_rr := 1\<rparr>)"
proof -
  have f: "n_core (trio_pool 0) = 3" "n_parked_core (trio_pool 0) = 1" "wake_rr (trio_pool 0) = 0" "parked (worker (trio_pool 0) 2) = 1"
    by (simp_all add: trio_pool_def)
  have "\<exists>i < n_core (trio_pool 0). parked (worker (trio_pool 0) i) = 1" using f by (intro exI [of _ 2]) simp
  then show ?thesis using wake_one_core_wakes [OF trio_ok, of 0] f by auto
qed

text \<open>The round-robin counter of the wake-ups wraps at \<open>2^32\<close>, and when the number of cores does not divide it one
  scan visits a core twice and another not at all: with three cores of which only core 2 is parked, the wake-up at
  the wrap changes nothing but the counter.\<close>

theorem wake_skips_at_wrap:
  "parked (worker (trio_pool (- 1)) 2) = 1 \<and> n_parked_core (trio_pool (- 1)) = 1 \<and>
   pool_wake_one_core (trio_pool (- 1)) = (trio_pool (- 1))\<lparr>wake_rr := 0\<rparr>"
proof -
  let ?P = "(trio_pool (- 1))\<lparr>wake_rr := 0\<rparr>"
  have v: "pool_valid ?P" "parked_flags ?P" using trio_ok [of "- 1"] by (simp_all add: pool_valid_def parked_flags_def)
  have f: "n_core ?P = 3" "parked (worker ?P 0) = 0" "parked (worker ?P 1) = 0"
    by (simp_all add: trio_pool_def mini_worker_def worker_zero_def)
  have o: "core_order ?P (- 1) 0 = 0" "core_order ?P (- 1) 1 = 0" "core_order ?P (- 1) 2 = 1"
    by (simp_all add: core_order_def f)
  have "List.find (\<lambda>j. parked (worker ?P (core_order ?P (- 1) j)) \<noteq> 0) [0..<n_core ?P] = None"
    using o f by (auto simp: find_None_iff numeral_3_eq_3 less_Suc_eq numeral_2_eq_2)
  then have "wake_scan (- 1) 0 ?P = ?P" using wake_scan_find [OF v, of "- 1" 0] by simp
  then show ?thesis by (simp add: pool_wake_one_core_def atomic_u32_add_inline_def trio_pool_def)
qed

section \<open>A spawned task nobody is told about\<close>

text \<open>C31: the chain of wake-ups forgets the deques: a task spawned while one core spins wakes no one, trusting the spinner;
  but a spinner that has already found another task hands on only if a shard has work, so it wakes no one either.
  Afterwards the spawned task waits in the deque of its busy worker, no core spins, and every parked core stays
  parked.\<close>

theorem spawned_task_unannounced:
  assumes "pool_valid P" "i < n_total P" "lifo_full (worker P i)" "deque_tasks (deque (worker P i)) = []"
    and "0 < n_parked_core P" "n_girando P = 1" "\<And>s. s < n_shards P \<Longrightarrow> ring_tasks (shards P ! s) = []" "1 < dq_cap (deque (worker P i))"
  shows "\<exists>P1. submit_reentrant i t P = (None, P1) \<and>
    (let P2 = pool_gira_fim True P1 in
      deque_tasks (deque (worker P2 i)) = [lifo_task (worker P i)] \<and> n_girando P2 = 0 \<and> n_parked_core P2 = n_parked_core P \<and>
      (\<forall>j < n_total P. parked (worker P2 j) = parked (worker P j) \<and> wait (worker P2 j) = wait (worker P j)))"
proof -
  note pd = pool_validD [OF assms(1)]
  note dv = worker_validD(1) [OF pd(12) [OF assms(2)]]
  let ?old = "lifo_task (worker P i)"
  obtain d where d: "pool_deque_push (deque (worker P i)) ?old = (True, d)" "deque_valid d" "deque_tasks d = [?old]"
    using pool_deque.push_room [OF dv, of ?old] assms(4,8) by auto
  have li: "i < length (workers P)" using assms(2) pd(8) by simp
  let ?P = "upd_worker i (\<lambda>w. w\<lparr>lifo_task := t, deque := d\<rparr>) (upd_ctr (n_shards P + i) (\<lambda>v. snd (atomic_add64_inline v 1)) P)"
  have f: "n_parked_core ?P = n_parked_core P" "n_girando ?P = 1" "shards ?P = shards P" "n_shards ?P = n_shards P"
    using assms(6) by (simp_all add: upd_worker_def upd_ctr_def)
  have fila: "deque_fila d = 1"
  proof -
    have "dq_bottom d - dq_top d = 1" using arg_cong [OF d(3), of length] by (simp add: deque_tasks_def)
    then show ?thesis by (simp add: deque_fila_def)
  qed
  have s: "submit_reentrant i t P = (None, ?P)"
    using assms(3,5,6) d(1) fila li f
    by (simp add: submit_reentrant_def Let_def upd_worker_twice pool_wake_submit_def)
  have "pool_ring_count r = 0" if "r \<in> set (shards P)" for r
    using that assms(7) pd(7,11) count_valid by (auto simp: in_set_conv_nth ring_tasks_def)
  then have nf: "\<not> pool_ha_fila (?P\<lparr>n_girando := 0\<rparr>)" by (auto simp: pool_ha_fila_def list_ex_iff f dest: in_set_takeD)
  have g: "pool_gira_fim True ?P = ?P\<lparr>n_girando := 0\<rparr>"
    using f nf by (simp add: pool_gira_fim_def atomic_sub_inline_def)
  have w: "worker ?P j = (if j = i then (worker P i)\<lparr>lifo_task := t, deque := d\<rparr> else worker P j)" for j
    using li by (simp add: worker_upd)
  show ?thesis using s g w d(3) f by (intro exI [of _ ?P]) (simp add: Let_def)
qed

definition busy_pool :: ThreadPool where
  "busy_pool = mini_pool\<lparr>n_core := 2, n_parked_core := 1, n_girando := 1,
     workers := [(mini_worker True)\<lparr>lifo_task := task_a, lifo_full := True\<rparr>, (mini_worker True)\<lparr>parked := 1\<rparr>]\<rparr>"

theorem spawned_task_unannounced_witness:
  "\<exists>P1. submit_reentrant 0 task_b busy_pool = (None, P1) \<and> deque_tasks (deque (worker (pool_gira_fim True P1) 0)) = [task_a] \<and>
     parked (worker (pool_gira_fim True P1) 1) = 1"
proof -
  have w: "worker_valid 1 2 ((mini_worker c)\<lparr>lifo_task := task_a, lifo_full := True\<rparr>)" "worker_valid 1 2 ((mini_worker c)\<lparr>parked := 1\<rparr>)" for c
    using mini_worker_ok(1) [of c] by (simp_all add: worker_valid_def mini_worker_def worker_zero_def)
  have v: "pool_valid busy_pool" using w ring_two_valid(1) by (simp add: pool_valid_def busy_pool_def mini_pool_def)
  have d: "deque_tasks deque_two = []" "dq_cap deque_two = 2" using deque_two by (simp_all add: deque_two_def pool_deque_init_def)
  have f: "n_total busy_pool = 2" "n_shards busy_pool = 1" "shards busy_pool = [ring_two]" "n_parked_core busy_pool = 1" "n_girando busy_pool = 1"
    "lifo_full (worker busy_pool 0)" "lifo_task (worker busy_pool 0) = task_a" "deque (worker busy_pool 0) = deque_two"
    "parked (worker busy_pool 1) = 1"
    by (simp_all add: busy_pool_def mini_pool_def mini_worker_def)
  obtain P1 where "submit_reentrant 0 task_b busy_pool = (None, P1)"
    "deque_tasks (deque (worker (pool_gira_fim True P1) 0)) = [task_a]"
    "\<forall>j < 2. parked (worker (pool_gira_fim True P1) j) = parked (worker busy_pool j)"
    using spawned_task_unannounced [OF v, of 0 task_b] f d ring_two_valid(2) by (auto simp: Let_def)
  then show ?thesis using f(9) by auto
qed

section \<open>The monitor\<close>

lemma unpark_other: "i < length (workers P) \<Longrightarrow> unpark i P = (ok, P') \<Longrightarrow>
    length (workers P') = length (workers P) \<and> n_total P' = n_total P \<and> (\<forall>j. j \<noteq> i \<longrightarrow> worker P' j = worker P j) \<and>
    (\<not> ok \<longrightarrow> parked (worker P' i) = parked (worker P i) \<and> wait (worker P' i) = wait (worker P i))"
  by (cases "parked (worker P i) = 1")
    (auto simp: unpark_def Let_def atomic_cas_inline_def thread_wait_wake_def worker_upd)

definition touched :: "ThreadPool \<Rightarrow> ThreadPool \<Rightarrow> nat set" where
  "touched P P' = {j. j < n_total P \<and> (parked (worker P' j) \<noteq> parked (worker P j) \<or> wait (worker P' j) \<noteq> wait (worker P j))}"

lemma wake_elastic_touches:
  "length (workers P) = n_total P \<Longrightarrow> touched P (wake_elastic e k P) \<subseteq> {e..<n_total P} \<and> card (touched P (wake_elastic e k P)) \<le> k"
proof (induction e k P rule: wake_elastic.induct)
  case (1 e k P)
  show ?case
  proof (cases "e < n_total P \<and> 0 < k")
    case False
    then have "wake_elastic e k P = P" by (subst wake_elastic.simps) auto
    then show ?thesis by (simp add: touched_def)
  next
    case True
    show ?thesis
    proof (cases "parked (worker P e) = 0")
      case p: True
      have "wake_elastic e k P = wake_elastic (e + 1) k P" using True p by (subst wake_elastic.simps) simp
      then show ?thesis using 1(1) [OF True p 1(3)] by fastforce
    next
      case p: False
      obtain ok Q where u: "unpark e P = (ok, Q)" by force
      have e: "e < length (workers P)" using True 1(3) by simp
      note q = unpark_other [OF e u]
      let ?k = "if ok then k - 1 else k"
      have w: "wake_elastic e k P = wake_elastic (e + 1) ?k Q" using True p u by (subst wake_elastic.simps) simp
      have ih: "touched Q (wake_elastic (e + 1) ?k Q) \<subseteq> {e + 1..<n_total Q}" "card (touched Q (wake_elastic (e + 1) ?k Q)) \<le> ?k"
        using 1(2) [OF True p u [symmetric]] q 1(3) by auto
      have sub: "touched P (wake_elastic e k P) \<subseteq> (if ok then {e} else {}) \<union> touched Q (wake_elastic (e + 1) ?k Q)"
        unfolding w using q by (auto simp: touched_def) (metis, metis)
      have fin: "finite (touched Q (wake_elastic (e + 1) ?k Q))" using finite_subset [OF ih(1)] by simp
      have "card (touched P (wake_elastic e k P)) \<le> card ((if ok then {e} else {}) \<union> touched Q (wake_elastic (e + 1) ?k Q))"
        by (rule card_mono [OF _ sub]) (use fin in simp)
      also have "\<dots> \<le> (if ok then 1 else 0) + ?k" using ih(2) fin card_insert_le_m1 by (auto intro: order_trans [OF card_insert_le_m1] simp: card_insert_if)
      also have "\<dots> = k" using True by simp
      finally have c: "card (touched P (wake_elastic e k P)) \<le> k" .
      have "touched Q (wake_elastic (e + 1) ?k Q) \<subseteq> {e..<n_total P}" using ih(1) q by auto
      moreover have "(if ok then {e} else {}) \<subseteq> {e..<n_total P}" using True by simp
      ultimately show ?thesis using c sub by blast
    qed
  qed
qed

lemma touched_eq: "workers Q = workers P \<Longrightarrow> n_total Q = n_total P \<Longrightarrow> touched Q R = touched P R"
  by (simp add: touched_def)

lemma note_starts_worker:
  assumes "i < length (workers P)"
  shows "parked (worker (note_starts P) i) = parked (worker P i)" "wait (worker (note_starts P) i) = wait (worker P i)"
  using assms by (auto simp: note_starts_def nth_append min_def)

lemma note_starts_same:
  "length (workers (note_starts P)) = length (workers P)" "n_workers (note_starts P) = n_workers P"
  "n_total (note_starts P) = n_total P" "pool_ha_fila (note_starts P) = pool_ha_fila P"
  by (simp_all add: note_starts_def pool_ha_fila_def)

lemma note_starts_touched: "length (workers P) = n_total P \<Longrightarrow> touched (note_starts P) R = touched P R"
  by (auto simp: touched_def note_starts_same note_starts_worker)

lemma monitor_timer_same:
  "monitor_timer P = Some P' \<Longrightarrow> workers P' = workers P \<and> n_total P' = n_total P \<and> n_workers P' = n_workers P \<and> stop P' = stop P \<and>
     shards P' = shards P \<and> n_shards P' = n_shards P"
  by (auto simp: monitor_timer_def Let_def split: if_splits option.splits)

text \<open>C28: the monitor wakes elastic workers only: a pass changes the parking state of at most as many of them as there
  are workers stuck in one task since the last pass, never that of another worker, and changes any only if the
  pool is not stopping, at least two workers are stuck and a shard has tasks waiting.\<close>

theorem monitor_wakes_elastic:
  assumes "pool_valid P" "monitor_after P = Some P'"
  shows "touched P P' \<subseteq> {n_workers P..<n_total P} \<and> card (touched P P') \<le> stuck_count P \<and>
    (touched P P' = {} \<or> stop P = 0 \<and> 2 \<le> stuck_count P \<and> pool_ha_fila P)"
proof (cases "stop P = 0")
  case False
  then have "P' = P\<lparr>mon_dormindo := 0\<rparr>" using assms(2) by (auto simp: monitor_after_def)
  then show ?thesis by (simp add: touched_def)
next
  case True
  then obtain P2 where t: "monitor_timer (P\<lparr>mon_dormindo := 0\<rparr>) = Some P2"
    using assms(2) by (auto simp: monitor_after_def split: option.splits)
  have s: "workers P2 = workers P" "n_total P2 = n_total P" "n_workers P2 = n_workers P" "shards P2 = shards P" "n_shards P2 = n_shards P"
    using monitor_timer_same [OF t] by simp_all
  have c: "stuck_count P2 = stuck_count P" and q: "pool_ha_fila P2 = pool_ha_fila P"
    using s by (simp_all add: stuck_count_def pool_ha_fila_def)
  have len: "length (workers P2) = n_total P2" using s pool_validD(8) [OF assms(1)] by simp
  have tc: "touched (note_starts P2) R = touched P R" for R
    using note_starts_touched [OF len] touched_eq [OF s(1,2)] by simp
  show ?thesis
  proof (cases "stuck_count P < 2 \<or> \<not> pool_ha_fila P")
    case quiet: True
    then have "P' = note_starts P2" using assms(2) True t c q by (auto simp: monitor_after_def note_starts_same)
    then have "touched P P' = touched (note_starts P2) (note_starts P2)" using tc by simp
    also have "\<dots> = {}" by (simp add: touched_def)
    finally show ?thesis by simp
  next
    case busy: False
    then have e: "P' = wake_elastic (n_workers P2) (stuck_count P2) (note_starts P2)"
      using assms(2) True t c q by (auto simp: monitor_after_def Let_def note_starts_same)
    have "length (workers (note_starts P2)) = n_total (note_starts P2)" using len by (simp add: note_starts_same)
    note w = wake_elastic_touches [OF this, of "n_workers P2" "stuck_count P2", folded e, unfolded tc]
    then show ?thesis using busy True by (simp add: c s note_starts_same)
  qed
qed

text \<open>Two workers of two stuck, one task in the shard: the parked elastic worker is activated.\<close>

definition stuck_pool :: ThreadPool where
  "stuck_pool = mini_pool\<lparr>n_core := 1, n_workers := 2, n_elastic := 1, n_total := 3, n_ctrs := 4, ctrs := [0, 0, 0, 0],
     shards := [snd (the (pool_ring_push ring_two task_a))],
     workers := [(mini_worker True)\<lparr>in_task := 1\<rparr>, (mini_worker False)\<lparr>in_task := 1\<rparr>, (mini_worker False)\<lparr>is_elastic := True, parked := 1\<rparr>]\<rparr>"

lemma stuck_ring: "pr_valid (snd (the (pool_ring_push ring_two task_a)))" "ring_tasks (snd (the (pool_ring_push ring_two task_a))) = [task_a]"
proof -
  obtain r1 where "pool_ring_push ring_two task_a = Some (True, r1)" "pr_valid r1" "ring_tasks r1 = [task_a]"
    using push_valid(1) [OF ring_two_valid(1), of task_a] ring_two_valid length_ring_tasks [of ring_two] by (auto simp del: length_ring_tasks)
  then show "pr_valid (snd (the (pool_ring_push ring_two task_a)))" "ring_tasks (snd (the (pool_ring_push ring_two task_a))) = [task_a]"
    by simp_all
qed

lemma stuck_valid: "pool_valid stuck_pool"
proof -
  have "worker_valid 1 3 ((mini_worker c)\<lparr>in_task := 1\<rparr>)" "worker_valid 1 3 ((mini_worker c)\<lparr>is_elastic := True, parked := 1\<rparr>)" for c
    using mini_worker_ok(1) [of c] by (simp_all add: worker_valid_def mini_worker_def worker_zero_def)
  then show ?thesis using stuck_ring(1) by (simp add: pool_valid_def stuck_pool_def mini_pool_def)
qed

theorem monitor_wakes_elastic_witness:
  "\<exists>P'. monitor_after stuck_pool = Some P' \<and> touched stuck_pool P' \<subseteq> {2} \<and> parked (worker P' 2) = 0"
proof -
  have f: "n_workers stuck_pool = 2" "n_total stuck_pool = 3" "stop stuck_pool = 0" "stuck_count stuck_pool = 2"
    "ocioso_desde_ms stuck_pool = 0" "wait_inited stuck_pool" "mon_dormindo stuck_pool = 0"
    by (simp_all add: stuck_pool_def mini_pool_def stuck_count_def mini_worker_def worker_zero_def numeral_2_eq_2)
  have q: "pool_ha_fila stuck_pool"
    using count_valid [OF stuck_ring(1)] stuck_ring(2) length_ring_tasks
    by (simp add: pool_ha_fila_def stuck_pool_def mini_pool_def del: length_ring_tasks)
  let ?Q = "note_starts (stuck_pool\<lparr>mon_dormindo := 0\<rparr>)"
  have m: "monitor_after stuck_pool = Some (wake_elastic 2 2 ?Q)"
    using f q note_starts_same [of "stuck_pool\<lparr>mon_dormindo := 0\<rparr>"]
    by (simp add: monitor_after_def monitor_timer_def Let_def stuck_count_def pool_ha_fila_def)
  have p: "parked (worker ?Q 2) = 1" "n_total ?Q = 3" "length (workers ?Q) = 3"
    by (simp_all add: note_starts_def stuck_pool_def mini_pool_def mini_worker_def numeral_2_eq_2)
  have s: "(2::nat) + 1 = 3" "\<not> (3::nat) < 3" "(2::nat) < 3" "(0::nat) < 2" by simp_all
  have w: "wake_elastic 2 2 ?Q = snd (unpark 2 ?Q)"
  proof -
    have stop: "wake_elastic 3 k R = R" if "n_total R = 3" for k R using that by (subst wake_elastic.simps) simp
    show ?thesis
      by (subst wake_elastic.simps) (simp add: p stop unpark_def Let_def atomic_cas_inline_def thread_wait_wake_def)
  qed
  have "parked (worker (wake_elastic 2 2 ?Q) 2) = 0"
    unfolding w using p by (simp add: unpark_def Let_def atomic_cas_inline_def thread_wait_wake_def worker_upd)
  moreover have "touched stuck_pool (wake_elastic 2 2 ?Q) \<subseteq> {2..<3}"
    using monitor_wakes_elastic [OF stuck_valid m] by (simp only: f)
  ultimately show ?thesis using m by (intro exI [of _ "wake_elastic 2 2 ?Q"]) (auto simp: subset_iff)
qed

end
