(* ===== verification/Pool_Creation.thy ===== *)
theory Pool_Creation
  imports Pool_Accounting
begin

text \<open>
  Creation of a pool on every path: which failures leave no pool, what is joined and freed then,
  the one failure that crashes, and the pool a successful creation hands over.
\<close>

section \<open>Destroying what was not finished\<close>

definition released :: "ThreadPool \<Rightarrow> bool" where
  "released P \<longleftrightarrow> (\<forall>w \<in> set (workers P). \<not> handle w \<and> dq_buf (deque w) = []) \<and> (\<forall>r \<in> set (shards P). cells r = []) \<and>
     \<not> mon_handle P \<and> \<not> wait_inited P"

definition idle_threads :: "ThreadPool \<Rightarrow> bool" where
  "idle_threads P \<longleftrightarrow> (\<forall>w \<in> set (workers P). \<not> handle w) \<and> \<not> mon_handle P"

lemma total_pending_zero: "ctrs P = replicate (n_ctrs P) 0 \<Longrightarrow> pool_total_pending P = Some 0"
proof -
  have "fold (\<lambda>v s. i64 (s + v)) (replicate n 0) 0 = 0" for n by (induction n) (simp_all add: i64_def)
  then show "ctrs P = replicate (n_ctrs P) 0 \<Longrightarrow> pool_total_pending P = Some 0" by (simp add: pool_total_pending_def)
qed

lemma wake_join_eq: "i < length (workers P) \<Longrightarrow> wake_join i P = upd_worker i (\<lambda>w. w\<lparr>wait := 1, handle := False\<rparr>) P"
  by (simp add: wake_join_def pool_thread_join_def thread_wait_wake_def upd_worker_twice)

lemma wake_joins:
  assumes "n \<le> length (workers P)"
  shows "fold wake_join [0..<n] P =
    P\<lparr>workers := map (\<lambda>w. w\<lparr>wait := 1, handle := False\<rparr>) (take n (workers P)) @ drop n (workers P)\<rparr>"
  using assms
proof (induction n)
  case (Suc n)
  let ?f = "\<lambda>w. w\<lparr>wait := 1, handle := False\<rparr>"
  let ?ws = "map ?f (take n (workers P)) @ drop n (workers P)"
  have d: "drop n (workers P) = workers P ! n # drop (Suc n) (workers P)" using Suc(2) by (simp add: Cons_nth_drop_Suc)
  have "fold wake_join [0..<Suc n] P = wake_join n (P\<lparr>workers := ?ws\<rparr>)" using Suc by simp
  also have "\<dots> = P\<lparr>workers := ?ws[n := ?f (?ws ! n)]\<rparr>" using Suc(2) by (simp add: wake_join_eq upd_worker_def)
  also have "?ws[n := ?f (?ws ! n)] = map ?f (take (Suc n) (workers P)) @ drop (Suc n) (workers P)"
    using Suc(2) by (simp add: d nth_append list_update_append take_Suc_conv_app_nth min_def)
  finally show ?case .
qed simp

lemma create_failed_released:
  assumes "ctrs P = replicate (n_ctrs P) 0" "stop P = 0 \<or> idle_threads P"
  shows "\<exists>R. create_failed P = Some (No_pool (Some R)) \<and> released R"
proof (cases "stop P = 0")
  case True
  let ?P = "P\<lparr>stop := 1, mon_wait := 1, mon_handle := False\<rparr>"
  have "fold wake_join [0..<length (workers P)] ?P = ?P\<lparr>workers := map (\<lambda>w. w\<lparr>wait := 1, handle := False\<rparr>) (workers P)\<rparr>"
    using wake_joins [of "length (workers P)" ?P] by simp
  then show ?thesis using True total_pending_zero [OF assms(1)]
    by (simp add: create_failed_def pool_destroy_relative_def pool_wait_idle_relative_def released_def pool_deque_free_def pool_ring_free_def)
next
  case False
  then show ?thesis using assms(2)
    by (simp add: create_failed_def pool_destroy_relative_def released_def idle_threads_def pool_deque_free_def pool_ring_free_def)
qed

section \<open>The loops\<close>

definition mem_ok :: "create_env \<Rightarrow> bool" where
  "mem_ok V \<longleftrightarrow> (\<forall>s cs. ring_mem V s = Some cs \<longrightarrow> length cs = POOL_SHARD_CAP) \<and> (\<forall>i b. deque_mem V i = Some b \<longrightarrow> int (length b) = POOL_DEQUE_CAP)"

lemma init_rings_result:
  assumes "mem_ok V" "distinct ss" "\<forall>s \<in> set ss. s < length (shards P)"
  shows "\<exists>rs. init_rings V ss P = ((\<forall>s \<in> set ss. ring_mem V s \<noteq> None), P\<lparr>shards := rs\<rparr>) \<and> length rs = length (shards P) \<and>
    ((\<forall>s \<in> set ss. ring_mem V s \<noteq> None) \<longrightarrow>
       (\<forall>s < length rs. if s \<in> set ss then pr_valid (rs ! s) \<and> ring_tasks (rs ! s) = [] else rs ! s = shards P ! s))"
  using assms
proof (induction ss arbitrary: P)
  case Nil
  then show ?case by (intro exI [of _ "shards P"]) simp
next
  case (Cons s ss)
  show ?case
  proof (cases "ring_mem V s")
    case None
    then show ?thesis by (auto simp: pool_ring_init_def upd_shard_def)
  next
    case (Some cs)
    let ?r = "snd (pool_ring_init (Some cs) POOL_SHARD_CAP (shards P ! s))"
    have len: "length cs = 2 ^ 12" using Cons(2) Some by (simp add: mem_ok_def)
    have r: "pool_ring_init (Some cs) POOL_SHARD_CAP (shards P ! s) = (True, ?r)" by (simp add: pool_ring_init_def)
    have rv: "pr_valid ?r" "ring_tasks ?r = []" using pool_ring_init_valid [OF len, of "shards P ! s"] by simp_all
    have step: "init_rings V (s # ss) P = init_rings V ss (upd_shard s ?r P)" using Some by (simp add: pool_ring_init_def Let_def)
    obtain rs where rs: "init_rings V ss (upd_shard s ?r P) = ((\<forall>s \<in> set ss. ring_mem V s \<noteq> None), (upd_shard s ?r P)\<lparr>shards := rs\<rparr>)"
      "length rs = length (shards P)"
      "(\<forall>s \<in> set ss. ring_mem V s \<noteq> None) \<longrightarrow> (\<forall>s' < length rs. if s' \<in> set ss then pr_valid (rs ! s') \<and> ring_tasks (rs ! s') = []
         else rs ! s' = (shards P)[s := ?r] ! s')"
      using Cons(1) [of "upd_shard s ?r P"] Cons(2-4) by (auto simp: upd_shard_def)
    have "if s' \<in> set (s # ss) then pr_valid (rs ! s') \<and> ring_tasks (rs ! s') = [] else rs ! s' = shards P ! s'"
      if "\<forall>s \<in> set (s # ss). ring_mem V s \<noteq> None" "s' < length rs" for s'
      using rs(2,3) that rv Cons(3,4) by (cases "s' = s") auto
    then show ?thesis using rs(1,2) step Some by (intro exI [of _ rs]) (auto simp: upd_shard_def)
  qed
qed

definition made :: "ThreadPool \<Rightarrow> nat \<Rightarrow> PoolWorker \<Rightarrow> bool" where
  "made P i w \<longleftrightarrow> worker_valid (n_shards P) (n_total P) w \<and> worker_tasks w = {#} \<and> is_core w = (i < n_core P) \<and>
     is_elastic w = (n_workers P \<le> i) \<and> parked w = (if n_workers P \<le> i then 1 else 0)"

lemma made_upd [simp]: "made (upd_worker j f P) i w = made P i w"
  by (simp add: made_def)

lemma pool_deque_init_valid:
  assumes "int (length b) = POOL_DEQUE_CAP"
  shows "\<exists>d'. pool_deque_init (Some b) POOL_DEQUE_CAP d = (True, d') \<and> deque_valid d' \<and> deque_tasks d' = []"
proof -
  have "length b = 2 ^ 12" using assms by simp
  moreover have "\<exists>k. (4096::int) = 2 ^ k \<and> (4095::int) = 2 ^ k - 1 \<and> (4096::nat) = 2 ^ k" by (intro exI [of _ 12]) simp
  ultimately show ?thesis by (simp add: pool_deque_init_def deque_valid_def dq_inv_def deque_tasks_def)
qed

lemma worker_made:
  assumes "deque_valid d" "deque_tasks d = []" "length (pending w) = 2" "0 < n_shards P" "n_shards P + n_total P < 2 ^ 31" "i < n_total P"
  shows "made P i (w\<lparr>is_core := i < n_core P, is_elastic := i \<ge> n_workers P, shard_cursor := of_nat (i mod n_shards P),
            steal_cursor := of_nat i, lifo_full := False, lifo_streak := 0, pend_i := 0, pend_n := 0, wait := 0,
            parked := (if i \<ge> n_workers P then 1 else 0), deque := d\<rparr>)"
proof -
  have "i mod n_shards P < n_shards P" using assms(4) by simp
  moreover have "unat (of_nat i :: w32) = i" "unat (of_nat (i mod n_shards P) :: w32) = i mod n_shards P"
    using assms(5,6) calculation by (simp_all add: unat_of_nat)
  ultimately show ?thesis using assms by (simp add: made_def worker_valid_def worker_tasks_def)
qed

lemma init_workers_result:
  assumes "mem_ok V" "distinct is" "\<forall>i \<in> set is. i < length (workers P)" "length (workers P) = n_total P"
    "0 < n_shards P" "n_shards P + n_total P < 2 ^ 31" "\<forall>w \<in> set (workers P). length (pending w) = 2 \<and> \<not> handle w"
  shows "\<exists>ws. init_workers V is P = ((\<forall>i \<in> set is. deque_mem V i \<noteq> None), P\<lparr>workers := ws\<rparr>) \<and> length ws = length (workers P) \<and>
    (\<forall>w \<in> set ws. \<not> handle w) \<and>
    ((\<forall>i \<in> set is. deque_mem V i \<noteq> None) \<longrightarrow> (\<forall>i < length ws. if i \<in> set is then made P i (ws ! i) else ws ! i = workers P ! i))"
  using assms
proof (induction "is" arbitrary: P)
  case Nil
  then show ?case by (intro exI [of _ "workers P"]) simp
next
  case (Cons i "is")
  let ?w = "(worker P i)\<lparr>is_core := i < n_core P, is_elastic := i \<ge> n_workers P, shard_cursor := of_nat (i mod n_shards P),
            steal_cursor := of_nat i, lifo_full := False, lifo_streak := 0, pend_i := 0, pend_n := 0, wait := 0,
            parked := (if i \<ge> n_workers P then 1 else 0)\<rparr>"
  have i: "i < length (workers P)" "worker P i \<in> set (workers P)" using Cons(4) by simp_all
  have wi: "length (pending (worker P i)) = 2" "\<not> handle (worker P i)" using Cons(8) i by simp_all
  show ?case
  proof (cases "deque_mem V i")
    case None
    let ?ws = "(workers P)[i := ?w\<lparr>deque := deque ?w\<lparr>dq_buf := []\<rparr>\<rparr>]"
    have "init_workers V (i # is) P = (False, P\<lparr>workers := ?ws\<rparr>)"
      using None by (simp add: pool_deque_init_def upd_worker_def Let_def)
    moreover have "\<forall>w \<in> set ?ws. \<not> handle w" using Cons(8) wi by (auto dest: set_update_subset_insert [THEN subsetD])
    ultimately show ?thesis using None by (intro exI [of _ ?ws]) simp
  next
    case (Some b)
    then have "int (length b) = POOL_DEQUE_CAP" using Cons(2) by (simp add: mem_ok_def)
    from pool_deque_init_valid [OF this] obtain d where
      d: "pool_deque_init (Some b) POOL_DEQUE_CAP (deque (worker P i)) = (True, d)" "deque_valid d" "deque_tasks d = []" by blast
    let ?v = "?w\<lparr>deque := d\<rparr>"
    let ?P = "upd_worker i (\<lambda>_. ?v) P"
    have mv: "made P i ?v" using worker_made [OF d(2,3) wi(1) Cons(6,7)] i Cons(5) by simp
    have step: "init_workers V (i # is) P = init_workers V is ?P" using Some d(1) by (simp add: Let_def)
    have hw: "\<forall>w \<in> set (workers ?P). length (pending w) = 2 \<and> \<not> handle w"
      using Cons(8) wi by (auto simp: upd_worker_def dest!: set_update_subset_insert [THEN subsetD])
    have lp: "length (workers ?P) = length (workers P)" by (simp add: upd_worker_def)
    have pre: "distinct is" "\<forall>j \<in> set is. j < length (workers ?P)" "length (workers ?P) = n_total ?P" "0 < n_shards ?P"
      "n_shards ?P + n_total ?P < 2 ^ 31" using Cons(3-7) by (simp_all add: lp)
    obtain ws where ws: "init_workers V is ?P = ((\<forall>i \<in> set is. deque_mem V i \<noteq> None), ?P\<lparr>workers := ws\<rparr>)"
      "length ws = length (workers ?P)" "\<forall>w \<in> set ws. \<not> handle w"
      "(\<forall>i \<in> set is. deque_mem V i \<noteq> None) \<longrightarrow> (\<forall>j < length ws. if j \<in> set is then made ?P j (ws ! j) else ws ! j = workers ?P ! j)"
      using Cons(1) [OF Cons(2) pre hw] by blast
    have "if j \<in> set (i # is) then made P j (ws ! j) else ws ! j = workers P ! j"
      if a: "\<forall>i \<in> set (i # is). deque_mem V i \<noteq> None" "j < length ws" for j
    proof (cases "j = i")
      case True
      then have "ws ! i = ?v" using ws(4) a Cons(3) i(1) by (auto simp: upd_worker_def)
      then show ?thesis using mv True by simp
    next
      case False
      have "if j \<in> set is then made ?P j (ws ! j) else ws ! j = workers ?P ! j" using ws(4) a by auto
      then show ?thesis using False by (cases "j \<in> set is") (simp_all add: worker_upd [OF i(1)])
    qed
    then show ?thesis using ws(1-3) step Some lp by (intro exI [of _ ws]) (auto simp: upd_worker_def)
  qed
qed

definition with_handle :: "bool \<Rightarrow> PoolWorker \<Rightarrow> PoolWorker" where
  "with_handle b w = w\<lparr>handle := b\<rparr>"

lemma with_handle_same [simp]:
  "worker_valid ns nt (with_handle b w) = worker_valid ns nt w" "worker_tasks (with_handle b w) = worker_tasks w"
  "parked (with_handle b w) = parked w" "handle (with_handle b w) = b"
  by (simp_all add: with_handle_def worker_valid_def worker_tasks_def)

lemma start_workers_result:
  "k \<le> n \<Longrightarrow> n = length (workers P) \<Longrightarrow> \<forall>i < n. k \<le> i \<longrightarrow> \<not> handle (worker P i) \<Longrightarrow>
   \<exists>ok P'. start_workers V [k..<n] P = (ok, P') \<and> (ok \<longleftrightarrow> (\<forall>i \<in> {k..<n}. thread_ok V i)) \<and>
     (ok \<longrightarrow> P' = P\<lparr>workers := take k (workers P) @ map (with_handle True) (drop k (workers P))\<rparr>) \<and>
     (\<not> ok \<longrightarrow> (\<forall>w \<in> set (workers P'). \<not> handle w) \<and> (\<exists>ws. P' = P\<lparr>stop := 1, workers := ws\<rparr>))"
proof (induction "n - k" arbitrary: k P)
  case 0
  then show ?case by (intro exI [of _ True] exI [of _ P]) simp
next
  case (Suc m)
  then have k: "k < n" "[k..<n] = k # [k + 1..<n]" by (simp_all add: upt_rec)
  show ?case
  proof (cases "thread_ok V k")
    case False
    let ?P = "fold wake_join [0..<k] (P\<lparr>stop := 1\<rparr>)"
    have "?P = P\<lparr>stop := 1, workers := map (\<lambda>w. w\<lparr>wait := 1, handle := False\<rparr>) (take k (workers P)) @ drop k (workers P)\<rparr>"
      using wake_joins [of k "P\<lparr>stop := 1\<rparr>"] Suc(4) k by simp
    moreover have "\<not> handle w" if "w \<in> set (drop k (workers P))" for w
      using that Suc(4,5) by (auto simp: in_set_conv_nth)
    moreover have "\<not> (\<forall>i \<in> {k..<n}. thread_ok V i)" using False k by auto
    ultimately show ?thesis using False by (auto simp: k(2))
  next
    case True
    let ?P = "upd_worker k (\<lambda>w. w\<lparr>handle := True\<rparr>) P"
    have lp: "n = length (workers ?P)" using Suc(4) by (simp add: upd_worker_def)
    have nh: "\<forall>i < n. k + 1 \<le> i \<longrightarrow> \<not> handle (worker ?P i)" using Suc(4,5) k by (simp add: worker_upd)
    have mm: "m = n - (k + 1)" "k + 1 \<le> n" using Suc(2) k(1) by simp_all
    from Suc(1) [OF mm lp nh] obtain ok P' where ih: "start_workers V [k + 1..<n] ?P = (ok, P')"
      "ok \<longleftrightarrow> (\<forall>i \<in> {k + 1..<n}. thread_ok V i)"
      "ok \<longrightarrow> P' = ?P\<lparr>workers := take (k + 1) (workers ?P) @ map (with_handle True) (drop (k + 1) (workers ?P))\<rparr>"
      "\<not> ok \<longrightarrow> (\<forall>w \<in> set (workers P'). \<not> handle w) \<and> (\<exists>ws. P' = ?P\<lparr>stop := 1, workers := ws\<rparr>)"
      by (elim exE conjE) (rule that)
    have "take (k + 1) (workers ?P) @ map (with_handle True) (drop (k + 1) (workers ?P)) =
      take k (workers P) @ map (with_handle True) (drop k (workers P))"
      using k(1) Suc(4) by (simp add: upd_worker_def take_Suc_conv_app_nth with_handle_def Cons_nth_drop_Suc [symmetric])
    then have s: "ok \<longrightarrow> P' = P\<lparr>workers := take k (workers P) @ map (with_handle True) (drop k (workers P))\<rparr>"
      using ih(3) by (simp add: upd_worker_def)
    have f: "\<not> ok \<longrightarrow> (\<forall>w \<in> set (workers P'). \<not> handle w) \<and> (\<exists>ws. P' = P\<lparr>stop := 1, workers := ws\<rparr>)"
      using ih(4) by (auto simp: upd_worker_def)
    have "{k..<n} = insert k {k + 1..<n}" using k(1) by auto
    then have o: "ok \<longleftrightarrow> (\<forall>i \<in> {k..<n}. thread_ok V i)" using ih(2) True by auto
    show ?thesis using ih(1) o s f True by (auto simp: k(2))
  qed
qed

section \<open>The creation\<close>

definition cores_of :: "create_env \<Rightarrow> int \<Rightarrow> int" where
  "cores_of V c = max 1 (if c > 0 then c else cpus V)"

definition resources :: "create_env \<Rightarrow> int \<Rightarrow> bool" where
  "resources V c \<longleftrightarrow> shards_mem V \<and> workers_mem V \<and> (\<forall>s < nat (max 1 (cores_of V c div 4)). ring_mem V s \<noteq> None) \<and>
     (\<forall>i < nat (2 * cores_of V c). deque_mem V i \<noteq> None \<and> thread_ok V i) \<and> monitor_ok V"

lemma pool_shape_value:
  assumes "cores_of V c * 7 < 2 ^ 31"
  shows "pool_shape (cpus V) c = (max 1 (7 * cores_of V c div 10), cores_of V c, cores_of V c, max 1 (cores_of V c div 4))"
proof -
  define n where "n = cores_of V c"
  have n: "1 \<le> n" "n * 7 < 2 ^ 31" using assms by (simp_all add: n_def cores_of_def)
  have i: "i32 (n * 7) = n * 7" using n by (simp add: i32_id)
  have d: "c_div (n * 7) 10 = 7 * n div 10" "c_div n 4 = n div 4" "c_div n 1 = n"
    using n by (simp_all add: c_div_def mult.commute)
  have m: "7 * n div 10 \<le> n" "1 \<le> n" using n(1) by simp_all
  have "pool_shape (cpus V) c =
     (let nc = c_div (i32 (n * 7)) 10; nc = (if nc < 1 then 1 else nc); nc = (if nc > n then n else nc);
          ne = c_div (n * 1) 1; ne = (if ne < 0 then 0 else ne); G = c_div n 4; G = (if G < 1 then 1 else G)
      in (nc, n, ne, G))"
  proof -
    have "(if (if c > 0 then c else cpus V) < 1 then 1 else if c > 0 then c else cpus V) = n" "\<not> n < 1"
      using n(1) by (simp_all add: n_def cores_of_def max_def)
    then show ?thesis by (simp only: pool_shape_def Let_def if_False)
  qed
  also have "\<dots> = (max 1 (7 * n div 10), n, n, max 1 (n div 4))"
    using m by (simp add: i d Let_def max_def)
  finally show ?thesis by (simp add: n_def)
qed

definition outcome :: "create_env \<Rightarrow> int \<Rightarrow> create_result option \<Rightarrow> bool" where
  "outcome V c r = (case r of
     None \<Rightarrow> pool_mem V \<and> \<not> ctrs_mem V
   | Some (No_pool None) \<Rightarrow> \<not> pool_mem V
   | Some (No_pool (Some R)) \<Rightarrow> released R \<and> \<not> resources V c
   | Some (New_pool P) \<Rightarrow> resources V c \<and> fresh_pool P \<and>
       pool_dims_relative (Some P) = Some (nat (cores_of V c), nat (max 1 (7 * cores_of V c div 10))) \<and> mon_handle P \<and>
       (\<forall>i < n_total P. handle (worker P i) \<and> parked (worker P i) = (if n_workers P \<le> i then 1 else 0)))"

lemma outcome_failed:
  "ctrs P = replicate (n_ctrs P) 0 \<Longrightarrow> stop P = 0 \<or> idle_threads P \<Longrightarrow> \<not> resources V c \<Longrightarrow> outcome V c (create_failed P)"
  using create_failed_released [of P] by (auto simp: outcome_def)

lemma started_fresh:
  assumes "pool_valid P" "ring_tasks ` set (shards P) \<subseteq> {[]}" "worker_tasks ` set (workers P) \<subseteq> {{#}}" "sum_list (ctrs P) = 0"
  shows "fresh_pool P"
proof -
  have "sum_list (map (\<lambda>r. mset (ring_tasks r)) (shards P)) = {#}" "sum_list (map worker_tasks (workers P)) = {#}"
    using assms(2,3) by (auto intro!: sum_list_zero)
  then show ?thesis using assms(1,4) by (simp add: fresh_pool_def queued_def)
qed

lemma start_phase:
  assumes nt: "n_total P = length (workers P)" and z: "ctrs P = replicate (n_ctrs P) 0" "stop P = 0" "\<not> mon_handle P"
    and h: "\<forall>w \<in> set (workers P). \<not> handle w"
    and no: "\<not> ((\<forall>i < n_total P. thread_ok V i) \<and> monitor_ok V) \<Longrightarrow> \<not> resources V c"
    and yes: "(\<forall>i < n_total P. thread_ok V i) \<and> monitor_ok V \<Longrightarrow>
      outcome V c (Some (New_pool (P\<lparr>workers := map (with_handle True) (workers P), mon_wait := 0, mon_handle := True\<rparr>)))"
  shows "outcome V c (case start_workers V [0..<n_total P] P of
      (False, P3) \<Rightarrow> create_failed P3
    | (True, P3) \<Rightarrow> (case start_monitor V P3 of (False, P4) \<Rightarrow> create_failed P4 | (True, P4) \<Rightarrow> Some (New_pool P4)))"
proof -
  obtain ok P' where s: "start_workers V [0..<n_total P] P = (ok, P')" "ok \<longleftrightarrow> (\<forall>i \<in> {0..<n_total P}. thread_ok V i)"
    "ok \<longrightarrow> P' = P\<lparr>workers := take 0 (workers P) @ map (with_handle True) (drop 0 (workers P))\<rparr>"
    "\<not> ok \<longrightarrow> (\<forall>w \<in> set (workers P'). \<not> handle w) \<and> (\<exists>ws. P' = P\<lparr>stop := 1, workers := ws\<rparr>)"
    using start_workers_result [of 0 "n_total P" P V] nt h by (auto simp del: upt_Suc)
  show ?thesis
  proof (cases ok)
    case False
    then have "\<not> resources V c" using s(2) no by fastforce
    then have "outcome V c (create_failed P')" using s(4) False z by (intro outcome_failed) (auto simp: idle_threads_def)
    then show ?thesis using s(1) False by simp
  next
    case True
    let ?P = "P\<lparr>workers := map (with_handle True) (workers P)\<rparr>"
    have p: "P' = ?P" using s(3) True by simp
    show ?thesis
    proof (cases "monitor_ok V")
      case m: True
      then show ?thesis using yes s(1,2) True p by (simp add: start_monitor_def)
    next
      case m: False
      let ?R = "fold wake_join [0..<n_total P] (?P\<lparr>mon_wait := 0, stop := 1\<rparr>)"
      have "?R = ?P\<lparr>mon_wait := 0, stop := 1, workers := map (\<lambda>w. w\<lparr>wait := 1, handle := False\<rparr>) (workers ?P)\<rparr>"
        using wake_joins [of "n_total P" "?P\<lparr>mon_wait := 0, stop := 1\<rparr>"] nt by simp
      then have "outcome V c (create_failed ?R)" using z no m by (intro outcome_failed) (auto simp: idle_threads_def)
      then show ?thesis using s(1) True p m by (simp add: start_monitor_def)
    qed
  qed
qed

lemma blank_fields:
  assumes "cores_of V c * 7 < 2 ^ 31" "ctrs_mem V" "shards_mem V" "workers_mem V"
  defines "P \<equiv> (pool_blank (pool_shape (cpus V) c) V)\<lparr>wait_inited := True\<rparr>"
  shows "n_core P = nat (max 1 (7 * cores_of V c div 10))" "n_workers P = nat (cores_of V c)" "n_total P = nat (2 * cores_of V c)"
    "n_shards P = nat (max 1 (cores_of V c div 4))" "n_ctrs P = n_shards P + n_total P" "ctrs P = replicate (n_ctrs P) 0"
    "shards P = replicate (n_shards P) ring_zero" "workers P = replicate (n_total P) worker_zero" "stop P = 0" "\<not> mon_handle P"
  using assms(2-4) by (simp_all add: P_def pool_blank_def Let_def pool_shape_value [OF assms(1)])

lemma pool_create_outcome:
  assumes "mem_ok V" "cores_of V c * 7 < 2 ^ 31"
  shows "outcome V c (pool_create_relative V c)"
proof (cases "pool_mem V \<and> ctrs_mem V \<and> shards_mem V \<and> workers_mem V")
  case False
  let ?P = "pool_blank (pool_shape (cpus V) c) V"
  consider "\<not> pool_mem V" | "pool_mem V" "\<not> ctrs_mem V" | "pool_mem V" "ctrs_mem V" "\<not> (shards_mem V \<and> workers_mem V)"
    using False by blast
  then show ?thesis
  proof cases
    case 1
    then show ?thesis by (simp add: pool_create_relative_def outcome_def)
  next
    case 2
    have "length (ctrs ?P) < n_ctrs ?P" "stop ?P = 0"
      using 2 by (simp_all add: pool_blank_def Let_def pool_shape_value [OF assms(2)] cores_of_def)
    then have "create_failed ?P = None"
      by (simp add: create_failed_def pool_destroy_relative_def pool_wait_idle_relative_def pool_total_pending_def)
    then show ?thesis using 2 by (simp add: pool_create_relative_def outcome_def Let_def)
  next
    case 3
    then have "outcome V c (create_failed ?P)"
      by (intro outcome_failed) (auto simp: pool_blank_def Let_def pool_shape_value [OF assms(2)] resources_def)
    then show ?thesis using 3 by (auto simp: pool_create_relative_def Let_def)
  qed
next
  case True
  define P where "P = (pool_blank (pool_shape (cpus V) c) V)\<lparr>wait_inited := True\<rparr>"
  have m: "ctrs_mem V" "shards_mem V" "workers_mem V" using True by simp_all
  note f = blank_fields [OF assms(2) m, folded P_def]
  have n: "1 \<le> cores_of V c" "cores_of V c * 7 < 2147483648" using assms(2) by (simp_all add: cores_of_def)
  have dims: "0 < n_shards P" "0 < n_core P" "n_core P \<le> n_workers P" "n_workers P \<le> n_total P" "0 < n_total P" "n_shards P + n_total P < 2 ^ 31"
    using n by (simp_all add: f(1-4))
  define rings where "rings \<longleftrightarrow> (\<forall>s < n_shards P. ring_mem V s \<noteq> None)"
  have all: "(\<forall>s \<in> set [0..<k]. g s \<noteq> None) \<longleftrightarrow> (\<forall>s < k. g s \<noteq> None)" for g :: "nat \<Rightarrow> 'z option" and k by auto
  have sl: "\<forall>s \<in> set [0..<n_shards P]. s < length (shards P)" by (simp add: f(7))
  obtain rs where r0: "init_rings V [0..<n_shards P] P = (rings, P\<lparr>shards := rs\<rparr>)" "length rs = length (shards P)"
    "rings \<longrightarrow> (\<forall>s < length rs. if s \<in> set [0..<n_shards P] then pr_valid (rs ! s) \<and> ring_tasks (rs ! s) = [] else rs ! s = shards P ! s)"
    using init_rings_result [OF assms(1) distinct_upt sl, unfolded all, folded rings_def] by (elim exE conjE) (rule that)
  have r: "init_rings V [0..<n_shards P] P = (rings, P\<lparr>shards := rs\<rparr>)" "length rs = n_shards P"
    "rings \<longrightarrow> (\<forall>s < n_shards P. pr_valid (rs ! s) \<and> ring_tasks (rs ! s) = [])"
    using r0 by (simp_all add: f(7))
  let ?P1 = "P\<lparr>shards := rs\<rparr>"
  have res: "resources V c \<Longrightarrow> rings \<and> (\<forall>i < n_total P. deque_mem V i \<noteq> None) \<and> (\<forall>i < n_total P. thread_ok V i) \<and> monitor_ok V"
    by (simp add: resources_def rings_def f(3,4))
  show ?thesis
  proof (cases rings)
    case nor: False
    then have "\<not> resources V c" using res by blast
    then have "outcome V c (create_failed ?P1)" using f(6,9) by (intro outcome_failed) simp_all
    then show ?thesis using True r(1) nor by (simp add: pool_create_relative_def Let_def P_def)
  next
    case rings: True
    define deques where "deques \<longleftrightarrow> (\<forall>i < n_total P. deque_mem V i \<noteq> None)"
    have wl: "\<forall>i \<in> set [0..<n_total P]. i < length (workers ?P1)" "length (workers ?P1) = n_total ?P1" "0 < n_shards ?P1"
      "n_shards ?P1 + n_total ?P1 < 2 ^ 31" "\<forall>w \<in> set (workers ?P1). length (pending w) = 2 \<and> \<not> handle w"
      using dims by (simp_all add: f(8) worker_zero_def)
    obtain ws where w0: "init_workers V [0..<n_total P] ?P1 = (deques, ?P1\<lparr>workers := ws\<rparr>)" "length ws = length (workers ?P1)" "\<forall>w \<in> set ws. \<not> handle w"
      "deques \<longrightarrow> (\<forall>i < length ws. if i \<in> set [0..<n_total P] then made ?P1 i (ws ! i) else ws ! i = workers ?P1 ! i)"
      using init_workers_result [OF assms(1) distinct_upt wl, unfolded all, folded deques_def] by (elim exE conjE) (rule that)
    have w: "init_workers V [0..<n_total P] ?P1 = (deques, ?P1\<lparr>workers := ws\<rparr>)" "length ws = n_total P" "\<forall>w \<in> set ws. \<not> handle w"
      "deques \<longrightarrow> (\<forall>i < n_total P. made ?P1 i (ws ! i))"
      using w0 by (simp_all add: f(8))
    let ?P2 = "?P1\<lparr>workers := ws\<rparr>"
    show ?thesis
    proof (cases deques)
      case nod: False
      then have "\<not> resources V c" using res unfolding deques_def by blast
      then have "outcome V c (create_failed ?P2)" using f(6,9) by (intro outcome_failed) simp_all
      then show ?thesis using True r(1) w(1) rings nod by (simp add: pool_create_relative_def Let_def P_def)
    next
      case deques: True
      let ?R = "?P2\<lparr>workers := map (with_handle True) ws, mon_wait := 0, mon_handle := True\<rparr>"
      have mk: "made P i (ws ! i)" if "i < n_total P" for i using w(4) deques that by (simp add: made_def)
      have "worker_valid (n_shards P) (n_total P) v \<and> worker_tasks v = {#}" if "v \<in> set (map (with_handle True) ws)" for v
        using that mk w(2) by (auto simp: in_set_conv_nth made_def)
      then have v: "pool_valid ?R" "worker_tasks ` set (workers ?R) \<subseteq> {{#}}"
        using r(2,3) rings w(2) dims f(5,6) by (auto simp: pool_valid_def in_set_conv_nth)
      have q: "ring_tasks ` set (shards ?R) \<subseteq> {[]}" "sum_list (ctrs ?R) = 0"
        using r(2,3) rings f(6) by (auto simp: in_set_conv_nth sum_list_replicate)
      have "resources V c" if "\<forall>i < n_total P. thread_ok V i" "monitor_ok V"
        using that True rings deques by (simp add: resources_def rings_def deques_def f(3,4))
      moreover have "handle (worker ?R i) \<and> parked (worker ?R i) = (if n_workers ?R \<le> i then 1 else 0)" if "i < n_total ?R" for i
        using that mk w(2) by (simp add: with_handle_def made_def)
      ultimately have yes: "outcome V c (Some (New_pool ?R))" if "(\<forall>i < n_total P. thread_ok V i) \<and> monitor_ok V"
        using that started_fresh [OF v(1) q(1) v(2) q(2)] by (simp add: outcome_def pool_dims_relative_def f(1,2))
      have "outcome V c (case start_workers V [0..<n_total ?P2] ?P2 of
          (False, P3) \<Rightarrow> create_failed P3
        | (True, P3) \<Rightarrow> (case start_monitor V P3 of (False, P4) \<Rightarrow> create_failed P4 | (True, P4) \<Rightarrow> Some (New_pool P4)))"
      proof (rule start_phase)
        show "n_total ?P2 = length (workers ?P2)" "ctrs ?P2 = replicate (n_ctrs ?P2) 0" "stop ?P2 = 0" "\<not> mon_handle ?P2"
          "\<forall>w \<in> set (workers ?P2). \<not> handle w" using w(2,3) f(6,9,10) by simp_all
        show "\<not> resources V c" if "\<not> ((\<forall>i < n_total ?P2. thread_ok V i) \<and> monitor_ok V)" using that res by auto
        show "outcome V c (Some (New_pool (?P2\<lparr>workers := map (with_handle True) (workers ?P2), mon_wait := 0, mon_handle := True\<rparr>)))"
          if "(\<forall>i < n_total ?P2. thread_ok V i) \<and> monitor_ok V" using yes that by simp
      qed
      then show ?thesis using True r(1) w(1) rings deques by (simp add: pool_create_relative_def Let_def P_def)
    qed
  qed
qed

text \<open>C27: creating a pool: without memory for the structure there is no pool and nothing to release; with it, but without the
  task counters, the creation crashes (its clean-up reads them); any other missing part, ring, deque, worker thread or
  monitor thread gives no pool, with every started thread joined and every buffer freed; and when nothing is missing
  the pool is valid, empty, with its counters at zero, the documented dimensions, every thread running and
  exactly the elastic workers parked.\<close>

theorem pool_create_outcomes:
  assumes "mem_ok V" "cores_of V c * 7 < 2 ^ 31"
  shows "outcome V c (pool_create_relative V c)"
  by (rule pool_create_outcome [OF assms])

definition full_env :: create_env where
  "full_env = \<lparr>cpus = 4, pool_mem = True, ctrs_mem = True, shards_mem = True, workers_mem = True,
     ring_mem = \<lambda>_. Some (replicate 4096 cell_zero), deque_mem = \<lambda>_. Some (replicate 4096 \<lparr>fn = 0, arg = 0\<rparr>),
     thread_ok = \<lambda>_. True, monitor_ok = True\<rparr>"

theorem pool_create_outcomes_witness:
  "(\<exists>P. pool_create_relative full_env 0 = Some (New_pool P) \<and> fresh_pool P \<and> pool_dims_relative (Some P) = Some (4, 2)) \<and>
   (\<exists>R. pool_create_relative (full_env\<lparr>thread_ok := \<lambda>i. i < 3\<rparr>) 0 = Some (No_pool (Some R)) \<and> released R)"
proof
  have m: "mem_ok full_env" "mem_ok (full_env\<lparr>thread_ok := \<lambda>i. i < 3\<rparr>)" by (simp_all add: mem_ok_def full_env_def)
  have c: "cores_of full_env 0 = 4" "cores_of (full_env\<lparr>thread_ok := \<lambda>i. i < 3\<rparr>) 0 = 4" by (simp_all add: cores_of_def full_env_def)
  have r: "resources full_env 0" by (simp add: resources_def full_env_def)
  have nr: "\<not> resources (full_env\<lparr>thread_ok := \<lambda>i. i < 3\<rparr>) 0" unfolding resources_def c by (auto intro!: exI [of _ 3])
  have f: "pool_mem full_env" "ctrs_mem full_env" by (simp_all add: full_env_def)
  show "\<exists>P. pool_create_relative full_env 0 = Some (New_pool P) \<and> fresh_pool P \<and> pool_dims_relative (Some P) = Some (4, 2)"
    using pool_create_outcomes [OF m(1), of 0] r f
    by (auto simp: outcome_def c split: option.splits create_result.splits)
  show "\<exists>R. pool_create_relative (full_env\<lparr>thread_ok := \<lambda>i. i < 3\<rparr>) 0 = Some (No_pool (Some R)) \<and> released R"
    using pool_create_outcomes [OF m(2), of 0] nr f
    by (auto simp: outcome_def c split: option.splits create_result.splits)
qed

end
