(* ===== verification/Numeric.thy ===== *)
theory Numeric
  imports Complex_Main String_Buffer
begin

text \<open>
  \<open>numeric.c\<close>: integers to text and back, and decimal fractions.  Texts are bytes of the pool's
  memory, read through a pointer; the optional error flag of the parsers is an option (NULL is
  None).  The \<open>int\<close> arithmetic of the parsers is kept at 32 bits with wrap-around.  The double
  operations of the C library are a record of functions.
\<close>

section \<open>Printing\<close>

text \<open>What \<open>sprintf\<close> writes for \<open>%d\<close>, without the final zero byte.\<close>

fun dec_digits :: "nat \<Rightarrow> 8 word list" where
  "dec_digits n = (if n < 10 then [48 + of_nat n] else dec_digits (n div 10) @ [48 + of_nat (n mod 10)])"

declare dec_digits.simps [simp del]

definition print_int :: "int \<Rightarrow> 8 word list" where
  "print_int v = (if v < 0 then 45 # dec_digits (nat (- v)) else dec_digits (nat v))"

text \<open>Without memory \<open>sprintf\<close> writes through NULL: None.\<close>

definition numeric_int_to_string :: "mem_env \<Rightarrow> nat \<Rightarrow> int \<Rightarrow> MemPool \<Rightarrow> (addr \<times> MemPool) option" where
  "numeric_int_to_string E t value P =
    (case memop_alloc_raw E t 22 P of
       (None, P1) \<Rightarrow> None
     | (Some dat, P1) \<Rightarrow>
         let out = print_int value; P2 = P1\<lparr>mem_bytes := store_text dat (length out + 1) out (mem_bytes P1)\<rparr>
         in Some (dat, set_byte (dat + length out) 0 P2))"

section \<open>Parsing\<close>

abbreviation (input) NUM_LENG :: nat where "NUM_LENG \<equiv> 22"

definition is_digit :: "8 word \<Rightarrow> bool" where
  "is_digit c \<longleftrightarrow> 48 \<le> c \<and> c \<le> 57"

definition digit_step :: "int \<Rightarrow> 8 word \<Rightarrow> int" where
  "digit_step result c = i32 (i32 (result * 10) + (uint c - 48))"

text \<open>The loop of \<open>numeric_parse_int\<close>: the value, and whether it met a character that is no digit.\<close>

function parse_int_loop :: "bytes \<Rightarrow> addr \<Rightarrow> nat \<Rightarrow> int \<Rightarrow> int \<times> bool" where
  "parse_int_loop m data ix result =
    (if ix < NUM_LENG then
       let c = m (data + ix) in
       if c = 0 then (result, False)
       else if is_digit c then parse_int_loop m data (ix + 1) (digit_step result c)
       else (result, True)
     else (result, False))"
  by pat_completeness auto
termination by (relation "measure (\<lambda>(m, data, ix, result). 22 - ix)") auto

declare parse_int_loop.simps [simp del]

definition numeric_parse_int :: "addr \<Rightarrow> int option \<Rightarrow> MemPool \<Rightarrow> int \<times> int option" where
  "numeric_parse_int data check_error P =
    (let m = mem_bytes P; is_negative = (m data = 45);
         (result, bad) = parse_int_loop m data (if is_negative then 1 else 0) 0
     in (if is_negative then i32 (- result) else result, if bad then map_option (\<lambda>_. 1) check_error else check_error))"

text \<open>The loop of \<open>numeric_parse_double\<close>: integer part, fraction and number of characters after the point.\<close>

function parse_double_loop :: "bytes \<Rightarrow> addr \<Rightarrow> nat \<Rightarrow> bool \<Rightarrow> int \<Rightarrow> int \<Rightarrow> nat \<Rightarrow> int \<times> int \<times> nat \<times> bool" where
  "parse_double_loop m data ix is_decimal result fr mult =
    (if ix < NUM_LENG then
       let c = m (data + ix) in
       if c = 0 then (result, fr, mult, False)
       else if is_decimal then
         if is_digit c then parse_double_loop m data (ix + 1) True result (digit_step fr c) (mult + 1)
         else (result, fr, mult + 1, True)
       else if c = 46 then parse_double_loop m data (ix + 1) True result fr mult
       else if is_digit c then parse_double_loop m data (ix + 1) False (digit_step result c) fr mult
       else (result, fr, mult, True)
     else (result, fr, mult, False))"
  by pat_completeness auto
termination by (relation "measure (\<lambda>(m, data, ix, d, r, f, k). 22 - ix)") auto

declare parse_double_loop.simps [simp del]

record 'd double_ops =
  d_int :: "int \<Rightarrow> 'd"
  d_pow10 :: "nat \<Rightarrow> 'd"
  d_add :: "'d \<Rightarrow> 'd \<Rightarrow> 'd"
  d_div :: "'d \<Rightarrow> 'd \<Rightarrow> 'd"
  d_neg :: "'d \<Rightarrow> 'd"

definition numeric_parse_double :: "'d double_ops \<Rightarrow> addr \<Rightarrow> int option \<Rightarrow> MemPool \<Rightarrow> 'd \<times> int option" where
  "numeric_parse_double D data check_error P =
    (let m = mem_bytes P; is_negative = (m data = 45);
         (result, fr, mult, bad) = parse_double_loop m data (if is_negative then 1 else 0) False 0 0 0;
         res = d_add D (d_int D result) (d_div D (d_int D fr) (d_pow10 D mult))
     in (if is_negative then d_neg D res else res, if bad then map_option (\<lambda>_. 1) check_error else check_error))"

section \<open>Digits\<close>

definition digits_value :: "8 word list \<Rightarrow> int" where
  "digits_value = foldl (\<lambda>a c. a * 10 + (uint c - 48)) 0"

lemma digits_value_simps [simp]: "digits_value [] = 0" "digits_value (cs @ [c]) = digits_value cs * 10 + (uint c - 48)"
  by (simp_all add: digits_value_def)

lemma i32_shift: "i32 (x + 2 ^ 32 * k) = i32 x"
proof -
  have "(x + 2 ^ 31 + 2 ^ 32 * k) mod 2 ^ 32 = (x + 2 ^ 31) mod 2 ^ 32" by (rule mod_mult_self2)
  then show ?thesis by (simp only: i32_def add.assoc add.commute [of "2 ^ 32 * k"])
qed

lemma i32_off: "\<exists>k. i32 x = x + 2 ^ 32 * k"
proof -
  have "i32 x = x - 2 ^ 32 * ((x + 2 ^ 31) div 2 ^ 32)"
    using minus_div_mult_eq_mod [of "x + 2 ^ 31" "2 ^ 32", symmetric] by (simp add: i32_def algebra_simps)
  then show ?thesis by (intro exI [of _ "- ((x + 2 ^ 31) div 2 ^ 32)"]) simp
qed

lemma i32_i32_neg: "i32 (- i32 x) = i32 (- x)"
proof -
  obtain k where "i32 x = x + 2 ^ 32 * k" using i32_off by blast
  then have "- i32 x = - x + 2 ^ 32 * (- k)" by simp
  then show ?thesis using i32_shift by metis
qed

lemma digit_step_i32: "digit_step (i32 x) c = i32 (x * 10 + (uint c - 48))"
proof -
  obtain k where k: "i32 x = x + 2 ^ 32 * k" using i32_off by blast
  obtain l where l: "i32 (i32 x * 10) = i32 x * 10 + 2 ^ 32 * l" using i32_off by blast
  have "i32 (i32 x * 10) + (uint c - 48) = x * 10 + (uint c - 48) + 2 ^ 32 * (k * 10 + l)"
    unfolding l unfolding k by (simp add: algebra_simps)
  then show ?thesis using i32_shift unfolding digit_step_def by metis
qed

lemma digits_head:
  assumes "bytes_from m (data + ix) (length (c # cs)) = c # cs" "\<forall>d \<in> set (c # cs). is_digit d"
  shows "m (data + ix) = c" "bytes_from m (data + (ix + 1)) (length cs) = cs" "c \<noteq> 0" "c \<noteq> 46" "is_digit c"
  using assms bytes_from_add [of m "data + ix" 1 "length cs"] by (auto simp: bytes_from_def upt_rec is_digit_def)

lemma parse_int_digits:
  "bytes_from m (data + ix) (length cs) = cs \<Longrightarrow> \<forall>c \<in> set cs. is_digit c \<Longrightarrow> ix + length cs \<le> NUM_LENG \<Longrightarrow>
   parse_int_loop m data ix (i32 a) = parse_int_loop m data (ix + length cs) (i32 (foldl (\<lambda>a c. a * 10 + (uint c - 48)) a cs))"
proof (induction cs arbitrary: ix a)
  case (Cons c cs)
  note h = digits_head [OF Cons(2,3)]
  have "parse_int_loop m data ix (i32 a) = parse_int_loop m data (ix + 1) (digit_step (i32 a) c)"
    using Cons(4) h by (subst parse_int_loop.simps) simp
  also have "\<dots> = parse_int_loop m data (ix + 1) (i32 (a * 10 + (uint c - 48)))" by (simp only: digit_step_i32)
  finally show ?case using Cons(1) [OF h(2)] Cons(3,4) by simp
qed simp

lemma parse_int_stop:
  "ix < NUM_LENG \<Longrightarrow> \<not> is_digit (m (data + ix)) \<Longrightarrow> parse_int_loop m data ix r = (r, m (data + ix) \<noteq> 0)"
  "parse_int_loop m data NUM_LENG r = (r, False)"
  by (subst parse_int_loop.simps, simp add: Let_def) (subst parse_int_loop.simps, simp)

definition signed :: "bool \<Rightarrow> int \<Rightarrow> int" where
  "signed neg v = (if neg then - v else v)"

lemma parse_int_reads:
  assumes "bytes_from (mem_bytes P) data (length txt + 1) = txt @ [c]" "txt = (if neg then [45] else []) @ ds"
    and "\<forall>d \<in> set ds. is_digit d" "length txt < NUM_LENG \<longrightarrow> \<not> is_digit c" "length txt \<le> NUM_LENG" "neg \<or> ds \<noteq> [] \<or> c \<noteq> 45"
  shows "numeric_parse_int data ce P =
    (i32 (signed neg (digits_value ds)), if c \<noteq> 0 \<and> length txt < NUM_LENG then map_option (\<lambda>_. 1) ce else ce)"
proof -
  let ?m = "mem_bytes P"
  let ?s = "if neg then 1 else (0 :: nat)"
  have tx: "bytes_from ?m data (length txt) = txt" "?m (data + length txt) = c" using assms(1) by (simp_all add: bytes_from_Suc)
  have lt: "length txt = ?s + length ds" using assms(2) by simp
  have ds: "bytes_from ?m (data + ?s) (length ds) = ds"
    using tx(1) assms(2) unfolding lt bytes_from_add by (simp add: bytes_from_def split: if_splits)
  have "?m data = (txt @ [c]) ! 0" using assms(1) nth_bytes_from [of 0 "length txt + 1" ?m data] by simp
  then have sign: "(?m data = 45) = neg" using assms(2,3,6) by (cases ds) (auto simp: is_digit_def)
  have "parse_int_loop ?m data ?s (i32 0) = parse_int_loop ?m data (length txt) (i32 (digits_value ds))"
    using parse_int_digits [OF ds assms(3), of 0] assms(5) lt by (simp add: digits_value_def)
  also have "\<dots> = (i32 (digits_value ds), c \<noteq> 0 \<and> length txt < NUM_LENG)"
    using parse_int_stop(1) [of "length txt" ?m data] parse_int_stop(2) assms(4,5) tx(2) by (cases "length txt < 22") auto
  finally show ?thesis by (simp add: numeric_parse_int_def sign signed_def i32_i32_neg Let_def)
qed

text \<open>\<open>numeric_parse_int\<close> reads an optional minus sign and the digits that follow, at most 22 characters in all: the
  result is their value wrapped to 32 bits, and the error flag is set exactly if what stops the digits within the
  22 characters is neither a digit nor the end of the text.  More digits are ignored without an error.\<close>

theorem parse_int_value:
  assumes "bytes_from (mem_bytes P) data (length txt + 1) = txt @ [c]" "txt = (if neg then [45] else []) @ ds"
    and "\<forall>d \<in> set ds. is_digit d" "length txt < NUM_LENG \<longrightarrow> \<not> is_digit c" "length txt \<le> NUM_LENG" "neg \<or> ds \<noteq> [] \<or> c \<noteq> 45"
  shows "numeric_parse_int data ce P =
    (i32 (signed neg (digits_value ds)), if c \<noteq> 0 \<and> length txt < NUM_LENG then map_option (\<lambda>_. 1) ce else ce)"
  by (rule parse_int_reads [OF assms])

text \<open>A fraction: the digits before and after the point.\<close>

lemma parse_double_digits:
  "bytes_from m (data + ix) (length cs) = cs \<Longrightarrow> \<forall>c \<in> set cs. is_digit c \<Longrightarrow> ix + length cs \<le> NUM_LENG \<Longrightarrow>
   parse_double_loop m data ix False (i32 a) f k =
     parse_double_loop m data (ix + length cs) False (i32 (foldl (\<lambda>a c. a * 10 + (uint c - 48)) a cs)) f k"
  "bytes_from m (data + ix) (length cs) = cs \<Longrightarrow> \<forall>c \<in> set cs. is_digit c \<Longrightarrow> ix + length cs \<le> NUM_LENG \<Longrightarrow>
   parse_double_loop m data ix True r (i32 a) k =
     parse_double_loop m data (ix + length cs) True r (i32 (foldl (\<lambda>a c. a * 10 + (uint c - 48)) a cs)) (k + length cs)"
proof (induction cs arbitrary: ix a k)
  case (Cons c cs)
  {
    case 1
    have "parse_double_loop m data ix False (i32 a) f k = parse_double_loop m data (ix + 1) False (digit_step (i32 a) c) f k"
      using 1(3) digits_head [OF 1(1,2)] by (subst parse_double_loop.simps) simp
    also have "\<dots> = parse_double_loop m data (ix + 1) False (i32 (a * 10 + (uint c - 48))) f k" by (simp only: digit_step_i32)
    finally show ?case using Cons(1) [OF digits_head(2) [OF 1(1,2)]] 1(2,3) by simp
  next
    case 2
    have "parse_double_loop m data ix True r (i32 a) k = parse_double_loop m data (ix + 1) True r (digit_step (i32 a) c) (k + 1)"
      using 2(3) digits_head [OF 2(1,2)] by (subst parse_double_loop.simps) simp
    also have "\<dots> = parse_double_loop m data (ix + 1) True r (i32 (a * 10 + (uint c - 48))) (k + 1)" by (simp only: digit_step_i32)
    finally show ?case using Cons(2) [OF digits_head(2) [OF 2(1,2)]] 2(2,3) by simp
  }
qed simp_all

lemma parse_double_stop:
  "ix < NUM_LENG \<Longrightarrow> \<not> is_digit (m (data + ix)) \<Longrightarrow> parse_double_loop m data ix True r f k =
     (r, f, if m (data + ix) = 0 then k else k + 1, m (data + ix) \<noteq> 0)"
  "ix < NUM_LENG \<Longrightarrow> m (data + ix) = 46 \<Longrightarrow> parse_double_loop m data ix False r f k = parse_double_loop m data (ix + 1) True r f k"
  by (subst parse_double_loop.simps, simp add: Let_def) (subst parse_double_loop.simps, simp)

text \<open>\<open>numeric_parse_double\<close> on a sign, digits, a point and digits, fewer than 22 characters: the integer part plus the
  digits after the point divided by their power of ten, without an error.  Both parts are accumulated in 32-bit
  integers, so a fraction of ten digits or more need not be the one written.\<close>

theorem parse_double_decimal:
  assumes "bytes_from (mem_bytes P) data (length txt + 1) = txt @ [0]" "txt = (if neg then [45] else []) @ ds @ [46] @ fs"
    and "\<forall>d \<in> set ds. is_digit d" "\<forall>d \<in> set fs. is_digit d" "length txt < NUM_LENG"
  shows "numeric_parse_double D data ce P =
    (let res = d_add D (d_int D (i32 (digits_value ds))) (d_div D (d_int D (i32 (digits_value fs))) (d_pow10 D (length fs)))
     in (if neg then d_neg D res else res, ce))"
proof -
  let ?m = "mem_bytes P"
  let ?s = "if neg then 1 else (0 :: nat)"
  let ?k = "?s + length ds"
  have tx: "bytes_from ?m data (length txt) = txt" "?m (data + length txt) = 0" using assms(1) by (simp_all add: bytes_from_Suc)
  have lt: "length txt = ?s + (length ds + (1 + length fs))" using assms(2) by simp
  have parts: "bytes_from ?m (data + ?s) (length ds) = ds" "?m (data + ?k) = 46" "bytes_from ?m (data + (?k + 1)) (length fs) = fs"
    using tx(1) assms(2) unfolding lt bytes_from_add by (simp_all add: bytes_from_def add.assoc split: if_splits)
  have "?m data = (txt @ [0]) ! 0" using assms(1) nth_bytes_from [of 0 "length txt + 1" ?m data] by simp
  then have sign: "(?m data = 45) = neg" using assms(2,3) by (cases ds) (auto simp: is_digit_def)
  have len: "?s + length ds \<le> NUM_LENG" "?k < NUM_LENG" "?k + 1 + length fs \<le> NUM_LENG" "length txt = ?k + 1 + length fs" using assms(5) lt by auto
  have "parse_double_loop ?m data ?s False (i32 0) 0 0 = parse_double_loop ?m data ?k False (i32 (digits_value ds)) 0 0"
    using parse_double_digits(1) [OF parts(1) assms(3) len(1), of 0 0 0] by (simp add: digits_value_def)
  also have "\<dots> = parse_double_loop ?m data (?k + 1) True (i32 (digits_value ds)) (i32 0) 0"
    using parse_double_stop(2) [of ?k ?m data] len(2) parts(2) by simp
  also have "\<dots> = parse_double_loop ?m data (length txt) True (i32 (digits_value ds)) (i32 (digits_value fs)) (length fs)"
    using parse_double_digits(2) [OF parts(3) assms(4) len(3), of "i32 (digits_value ds)" 0 0] by (simp add: digits_value_def len(4))
  also have "\<dots> = (i32 (digits_value ds), i32 (digits_value fs), length fs, False)"
    using parse_double_stop(1) [OF assms(5), of ?m data] tx(2) by (simp add: is_digit_def)
  finally have "parse_double_loop ?m data ?s False 0 0 0 = (i32 (digits_value ds), i32 (digits_value fs), length fs, False)" by simp
  then show ?thesis by (simp add: numeric_parse_double_def sign Let_def)
qed

section \<open>The round trip\<close>

lemma digit_byte: "n < 10 \<Longrightarrow> is_digit (48 + of_nat n) \<and> uint (48 + of_nat n :: 8 word) = 48 + int n"
proof -
  assume n: "n < 10"
  have "(48 + of_nat n :: 8 word) = of_nat (48 + n)" by simp
  then have u: "uint (48 + of_nat n :: 8 word) = 48 + int n" using n by (simp only: uint_nat unat_of_nat) simp
  then show ?thesis using n by (simp add: is_digit_def word_le_def)
qed

lemma dec_digits_props: "digits_value (dec_digits n) = int n \<and> (\<forall>d \<in> set (dec_digits n). is_digit d)"
proof (induction n rule: dec_digits.induct)
  case (1 n)
  show ?case
  proof (cases "n < 10")
    case True
    then show ?thesis using digit_byte [of n] by (subst (1 2) dec_digits.simps) (simp add: digits_value_def)
  next
    case False
    have "digits_value (dec_digits n) = int (n div 10) * 10 + int (n mod 10)"
      using 1 False digit_byte [of "n mod 10"] by (subst dec_digits.simps) simp
    also have "\<dots> = int (n div 10 * 10 + n mod 10)" by (simp only: of_nat_add of_nat_mult of_nat_numeral)
    also have "\<dots> = int n" by (simp only: div_mult_mod_eq)
    finally show ?thesis using 1 False digit_byte [of "n mod 10"] by (subst (2) dec_digits.simps) simp
  qed
qed

lemma dec_digits_length: "n < 10 ^ k \<Longrightarrow> 0 < k \<Longrightarrow> length (dec_digits n) \<le> k"
proof (induction k arbitrary: n)
  case (Suc k)
  show ?case
  proof (cases "n < 10")
    case True
    then show ?thesis by (subst dec_digits.simps) simp
  next
    case False
    then have "0 < k" using Suc(2) by (cases k) auto
    moreover have "n div 10 < 10 ^ k" using Suc(2) by (simp add: less_mult_imp_div_less mult.commute)
    ultimately have "length (dec_digits (n div 10)) \<le> k" using Suc(1) by simp
    then show ?thesis using False by (subst dec_digits.simps) simp
  qed
qed simp

lemma print_int_split:
  "print_int v = (if v < 0 then [45] else []) @ dec_digits (nat \<bar>v\<bar>)" "signed (v < 0) (digits_value (dec_digits (nat \<bar>v\<bar>))) = v"
  using dec_digits_props [of "nat \<bar>v\<bar>"] by (auto simp: print_int_def signed_def)

lemma print_int_length:
  assumes "- 2147483648 \<le> v" "v \<le> 2147483647"
  shows "length (print_int v) \<le> 11"
proof -
  have "nat \<bar>v\<bar> < 10 ^ 10" using assms by simp
  then have "length (dec_digits (nat \<bar>v\<bar>)) \<le> 10" by (rule dec_digits_length) simp
  moreover have "length (print_int v) \<le> length (dec_digits (nat \<bar>v\<bar>)) + 1" unfolding print_int_split(1) [of v] by simp
  ultimately show ?thesis by linarith
qed

text \<open>C16: printing and reading back: for every \<open>int\<close>, \<open>numeric_int_to_string\<close> puts into a fresh block of the pool, within
  its 22 bytes and leaving every other block alone, a text that \<open>numeric_parse_int\<close> reads back as the same number
  without an error; or, when the pool has no memory, it crashes.\<close>

theorem int_to_string_roundtrip:
  assumes "mmap_law (env_mmap E)" "client E P B" "- 2147483648 \<le> v" "v \<le> 2147483647"
  shows "case numeric_int_to_string E t v P of
      None \<Rightarrow> fst (memop_alloc_raw E t 22 P) = None
    | Some (dat, P') \<Rightarrow> dat \<notin> B \<and> client E P' (insert dat B) \<and> keeps B P P' \<and> numeric_parse_int dat ce P' = (v, ce)"
proof -
  obtain r P1 where a: "memop_alloc_raw E t 22 P = (r, P1)" by force
  note pu = pool_user.intro [OF assms(1)]
  have sz: "(22 :: nat) \<le> max_request" by (simp add: max_request_def)
  note u = pool_user.user_alloc [OF pu assms(2) sz a]
  show ?thesis
  proof (cases r)
    case None
    then show ?thesis using a by (simp add: numeric_int_to_string_def)
  next
    case (Some p)
    let ?out = "print_int v"
    let ?m = "(store_text p (length ?out + 1) ?out (mem_bytes P1))(p + length ?out := 0)"
    have f: "p \<notin> B" "client E P1 (insert p B)" "22 \<le> memop_usable_size p P1" using u(3) [OF Some] by auto
    have len: "length ?out \<le> 11" by (rule print_int_length [OF assms(3,4)])
    have e: "numeric_int_to_string E t v P = Some (p, P1\<lparr>mem_bytes := ?m\<rparr>)"
      using a Some by (simp add: numeric_int_to_string_def set_byte_def Let_def)
    have sa: "same_at (- extent P1 p) (mem_bytes P1) ?m"
      using f(3) len by (auto simp: same_at_def extent_def store_text_def)
    note w = pool_user.user_write [OF pu f(2) _ sa]
    have w': "client E (P1\<lparr>mem_bytes := ?m\<rparr>) (insert p B)" "keeps B P1 (P1\<lparr>mem_bytes := ?m\<rparr>)" using w f(1) by simp_all
    have k: "keeps B P (P1\<lparr>mem_bytes := ?m\<rparr>)" using u(1) w'(2) by (rule keeps_trans)
    have tx: "bytes_from ?m p (length ?out + 1) = ?out @ [0]"
      by (rule nth_equalityI) (auto simp: nth_append store_text_def less_Suc_eq)
    have "numeric_parse_int p ce (P1\<lparr>mem_bytes := ?m\<rparr>) = (i32 (signed (v < 0) (digits_value (dec_digits (nat \<bar>v\<bar>)))), ce)"
    proof -
      have "bytes_from (mem_bytes (P1\<lparr>mem_bytes := ?m\<rparr>)) p (length ?out + 1) = ?out @ [0]" using tx by simp
      moreover have "\<not> is_digit 0" by (simp add: is_digit_def)
      ultimately show ?thesis
        using parse_int_reads [of "P1\<lparr>mem_bytes := ?m\<rparr>" p ?out 0 "v < 0" "dec_digits (nat \<bar>v\<bar>)" ce] dec_digits_props [of "nat \<bar>v\<bar>"] len
        by (simp add: print_int_split(1))
    qed
    then have "numeric_parse_int p ce (P1\<lparr>mem_bytes := ?m\<rparr>) = (v, ce)" using assms(3,4) by (simp add: print_int_split(2))
    then show ?thesis using e f(1) w'(1) k by simp
  qed
qed

theorem int_to_string_roundtrip_witness:
  "case numeric_int_to_string bump_env 1 (- 2147483648) P_one of
     None \<Rightarrow> fst (memop_alloc_raw bump_env 1 22 P_one) = None
   | Some (dat, P') \<Rightarrow> dat \<noteq> 4259904 \<and> numeric_parse_int dat (Some 0) P' = (- 2147483648, Some 0)"
  using int_to_string_roundtrip [OF bump_env_law P_one_client, of "- 2147483648" 1 "Some 0"] by (simp split: option.splits prod.splits)

text \<open>A text in memory, for examples.\<close>

definition P_text :: "8 word list \<Rightarrow> MemPool" where
  "P_text cs = P_one\<lparr>mem_bytes := (\<lambda>a. if a < length cs then cs ! a else 0)\<rparr>"

lemma P_text_bytes: "bytes_from (mem_bytes (P_text cs)) 0 (length cs + 1) = cs @ [0]"
  by (rule nth_equalityI) (auto simp: P_text_def nth_append less_Suc_eq)

text \<open>"4294967296" is read as 0 without an error, "-12" as -12, and "12.50" as 12 and 50/100.\<close>

theorem parse_int_value_witness:
  "numeric_parse_int 0 (Some 0) (P_text [52, 50, 57, 52, 57, 54, 55, 50, 57, 54]) = (0, Some 0) \<and>
   numeric_parse_int 0 (Some 0) (P_text [45, 49, 50]) = (- 12, Some 0)"
proof
  have v: "digits_value [52, 50, 57, 52, 57, 54, 55, 50, 57, 54] = 4294967296" "digits_value [49, 50] = 12"
    by (simp_all add: digits_value_def)
  have w: "i32 4294967296 = 0" by (simp add: i32_def)
  show "numeric_parse_int 0 (Some 0) (P_text [52, 50, 57, 52, 57, 54, 55, 50, 57, 54]) = (0, Some 0)"
    using parse_int_value [OF P_text_bytes, of "[52, 50, 57, 52, 57, 54, 55, 50, 57, 54]" False "[52, 50, 57, 52, 57, 54, 55, 50, 57, 54]" "Some 0"]
    by (simp add: is_digit_def v signed_def w)
  show "numeric_parse_int 0 (Some 0) (P_text [45, 49, 50]) = (- 12, Some 0)"
    using parse_int_value [OF P_text_bytes, of "[45, 49, 50]" True "[49, 50]" "Some 0"] by (simp add: is_digit_def v signed_def)
qed

definition exact_ops :: "rat double_ops" where
  "exact_ops = \<lparr>d_int = of_int, d_pow10 = (\<lambda>k. 10 ^ k), d_add = (+), d_div = (/), d_neg = uminus\<rparr>"

theorem parse_double_decimal_witness: "numeric_parse_double exact_ops 0 None (P_text [45, 49, 50, 46, 53, 48]) = (- (25 / 2), None)"
proof -
  have v: "digits_value [49, 50] = 12" "digits_value [53, 48] = 50" by (simp_all add: digits_value_def)
  show ?thesis
    using parse_double_decimal [OF P_text_bytes, of "[45, 49, 50, 46, 53, 48]" True "[49, 50]" "[53, 48]" exact_ops None]
    by (simp add: is_digit_def v exact_ops_def)
qed

end
