(* ===== verification/Instance.thy ===== *)
theory Instance
  imports Prelude
begin

text \<open>
  \<open>xplat_instance.c\<close> (the branch with files and \<open>flock\<close>): finding out that a process holds two
  copies of the library.  A copy is a record of its file-scope variables; all copies of a process
  name the same file, which is an inode with its contents and the copy that holds its lock.  The
  registration and the release are sequences of system calls; those of different copies interleave.
\<close>

section \<open>Copies and the file\<close>

abbreviation (input) XPLAT_INSTANCE_ABI :: nat where "XPLAT_INSTANCE_ABI \<equiv> 1"

record XplatInstanceRec =
  r_Abi :: nat
  r_Identity :: addr
  r_Module :: string

record XplatInstanceInfo =
  AbiVersion :: nat
  Identity :: addr
  Module :: string

datatype inst_pc =
    I_idle | I_open | I_lock | I_truncate | I_write | I_read | I_close | I_finish
  | L_unlock | L_close | L_unlink

record copy =
  self_marker :: addr
  g_my_module :: string
  g_first :: XplatInstanceInfo
  g_duplicate :: bool
  g_registered :: bool
  g_fatal :: bool
  g_fd :: "nat option"
  ipc :: inst_pc

text \<open>\<open>file_name\<close> is the inode the path leads to, if there is one.\<close>

record process =
  file_name :: "nat option"
  next_inode :: nat
  contents :: "nat \<Rightarrow> XplatInstanceRec option"
  lock_owner :: "nat \<Rightarrow> nat option"
  copies :: "nat \<Rightarrow> copy"
  aborted :: bool

text \<open>What the system answers: the policy variable, the name of the module, and which calls succeed.\<close>

record inst_env =
  policy_var :: "string option"
  dl_name :: "string option"
  opens :: bool
  truncates :: bool
  writes :: bool

text \<open>\<open>snprintf\<close> into a buffer of 260 bytes.\<close>

definition module_text :: "string \<Rightarrow> string" where
  "module_text s = take 259 s"

definition instance_fill_module :: "inst_env \<Rightarrow> copy \<Rightarrow> copy" where
  "instance_fill_module V c =
    (let m = (case dl_name V of None \<Rightarrow> [] | Some s \<Rightarrow> module_text s)
     in c\<lparr>g_my_module := (if m = [] then ''(modulo desconhecido)'' else m)\<rparr>)"

definition instance_read_policy :: "inst_env \<Rightarrow> copy \<Rightarrow> copy" where
  "instance_read_policy V c =
    (case policy_var V of
       Some (v # vs) \<Rightarrow> if v = CHR ''0'' \<or> v = CHR ''1'' then c\<lparr>g_fatal := (v = CHR ''1'')\<rparr> else c
     | _ \<Rightarrow> c)"

abbreviation put_copy :: "nat \<Rightarrow> copy \<Rightarrow> process \<Rightarrow> process" where
  "put_copy k c S \<equiv> S\<lparr>copies := (copies S)(k := c)\<rparr>"

definition own_record :: "copy \<Rightarrow> XplatInstanceRec" where
  "own_record c = \<lparr>r_Abi = XPLAT_INSTANCE_ABI, r_Identity = self_marker c, r_Module = module_text (g_my_module c)\<rparr>"

text \<open>Closing a file gives up a lock held through it.\<close>

definition close_fd :: "nat \<Rightarrow> nat \<Rightarrow> process \<Rightarrow> process" where
  "close_fd k i S = (if lock_owner S i = Some k then S\<lparr>lock_owner := (lock_owner S)(i := None)\<rparr> else S)"

section \<open>Registering\<close>

text \<open>What precedes the system calls touches only the copy itself.\<close>

definition register_begin :: "inst_env \<Rightarrow> copy \<Rightarrow> copy" where
  "register_begin V c =
    (if g_registered c then c
     else
       let c1 = instance_fill_module V (instance_read_policy V (c\<lparr>g_registered := True\<rparr>))
       in c1\<lparr>g_first := (g_first c1)\<lparr>Identity := self_marker c1, Module := module_text (g_my_module c1)\<rparr>, ipc := I_open\<rparr>)"

text \<open>The system calls of \<open>instance_register_os\<close>; a lock on an inode has at most one owner.\<close>

definition instance_register_os_step :: "inst_env \<Rightarrow> nat \<Rightarrow> process \<Rightarrow> process" where
  "instance_register_os_step V k S =
    (let c = copies S k; i = the (g_fd c) in
     case ipc c of
       I_open \<Rightarrow>
         if \<not> opens V then put_copy k (c\<lparr>g_fd := None, ipc := I_finish\<rparr>) S
         else (case file_name S of
             Some i \<Rightarrow> put_copy k (c\<lparr>g_fd := Some i, ipc := I_lock\<rparr>) S
           | None \<Rightarrow>
               let i = next_inode S
               in put_copy k (c\<lparr>g_fd := Some i, ipc := I_lock\<rparr>)
                    (S\<lparr>file_name := Some i, next_inode := i + 1, contents := (contents S)(i := None), lock_owner := (lock_owner S)(i := None)\<rparr>))
     | I_lock \<Rightarrow>
         if lock_owner S i = None \<or> lock_owner S i = Some k
         then put_copy k (c\<lparr>ipc := I_truncate\<rparr>) (S\<lparr>lock_owner := (lock_owner S)(i := Some k)\<rparr>)
         else put_copy k (c\<lparr>ipc := I_read\<rparr>) S
     | I_truncate \<Rightarrow>
         if truncates V then put_copy k (c\<lparr>ipc := I_write\<rparr>) (S\<lparr>contents := (contents S)(i := None)\<rparr>)
         else put_copy k (c\<lparr>ipc := I_finish\<rparr>) S
     | I_write \<Rightarrow>
         put_copy k (c\<lparr>ipc := I_finish\<rparr>) (if writes V then S\<lparr>contents := (contents S)(i := Some (own_record c))\<rparr> else S)
     | I_read \<Rightarrow>
         (case contents S i of
            Some r \<Rightarrow>
              if r_Identity r \<noteq> self_marker c
              then put_copy k (c\<lparr>g_duplicate := True,
                  g_first := \<lparr>AbiVersion = r_Abi r, Identity = r_Identity r, Module = module_text (r_Module r)\<rparr>, ipc := I_close\<rparr>) S
              else put_copy k (c\<lparr>ipc := I_close\<rparr>) S
          | None \<Rightarrow> put_copy k (c\<lparr>ipc := I_close\<rparr>) S)
     | I_close \<Rightarrow> put_copy k (c\<lparr>g_fd := None, ipc := I_finish\<rparr>) (close_fd k i S)
     | _ \<Rightarrow> S)"

text \<open>The end of \<open>xplat_instance_register\<close>; pinning the module and the report change no state of the library.\<close>

definition register_finish :: "nat \<Rightarrow> process \<Rightarrow> process" where
  "register_finish k S =
    (let c = copies S k
     in if g_duplicate c \<and> g_fatal c then (put_copy k (c\<lparr>ipc := I_idle\<rparr>) S)\<lparr>aborted := True\<rparr>
        else put_copy k (c\<lparr>ipc := I_idle\<rparr>) S)"

definition xplat_instance_register_step :: "inst_env \<Rightarrow> nat \<Rightarrow> process \<Rightarrow> process" where
  "xplat_instance_register_step V k S =
    (case ipc (copies S k) of
       I_idle \<Rightarrow> put_copy k (register_begin V (copies S k)) S
     | I_finish \<Rightarrow> register_finish k S
     | _ \<Rightarrow> instance_register_os_step V k S)"

text \<open>A call that no other copy interrupts takes at most six steps.\<close>

definition xplat_instance_register :: "inst_env \<Rightarrow> nat \<Rightarrow> process \<Rightarrow> process" where
  "xplat_instance_register V k S =
    (if g_registered (copies S k) then S else (xplat_instance_register_step V k ^^ 6) S)"

section \<open>Releasing and asking\<close>

definition instance_release_os_step :: "nat \<Rightarrow> process \<Rightarrow> process" where
  "instance_release_os_step k S =
    (let c = copies S k; i = the (g_fd c) in
     case ipc c of
       L_unlock \<Rightarrow> put_copy k (c\<lparr>ipc := L_close\<rparr>) (if lock_owner S i = Some k then S\<lparr>lock_owner := (lock_owner S)(i := None)\<rparr> else S)
     | L_close \<Rightarrow> put_copy k (c\<lparr>ipc := L_unlink\<rparr>) (close_fd k i S)
     | L_unlink \<Rightarrow> put_copy k (c\<lparr>g_fd := None, g_registered := False, ipc := I_idle\<rparr>) (S\<lparr>file_name := None\<rparr>)
     | _ \<Rightarrow> S)"

definition xplat_instance_release_step :: "nat \<Rightarrow> process \<Rightarrow> process" where
  "xplat_instance_release_step k S =
    (let c = copies S k in
     if ipc c = I_idle then
       if g_fd c \<noteq> None then put_copy k (c\<lparr>ipc := L_unlock\<rparr>) S else put_copy k (c\<lparr>g_registered := False\<rparr>) S
     else instance_release_os_step k S)"

text \<open>A release that no other copy interrupts.\<close>

definition xplat_instance_release :: "nat \<Rightarrow> process \<Rightarrow> process" where
  "xplat_instance_release k S =
    (if g_fd (copies S k) \<noteq> None then (xplat_instance_release_step k ^^ 4) S else xplat_instance_release_step k S)"

definition xplat_instance_check :: "inst_env \<Rightarrow> nat \<Rightarrow> process \<Rightarrow> bool \<times> XplatInstanceInfo \<times> process" where
  "xplat_instance_check V k S =
    (let S1 = xplat_instance_register V k S in (g_duplicate (copies S1 k), g_first (copies S1 k), S1))"

definition xplat_instance_module :: "inst_env \<Rightarrow> nat \<Rightarrow> process \<Rightarrow> string \<times> process" where
  "xplat_instance_module V k S =
    (let c = (if \<not> g_registered (copies S k) then instance_fill_module V (copies S k) else copies S k)
     in (g_my_module c, put_copy k c S))"

definition xplat_instance_set_fatal :: "int \<Rightarrow> nat \<Rightarrow> process \<Rightarrow> process" where
  "xplat_instance_set_fatal fatal k S = put_copy k ((copies S k)\<lparr>g_fatal := (fatal \<noteq> 0)\<rparr>) S"

text \<open>Runs of registrations of all copies; \<open>ok\<close> limits what the system may answer.  Nothing happens after an abort.\<close>

inductive registering :: "(inst_env \<Rightarrow> bool) \<Rightarrow> process \<Rightarrow> process \<Rightarrow> bool" for ok S0 where
  start: "registering ok S0 S0"
| more: "registering ok S0 S \<Longrightarrow> \<not> aborted S \<Longrightarrow> ok V \<Longrightarrow> registering ok S0 (xplat_instance_register_step V k S)"

text \<open>Before any copy has registered; a file may be left over from a process that is gone.\<close>

definition fresh :: "process \<Rightarrow> bool" where
  "fresh S \<longleftrightarrow> \<not> aborted S \<and> lock_owner S = (\<lambda>_. None) \<and>
     (\<forall>k. g_fd (copies S k) = None \<and> \<not> g_registered (copies S k) \<and> \<not> g_duplicate (copies S k) \<and> ipc (copies S k) = I_idle)"

definition owner :: "process \<Rightarrow> nat option" where
  "owner S = (case file_name S of None \<Rightarrow> None | Some i \<Rightarrow> lock_owner S i)"

lemma owner_put_copy [simp]: "owner (put_copy k c S) = owner S" "owner (S\<lparr>copies := f, aborted := b\<rparr>) = owner S"
  by (cases "file_name S"; simp add: owner_def)+

text \<open>What each point of the registration knows about the file: \<open>n\<close> is the inode, \<open>w\<close> the owner of its lock.\<close>

definition copy_ok :: "nat option \<Rightarrow> nat option \<Rightarrow> nat \<Rightarrow> copy \<Rightarrow> bool" where
  "copy_ok n w k c \<longleftrightarrow>
     (g_fd c \<noteq> None \<longrightarrow> g_fd c = n) \<and>
     (\<not> g_registered c \<longrightarrow> ipc c = I_idle \<and> g_fd c = None) \<and>
     (g_duplicate c \<or> ipc c \<in> {I_read, I_close} \<longrightarrow> w \<noteq> None \<and> w \<noteq> Some k) \<and>
     (ipc c \<in> {I_lock, I_read, I_close, I_truncate, I_write} \<longrightarrow> g_fd c \<noteq> None) \<and>
     (ipc c \<in> {I_open, I_lock} \<longrightarrow> w \<noteq> Some k) \<and>
     (ipc c = I_open \<longrightarrow> g_fd c = None) \<and>
     (g_fd c \<noteq> None \<longrightarrow> ipc c \<in> {I_idle, I_truncate, I_write, I_finish} \<longrightarrow> w = Some k) \<and>
     (w = Some k \<longrightarrow> g_fd c \<noteq> None) \<and>
     ipc c \<notin> {L_unlock, L_close, L_unlink}"

definition process_ok :: "process \<Rightarrow> bool" where
  "process_ok S \<longleftrightarrow>
     (\<forall>k. copy_ok (file_name S) (owner S) k (copies S k)) \<and> (aborted S \<longrightarrow> (\<exists>k. g_duplicate (copies S k) \<and> g_fatal (copies S k)))"

lemma fresh_ok: "fresh S \<Longrightarrow> process_ok S"
  by (auto simp: fresh_def process_ok_def copy_ok_def owner_def split: option.splits)

text \<open>The file only gains a name and an owner while copies register; the others see no more than that.\<close>

lemma copy_ok_other:
  assumes "copy_ok n w j c" "n \<noteq> None \<longrightarrow> n' = n" "w \<noteq> None \<longrightarrow> w' = w" "w' = Some j \<longrightarrow> w = Some j"
  shows "copy_ok n' w' j c"
  using assms unfolding copy_ok_def by (cases "g_fd c"; cases w; cases n) simp_all

definition grows :: "process \<Rightarrow> nat \<Rightarrow> process \<Rightarrow> bool" where
  "grows S k S' \<longleftrightarrow> (file_name S \<noteq> None \<longrightarrow> file_name S' = file_name S) \<and> (owner S \<noteq> None \<longrightarrow> owner S' = owner S) \<and>
     (owner S' = owner S \<or> owner S' = Some k) \<and> (\<forall>j. j \<noteq> k \<longrightarrow> copies S' j = copies S j)"

lemma register_begin_fields:
  assumes "\<not> g_registered c"
  shows "g_fd (register_begin V c) = g_fd c" "g_duplicate (register_begin V c) = g_duplicate c"
    "g_registered (register_begin V c)" "ipc (register_begin V c) = I_open" "self_marker (register_begin V c) = self_marker c"
proof -
  let ?p = "instance_read_policy V (c\<lparr>g_registered := True\<rparr>)"
  have "g_fd ?p = g_fd c \<and> g_duplicate ?p = g_duplicate c \<and> g_registered ?p \<and> self_marker ?p = self_marker c"
    by (simp add: instance_read_policy_def split: option.split list.split)
  then show "g_fd (register_begin V c) = g_fd c" "g_duplicate (register_begin V c) = g_duplicate c"
    "g_registered (register_begin V c)" "ipc (register_begin V c) = I_open" "self_marker (register_begin V c) = self_marker c"
    using assms by (simp_all add: register_begin_def instance_fill_module_def Let_def)
qed

lemma copy_okD:
  assumes "copy_ok n w k c"
  shows "g_fd c \<noteq> None \<Longrightarrow> g_fd c = n" "\<not> g_registered c \<Longrightarrow> ipc c = I_idle \<and> g_fd c = None"
    "g_duplicate c \<Longrightarrow> w \<noteq> None \<and> w \<noteq> Some k" "ipc c \<in> {I_read, I_close} \<Longrightarrow> w \<noteq> None \<and> w \<noteq> Some k"
    "ipc c \<in> {I_lock, I_read, I_close, I_truncate, I_write} \<Longrightarrow> \<exists>i. g_fd c = Some i \<and> n = Some i"
    "g_fd c \<noteq> None \<Longrightarrow> ipc c \<in> {I_idle, I_truncate, I_write, I_finish} \<Longrightarrow> w = Some k"
    "w = Some k \<Longrightarrow> g_fd c \<noteq> None \<and> g_registered c \<and> \<not> g_duplicate c" "ipc c \<notin> {L_unlock, L_close, L_unlink}"
    "ipc c = I_open \<Longrightarrow> g_fd c = None" "ipc c \<in> {I_open, I_lock} \<Longrightarrow> w \<noteq> Some k"
  using assms by (cases "g_fd c"; cases "ipc c"; simp add: copy_ok_def)+

lemma register_begin_ok:
  assumes "copy_ok n w k c" "ipc c = I_idle"
  shows "copy_ok n w k (register_begin V c)"
proof (cases "g_registered c")
  case False
  note f = register_begin_fields [OF False, of V]
  have "g_fd c = None" "w \<noteq> Some k" "g_duplicate c \<longrightarrow> w \<noteq> None"
    using copy_okD(2) [OF assms(1) False] copy_okD(3,7) [OF assms(1)] False by auto
  then show ?thesis unfolding copy_ok_def f by (simp add: f)
qed (use assms in \<open>simp add: register_begin_def\<close>)

lemma grows_ok:
  assumes "process_ok S" "\<not> aborted S" "grows S k S'" "copy_ok (file_name S') (owner S') k (copies S' k)"
    "aborted S' \<longrightarrow> g_duplicate (copies S' k) \<and> g_fatal (copies S' k)"
  shows "process_ok S'"
  unfolding process_ok_def
proof (intro conjI allI)
  fix j
  show "copy_ok (file_name S') (owner S') j (copies S' j)"
  proof (cases "j = k")
    case False
    then have e: "copies S' j = copies S j" and w: "owner S' = Some j \<longrightarrow> owner S = Some j" using assms(3) by (auto simp: grows_def)
    have "copy_ok (file_name S) (owner S) j (copies S j)" using assms(1) by (simp add: process_ok_def)
    then show ?thesis unfolding e by (rule copy_ok_other [OF _ _ _ w]) (use assms(3) in \<open>simp_all add: grows_def\<close>)
  qed (use assms(4) in simp)
qed (use assms(5) in blast)

lemma register_step_ok:
  fixes V :: inst_env and k :: nat
  assumes "process_ok S" "\<not> aborted S"
  defines "S' \<equiv> xplat_instance_register_step V k S"
  shows "copy_ok (file_name S') (owner S') k (copies S' k)" "grows S k S'"
    "aborted S' \<longrightarrow> g_duplicate (copies S' k) \<and> g_fatal (copies S' k)"
proof -
  let ?c = "copies S k"
  have ok: "copy_ok (file_name S) (owner S) k ?c" using assms(1) by (simp add: process_ok_def)
  have "copy_ok (file_name S') (owner S') k (copies S' k) \<and> grows S k S' \<and> (aborted S' \<longrightarrow> g_duplicate (copies S' k) \<and> g_fatal (copies S' k))"
  proof (cases "ipc ?c")
    case I_idle
    then have "S' = put_copy k (register_begin V ?c) S" by (simp add: S'_def xplat_instance_register_step_def)
    then show ?thesis using register_begin_ok [OF ok I_idle] assms(2) by (simp add: grows_def)
  next
    case I_open
    have f: "g_fd ?c = None" using ok I_open by (simp add: copy_ok_def)
    have e: "S' = instance_register_os_step V k S" using I_open by (simp add: S'_def xplat_instance_register_step_def)
    show ?thesis
    proof (cases "file_name S")
      case None
      show ?thesis unfolding e using I_open f ok assms(2) None
        by (cases "opens V") (simp_all add: instance_register_os_step_def copy_ok_def grows_def owner_def Let_def)
    next
      case (Some i)
      show ?thesis unfolding e using I_open f ok assms(2) Some
        by (cases "opens V") (simp_all add: instance_register_os_step_def copy_ok_def grows_def owner_def Let_def)
    qed
  next
    case I_lock
    then obtain i where i: "g_fd ?c = Some i" "file_name S = Some i" using ok by (auto simp: copy_ok_def)
    show ?thesis using I_lock i ok assms(2)
      by (cases "lock_owner S i")
        (simp_all add: S'_def xplat_instance_register_step_def instance_register_os_step_def copy_ok_def grows_def owner_def Let_def)
  next
    case I_truncate
    then obtain i where i: "g_fd ?c = Some i" "file_name S = Some i" using ok by (auto simp: copy_ok_def)
    show ?thesis using I_truncate i ok assms(2)
      by (cases "g_duplicate ?c"; cases "truncates V") (simp_all add: S'_def xplat_instance_register_step_def instance_register_os_step_def copy_ok_def grows_def owner_def Let_def)
  next
    case I_write
    then obtain i where i: "g_fd ?c = Some i" "file_name S = Some i" using ok by (auto simp: copy_ok_def)
    show ?thesis using I_write i ok assms(2)
      by (cases "g_duplicate ?c"; cases "writes V") (simp_all add: S'_def xplat_instance_register_step_def instance_register_os_step_def copy_ok_def grows_def owner_def Let_def)
  next
    case I_read
    then obtain i where i: "g_fd ?c = Some i" "file_name S = Some i" using ok by (auto simp: copy_ok_def)
    show ?thesis using I_read i ok assms(2)
      by (simp add: S'_def xplat_instance_register_step_def instance_register_os_step_def copy_ok_def grows_def owner_def Let_def split: option.split)
  next
    case I_close
    then obtain i where i: "g_fd ?c = Some i" "file_name S = Some i" using ok by (auto simp: copy_ok_def)
    show ?thesis using I_close i ok assms(2)
      by (simp add: S'_def xplat_instance_register_step_def instance_register_os_step_def close_fd_def copy_ok_def grows_def owner_def Let_def)
  next
    case I_finish
    then show ?thesis using ok assms(2)
      by (simp add: S'_def xplat_instance_register_step_def register_finish_def copy_ok_def grows_def Let_def)
  qed (use ok in \<open>simp_all add: copy_ok_def\<close>)
  then show "copy_ok (file_name S') (owner S') k (copies S' k)" "grows S k S'"
    "aborted S' \<longrightarrow> g_duplicate (copies S' k) \<and> g_fatal (copies S' k)" by blast+
qed

lemma registering_ok: "registering ok S0 S \<Longrightarrow> fresh S0 \<Longrightarrow> process_ok S"
proof (induction rule: registering.induct)
  case (more S V k)
  show ?case
    by (rule grows_ok [OF _ more(2) register_step_ok(2,1,3) [OF _ more(2)]]) (use more in simp_all)
qed (rule fresh_ok)

text \<open>C23: there is no false alarm and no second winner: in every interleaving of the registrations of any number of copies, whatever
  the system calls answer, at most one copy that has finished registering keeps the file, a copy that reports a
  duplicate is not that one but another copy holds the lock, and the process is aborted only by a copy that found a
  duplicate and was told to.\<close>

theorem instance_no_false_alarm:
  assumes "fresh S0" "registering ok S0 S"
  shows "(ipc (copies S k) = I_idle \<and> g_fd (copies S k) \<noteq> None \<longrightarrow> owner S = Some k) \<and>
    (g_duplicate (copies S k) \<longrightarrow> (\<exists>d. d \<noteq> k \<and> owner S = Some d \<and> g_registered (copies S d) \<and> \<not> g_duplicate (copies S d))) \<and>
    (aborted S \<longrightarrow> (\<exists>d. g_duplicate (copies S d) \<and> g_fatal (copies S d)))"
proof -
  have p: "process_ok S" using registering_ok assms by blast
  then have c: "copy_ok (file_name S) (owner S) d (copies S d)" for d by (simp add: process_ok_def)
  note d = copy_okD [OF c]
  have "\<exists>e. e \<noteq> k \<and> owner S = Some e \<and> g_registered (copies S e) \<and> \<not> g_duplicate (copies S e)" if g: "g_duplicate (copies S k)"
  proof -
    obtain e where "owner S = Some e" "e \<noteq> k" using d(3) [OF g] by auto
    then show ?thesis using d(7) by blast
  qed
  moreover have "owner S = Some k" if "ipc (copies S k) = I_idle" "g_fd (copies S k) \<noteq> None" using d(6) [OF that(2)] that(1) by simp
  ultimately show ?thesis using p by (simp add: process_ok_def)
qed

section \<open>Detection\<close>

text \<open>A copy has announced itself when it owns the lock and its record is in the file.\<close>

definition announced :: "nat \<Rightarrow> process \<Rightarrow> bool" where
  "announced c S \<longleftrightarrow> owner S = Some c \<and> contents S (the (file_name S)) = Some (own_record (copies S c)) \<and>
     ipc (copies S c) = I_idle \<and> g_registered (copies S c)"

definition told :: "copy \<Rightarrow> copy \<Rightarrow> bool" where
  "told c d \<longleftrightarrow> g_duplicate d \<and> g_first d = \<lparr>AbiVersion = 1, Identity = self_marker c, Module = module_text (g_my_module c)\<rparr>"

lemma announced_step:
  assumes "process_ok S" "\<not> aborted S" "announced c S"
  shows "announced c (xplat_instance_register_step V k S)" "copies (xplat_instance_register_step V k S) c = copies S c"
proof -
  obtain i where i: "file_name S = Some i" "lock_owner S i = Some c" "contents S i = Some (own_record (copies S c))"
      "ipc (copies S c) = I_idle" "g_registered (copies S c)"
    using assms(3) by (auto simp: announced_def owner_def split: option.splits)
  have "announced c (xplat_instance_register_step V k S) \<and> copies (xplat_instance_register_step V k S) c = copies S c"
  proof (cases "k = c")
    case True
    then show ?thesis using i assms(3) by (simp add: xplat_instance_register_step_def register_begin_def announced_def)
  next
    case False
    note d = copy_okD [OF assms(1) [unfolded process_ok_def, THEN conjunct1, THEN spec, of k]]
    have w: "owner S = Some c" using i by (simp add: owner_def)
    have n: "ipc (copies S k) \<notin> {I_truncate, I_write}" using d(5,6) w False by force
    have g: "grows S k (xplat_instance_register_step V k S)" by (rule register_step_ok(2) [OF assms(1,2)])
    then have "owner (xplat_instance_register_step V k S) = Some c" "copies (xplat_instance_register_step V k S) c = copies S c"
        "file_name (xplat_instance_register_step V k S) = Some i"
      using w i(1) False by (simp_all add: grows_def)
    moreover have "contents (xplat_instance_register_step V k S) = contents S"
      using n d(8) i(1) by (cases "ipc (copies S k)")
        (simp_all add: xplat_instance_register_step_def instance_register_os_step_def register_finish_def close_fd_def Let_def split: option.split)
    ultimately show ?thesis using i by (simp add: announced_def)
  qed
  then show "announced c (xplat_instance_register_step V k S)" "copies (xplat_instance_register_step V k S) c = copies S c" by blast+
qed

definition alert :: "copy \<Rightarrow> copy \<Rightarrow> bool" where
  "alert c d \<longleftrightarrow> self_marker d \<noteq> self_marker c \<and> (\<not> g_registered d \<or> ipc d \<in> {I_open, I_lock, I_read} \<or> told c d)"

lemma alert_step:
  assumes p: "process_ok S" and a: "announced c S" and V: "opens V" and d: "d \<noteq> c" "alert (copies S c) (copies S d)"
  shows "alert (copies S c) (copies (xplat_instance_register_step V d S) d)"
proof -
  let ?d = "copies S d"
  obtain i where i: "file_name S = Some i" "lock_owner S i = Some c" "contents S i = Some (own_record (copies S c))"
    using a by (auto simp: announced_def owner_def split: option.splits)
  note o = copy_okD [OF p [unfolded process_ok_def, THEN conjunct1, THEN spec, of d]]
  have w: "owner S = Some c" using i by (simp add: owner_def)
  have fd: "the (g_fd ?d) = i" if "ipc ?d \<in> {I_lock, I_read, I_close}" using o(5) that i(1) by auto
  have m: "self_marker ?d \<noteq> self_marker (copies S c)" using d(2) by (simp add: alert_def)
  show ?thesis
  proof (cases "ipc ?d")
    case I_idle
    then show ?thesis using d(2) register_begin_fields [of ?d V]
      by (cases "g_registered ?d") (simp_all add: xplat_instance_register_step_def alert_def, simp add: register_begin_def)
  next
    case I_open
    then show ?thesis using m V i(1) by (simp add: xplat_instance_register_step_def instance_register_os_step_def alert_def Let_def)
  next
    case I_lock
    then show ?thesis using m i(2) fd d(1) by (simp add: xplat_instance_register_step_def instance_register_os_step_def alert_def Let_def)
  next
    case I_read
    then show ?thesis using m i(3) fd
      by (simp add: xplat_instance_register_step_def instance_register_os_step_def alert_def told_def own_record_def module_text_def Let_def)
  next
    case I_close
    then have "told (copies S c) ?d" using d(2) o(2) by (auto simp: alert_def)
    then show ?thesis using I_close m
      by (simp add: xplat_instance_register_step_def instance_register_os_step_def alert_def told_def Let_def)
  next
    case I_finish
    then have "told (copies S c) ?d" using d(2) o(2) by (auto simp: alert_def)
    then show ?thesis using I_finish m
      by (simp add: xplat_instance_register_step_def register_finish_def alert_def told_def Let_def)
  next
    case I_truncate
    then show ?thesis using o(5,6) w d(1) by force
  next
    case I_write
    then show ?thesis using o(5,6) w d(1) by force
  qed (use o(8) in simp_all)
qed

lemma registering_mono: "registering ok S0 S \<Longrightarrow> (\<And>V. ok V \<Longrightarrow> ok' V) \<Longrightarrow> registering ok' S0 S"
  by (induction rule: registering.induct) (auto intro: registering.intros)

lemma registering_trans: "registering ok S S' \<Longrightarrow> registering ok S0 S \<Longrightarrow> registering ok S0 S'"
  by (induction rule: registering.induct) (auto intro: registering.intros)

section \<open>Two copies\<close>

definition good_env :: inst_env where
  "good_env = \<lparr>policy_var = None, dl_name = Some ''lib'', opens = True, truncates = True, writes = True\<rparr>"

definition copy_zero :: "addr \<Rightarrow> copy" where
  "copy_zero a = \<lparr>self_marker = a, g_my_module = [], g_first = \<lparr>AbiVersion = 0, Identity = 0, Module = []\<rparr>,
     g_duplicate = False, g_registered = False, g_fatal = False, g_fd = None, ipc = I_idle\<rparr>"

definition process_zero :: process where
  "process_zero = \<lparr>file_name = None, next_inode = 1, contents = (\<lambda>_. None), lock_owner = (\<lambda>_. None),
     copies = (\<lambda>k. copy_zero (4096 + 8 * k)), aborted = False\<rparr>"

lemmas inst_run_defs = xplat_instance_register_step_def instance_register_os_step_def register_begin_def register_finish_def
  instance_read_policy_def instance_fill_module_def module_text_def own_record_def close_fd_def good_env_def copy_zero_def
  process_zero_def Let_def

abbreviation reg_step :: "nat \<Rightarrow> process \<Rightarrow> process" where
  "reg_step k S \<equiv> xplat_instance_register_step good_env k S"

text \<open>Schedules: which copy makes the next step.\<close>

definition schedule :: "nat list \<Rightarrow> process \<Rightarrow> process" where
  "schedule ks S = fold reg_step ks S"

fun calm :: "nat list \<Rightarrow> process \<Rightarrow> bool" where
  "calm [] S = True"
| "calm (k # ks) S = (\<not> aborted S \<and> calm ks (reg_step k S))"

lemma schedule_registering: "ok good_env \<Longrightarrow> registering ok S0 S \<Longrightarrow> calm ks S \<Longrightarrow> registering ok S0 (schedule ks S)"
  by (induction ks arbitrary: S) (auto simp: schedule_def intro: registering.more)

lemma process_zero_fresh: "fresh process_zero"
  by (simp add: fresh_def process_zero_def copy_zero_def)

definition one_copy :: process where
  "one_copy = schedule [0, 0, 0, 0, 0, 0] process_zero"

lemma one_copy_value:
  "calm [0, 0, 0, 0, 0, 0] process_zero" "announced 0 one_copy" "\<not> g_registered (copies one_copy 1)"
  "self_marker (copies one_copy 1) \<noteq> self_marker (copies one_copy 0)" "calm [1, 1, 1, 1, 1, 1] one_copy"
  "g_registered (copies (schedule [1, 1, 1, 1, 1, 1] one_copy) 1)" "ipc (copies (schedule [1, 1, 1, 1, 1, 1] one_copy) 1) = I_idle"
  by (simp_all add: one_copy_def schedule_def inst_run_defs announced_def owner_def)

text \<open>C21: a second copy is detected: once a copy has registered and its record is in the file, every other copy that starts to
  register then, and can open the file, ends up with the duplicate flag and with the first one's version, marker and
  module, however the registrations of all further copies interleave with it.\<close>

theorem second_copy_detected:
  assumes "fresh S0" "registering (\<lambda>_. True) S0 S" "announced c S"
    and d: "d \<noteq> c" "\<not> g_registered (copies S d)" "self_marker (copies S d) \<noteq> self_marker (copies S c)"
    and run: "registering opens S S'" and fin: "g_registered (copies S' d)" "ipc (copies S' d) = I_idle"
  shows "told (copies S c) (copies S' d)"
proof -
  have "announced c S' \<and> copies S' c = copies S c \<and> alert (copies S c) (copies S' d) \<and> process_ok S'"
    using run
  proof (induction rule: registering.induct)
    case start
    show ?case using assms registering_ok by (simp add: alert_def)
  next
    case (more T V k)
    let ?T = "xplat_instance_register_step V k T"
    have i: "process_ok T" "announced c T" "copies T c = copies S c" "alert (copies S c) (copies T d)" using more(4) by auto
    note a = announced_step [OF i(1) more(2) i(2), of V k]
    have "alert (copies S c) (copies ?T d)"
    proof (cases "k = d")
      case True
      then show ?thesis using alert_step [OF i(1,2) more(3) d(1)] i(3,4) by simp
    next
      case False
      then show ?thesis using register_step_ok(2) [where V = V and k = k, OF i(1) more(2)] i(4) by (simp add: grows_def)
    qed
    moreover have "process_ok ?T"
      by (rule grows_ok [OF i(1) more(2) register_step_ok(2,1,3) [OF i(1) more(2)]])
    ultimately show ?case using a i(3) by simp
  qed
  then show ?thesis using fin by (simp add: alert_def)
qed

theorem second_copy_detected_witness: "told (copies one_copy 0) (copies (schedule [1, 1, 1, 1, 1, 1] one_copy) 1)"
proof (rule second_copy_detected [OF process_zero_fresh _ one_copy_value(2) _ one_copy_value(3,4) _ one_copy_value(6,7)])
  show "registering (\<lambda>_. True) process_zero one_copy"
    unfolding one_copy_def by (rule schedule_registering [OF _ registering.start one_copy_value(1)]) simp
  show "registering opens one_copy (schedule [1, 1, 1, 1, 1, 1] one_copy)"
    by (rule schedule_registering [OF _ registering.start one_copy_value(5)]) (simp add: good_env_def)
qed simp

theorem instance_no_false_alarm_witness: "owner one_copy = Some 0"
proof -
  have r: "registering (\<lambda>_. True) process_zero one_copy"
    unfolding one_copy_def by (rule schedule_registering [OF _ registering.start one_copy_value(1)]) simp
  have "ipc (copies one_copy 0) = I_idle \<and> g_fd (copies one_copy 0) \<noteq> None"
    by (simp add: one_copy_def schedule_def inst_run_defs)
  then show ?thesis using instance_no_false_alarm [OF process_zero_fresh r, of 0] by blast
qed

text \<open>A duplicate can be missed: the lock is taken before the record is written, and a copy that finds the lock taken reads
  the file at once.  In the interleaving below, where every system call succeeds, both copies finish registering and
  neither reports the other.\<close>

theorem instance_race_missed:
  "let S = schedule [0, 0, 0, 1, 1, 1, 1, 1, 1, 0, 0, 0] process_zero
   in registering (\<lambda>V. opens V \<and> truncates V \<and> writes V) process_zero S \<and>
      g_registered (copies S 0) \<and> ipc (copies S 0) = I_idle \<and> \<not> g_duplicate (copies S 0) \<and>
      g_registered (copies S 1) \<and> ipc (copies S 1) = I_idle \<and> \<not> g_duplicate (copies S 1)"
proof -
  have "calm [0, 0, 0, 1, 1, 1, 1, 1, 1, 0, 0, 0] process_zero" by (simp add: inst_run_defs)
  then have "registering (\<lambda>V. opens V \<and> truncates V \<and> writes V) process_zero (schedule [0, 0, 0, 1, 1, 1, 1, 1, 1, 0, 0, 0] process_zero)"
    by (intro schedule_registering registering.start) (simp_all add: good_env_def)
  then show ?thesis by (simp add: Let_def) (simp add: schedule_def inst_run_defs)
qed

lemma funpow_small: "(f ^^ 2) x = f (f x)" "(f ^^ 4) x = f (f (f (f x)))" "(f ^^ 6) x = f (f (f (f (f (f x)))))"
  by (simp_all add: eval_nat_numeral)

text \<open>Releasing leaves the detection wrong in two ways.  A copy that was once a duplicate goes on reporting one for ever, even
  when all copies have been released and it alone registers again and holds the lock.  And the file is unlocked
  before its name is removed: a copy that registers in between takes the lock of a file that then loses its name,
  and the next copy creates a new one and is not told.\<close>

theorem instance_release_stale:
  "(let S = xplat_instance_register good_env 1 (xplat_instance_release 1 (xplat_instance_release 0
              (xplat_instance_register good_env 1 (xplat_instance_register good_env 0 process_zero))))
    in owner S = Some 1 \<and> g_fd (copies S 0) = None \<and> g_duplicate (copies S 1)) \<and>
   (let S = xplat_instance_register good_env 2 ((xplat_instance_release_step 0 ^^ 2) (xplat_instance_register good_env 1
              ((xplat_instance_release_step 0 ^^ 2) (xplat_instance_register good_env 0 process_zero))))
    in \<forall>k \<in> {1, 2}. g_registered (copies S k) \<and> g_fd (copies S k) \<noteq> None \<and> \<not> g_duplicate (copies S k))"
  by (simp add: xplat_instance_register_def xplat_instance_release_def xplat_instance_release_step_def instance_release_os_step_def
      owner_def inst_run_defs funpow_small)

end
