(* ===== verification/Instance_Win.thy ===== *)
theory Instance_Win
  imports Instance
begin

text \<open>
  The branch of \<open>xplat_instance.c\<close> for Windows: the record is a named section of memory that lives as
  long as a copy has a handle to it, and a named mutex serialises creating, writing and reading
  it.  The system calls of different copies interleave, and each copy registers and releases once.
\<close>

section \<open>Copies and named objects\<close>

datatype win_pc = N_start | N_wait | N_map | N_view | N_write | N_read | N_unlock | N_out | N_gone

record win_copy =
  w_marker :: addr
  w_module :: string
  w_first :: XplatInstanceInfo
  w_dup :: bool
  w_lock :: bool
  w_map :: bool
  existed :: bool
  w_pc :: win_pc

text \<open>\<open>section_rec\<close> is the content of the section, if it exists; \<open>map_handles\<close> the copies with a handle to it.\<close>

record win_process =
  section_rec :: "XplatInstanceRec option"
  map_handles :: "nat list"
  mutex :: "nat option"
  wcopies :: "nat \<Rightarrow> win_copy"

record win_env =
  creates_mutex :: bool
  creates_map :: bool
  views :: bool

definition zero_rec :: XplatInstanceRec where
  "zero_rec = \<lparr>r_Abi = 0, r_Identity = 0, r_Module = []\<rparr>"

abbreviation put_win :: "nat \<Rightarrow> win_copy \<Rightarrow> win_process \<Rightarrow> win_process" where
  "put_win k c S \<equiv> S\<lparr>wcopies := (wcopies S)(k := c)\<rparr>"

section \<open>Registering and releasing\<close>

text \<open>One system call; \<open>None\<close> while the call waits or when there is nothing left to do.\<close>

definition win_register_os_step :: "win_env \<Rightarrow> nat \<Rightarrow> win_process \<Rightarrow> win_process option" where
  "win_register_os_step V k S =
    (let c = wcopies S k in
     case w_pc c of
       N_start \<Rightarrow> Some (put_win k (c\<lparr>w_lock := creates_mutex V, w_pc := (if creates_mutex V then N_wait else N_map)\<rparr>) S)
     | N_wait \<Rightarrow> if mutex S = None then Some (put_win k (c\<lparr>w_pc := N_map\<rparr>) (S\<lparr>mutex := Some k\<rparr>)) else None
     | N_map \<Rightarrow>
         if \<not> creates_map V then Some (put_win k (c\<lparr>existed := False, w_pc := N_unlock\<rparr>) S)
         else Some (put_win k (c\<lparr>w_map := True, existed := (section_rec S \<noteq> None), w_pc := N_view\<rparr>)
                (S\<lparr>section_rec := Some (case section_rec S of None \<Rightarrow> zero_rec | Some r \<Rightarrow> r), map_handles := k # map_handles S\<rparr>))
     | N_view \<Rightarrow> Some (put_win k (c\<lparr>w_pc := (if \<not> views V then N_unlock else if existed c then N_read else N_write)\<rparr>) S)
     | N_write \<Rightarrow>
         Some (put_win k (c\<lparr>w_pc := N_unlock\<rparr>)
           (S\<lparr>section_rec := Some \<lparr>r_Abi = XPLAT_INSTANCE_ABI, r_Identity = w_marker c, r_Module = w_module c\<rparr>\<rparr>))
     | N_read \<Rightarrow>
         (let r = the (section_rec S) in
          Some (put_win k (if r_Identity r \<noteq> w_marker c
            then c\<lparr>w_dup := True, w_first := \<lparr>AbiVersion = r_Abi r, Identity = r_Identity r, Module = r_Module r\<rparr>, w_pc := N_unlock\<rparr>
            else c\<lparr>w_pc := N_unlock\<rparr>) S))
     | N_unlock \<Rightarrow> Some (put_win k (c\<lparr>w_pc := N_out\<rparr>) (if w_lock c then S\<lparr>mutex := None\<rparr> else S))
     | _ \<Rightarrow> None)"

text \<open>The last handle takes the section with it.\<close>

definition win_release_os :: "nat \<Rightarrow> win_process \<Rightarrow> win_process option" where
  "win_release_os k S =
    (let c = wcopies S k in
     if w_pc c \<noteq> N_out then None
     else let hs = filter (\<lambda>j. j \<noteq> k) (map_handles S)
          in Some (put_win k (c\<lparr>w_map := False, w_lock := False, w_pc := N_gone\<rparr>)
               (S\<lparr>map_handles := hs, section_rec := (if hs = [] then None else section_rec S)\<rparr>)))"

inductive win_runs :: "(win_env \<Rightarrow> bool) \<Rightarrow> win_process \<Rightarrow> win_process \<Rightarrow> bool" for ok S0 where
  start: "win_runs ok S0 S0"
| step: "win_runs ok S0 S \<Longrightarrow> ok V \<Longrightarrow> win_register_os_step V k S = Some S' \<Longrightarrow> win_runs ok S0 S'"
| leave: "win_runs ok S0 S \<Longrightarrow> win_release_os k S = Some S' \<Longrightarrow> win_runs ok S0 S'"

definition win_fresh :: "win_process \<Rightarrow> bool" where
  "win_fresh S \<longleftrightarrow> section_rec S = None \<and> map_handles S = [] \<and> mutex S = None \<and> inj (\<lambda>k. w_marker (wcopies S k)) \<and>
     (\<forall>k. w_marker (wcopies S k) \<noteq> 0 \<and> \<not> w_dup (wcopies S k) \<and> \<not> w_map (wcopies S k) \<and> w_pc (wcopies S k) = N_start)"

section \<open>The invariant\<close>

definition ident :: "win_process \<Rightarrow> addr option" where
  "ident S = map_option r_Identity (section_rec S)"

definition other_marker :: "nat \<Rightarrow> win_process \<Rightarrow> addr \<Rightarrow> bool" where
  "other_marker k S a \<longleftrightarrow> (\<exists>j. j \<noteq> k \<and> a = w_marker (wcopies S j))"

definition win_copy_ok :: "win_process \<Rightarrow> nat \<Rightarrow> win_copy \<Rightarrow> bool" where
  "win_copy_ok S k c \<longleftrightarrow>
     (w_map c \<longleftrightarrow> k \<in> set (map_handles S)) \<and>
     (w_pc c \<in> {N_map, N_view, N_write, N_read, N_unlock} \<longrightarrow> mutex S = Some k \<and> w_lock c) \<and>
     (w_pc c = N_wait \<longrightarrow> w_lock c) \<and>
     (w_pc c \<in> {N_start, N_wait, N_map, N_gone} \<longrightarrow> \<not> w_map c) \<and>
     (w_pc c \<in> {N_view, N_write, N_read} \<longrightarrow> w_map c) \<and>
     (w_pc c \<in> {N_start, N_wait, N_map, N_view, N_write, N_read} \<longrightarrow> \<not> w_dup c) \<and>
     (w_pc c = N_write \<or> w_pc c = N_view \<and> \<not> existed c \<longrightarrow> ident S = Some 0) \<and>
     (w_pc c = N_read \<or> w_pc c = N_view \<and> existed c \<longrightarrow> (\<exists>a. ident S = Some a \<and> other_marker k S a)) \<and>
     (w_pc c \<in> {N_unlock, N_out} \<and> w_map c \<and> \<not> w_dup c \<longrightarrow> ident S = Some (w_marker c)) \<and>
     (w_dup c \<longrightarrow> other_marker k S (Identity (w_first c)))"

text \<open>Who wrote the record, while nobody is inside.\<close>

definition record_ok :: "win_process \<Rightarrow> bool" where
  "record_ok S \<longleftrightarrow> (section_rec S = None \<longleftrightarrow> map_handles S = []) \<and>
     (\<forall>a. ident S = Some a \<longrightarrow> a \<noteq> 0 \<longrightarrow>
        (\<exists>j. a = w_marker (wcopies S j) \<and> w_pc (wcopies S j) \<in> {N_unlock, N_out, N_gone})) \<and>
     (ident S = Some 0 \<longrightarrow> (\<exists>j. mutex S = Some j \<and> w_pc (wcopies S j) \<in> {N_view, N_write}))"

definition markers_ok :: "win_process \<Rightarrow> bool" where
  "markers_ok S \<longleftrightarrow> inj (\<lambda>k. w_marker (wcopies S k)) \<and> (\<forall>k. w_marker (wcopies S k) \<noteq> 0)"

definition win_inv :: "win_process \<Rightarrow> bool" where
  "win_inv S \<longleftrightarrow> (\<forall>k. win_copy_ok S k (wcopies S k)) \<and> record_ok S \<and> markers_ok S"

lemma win_inv_fresh: "win_fresh S \<Longrightarrow> win_inv S"
  by (simp add: win_fresh_def win_inv_def win_copy_ok_def record_ok_def markers_ok_def ident_def)

lemma marker_put [simp]: "w_marker c = w_marker (wcopies S k) \<Longrightarrow> w_marker (((wcopies S)(k := c)) j) = w_marker (wcopies S j)"
  by simp

text \<open>A step of copy \<open>k\<close>: it is enough to look at \<open>k\<close>, at the shared objects, and at what the others rely on.\<close>

lemma win_inv_put:
  assumes inv: "win_inv S" and m: "w_marker c = w_marker (wcopies S k)"
    and c: "win_copy_ok T k c" and T: "wcopies T = (wcopies S)(k := c)" and r: "record_ok T"
    and others: "\<And>j. j \<noteq> k \<Longrightarrow> win_copy_ok S j (wcopies S j) \<Longrightarrow> win_copy_ok T j (wcopies S j)"
  shows "win_inv T"
proof -
  have w: "w_marker (wcopies T j) = w_marker (wcopies S j)" for j using m by (simp add: T)
  then have "markers_ok T" using inv by (simp add: win_inv_def markers_ok_def)
  moreover have "win_copy_ok T j (wcopies T j)" for j
    using c others inv by (cases "j = k") (simp_all add: T win_inv_def)
  ultimately show ?thesis using r by (simp add: win_inv_def)
qed

lemma win_copy_okD:
  assumes "win_copy_ok S k c"
  shows "w_map c \<longleftrightarrow> k \<in> set (map_handles S)"
    "w_pc c \<in> {N_map, N_view, N_write, N_read, N_unlock} \<Longrightarrow> mutex S = Some k \<and> w_lock c"
    "w_pc c \<in> {N_view, N_write, N_read} \<Longrightarrow> w_map c \<and> \<not> w_dup c"
    "w_pc c = N_write \<Longrightarrow> ident S = Some 0"
    "w_pc c \<in> {N_unlock, N_out} \<Longrightarrow> w_map c \<Longrightarrow> \<not> w_dup c \<Longrightarrow> ident S = Some (w_marker c)"
    "w_pc c \<in> {N_start, N_wait, N_map, N_gone} \<Longrightarrow> \<not> w_map c"
  using assms unfolding win_copy_ok_def by blast+

lemma win_copy_keep:
  assumes "win_copy_ok S j c" "j \<in> set (map_handles T) \<longleftrightarrow> j \<in> set (map_handles S)" "mutex S = Some j \<Longrightarrow> mutex T = Some j"
    "w_map c \<Longrightarrow> \<not> w_dup c \<Longrightarrow> ident T = ident S" "\<And>a. other_marker j T a = other_marker j S a"
  shows "win_copy_ok T j c"
proof -
  have "w_pc c \<in> {N_view, N_write, N_read} \<longrightarrow> ident T = ident S"
    using win_copy_okD(3) [OF assms(1)] assms(4) by blast
  moreover have "w_map c \<and> \<not> w_dup c \<longrightarrow> ident T = ident S" using assms(4) by blast
  moreover have "mutex S = Some j \<longrightarrow> mutex T = Some j" using assms(3) by blast
  moreover have "other_marker j T = other_marker j S" using assms(5) by (rule ext)
  ultimately show ?thesis using assms(1,2) unfolding win_copy_ok_def by (cases "w_pc c") auto
qed

lemma other_marker_cong: "(\<And>i. w_marker (wcopies T i) = w_marker (wcopies S i)) \<Longrightarrow> other_marker j T a = other_marker j S a"
  by (simp add: other_marker_def)

lemma ident_puts [simp]: "ident (S\<lparr>wcopies := f\<rparr>) = ident S" "ident (S\<lparr>mutex := m, wcopies := f\<rparr>) = ident S" "ident (S\<lparr>mutex := m\<rparr>) = ident S"
  by (simp_all add: ident_def)

lemma record_keep:
  assumes "record_ok S" "section_rec T = None \<longleftrightarrow> map_handles T = []" "ident T = None \<or> ident T = ident S"
    "\<And>j. w_marker (wcopies T j) = w_marker (wcopies S j)"
    "\<And>j. w_pc (wcopies S j) \<in> {N_unlock, N_out, N_gone} \<Longrightarrow> w_pc (wcopies T j) \<in> {N_unlock, N_out, N_gone}"
    "\<And>j. ident S = Some 0 \<Longrightarrow> mutex S = Some j \<Longrightarrow> w_pc (wcopies S j) \<in> {N_view, N_write} \<Longrightarrow>
       mutex T = Some j \<and> w_pc (wcopies T j) \<in> {N_view, N_write}"
  shows "record_ok T"
  unfolding record_ok_def
proof (intro conjI allI impI)
  fix a assume "ident T = Some a" "a \<noteq> 0"
  then obtain j where "a = w_marker (wcopies S j)" "w_pc (wcopies S j) \<in> {N_unlock, N_out, N_gone}"
    using assms(1,3) unfolding record_ok_def by (metis option.distinct(1))
  then show "\<exists>j. a = w_marker (wcopies T j) \<and> w_pc (wcopies T j) \<in> {N_unlock, N_out, N_gone}" using assms(4,5) by metis
next
  assume "ident T = Some 0"
  then have "ident S = Some 0" using assms(3) by auto
  then show "\<exists>j. mutex T = Some j \<and> w_pc (wcopies T j) \<in> {N_view, N_write}" using assms(1,6) unfolding record_ok_def by blast
qed (rule assms(2))

lemma win_invD:
  assumes "win_inv S"
  shows "win_copy_ok S k (wcopies S k)" "record_ok S" "w_marker (wcopies S k) \<noteq> 0"
    "other_marker k S a \<Longrightarrow> a \<noteq> 0 \<and> a \<noteq> w_marker (wcopies S k)"
  using assms by (auto simp: win_inv_def markers_ok_def other_marker_def dest: injD)

text \<open>Between the mutex and its release only the copy that holds it moves the record.\<close>

lemma inside_ident:
  assumes "win_inv S" "mutex S = Some k" "w_pc (wcopies S k) \<in> {N_map, N_read, N_unlock}"
  shows "ident S \<noteq> Some 0"
  using win_invD(2) [OF assms(1)] assms(2,3) by (auto simp: record_ok_def)

lemma step_start:
  assumes "win_inv S" "w_pc (wcopies S k) = N_start"
  shows "win_inv (put_win k ((wcopies S k)\<lparr>w_lock := True, w_pc := N_wait\<rparr>) S)" (is "win_inv ?T")
proof (rule win_inv_put [OF assms(1)])
  note i = win_invD [OF assms(1)]
  show "win_copy_ok ?T k ((wcopies S k)\<lparr>w_lock := True, w_pc := N_wait\<rparr>)"
    using i(1) [of k] assms(2) by (auto simp: win_copy_ok_def other_marker_def)
  show "record_ok ?T" by (rule record_keep [OF i(2)]) (use i(2) assms(2) in \<open>auto simp: record_ok_def\<close>)
  show "win_copy_ok ?T j (wcopies S j)" if "j \<noteq> k" "win_copy_ok S j (wcopies S j)" for j
    by (rule win_copy_keep [OF that(2)]) (use that(1) in \<open>auto intro!: other_marker_cong\<close>)
qed simp_all

lemma step_wait:
  assumes "win_inv S" "w_pc (wcopies S k) = N_wait" "mutex S = None"
  shows "win_inv (put_win k ((wcopies S k)\<lparr>w_pc := N_map\<rparr>) (S\<lparr>mutex := Some k\<rparr>))" (is "win_inv ?T")
proof (rule win_inv_put [OF assms(1)])
  note i = win_invD [OF assms(1)]
  show "win_copy_ok ?T k ((wcopies S k)\<lparr>w_pc := N_map\<rparr>)"
    using i(1) [of k] assms(2) by (auto simp: win_copy_ok_def)
  show "record_ok ?T" by (rule record_keep [OF i(2)]) (use i(2) assms(2,3) in \<open>auto simp: record_ok_def\<close>)
  show "win_copy_ok ?T j (wcopies S j)" if "j \<noteq> k" "win_copy_ok S j (wcopies S j)" for j
    by (rule win_copy_keep [OF that(2)]) (use that(1) assms(3) in \<open>auto intro!: other_marker_cong\<close>)
qed simp_all

lemma step_map_fails:
  assumes "win_inv S" "w_pc (wcopies S k) = N_map"
  shows "win_inv (put_win k ((wcopies S k)\<lparr>existed := False, w_pc := N_unlock\<rparr>) S)" (is "win_inv ?T")
proof (rule win_inv_put [OF assms(1)])
  note i = win_invD [OF assms(1)]
  show "win_copy_ok ?T k ((wcopies S k)\<lparr>existed := False, w_pc := N_unlock\<rparr>)"
    using i(1) [of k] assms(2) by (auto simp: win_copy_ok_def)
  show "record_ok ?T" by (rule record_keep [OF i(2)]) (use i(2) assms(2) in \<open>auto simp: record_ok_def\<close>)
  show "win_copy_ok ?T j (wcopies S j)" if "j \<noteq> k" "win_copy_ok S j (wcopies S j)" for j
    by (rule win_copy_keep [OF that(2)]) (use that(1) in \<open>auto intro!: other_marker_cong\<close>)
qed simp_all

lemma step_map:
  assumes "win_inv S" "w_pc (wcopies S k) = N_map"
  shows "win_inv (put_win k ((wcopies S k)\<lparr>w_map := True, existed := (section_rec S \<noteq> None), w_pc := N_view\<rparr>)
    (S\<lparr>section_rec := Some (case section_rec S of None \<Rightarrow> zero_rec | Some r \<Rightarrow> r), map_handles := k # map_handles S\<rparr>))" (is "win_inv ?T")
proof (rule win_inv_put [OF assms(1)])
  note i = win_invD [OF assms(1)]
  let ?c = "(wcopies S k)\<lparr>w_map := True, existed := (section_rec S \<noteq> None), w_pc := N_view\<rparr>"
  have m: "mutex S = Some k" using i(1) [of k] assms(2) by (simp add: win_copy_ok_def)
  have n0: "ident S \<noteq> Some 0" by (rule inside_ident [OF assms(1) m]) (simp add: assms(2))
  have id: "ident ?T = (case section_rec S of None \<Rightarrow> Some 0 | Some r \<Rightarrow> ident S)"
    by (simp add: ident_def zero_rec_def split: option.split)
  have om: "other_marker j ?T a = other_marker j S a" for j a by (rule other_marker_cong) simp
  have ex: "\<exists>a. ident S = Some a \<and> other_marker k S a" if r: "section_rec S = Some r" for r
  proof -
    have a: "ident S = Some (r_Identity r)" "r_Identity r \<noteq> 0" using r n0 by (auto simp: ident_def)
    then obtain j where j: "r_Identity r = w_marker (wcopies S j)" "w_pc (wcopies S j) \<in> {N_unlock, N_out, N_gone}"
      using i(2) unfolding record_ok_def by blast
    then have "j \<noteq> k" using assms(2) by auto
    then show ?thesis using a(1) j(1) unfolding other_marker_def by blast
  qed
  show "win_copy_ok ?T k ?c"
    unfolding win_copy_ok_def id om using i(1) [of k] assms(2) m ex by (auto simp: win_copy_ok_def split: option.split)
  show "record_ok ?T"
  proof (cases "section_rec S")
    case None
    then show ?thesis using m unfolding record_ok_def id by auto
  next
    case (Some r)
    show ?thesis by (rule record_keep [OF i(2)]) (use Some id n0 assms(2) in auto)
  qed
  show "win_copy_ok ?T j (wcopies S j)" if j: "j \<noteq> k" "win_copy_ok S j (wcopies S j)" for j
  proof (rule win_copy_keep [OF j(2)])
    assume "w_map (wcopies S j)"
    then have "map_handles S \<noteq> []" using win_copy_okD(1) [OF j(2)] by auto
    then have "section_rec S \<noteq> None" using i(2) unfolding record_ok_def by blast
    then show "ident ?T = ident S" unfolding id by auto
  qed (use j(1) om in auto)
qed simp_all

lemma step_view:
  assumes "win_inv S" "w_pc (wcopies S k) = N_view"
  shows "win_inv (put_win k ((wcopies S k)\<lparr>w_pc := (if existed (wcopies S k) then N_read else N_write)\<rparr>) S)" (is "win_inv ?T")
proof (rule win_inv_put [OF assms(1)])
  note i = win_invD [OF assms(1)]
  have m: "mutex S = Some k" using i(1) [of k] assms(2) by (auto simp: win_copy_ok_def)
  show "win_copy_ok ?T k ((wcopies S k)\<lparr>w_pc := (if existed (wcopies S k) then N_read else N_write)\<rparr>)"
    using i(1) [of k] assms(2) by (auto simp: win_copy_ok_def other_marker_def)
  have "ident S \<noteq> Some 0" if "existed (wcopies S k)"
    using i(1) [of k] i(4) [of k 0] assms(2) that by (auto simp: win_copy_ok_def)
  then show "record_ok ?T" by (rule_tac record_keep [OF i(2)]) (use i(2) assms(2) m in \<open>auto simp: record_ok_def split: if_splits\<close>)
  show "win_copy_ok ?T j (wcopies S j)" if "j \<noteq> k" "win_copy_ok S j (wcopies S j)" for j
    by (rule win_copy_keep [OF that(2)]) (use that(1) in \<open>auto intro!: other_marker_cong\<close>)
qed simp_all

lemma step_write:
  assumes "win_inv S" "w_pc (wcopies S k) = N_write"
  shows "win_inv (put_win k ((wcopies S k)\<lparr>w_pc := N_unlock\<rparr>)
    (S\<lparr>section_rec := Some \<lparr>r_Abi = a, r_Identity = w_marker (wcopies S k), r_Module = n\<rparr>\<rparr>))" (is "win_inv ?T")
proof (rule win_inv_put [OF assms(1)])
  note i = win_invD [OF assms(1)]
  have m: "mutex S = Some k" "ident S = Some 0" "w_map (wcopies S k)" using win_copy_okD(2,3,4) [OF i(1) [of k]] assms(2) by simp_all
  have id: "ident ?T = Some (w_marker (wcopies S k))" by (simp add: ident_def)
  have om: "other_marker j ?T b = other_marker j S b" for j b by (rule other_marker_cong) simp
  show "win_copy_ok ?T k ((wcopies S k)\<lparr>w_pc := N_unlock\<rparr>)"
    unfolding win_copy_ok_def id om using i(1) [of k] assms(2) by (auto simp: win_copy_ok_def)
  have "map_handles S \<noteq> []" using win_copy_okD(1) [OF i(1) [of k]] m(3) by auto
  then show "record_ok ?T" unfolding record_ok_def id using i(3) [of k] by auto
  show "win_copy_ok ?T j (wcopies S j)" if j: "j \<noteq> k" "win_copy_ok S j (wcopies S j)" for j
  proof (rule win_copy_keep [OF j(2)])
    assume "w_map (wcopies S j)" "\<not> w_dup (wcopies S j)"
    then have False using j(1) m(1,2) i(3) [of j] win_copy_okD(2,5,6) [OF j(2)] by (cases "w_pc (wcopies S j)") simp_all
    then show "ident ?T = ident S" ..
  qed (use om in auto)
qed simp_all

lemma step_read:
  assumes "win_inv S" "w_pc (wcopies S k) = N_read"
  defines "r \<equiv> the (section_rec S)"
  shows "r_Identity r \<noteq> w_marker (wcopies S k)"
    "win_inv (put_win k ((wcopies S k)\<lparr>w_dup := True, w_first := \<lparr>AbiVersion = a, Identity = r_Identity r, Module = n\<rparr>, w_pc := N_unlock\<rparr>) S)"
      (is "win_inv ?T")
proof -
  note i = win_invD [OF assms(1)]
  obtain b where b: "ident S = Some b" "other_marker k S b" using i(1) [of k] assms(2) by (auto simp: win_copy_ok_def)
  have rb: "r_Identity r = b" using b(1) by (auto simp: ident_def r_def)
  then show ne: "r_Identity r \<noteq> w_marker (wcopies S k)" using i(4) [OF b(2)] by simp
  show "win_inv ?T"
  proof (rule win_inv_put [OF assms(1)])
    show "win_copy_ok ?T k ((wcopies S k)\<lparr>w_dup := True, w_first := \<lparr>AbiVersion = a, Identity = r_Identity r, Module = n\<rparr>, w_pc := N_unlock\<rparr>)"
      using i(1) [of k] assms(2) b(2) rb by (auto simp: win_copy_ok_def other_marker_def)
    show "record_ok ?T" by (rule record_keep [OF i(2)]) (use i(2) assms(2) in \<open>auto simp: record_ok_def\<close>)
    show "win_copy_ok ?T j (wcopies S j)" if "j \<noteq> k" "win_copy_ok S j (wcopies S j)" for j
      by (rule win_copy_keep [OF that(2)]) (use that(1) in \<open>auto intro!: other_marker_cong\<close>)
  qed simp_all
qed

lemma step_unlock:
  assumes "win_inv S" "w_pc (wcopies S k) = N_unlock"
  shows "win_inv (put_win k ((wcopies S k)\<lparr>w_pc := N_out\<rparr>) (S\<lparr>mutex := None\<rparr>))" (is "win_inv ?T")
proof (rule win_inv_put [OF assms(1)])
  note i = win_invD [OF assms(1)]
  have m: "mutex S = Some k" using i(1) [of k] assms(2) by (simp add: win_copy_ok_def)
  have n0: "ident S \<noteq> Some 0" by (rule inside_ident [OF assms(1) m]) (simp add: assms(2))
  show "win_copy_ok ?T k ((wcopies S k)\<lparr>w_pc := N_out\<rparr>)"
    using i(1) [of k] assms(2) by (auto simp: win_copy_ok_def other_marker_def)
  show "record_ok ?T" by (rule record_keep [OF i(2)]) (use i(2) assms(2) n0 in \<open>auto simp: record_ok_def\<close>)
  show "win_copy_ok ?T j (wcopies S j)" if "j \<noteq> k" "win_copy_ok S j (wcopies S j)" for j
    by (rule win_copy_keep [OF that(2)]) (use that(1) m in \<open>auto intro!: other_marker_cong\<close>)
qed simp_all

lemma step_release:
  assumes "win_inv S" "win_release_os k S = Some T"
  shows "win_inv T"
proof -
  note i = win_invD [OF assms(1)]
  define hs where "hs = filter (\<lambda>j. j \<noteq> k) (map_handles S)"
  let ?c = "(wcopies S k)\<lparr>w_map := False, w_lock := False, w_pc := N_gone\<rparr>"
  have pc: "w_pc (wcopies S k) = N_out" and T: "T = put_win k ?c (S\<lparr>map_handles := hs, section_rec := (if hs = [] then None else section_rec S)\<rparr>)"
    using assms(2) by (auto simp: win_release_os_def hs_def Let_def split: if_splits)
  have om: "other_marker j T b = other_marker j S b" for j b by (rule other_marker_cong) (simp add: T)
  have id: "ident T = (if hs = [] then None else ident S)" by (simp add: T ident_def)
  have mt: "mutex T = mutex S" by (simp add: T)
  show ?thesis
  proof (rule win_inv_put [OF assms(1)])
    show "win_copy_ok T k ?c" unfolding win_copy_ok_def om using i(1) [of k] pc by (auto simp: win_copy_ok_def T hs_def)
    have n: "map_handles S \<noteq> []" if "hs \<noteq> []" using that by (auto simp: hs_def)
    show "record_ok T"
    proof (rule record_keep [OF i(2)])
      show "section_rec T = None \<longleftrightarrow> map_handles T = []" using i(2) n by (auto simp: T record_ok_def)
      show "ident T = None \<or> ident T = ident S" unfolding id by simp
    qed (use pc in \<open>auto simp: T\<close>)
    show "win_copy_ok T j (wcopies S j)" if j: "j \<noteq> k" "win_copy_ok S j (wcopies S j)" for j
    proof (rule win_copy_keep [OF j(2)])
      show "j \<in> set (map_handles T) \<longleftrightarrow> j \<in> set (map_handles S)" using j(1) by (simp add: T hs_def)
      assume "w_map (wcopies S j)"
      then have "j \<in> set hs" using j by (simp add: win_copy_ok_def hs_def)
      then show "ident T = ident S" unfolding id by auto
    qed (use om mt in auto)
  qed (simp_all add: T)
qed

lemma step_register:
  assumes "win_inv S" "creates_mutex V" "views V" "win_register_os_step V k S = Some T"
  shows "win_inv T"
proof (cases "w_pc (wcopies S k)")
  case N_start
  then show ?thesis using step_start [OF assms(1) N_start] assms(2,4) by (simp add: win_register_os_step_def Let_def)
next
  case N_wait
  then show ?thesis using step_wait [OF assms(1) N_wait] assms(4) by (auto simp: win_register_os_step_def Let_def split: if_splits)
next
  case N_map
  then show ?thesis using step_map_fails [OF assms(1) N_map] step_map [OF assms(1) N_map] assms(4)
    by (auto simp: win_register_os_step_def Let_def split: if_splits)
next
  case N_view
  then show ?thesis using step_view [OF assms(1) N_view] assms(3,4) by (simp add: win_register_os_step_def Let_def)
next
  case N_write
  then show ?thesis using step_write [OF assms(1) N_write] assms(4) by (auto simp: win_register_os_step_def Let_def)
next
  case N_read
  then show ?thesis using step_read [OF assms(1) N_read] assms(4) by (auto simp: win_register_os_step_def Let_def)
next
  case N_unlock
  then have "w_lock (wcopies S k)" using win_invD(1) [OF assms(1), of k] by (simp add: win_copy_ok_def)
  then show ?thesis using step_unlock [OF assms(1) N_unlock] N_unlock assms(4) by (auto simp: win_register_os_step_def Let_def)
qed (use assms(4) in \<open>simp_all add: win_register_os_step_def Let_def\<close>)

lemma win_runs_inv: "win_runs (\<lambda>V. creates_mutex V \<and> views V) S0 S \<Longrightarrow> win_fresh S0 \<Longrightarrow> win_inv S"
  by (induction rule: win_runs.induct) (auto intro: win_inv_fresh step_register step_release)

section \<open>Properties\<close>

text \<open>On Windows there is no race: in every interleaving of copies that register and leave, while the
  system grants the mutex and the view, at most one of the copies that are in and have a handle takes
  itself for the only one, and every copy that reports a duplicate names another copy.\<close>

theorem win_first_exact:
  assumes "win_fresh S0" "win_runs (\<lambda>V. creates_mutex V \<and> views V) S0 S"
  shows "(\<forall>j k. w_pc (wcopies S j) = N_out \<and> w_map (wcopies S j) \<and> \<not> w_dup (wcopies S j) \<and>
        w_pc (wcopies S k) = N_out \<and> w_map (wcopies S k) \<and> \<not> w_dup (wcopies S k) \<longrightarrow> j = k) \<and>
    (\<forall>k. w_dup (wcopies S k) \<longrightarrow> (\<exists>j. j \<noteq> k \<and> Identity (w_first (wcopies S k)) = w_marker (wcopies S j)))"
proof -
  have inv: "win_inv S" by (rule win_runs_inv [OF assms(2,1)])
  then have inj: "inj (\<lambda>k. w_marker (wcopies S k))" by (simp add: win_inv_def markers_ok_def)
  have id: "ident S = Some (w_marker (wcopies S k))" if "w_pc (wcopies S k) = N_out" "w_map (wcopies S k)" "\<not> w_dup (wcopies S k)" for k
    using win_invD(1) [OF inv, of k] that by (simp add: win_copy_ok_def)
  have "j = k" if "w_pc (wcopies S j) = N_out" "w_map (wcopies S j)" "\<not> w_dup (wcopies S j)"
    "w_pc (wcopies S k) = N_out" "w_map (wcopies S k)" "\<not> w_dup (wcopies S k)" for j k
    using id [OF that(1-3)] id [OF that(4-6)] injD [OF inj, of j k] by simp
  moreover have "w_dup (wcopies S k) \<longrightarrow> (\<exists>j. j \<noteq> k \<and> Identity (w_first (wcopies S k)) = w_marker (wcopies S j))" for k
    using win_invD(1) [OF inv, of k] by (auto simp: win_copy_ok_def other_marker_def)
  ultimately show ?thesis by blast
qed

text \<open>The mutex is what prevents it: when it cannot be created, a copy may read the record before the
  first one has written it, and reports a duplicate that it cannot name.\<close>

definition win_two :: win_process where
  "win_two = \<lparr>section_rec = None, map_handles = [], mutex = None,
     wcopies = (\<lambda>k. \<lparr>w_marker = k + 1, w_module = [], w_first = \<lparr>AbiVersion = 0, Identity = 0, Module = []\<rparr>, w_dup = False, w_lock = False,
       w_map = False, existed = False, w_pc = N_start\<rparr>)\<rparr>"

lemma win_two_fresh: "win_fresh win_two"
  by (simp add: win_fresh_def win_two_def inj_def)

definition no_mutex :: win_env where
  "no_mutex = \<lparr>creates_mutex = False, creates_map = True, views = True\<rparr>"

fun win_schedule :: "win_env \<Rightarrow> nat list \<Rightarrow> win_process \<Rightarrow> win_process option" where
  "win_schedule V [] S = Some S"
| "win_schedule V (k # ks) S = (case win_register_os_step V k S of None \<Rightarrow> None | Some S' \<Rightarrow> win_schedule V ks S')"

lemma win_schedule_runs: "win_runs ok S0 S \<Longrightarrow> ok V \<Longrightarrow> win_schedule V ks S = Some S' \<Longrightarrow> win_runs ok S0 S'"
  by (induction ks arbitrary: S) (auto split: option.splits intro: win_runs.step)

lemma win_race_without_mutex:
  "\<exists>S. win_runs (\<lambda>V. V = no_mutex) win_two S \<and> w_dup (wcopies S 1) \<and> Identity (w_first (wcopies S 1)) = 0"
proof -
  obtain S where S: "win_schedule no_mutex [0, 0, 1, 1, 1, 1] win_two = Some S" "w_dup (wcopies S 1)" "Identity (w_first (wcopies S 1)) = 0"
    by (simp add: no_mutex_def win_two_def win_register_os_step_def Let_def zero_rec_def)
  then show ?thesis using win_schedule_runs [OF win_runs.start, of "\<lambda>V. V = no_mutex" no_mutex] by blast
qed

lemma win_first_exact_witness:
  "\<exists>S. win_runs (\<lambda>V. creates_mutex V \<and> views V) win_two S \<and> w_dup (wcopies S 1) \<and> Identity (w_first (wcopies S 1)) = w_marker (wcopies S 0)"
proof -
  let ?V = "\<lparr>creates_mutex = True, creates_map = True, views = True\<rparr>"
  obtain S where S: "win_schedule ?V [0, 0, 0, 0, 0, 0, 1, 1, 1, 1, 1, 1] win_two = Some S" "w_dup (wcopies S 1)"
      "Identity (w_first (wcopies S 1)) = w_marker (wcopies S 0)"
    by (simp add: win_two_def win_register_os_step_def Let_def zero_rec_def)
  have r: "win_runs (\<lambda>V. creates_mutex V \<and> views V) win_two S" by (rule win_schedule_runs [OF win_runs.start _ S(1)]) simp
  show ?thesis using r S win_first_exact [OF win_two_fresh r] by blast
qed

end
