(* ===== verification/Leak_Monitor.thy ===== *)
theory Leak_Monitor
  imports Leak_Watch
begin

text \<open>
  The monitor thread of \<open>mem_leak_watch.c\<close>: starting it, its loop, and stopping it.  The loop and
  \<open>mem_leak_watch_stop\<close> are state machines that interleave; the event word \<open>g_wait\<close> is a futex
  word, as on Linux.
\<close>

section \<open>Starting\<close>

record watch =
  g_cfg :: MemLeakWatchConfig
  g_running :: int
  g_wait :: int
  g_thread :: bool
  g_log_open :: bool
  g_pool :: MemPool

text \<open>Zero fields of the caller's configuration mean the default.\<close>

definition merge_config :: "MemLeakWatchConfig option \<Rightarrow> MemLeakWatchConfig \<Rightarrow> MemLeakWatchConfig" where
  "merge_config cfg def =
    (case cfg of
       None \<Rightarrow> def
     | Some c \<Rightarrow>
         let c = (if interval_ms c = 0 then c\<lparr>interval_ms := interval_ms def\<rparr> else c);
             c = (if warn_threshold_bytes c = 0 then c\<lparr>warn_threshold_bytes := warn_threshold_bytes def\<rparr> else c);
             c = (if crit_threshold_bytes c = 0 then c\<lparr>crit_threshold_bytes := crit_threshold_bytes def\<rparr> else c)
         in if log_path c = None then c\<lparr>log_path := log_path def\<rparr> else c)"

definition config_blank :: MemLeakWatchConfig where
  "config_blank = \<lparr>enabled = False, interval_ms = 0, warn_threshold_bytes = 0, crit_threshold_bytes = 0, log_path = None\<rparr>"

text \<open>\<open>phys\<close> and \<open>path\<close> give the defaults; \<open>created\<close> says whether the thread is created.\<close>

definition mem_leak_watch_start :: "nat option \<Rightarrow> string \<Rightarrow> bool \<Rightarrow> MemLeakWatchConfig option \<Rightarrow> watch \<Rightarrow> bool \<times> watch" where
  "mem_leak_watch_start phys path created cfg W =
    (let (ok, running, _) = atomic_cas_inline (g_running W) 0 1; W1 = W\<lparr>g_running := running\<rparr>
     in if \<not> ok then (False, W1)
        else
          let def = the (mem_leak_watch_default_config phys path (Some config_blank));
              c = merge_config cfg def;
              W2 = W1\<lparr>g_cfg := c, g_pool := memop_enable_leak_watch (enabled c) (g_pool W1)\<rparr>
          in if \<not> enabled c then (False, W2\<lparr>g_running := 0\<rparr>)
             else
               let W3 = W2\<lparr>g_wait := 0\<rparr>
               in if created then (True, W3\<lparr>g_thread := True\<rparr>)
                  else (False, W3\<lparr>g_thread := False, g_running := 0, g_pool := memop_enable_leak_watch False (g_pool W3)\<rparr>))"

section \<open>The loop and the stop\<close>

datatype mon_pc = M_check | M_prepare | M_sleep | M_recheck | M_read | M_scan MlwLevel | M_exited

datatype stop_pc = P_idle | P_wake | P_join | P_close | P_done

record watch_run =
  state :: watch
  mpc :: mon_pc
  spc :: stop_pc

text \<open>A step of \<open>mlw_monitor_loop\<close>; a sleep on a zero word lasts until it times out.\<close>

definition mlw_monitor_step :: "scan_env \<Rightarrow> registry \<Rightarrow> bool \<Rightarrow> watch_run \<Rightarrow> watch_run option" where
  "mlw_monitor_step V R timeout s =
    (let W = state s in
     case mpc s of
       M_check \<Rightarrow> Some (s\<lparr>mpc := (if g_running W = 0 then M_exited else M_prepare)\<rparr>)
     | M_prepare \<Rightarrow> Some (s\<lparr>state := W\<lparr>g_wait := 0\<rparr>, mpc := M_sleep\<rparr>)
     | M_sleep \<Rightarrow>
         if g_wait W \<noteq> 0 then Some (s\<lparr>state := W\<lparr>g_wait := 0\<rparr>, mpc := M_recheck\<rparr>)
         else if timeout then Some (s\<lparr>mpc := M_recheck\<rparr>) else None
     | M_recheck \<Rightarrow> Some (s\<lparr>mpc := (if g_running W = 0 then M_exited else M_read)\<rparr>)
     | M_read \<Rightarrow>
         (case memop_get_stats (g_pool W) of
            (st, P1) \<Rightarrow> Some (s\<lparr>state := W\<lparr>g_pool := P1\<rparr>, mpc := (case mlw_check (g_cfg W) st of None \<Rightarrow> M_check | Some l \<Rightarrow> M_scan l)\<rparr>))
     | M_scan l \<Rightarrow>
         (case mlw_run_scan V l R (g_log_open W) (g_pool W) of
            (out, f, P1) \<Rightarrow> Some (s\<lparr>state := W\<lparr>g_log_open := f, g_pool := P1\<rparr>, mpc := M_check\<rparr>))
     | M_exited \<Rightarrow> None)"

text \<open>\<open>mem_leak_watch_stop\<close>, one action at a time; the join waits for the monitor.\<close>

definition mem_leak_watch_stop_step :: "watch_run \<Rightarrow> watch_run option" where
  "mem_leak_watch_stop_step s =
    (let W = state s in
     case spc s of
       P_idle \<Rightarrow>
         (let (ok, running, _) = atomic_cas_inline (g_running W) 1 0
          in Some (s\<lparr>state := W\<lparr>g_running := running\<rparr>, spc := (if ok then P_wake else P_done)\<rparr>))
     | P_wake \<Rightarrow> Some (s\<lparr>state := W\<lparr>g_wait := 1\<rparr>, spc := P_join\<rparr>)
     | P_join \<Rightarrow> if mpc s = M_exited then Some (s\<lparr>state := W\<lparr>g_thread := False\<rparr>, spc := P_close\<rparr>) else None
     | P_close \<Rightarrow> Some (s\<lparr>state := W\<lparr>g_pool := memop_enable_leak_watch False (g_pool W), g_log_open := False\<rparr>, spc := P_done\<rparr>)
     | P_done \<Rightarrow> None)"

datatype watch_actor = Monitor | Timeout | Stopper

inductive watch_step :: "watch_run \<Rightarrow> watch_actor \<Rightarrow> watch_run \<Rightarrow> bool" where
  monitor: "mlw_monitor_step V R False s = Some s' \<Longrightarrow> watch_step s Monitor s'"
| timeout: "mpc s = M_sleep \<Longrightarrow> g_wait (state s) = 0 \<Longrightarrow> mlw_monitor_step V R True s = Some s' \<Longrightarrow> watch_step s Timeout s'"
| stopper: "mem_leak_watch_stop_step s = Some s' \<Longrightarrow> watch_step s Stopper s'"

inductive watch_steps :: "watch_run \<Rightarrow> watch_actor list \<Rightarrow> watch_run \<Rightarrow> bool" for s0 where
  start: "watch_steps s0 [] s0"
| more: "watch_steps s0 as s \<Longrightarrow> watch_step s a s' \<Longrightarrow> watch_steps s0 (as @ [a]) s'"

definition watch_begin :: "watch \<Rightarrow> watch_run" where
  "watch_begin W = \<lparr>state = W, mpc = M_check, spc = P_idle\<rparr>"

inductive_cases watch_stepE: "watch_step s a s'"

section \<open>Properties\<close>

lemma merge_config_filled:
  assumes "interval_ms def > 0" "log_path def \<noteq> None"
  shows "interval_ms (merge_config cfg def) > 0" "log_path (merge_config cfg def) \<noteq> None"
proof (atomize(full), cases cfg)
  case (Some c)
  show "interval_ms (merge_config cfg def) > 0 \<and> log_path (merge_config cfg def) \<noteq> None"
    unfolding Some merge_config_def option.case Let_def using assms
    by (cases "interval_ms c = 0"; cases "warn_threshold_bytes c = 0"; cases "crit_threshold_bytes c = 0"; cases "log_path c = None") simp_all
qed (use assms in \<open>simp add: merge_config_def\<close>)

lemma default_config_filled:
  "interval_ms (the (mem_leak_watch_default_config phys path (Some c))) > 0"
  "log_path (the (mem_leak_watch_default_config phys path (Some c))) \<noteq> None"
  by (simp_all add: mem_leak_watch_default_config_def Let_def)

text \<open>\<open>mem_leak_watch_start\<close> is refused without any effect while the monitor runs; otherwise it runs with the caller's
  settings, zero ones replaced by the defaults, and with the recording of sites on, exactly if the settings enable it
  and the thread starts; if not, it leaves the monitor stopped and the recording off.\<close>

theorem watch_start_outcomes:
  assumes "g_running W = 0 \<or> g_running W = 1" "mem_leak_watch_start phys path created cfg W = (ok, W')"
  shows "if g_running W = 1 then \<not> ok \<and> W' = W
    else (let c = merge_config cfg (the (mem_leak_watch_default_config phys path (Some config_blank))) in
      g_cfg W' = c \<and> ok = (enabled c \<and> created) \<and> g_running W' = (if ok then 1 else 0) \<and>
      leak_watch_enabled (sites (g_pool W')) = ok \<and> interval_ms c > 0 \<and> log_path c \<noteq> None \<and>
      (ok \<longrightarrow> g_thread W' \<and> g_wait W' = 0))"
proof -
  let ?c = "merge_config cfg (the (mem_leak_watch_default_config phys path (Some config_blank)))"
  have d: "interval_ms ?c > 0" "log_path ?c \<noteq> None"
    using merge_config_filled [OF default_config_filled(1) default_config_filled(2)] by blast+
  show ?thesis
    using assms d by (auto simp: mem_leak_watch_start_def atomic_cas_inline_def Let_def memop_enable_leak_watch_def memop_leak_watch_enable_def
        split: if_splits)
qed

definition idle_watch :: watch where
  "idle_watch = \<lparr>g_cfg = config_blank, g_running = 0, g_wait = 0, g_thread = False, g_log_open = False, g_pool = pool_zero\<rparr>"

theorem watch_start_outcomes_witness:
  "\<exists>W'. mem_leak_watch_start None ''log'' True None idle_watch = (True, W') \<and> g_running W' = 1 \<and> interval_ms (g_cfg W') > 0"
proof -
  obtain ok W' where e: "mem_leak_watch_start None ''log'' True None idle_watch = (ok, W')" by force
  have r: "g_running idle_watch = 0" by (simp add: idle_watch_def)
  have "enabled (merge_config None (the (mem_leak_watch_default_config None ''log'' (Some config_blank))))"
    by (simp add: merge_config_def mem_leak_watch_default_config_def)
  then show ?thesis using watch_start_outcomes [OF disjI1 [OF r] e] r e by (auto simp: Let_def)
qed

lemma watch_steps_stopping:
  assumes "watch_steps (watch_begin W) as s"
  shows "spc s \<in> {P_wake, P_join} \<longrightarrow> g_running (state s) = 0"
  using assms
proof (induction rule: watch_steps.induct)
  case start
  show ?case by (simp add: watch_begin_def)
next
  case (more as s a s')
  from more(2) show ?case
  proof (rule watch_stepE)
    fix V R assume "a = Monitor" "mlw_monitor_step V R False s = Some s'"
    then show ?thesis using more(3) by (auto simp: mlw_monitor_step_def Let_def split: mon_pc.splits if_splits prod.splits)
  next
    fix V R assume "a = Timeout" "mlw_monitor_step V R True s = Some s'"
    then show ?thesis using more(3) by (auto simp: mlw_monitor_step_def Let_def split: mon_pc.splits if_splits prod.splits)
  next
    assume "a = Stopper" "mem_leak_watch_stop_step s = Some s'"
    then show ?thesis using more(3)
      by (auto simp: mem_leak_watch_stop_step_def atomic_cas_inline_def Let_def split: stop_pc.splits if_splits)
  qed
qed

definition monitor_on :: "scan_env \<Rightarrow> registry \<Rightarrow> watch_run \<Rightarrow> watch_run" where
  "monitor_on V R s = (case mlw_monitor_step V R True s of None \<Rightarrow> s | Some s' \<Rightarrow> s')"

lemma monitor_on_quits:
  assumes "g_running (state s) = 0"
  shows "g_running (state (monitor_on V R s)) = 0"
    "mpc (monitor_on V R s) \<in> (case mpc s of M_check \<Rightarrow> {M_exited} | M_prepare \<Rightarrow> {M_sleep} | M_sleep \<Rightarrow> {M_recheck} | M_recheck \<Rightarrow> {M_exited}
       | M_read \<Rightarrow> {M_check} \<union> range M_scan | M_scan l \<Rightarrow> {M_check} | M_exited \<Rightarrow> {M_exited})"
  using assms by (auto simp: monitor_on_def mlw_monitor_step_def Let_def split: mon_pc.splits option.splits prod.splits)

text \<open>C34: stopping ends: once \<open>mem_leak_watch_stop\<close> waits for the monitor thread, that thread ends after at most three more
  steps of its own, whatever it was doing, if its sleep is allowed to time out.\<close>

theorem watch_stop_ends:
  assumes "watch_steps (watch_begin W) as s" "spc s = P_join"
  shows "mpc ((monitor_on V R ^^ 3) s) = M_exited"
proof -
  have r: "g_running (state s) = 0" using watch_steps_stopping [OF assms(1)] assms(2) by simp
  note q1 = monitor_on_quits [OF r, of V R]
  note q2 = monitor_on_quits [OF q1(1), of V R]
  note q3 = monitor_on_quits [OF q2(1), of V R]
  show ?thesis using q1(2) q2(2) q3(2) by (cases "mpc s") (auto simp: eval_nat_numeral)
qed

definition running_watch :: watch where
  "running_watch = idle_watch\<lparr>g_running := 1, g_thread := True\<rparr>"

definition deaf_run :: watch_run where
  "deaf_run = \<lparr>state = running_watch\<lparr>g_running := 0\<rparr>, mpc = M_sleep, spc = P_join\<rparr>"

lemma deaf_run_reached: "watch_steps (watch_begin running_watch) [Monitor, Stopper, Stopper, Monitor] deaf_run"
proof -
  let ?s1 = "\<lparr>state = running_watch, mpc = M_prepare, spc = P_idle\<rparr>"
  let ?s2 = "\<lparr>state = running_watch\<lparr>g_running := 0\<rparr>, mpc = M_prepare, spc = P_wake\<rparr>"
  let ?s3 = "\<lparr>state = running_watch\<lparr>g_running := 0, g_wait := 1\<rparr>, mpc = M_prepare, spc = P_join\<rparr>"
  have "watch_step (watch_begin running_watch) Monitor ?s1"
    by (rule watch_step.monitor [of undefined undefined]) (simp add: mlw_monitor_step_def watch_begin_def running_watch_def Let_def)
  moreover have "watch_step ?s1 Stopper ?s2"
    by (rule watch_step.stopper) (simp add: mem_leak_watch_stop_step_def atomic_cas_inline_def running_watch_def Let_def)
  moreover have "watch_step ?s2 Stopper ?s3"
    by (rule watch_step.stopper) (simp add: mem_leak_watch_stop_step_def Let_def)
  moreover have "watch_step ?s3 Monitor deaf_run"
    by (rule watch_step.monitor [of undefined undefined]) (simp add: mlw_monitor_step_def deaf_run_def running_watch_def idle_watch_def Let_def)
  ultimately have "watch_steps (watch_begin running_watch) ([] @ [Monitor] @ [Stopper] @ [Stopper] @ [Monitor]) deaf_run"
    using watch_steps.more [OF watch_steps.more [OF watch_steps.more [OF watch_steps.more [OF watch_steps.start]]]]
    by (metis append_assoc)
  then show ?thesis by simp
qed

theorem watch_stop_ends_witness: "mpc ((monitor_on calm_env registry_zero ^^ 3) deaf_run) = M_exited"
  by (rule watch_stop_ends [OF deaf_run_reached]) (simp add: deaf_run_def)

text \<open>The wake-up of the stop can be lost: if it comes between the monitor's test of the flag and its preparation of the
  event word, the word is cleared again and the monitor sleeps; the stop then waits, and nothing but the end of the
  whole interval (a minute by default) lets either go on.\<close>

theorem watch_stop_wake_lost:
  "watch_steps (watch_begin running_watch) [Monitor, Stopper, Stopper, Monitor] deaf_run \<and> spc deaf_run = P_join \<and>
   {a. \<exists>s'. watch_step deaf_run a s'} = {Timeout}"
proof -
  have "a = Timeout" if "watch_step deaf_run a s'" for a s'
    using that by (rule watch_stepE)
      (auto simp: deaf_run_def mlw_monitor_step_def mem_leak_watch_stop_step_def running_watch_def idle_watch_def Let_def)
  moreover have "watch_step deaf_run Timeout (deaf_run\<lparr>mpc := M_recheck\<rparr>)"
    by (rule watch_step.timeout [of _ undefined undefined]) (simp_all add: deaf_run_def mlw_monitor_step_def running_watch_def idle_watch_def Let_def)
  ultimately show ?thesis using deaf_run_reached by (auto simp: deaf_run_def)
qed

end
