(* ===== verification/Platform.thy ===== *)
theory Platform
  imports Instance Pool_Creation Leak_Monitor
begin

text \<open>
  \<open>xplatbase.c\<close>: bringing the library up.
  \<open>platform_init\<close> runs when a copy of the library is loaded; it composes the operations of the
  components: the registration of the copy, the memory pool, the thread list, the task pool and
  the leak monitor.
\<close>

section \<open>The platform\<close>

record platform =
  platform_initialized :: bool
  pf_process :: process
  pf_signals :: "int set"
  pf_registry :: registry
  pf_global :: global_pool
  pf_watch :: watch

definition xpb_event_init :: "platform \<Rightarrow> platform" where
  "xpb_event_init F = F\<lparr>pf_signals := pf_signals F \<union> {11, 6}\<rparr>"

text \<open>\<open>strlen\<close> of the bytes of the euro sign; another length than three ends the process.\<close>

definition test_utf8 :: bool where
  "test_utf8 \<longleftrightarrow> length (takeWhile (\<lambda>b. b \<noteq> 0) [0xE2, 0x82, 0xAC, 0 :: 8 word]) = 3"

text \<open>What the system answers to the parts, and the addresses of the pool's two thread callbacks.\<close>

record platform_env =
  pe_instance :: inst_env
  pe_pool :: create_env
  pe_phys :: "nat option"
  pe_path :: string
  pe_watch_thread :: bool
  cb_created :: addr
  cb_ended :: addr

text \<open>None: the process ends, by the abort of a fatal duplicate or by a crash.  The copy of the library is number \<open>k\<close>.\<close>

definition platform_init :: "platform_env \<Rightarrow> nat \<Rightarrow> platform \<Rightarrow> platform option" where
  "platform_init V k F =
    (if platform_initialized F then Some F
     else
       let S1 = xplat_instance_register (pe_instance V) k (pf_process F);
           (dup, first, S2) = xplat_instance_check (pe_instance V) k S1;
           F2 = F\<lparr>pf_process := S2\<rparr>
       in if aborted S2 then None
          else if dup then Some (F2\<lparr>platform_initialized := True\<rparr>)
          else if \<not> test_utf8 then None
          else
            let F3 = xpb_event_init F2;
                F4 = F3\<lparr>pf_watch := (pf_watch F3)\<lparr>g_pool := memop_init (g_pool (pf_watch F3))\<rparr>,
                        pf_registry := thread_init (cb_created V) (cb_ended V) (pf_registry F3)\<rparr>
            in (case pool_create (pe_pool V) (pf_global F4) of
                  None \<Rightarrow> None
                | Some g \<Rightarrow>
                    (case mem_leak_watch_start (pe_phys V) (pe_path V) (pe_watch_thread V) None (pf_watch F4) of
                       (ok, W) \<Rightarrow> Some (F4\<lparr>pf_global := g, pf_watch := W, platform_initialized := True\<rparr>))))"

section \<open>The second copy\<close>

lemma test_utf8_holds: "test_utf8"
  by (simp add: test_utf8_def)

lemma register_begin_fatal:
  "\<not> g_registered c \<Longrightarrow> g_fatal (register_begin V c) = g_fatal (instance_read_policy V c)"
  by (simp add: register_begin_def instance_fill_module_def instance_read_policy_def Let_def split: option.split list.split)

lemma register_second:
  assumes "announced c S" "k \<noteq> c" "\<not> g_registered (copies S k)" "ipc (copies S k) = I_idle" "opens V"
    "self_marker (copies S k) \<noteq> self_marker (copies S c)"
  shows "\<exists>d. told (copies S c) d \<and> g_registered d \<and>
    xplat_instance_register V k S =
      (if g_fatal (instance_read_policy V (copies S k)) then (put_copy k d S)\<lparr>aborted := True\<rparr> else put_copy k d S)"
proof -
  obtain i where i: "file_name S = Some i" "lock_owner S i = Some c" "contents S i = Some (own_record (copies S c))"
    using assms(1) by (auto simp: announced_def owner_def split: option.splits)
  define b where "b = register_begin V (copies S k)"
  note f = register_begin_fields [OF assms(3), of V, folded b_def]
  define d where "d = b\<lparr>g_fd := None, g_duplicate := True, g_first := \<lparr>AbiVersion = 1, Identity = self_marker (copies S c),
      Module = module_text (g_my_module (copies S c))\<rparr>, ipc := I_idle\<rparr>"
  note s = xplat_instance_register_step_def instance_register_os_step_def
  have 1: "xplat_instance_register_step V k S = put_copy k b S" using assms(4) by (simp add: s b_def)
  have 2: "xplat_instance_register_step V k (put_copy k b S) = put_copy k (b\<lparr>g_fd := Some i, ipc := I_lock\<rparr>) S"
    using f i assms(5) by (simp add: s Let_def)
  have 3: "xplat_instance_register_step V k (put_copy k (b\<lparr>g_fd := Some i, ipc := I_lock\<rparr>) S) = put_copy k (b\<lparr>g_fd := Some i, ipc := I_read\<rparr>) S"
    using i assms(2) by (simp add: s Let_def)
  have 4: "xplat_instance_register_step V k (put_copy k (b\<lparr>g_fd := Some i, ipc := I_read\<rparr>) S) = put_copy k (d\<lparr>g_fd := Some i, ipc := I_close\<rparr>) S"
    using i f(5) assms(6) by (cases b) (simp add: s own_record_def d_def module_text_def Let_def)
  have 5: "xplat_instance_register_step V k (put_copy k (d\<lparr>g_fd := Some i, ipc := I_close\<rparr>) S) = put_copy k (d\<lparr>ipc := I_finish\<rparr>) S"
    using i assms(2) by (cases b) (simp add: s close_fd_def d_def Let_def)
  have 6: "xplat_instance_register_step V k (put_copy k (d\<lparr>ipc := I_finish\<rparr>) S) =
      (if g_fatal b then (put_copy k d S)\<lparr>aborted := True\<rparr> else put_copy k d S)"
    by (simp add: s register_finish_def d_def Let_def)
  have "xplat_instance_register V k S = (if g_fatal b then (put_copy k d S)\<lparr>aborted := True\<rparr> else put_copy k d S)"
    unfolding xplat_instance_register_def funpow_small 1 2 3 4 5 6 using assms(3) by simp
  moreover have "told (copies S c) d" "g_registered d" using f(3) by (simp_all add: told_def d_def)
  ultimately show ?thesis unfolding register_begin_fatal [OF assms(3), of V, folded b_def] by blast
qed

text \<open>C20: a second copy of the library in a process stays inert: if another copy has announced itself when it is loaded and the file
  can be opened, \<open>platform_init\<close> ends the process when the policy says so; otherwise it flags the duplicate and starts
  nothing: no signal handlers, no memory pool, no callbacks, no threads, no monitor.\<close>

theorem second_copy_inert:
  assumes "announced c (pf_process F)" "k \<noteq> c" "\<not> g_registered (copies (pf_process F) k)" "ipc (copies (pf_process F) k) = I_idle"
    "self_marker (copies (pf_process F) k) \<noteq> self_marker (copies (pf_process F) c)" "opens (pe_instance V)"
    "\<not> platform_initialized F" "\<not> aborted (pf_process F)"
  shows "if g_fatal (instance_read_policy (pe_instance V) (copies (pf_process F) k)) then platform_init V k F = None
    else \<exists>S. platform_init V k F = Some (F\<lparr>pf_process := S, platform_initialized := True\<rparr>) \<and> told (copies (pf_process F) c) (copies S k) \<and>
      (\<forall>j. j \<noteq> k \<longrightarrow> copies S j = copies (pf_process F) j)"
proof -
  obtain d where d: "told (copies (pf_process F) c) d" "g_registered d"
    and r: "xplat_instance_register (pe_instance V) k (pf_process F) =
      (if g_fatal (instance_read_policy (pe_instance V) (copies (pf_process F) k)) then (put_copy k d (pf_process F))\<lparr>aborted := True\<rparr>
       else put_copy k d (pf_process F))"
    using register_second [OF assms(1-4,6,5)] by blast
  have g: "g_duplicate d" using d(1) by (simp add: told_def)
  show ?thesis
  proof (cases "g_fatal (instance_read_policy (pe_instance V) (copies (pf_process F) k))")
    case True
    then show ?thesis using r d(2) assms(7)
      by (simp add: platform_init_def xplat_instance_check_def xplat_instance_register_def Let_def)
  next
    case False
    let ?S = "put_copy k d (pf_process F)"
    have e: "xplat_instance_register (pe_instance V) k (pf_process F) = ?S" using r False by simp
    have e': "xplat_instance_register (pe_instance V) k ?S = ?S" using d(2) by (simp add: xplat_instance_register_def)
    have "platform_init V k F = Some (F\<lparr>pf_process := ?S, platform_initialized := True\<rparr>)"
      using assms(7,8) g by (simp add: platform_init_def e xplat_instance_check_def e' Let_def)
    then show ?thesis using False d(1) by (auto intro!: exI [of _ ?S])
  qed
qed

section \<open>Bringing the library up\<close>

lemma created_pool:
  assumes "mem_ok V" "cores_of V 0 * 7 < 2 ^ 31" "pool_create V None = Some g"
  shows "case g of None \<Rightarrow> \<not> (pool_mem V \<and> resources V 0) | Some P \<Rightarrow> resources V 0 \<and> fresh_pool P"
  using pool_create_outcome [OF assms(1,2)] assms(3)
  by (auto simp: pool_create_def outcome_def resources_def split: option.splits create_result.splits)

lemma watch_started:
  assumes "g_running W = 0" "mem_leak_watch_start phys path created None W = (ok, W')"
  shows "g_running W' = (if created then 1 else 0)" "leak_watch_enabled (sites (g_pool W')) = created"
    "init_state (g_pool W') = init_state (g_pool W)"
proof -
  have e: "enabled (merge_config None (the (mem_leak_watch_default_config phys path (Some config_blank))))"
    by (simp add: merge_config_def mem_leak_watch_default_config_def Let_def)
  show "g_running W' = (if created then 1 else 0)" "leak_watch_enabled (sites (g_pool W')) = created"
    using watch_start_outcomes [OF disjI1 [OF assms(1)] assms(2)] assms(1) e by (simp_all add: Let_def)
  show "init_state (g_pool W') = init_state (g_pool W)"
    using assms e by (auto simp: mem_leak_watch_start_def atomic_cas_inline_def memop_enable_leak_watch_def Let_def split: if_splits)
qed

text \<open>C19: \<open>platform_init\<close> that returns has brought the library up exactly once: a copy that is not a duplicate has a memory
  pool that is ready, its callbacks in the thread list, the crash handlers installed, a task pool that is valid, empty
  and complete exactly if nothing it needs was missing, and a running leak monitor exactly if its thread started;
  a duplicate changed nothing but its registration; calling it again does nothing.\<close>

theorem platform_init_outcomes:
  assumes "mem_ok (pe_pool V)" "cores_of (pe_pool V) 0 * 7 < 2 ^ 31" "\<not> platform_initialized F" "pf_global F = None"
    "g_running (pf_watch F) = 0" "platform_init V k F = Some F'"
  shows "platform_initialized F' \<and> platform_init V' k' F' = Some F' \<and>
    (if g_duplicate (copies (pf_process F') k) then F' = F\<lparr>pf_process := pf_process F', platform_initialized := True\<rparr>
     else init_state (g_pool (pf_watch F')) = MEMOP_READY \<and>
       OnCreatedThread (pf_registry F') = cb_created V \<and> OnEndedThread (pf_registry F') = cb_ended V \<and>
       ThreadHandlerInited (pf_registry F') \<and> {6, 11} \<subseteq> pf_signals F' \<and>
       (case pf_global F' of None \<Rightarrow> \<not> (pool_mem (pe_pool V) \<and> resources (pe_pool V) 0) | Some P \<Rightarrow> resources (pe_pool V) 0 \<and> fresh_pool P) \<and>
       g_running (pf_watch F') = (if pe_watch_thread V then 1 else 0) \<and>
       leak_watch_enabled (sites (g_pool (pf_watch F'))) = pe_watch_thread V)"
proof -
  define S where "S = xplat_instance_register (pe_instance V) k (xplat_instance_register (pe_instance V) k (pf_process F))"
  define g where "g = memop_init (g_pool (pf_watch F))"
  define R where "R = thread_init (cb_created V) (cb_ended V) (pf_registry F)"
  define W0 where "W0 = (pf_watch F)\<lparr>g_pool := g\<rparr>"
  obtain ok W where W: "mem_leak_watch_start (pe_phys V) (pe_path V) (pe_watch_thread V) None W0 = (ok, W)" by force
  have i: "platform_initialized F'" using assms(3,6)
    by (auto simp: platform_init_def Let_def split: if_splits option.splits prod.splits)
  have again: "platform_init V' k' F' = Some F'" using i by (simp add: platform_init_def)
  have ab: "\<not> aborted S" using assms(3,6) by (auto simp: platform_init_def xplat_instance_check_def S_def Let_def split: if_splits)
  show ?thesis
  proof (cases "g_duplicate (copies S k)")
    case True
    then have "F' = F\<lparr>pf_process := S, platform_initialized := True\<rparr>"
      using assms(3,6) ab by (simp add: platform_init_def xplat_instance_check_def S_def Let_def)
    then show ?thesis using i again True by simp
  next
    case False
    obtain gp where gp: "pool_create (pe_pool V) None = Some gp"
        "F' = F\<lparr>pf_process := S, pf_signals := pf_signals F \<union> {11, 6}, pf_watch := W, pf_registry := R, pf_global := gp, platform_initialized := True\<rparr>"
      using assms(3,4,6) ab False W test_utf8_holds
      by (auto simp: platform_init_def xplat_instance_check_def S_def [symmetric] xpb_event_init_def g_def [symmetric] R_def [symmetric]
          W0_def [symmetric] Let_def split: option.splits)
    have p: "case gp of None \<Rightarrow> \<not> (pool_mem (pe_pool V) \<and> resources (pe_pool V) 0) | Some P \<Rightarrow> resources (pe_pool V) 0 \<and> fresh_pool P"
      by (rule created_pool [OF assms(1,2) gp(1)])
    have r: "g_running W0 = 0" using assms(5) by (simp add: W0_def)
    have w: "g_running W = (if pe_watch_thread V then 1 else 0)" "leak_watch_enabled (sites (g_pool W)) = pe_watch_thread V"
      "init_state (g_pool W) = MEMOP_READY"
      using watch_started [OF r W] by (simp_all add: W0_def g_def memop_init_def)
    have t: "OnCreatedThread R = cb_created V" "OnEndedThread R = cb_ended V" "ThreadHandlerInited R"
      by (simp_all add: R_def thread_init_def thread_handler_init_once_def)
    show ?thesis using i again False gp(2) p w t by simp
  qed
qed

section \<open>Examples\<close>

definition platform_env_full :: platform_env where
  "platform_env_full = \<lparr>pe_instance = good_env, pe_pool = full_env, pe_phys = None, pe_path = ''mem_leak_watch.log'', pe_watch_thread = True,
     cb_created = 4096, cb_ended = 8192\<rparr>"

definition platform_zero :: "process \<Rightarrow> platform" where
  "platform_zero S = \<lparr>platform_initialized = False, pf_process = S, pf_signals = {}, pf_registry = registry_zero, pf_global = None,
     pf_watch = idle_watch\<rparr>"

theorem second_copy_inert_witness:
  "\<exists>S. platform_init platform_env_full 1 (platform_zero one_copy) = Some ((platform_zero one_copy)\<lparr>pf_process := S, platform_initialized := True\<rparr>) \<and>
    g_duplicate (copies S 1)"
proof -
  have c: "announced 0 (pf_process (platform_zero one_copy))" "\<not> g_registered (copies (pf_process (platform_zero one_copy)) 1)"
    "self_marker (copies (pf_process (platform_zero one_copy)) 1) \<noteq> self_marker (copies (pf_process (platform_zero one_copy)) 0)"
    using one_copy_value by (simp_all add: platform_zero_def)
  have i: "ipc (copies (pf_process (platform_zero one_copy)) 1) = I_idle" "\<not> aborted (pf_process (platform_zero one_copy))"
    "\<not> g_fatal (instance_read_policy (pe_instance platform_env_full) (copies (pf_process (platform_zero one_copy)) 1))"
    by (simp_all add: platform_zero_def platform_env_full_def one_copy_def schedule_def inst_run_defs)
  have e: "opens (pe_instance platform_env_full)" "\<not> platform_initialized (platform_zero one_copy)"
    by (simp_all add: platform_env_full_def good_env_def platform_zero_def)
  show ?thesis using second_copy_inert [OF c(1) _ c(2) i(1) c(3) e i(2)] i(3) by (auto simp: told_def)
qed

theorem platform_init_outcomes_witness:
  "\<exists>F P. platform_init platform_env_full 0 (platform_zero process_zero) = Some F \<and> pf_global F = Some P \<and> fresh_pool P \<and>
    g_running (pf_watch F) = 1"
proof -
  let ?V = platform_env_full and ?F = "platform_zero process_zero"
  have m: "mem_ok (pe_pool ?V)" "cores_of (pe_pool ?V) 0 * 7 < 2 ^ 31" "resources (pe_pool ?V) 0" "pool_mem (pe_pool ?V)" "ctrs_mem (pe_pool ?V)"
    by (simp_all add: platform_env_full_def full_env_def mem_ok_def cores_of_def resources_def)
  have f: "\<not> platform_initialized ?F" "pf_global ?F = None" "g_running (pf_watch ?F) = 0" by (simp_all add: platform_zero_def idle_watch_def)
  have x: "\<not> aborted one_copy" "\<not> g_duplicate (copies one_copy 0)" "g_registered (copies one_copy 0)"
    by (simp_all add: one_copy_def schedule_def inst_run_defs)
  have r: "xplat_instance_register (pe_instance ?V) 0 process_zero = one_copy"
    by (simp add: xplat_instance_register_def platform_env_full_def one_copy_def schedule_def funpow_small process_zero_def copy_zero_def)
  have r2: "xplat_instance_register (pe_instance ?V) 0 one_copy = one_copy" using x(3) by (simp add: xplat_instance_register_def)
  obtain g where "pool_create (pe_pool ?V) None = Some g"
    using pool_create_outcome [OF m(1,2)] m(5) by (auto simp: pool_create_def outcome_def split: option.splits)
  then have "\<exists>F. platform_init ?V 0 ?F = Some F"
    using x r r2 test_utf8_holds
    by (auto simp: platform_init_def xplat_instance_check_def platform_zero_def xpb_event_init_def Let_def split: prod.split)
  then obtain F where F: "platform_init ?V 0 ?F = Some F" by blast
  have "pf_process F = one_copy" using F x r r2 test_utf8_holds
    by (auto simp: platform_init_def xplat_instance_check_def platform_zero_def xpb_event_init_def Let_def split: prod.splits option.splits)
  then show ?thesis
    using platform_init_outcomes [OF m(1,2) f F, of ?V 0] F x(2) m(3,4) by (auto simp: platform_env_full_def split: option.splits)
qed

end
