(* ===== verification/Spec2Isabelle.thy ===== *)
theory Spec2Isabelle
  imports Ring_Queue Pool_Services String_Programs String_Splits Thread_Wait Thread_Activity Leak_Text Pool_Races Pool_Wakeups Pool_Creation Numeric Instance_Win Platform
begin

text \<open>
  Verification of xplatbase, a C library with a memory pool, growing lists and strings, bounded
  rings, a work-stealing thread pool, a list of the threads alive, a leak monitor and a check that
  a process holds one copy of the library only (sources under \<open>src/Xplatbase/Xplatbase/src\<close>).

  How the parts fit together.  \<open>platform_init\<close> (\<open>xplatbase.c\<close>) registers the copy of the library,
  makes the memory pool ready, gives the pool's callbacks to the thread list, creates the global
  task pool and starts the leak monitor.  Lists, strings and printed numbers live in blocks of the
  memory pool; the leak monitor takes a census of the pool's spans and of the threads; the task
  pool stands on its own rings and deques, on atomics and on futex words.

  Conventions (theory \<open>Prelude\<close>).  An address is a natural number and 0 is NULL.  An \<open>int\<close> or
  \<open>long long\<close> is an \<open>int\<close> of the logic, reduced by \<open>i32\<close> or \<open>i64\<close> where the code stores it; the
  32-bit positions of rings and cursors are \<open>32 word\<close>.  A call that never returns, that
  goes through NULL or whose behaviour is undefined is \<open>None\<close>; a failure the code reports is the value it
  reports.  Lists, strings and buffer copies report errors without a context: with the default handler the
  report itself crashes and the call is \<open>None\<close>; with a handler of the application (taken to return and to
  leave the library alone) the call goes on, and the event is counted.  Everything the
  code obtains from the system (memory, threads, files, the clock, the formatting of the C
  library) is an argument.

  \<^bold>\<open>Memory pool\<close> (\<open>memory_pool.c\<close>, \<open>memory_pool.h\<close>).
  \<open>Size_Class\<close>: the table of block sizes and its inverse.  \<open>Chunk_Cache\<close>: segments and 64 KB
  chunks, the global cache, the purge with its two water marks, and the logged calls to the system.
  \<open>Site_Table\<close>: the hash table of creation sites.  \<open>Memory_Pool\<close>: heaps per thread, spans,
  allocation, free from the owner and from other threads, reallocation, threads that start and
  end, shutdown, statistics.  Spans are headers in a map from chunk addresses to records, free
  lists are lists of addresses together with the bytes the code writes through them.
  \<open>Pool_Invariant\<close>, \<open>Pool_Correct\<close>, \<open>Pool_Properties\<close>: the invariant (each block is in exactly one
  place), and what each operation does to the set of live blocks.  \<open>Pool_Theorems\<close>: the same for a
  client, as reachable states of a client that calls the public operations in any order.
  \<open>Pool_Services\<close>: buffer copies, the census of spans, sizes of large requests.
  \<open>Pool_Addresses\<close>: held blocks lie below \<open>2^47\<close>, so that they can be stored as pointers.
  \<open>Pool_Events\<close>: the allocation raises no error event, its callers do, and what a report does.  The operations
  are atomic; the interleavings inside the lock-free hand-over of blocks between threads are not
  modelled.

  \<^bold>\<open>Lists, strings, numbers\<close> (\<open>list_hander.c\<close>, \<open>string_handler.c\<close>, \<open>numeric.c\<close>).
  \<open>Buffers\<close>: bytes of held blocks, and the locale of a program that holds blocks.
  \<open>List_Handler\<close>, \<open>String_Handler\<close>, \<open>String_Buffer\<close>, \<open>String_Search\<close>, \<open>String_Pieces\<close>, \<open>String_Splits\<close>,
  \<open>Numeric\<close>: each operation, and that it acts on the text or sequence held as the list operation it
  names, on every branch.  \<open>String_Programs\<close>: a static check of programs over strings, and that
  checked programs go wrong in one way only, the report of a refused request under the default handler.  The
  operations on doubles are an argument.

  \<^bold>\<open>Atomics and waiting\<close> (\<open>atomics.h\<close>, \<open>thread_wait.h\<close>, \<open>thread_wait.c\<close>).
  \<open>Atomics\<close>: the operations on one cell in both branches of the header, which agree.
  \<open>Thread_Wait\<close>: the sleep and wake protocol, every load, store and system call a step; no wake is lost
  on Linux, one may be on Windows.  The models of the pool and of the leak monitor look at the word in
  one step; a time-out that meets a wake counts as the wake there, which differs only in how long
  the next sleep lasts.

  \<^bold>\<open>Rings\<close> (\<open>ring_queue.c\<close>; \<open>pool_ring_*\<close> of \<open>thread_pool.c\<close>).
  \<open>Bounded_Queue\<close> is the contract of a bounded queue; \<open>Ring_Queue\<close> provides it twice and \<open>Task_Ring\<close>
  once.  Retry loops are partial functions, and the theorems include that they return.

  \<^bold>\<open>Thread pool\<close> (\<open>thread_pool.c\<close>, \<open>thread_wait.h\<close>).
  \<open>Work_Deque\<close>: the deque with whole operations; \<open>Deque_Steps\<close>: every load, store and swap a step,
  refined to an atomic deque.  \<open>Thread_Pool\<close>: state, finding tasks, submitting, waking.
  \<open>Pool_Control\<close>: creation, destruction, monitor, settings.  \<open>Worker_Steps\<close>: workers, task bodies,
  submitters and waiters as state machines that interleave, in steps of whole operations on the
  queues.  \<open>Pool_Tasks\<close>, \<open>Pool_Accounting\<close>: where tasks are and how they are counted, along every
  run.  \<open>Pool_Races\<close>, \<open>Pool_Wakeups\<close>, \<open>Pool_Creation\<close>: runs that go wrong, who is woken, all outcomes
  of a creation.

  \<^bold>\<open>Threads, leak monitor, instances, start-up\<close> (\<open>thread_handler.c\<close>, \<open>mem_leak_watch.c\<close>,
  \<open>xplat_instance.c\<close>, \<open>event_handler.c\<close>, \<open>xplatbase.c\<close>).
  \<open>Thread_Registry\<close>: creation, end, join and enumeration as steps of all threads.  \<open>Leak_Watch\<close>: the
  conservative scan, in the branch that can suspend threads, against the set of words it reads.
  \<open>Leak_Text\<close>: the default path of the log and the call chains of the report.
  \<open>Leak_Monitor\<close>: start, loop and stop as state machines.  \<open>Instance\<close>: registration and release of
  the copies in a process as interleaved system calls; \<open>Instance_Win\<close>: the same for the branch with
  named objects, where a mutex excludes the race of the other.  \<open>Error_Events\<close>: the error handler and the
  handler of crashes; \<open>Platform\<close>: \<open>platform_init\<close>.
  \<open>Thread_Activity\<close> (\<open>thread_activity*\<close>): samples of a thread's times and the judgement of long tasks, in
  both branches; a double is a real number rounded by an argument that keeps the laws of IEEE 754.

  Interfaces.  The locales \<open>cas_cell\<close> (\<open>Atomics\<close>), \<open>bounded_fifo\<close> (\<open>Bounded_Queue\<close>), \<open>task_deque\<close>
  (\<open>Work_Deque\<close>), \<open>pool_user\<close> (\<open>Buffers\<close>) and \<open>exit_walk\<close> (\<open>Pool_Properties\<close>) state what one part relies
  on in another; each is interpreted on the model's own definitions.

  Bounds and fuel.  No operation has fuel: loops that end are functions with a measure, and loops
  that may not end are partial functions.  Hypotheses on sizes are those the code needs: requests
  below \<open>2^64\<close> less the rounding, ring capacities of a power of two below \<open>2^31\<close>, at most \<open>2^31\<close>
  threads in a pool.  \<open>monitor_on\<close> is iterated three times because three steps are enough.

  Not modelled.  Memory orders: atomic accesses are sequentially consistent, so what weaker
  hardware may add is outside.  In runs of the thread pool, interleavings inside a search for work
  (\<open>pool_try_get\<close>), an operation on a shard, \<open>submit_reentrant\<close> or a pass of the monitor: each is one step, which
  \<open>Deque_Steps\<close> justifies for the deques only.  The wait of \<open>memop_init\<close> for another thread inside it, and its call
  of \<open>xplat_instance_register\<close>, which \<open>platform_init\<close> makes first.  The addresses in a captured call
  chain (their count is kept).  The texts of error messages.  The branches for Windows, except atomics, waiting, thread
  activity, instances, and the scan and texts of the leak monitor, which exist only there.  The superseded
  pools under \<open>versions\<close>, which no build file compiles, tests and benchmarks, and wrappers that only
  forward to the system (mutexes, aligned allocation, yielding).
\<close>

end
